(* ===== verification/KPrelude.thy ===== *)
theory KPrelude
  imports Main "HOL-Library.Word"
begin

text \<open>
  Shared vocabulary of the development: the machine integers of the kernel
  (\<open>uint8_t\<close>, \<open>uint16_t\<close>, \<open>uint32_t\<close>, \<open>uint64_t\<close>) as words of their width, the kernel
  panic as the error side of a sum, C's counting loop over \<open>uint32_t\<close>, GCC's
  \<open>__builtin_ctz\<close>, and the generic facts about masks, alignment and loops that the
  component theories use.
\<close>

unbundle bit_operations_syntax

section \<open>Types\<close>

type_synonym u8 = "8 word"
type_synonym u16 = "16 word"
type_synonym u32 = "32 word"
type_synonym u64 = "64 word"

text \<open>
  Every way the modelled code leaves normal control flow: the calls of
  \<open>panic\<close> (\<open>src/src/kernel/panic.c\<close>, declared \<open>noreturn\<close>), one constructor per message, and the
  page fault, which \<open>exception_handler\<close> turns into a panic of its own.
\<close>

datatype panic =
    DoubleFree
  | PagingNotEnabled
  | AlreadyMapped
  | OutOfRAM
  | PDENotPresent
  | PTENotPresent
  | UseAfterFree
  | PageFault u32
  | NoDriver
  | AtaAbort
  | InvalidFragmentation
  | KmallocZero
  | ExactFitFailed
  | ExpansionFailed
  | AtaTestFailed
  | InvalidMagic
  | InvalidMemoryMap

section \<open>Collections of facts\<close>

named_theorems unat_simps "unsigned values of the model's word expressions"
named_theorems k_inv "preservation of the component invariants"

section \<open>Sequencing of fallible operations\<close>

definition andthen :: "'e + 'a \<Rightarrow> ('a \<Rightarrow> 'e + 'b) \<Rightarrow> 'e + 'b" where
  "andthen r f = (case r of Inl e \<Rightarrow> Inl e | Inr a \<Rightarrow> f a)"

lemma andthen_simps [simp]:
  "andthen (Inl e) f = Inl e"
  "andthen (Inr a) f = f a"
  by (simp_all add: andthen_def)

lemma andthen_Inr_iff:
  "andthen r f = Inr b \<longleftrightarrow> (\<exists>a. r = Inr a \<and> f a = Inr b)"
  by (cases r) auto

section \<open>Bits and masks\<close>

lemma and_exp_zero_iff [simp]:
  "w AND 2 ^ n = 0 \<longleftrightarrow> \<not> bit w n" for w :: "'a::len word"
  by (rule and_exp_eq_0_iff_not_bit)

lemma mask_split: "(x AND NOT (mask n)) + take_bit n x = x" for x :: "'a::len word"
proof -
  have "(x AND NOT (mask n)) + take_bit n x = (x AND NOT (mask n)) OR take_bit n x"
    by (rule disjunctive_add) (auto simp add: bit_simps)
  also have "\<dots> = x"
    by (rule bit_word_eqI) (auto simp add: bit_simps)
  finally show ?thesis .
qed

lemma unat_take_bit_word [unat_simps]:
  "unat (take_bit n x) = unat x mod 2 ^ n" for x :: "'a::len word"
proof -
  have "unat (take_bit n x) = take_bit n (unat x)"
    by (rule unsigned_take_bit_eq)
  then show ?thesis by (simp only: take_bit_eq_mod)
qed

lemma unat_and_not_mask [unat_simps]:
  "unat (x AND NOT (mask n)) = unat x div 2 ^ n * 2 ^ n" for x :: "'a::len word"
proof -
  have "x AND NOT (mask n) = x - take_bit n x"
    using mask_split [of x n] by (simp add: eq_diff_eq)
  moreover have "take_bit n x \<le> x"
    by (simp add: word_le_nat_alt unat_take_bit_word)
  ultimately show ?thesis
    by (simp add: unat_sub unat_take_bit_word minus_mod_eq_div_mult)
qed

lemma numeral_mask_12: "0xFFF = (mask 12 :: 'a::len word)"
  by (simp add: mask_eq_decr_exp)

lemma numeral_mask_4: "0xF = (mask 4 :: 'a::len word)"
  by (simp add: mask_eq_decr_exp)

section \<open>Loops\<close>

lemma unat_succ [unat_simps]: "i < e \<Longrightarrow> unat (i + 1) = Suc (unat i)" for i e :: "'a::len word"
proof -
  assume "i < e"
  moreover have "unat e < 2 ^ LENGTH('a)" by (rule unsigned_less)
  ultimately have "unat i + unat (1 :: 'a word) < 2 ^ LENGTH('a)"
    unfolding word_less_nat_alt unat_1 by linarith
  then have "unat (i + 1) = unat i + unat (1 :: 'a word)"
    by (rule unat_add_lem [THEN iffD1])
  then show ?thesis by simp
qed

lemma word_succ_le: "i < e \<Longrightarrow> i + 1 \<le> e" for i e :: "'a::len word"
  by (simp add: word_le_nat_alt word_less_nat_alt unat_succ)

lemma word_succ_le_iff: "i < e \<Longrightarrow> i + 1 \<le> j \<longleftrightarrow> i < j" for i e j :: "'a::len word"
  using unat_succ [of i e] by (simp add: word_le_nat_alt word_less_nat_alt Suc_le_eq)

text \<open>\<open>for (uint32_t i = st; i < e; i++) body(i)\<close>.\<close>

function for_u32 :: "u32 \<Rightarrow> u32 \<Rightarrow> (u32 \<Rightarrow> 's \<Rightarrow> 's) \<Rightarrow> 's \<Rightarrow> 's" where
  "for_u32 i e body s = (if i < e then for_u32 (i + 1) e body (body i s) else s)"
  by pat_completeness auto
termination
proof (relation "measure (\<lambda>(i, e, body, s). unat e - unat i)", goal_cases)
  case (2 i e body s)
  then show ?case by (simp add: unat_succ word_less_nat_alt)
qed simp

declare for_u32.simps [simp del]

lemma for_u32_invariant:
  assumes "P i s" "i \<le> e"
    and step: "\<And>j t. i \<le> j \<Longrightarrow> j < e \<Longrightarrow> P j t \<Longrightarrow> P (j + 1) (body j t)"
  shows "P e (for_u32 i e body s)"
  using assms
proof (induction i e body s rule: for_u32.induct)
  case (1 i e body s)
  show ?case
  proof (cases "i < e")
    case True
    have "P e (for_u32 (i + 1) e body (body i s))"
    proof (rule "1.IH" [OF True])
      show "P (i + 1) (body i s)" using "1.prems" True by blast
      show "i + 1 \<le> e" using True by (rule word_succ_le)
      show "P (j + 1) (body j t)" if "i + 1 \<le> j" "j < e" "P j t" for j t
        using that "1.prems"(3) by (simp add: word_succ_le_iff [OF True])
    qed
    with True show ?thesis by (subst for_u32.simps) simp
  next
    case False
    with "1.prems" have "i = e" by simp
    with False "1.prems" show ?thesis by (subst for_u32.simps) simp
  qed
qed

lemma for_u32_empty: "e \<le> i \<Longrightarrow> for_u32 i e body s = s"
  by (subst for_u32.simps) (simp add: leD)

text \<open>\<open>__builtin_ctz\<close>: the number of trailing zero bits (undefined in C, and never called, at 0).\<close>

definition builtin_ctz :: "u32 \<Rightarrow> nat" where
  "builtin_ctz w = length (takeWhile (\<lambda>n. \<not> bit w n) [0..<32])"

lemma word_neq_0_bit: "w \<noteq> 0 \<Longrightarrow> \<exists>n<32. bit w n" for w :: u32
proof (rule ccontr)
  assume "w \<noteq> 0" "\<not> (\<exists>n<32. bit w n)"
  then have "w = 0" by (intro bit_word_eqI) auto
  with \<open>w \<noteq> 0\<close> show False by simp
qed

lemma builtin_ctz_eq_find:
  "find (bit w) [0..<32] = (if w = 0 then None else Some (builtin_ctz w))"
proof (cases "w = 0")
  case True
  then show ?thesis by (simp add: find_None_iff)
next
  case False
  let ?xs = "[0..<32]"
  let ?k = "length (takeWhile (\<lambda>n. \<not> bit w n) ?xs)"
  from word_neq_0_bit [OF False] have "dropWhile (\<lambda>n. \<not> bit w n) ?xs \<noteq> []"
    by (auto simp add: dropWhile_eq_Nil_conv)
  then have "takeWhile (\<lambda>n. \<not> bit w n) ?xs \<noteq> ?xs"
    by (metis dropWhile_eq_Nil_conv takeWhile_eq_all_conv)
  then have k: "?k < length ?xs"
    by (metis le_neq_implies_less length_takeWhile_le takeWhile_eq_take take_all_iff order_refl)
  then have "bit w (?xs ! ?k)" using nth_length_takeWhile [of "\<lambda>n. \<not> bit w n" ?xs] by blast
  moreover have "\<forall>j<?k. \<not> bit w (?xs ! j)"
    by (metis nth_mem set_takeWhileD takeWhile_nth)
  ultimately show ?thesis using False k
    by (auto simp add: builtin_ctz_def find_Some_iff intro!: exI [of _ ?k])
qed

lemma find_map: "find P (map f xs) = map_option f (find (P \<circ> f) xs)"
  by (induction xs) auto

lemma find_append: "find P (xs @ ys) = (case find P xs of None \<Rightarrow> find P ys | Some x \<Rightarrow> Some x)"
  by (induction xs) auto

section \<open>Word arithmetic\<close>

lemma word_div_mod_eqI: "i div 32 = b div 32 \<Longrightarrow> unat (i mod 32) = unat (b mod 32) \<Longrightarrow> i = b" for i b :: u32
  by (metis div_mult_mod_eq word_unat_eq_iff)

lemma unat_mod_32_less [simp]: "unat (b mod 32) < 32" for b :: u32
  by (simp add: unat_mod)

lemma frame_addr:
  assumes "unat f < 0x100000"
  shows "unat (f * 4096 :: u32) = unat f * 4096" "f * 4096 div 4096 = (f :: u32)"
proof -
  show u: "unat (f * 4096) = unat f * 4096" using assms by (simp add: unat_word_ariths)
  then show "f * 4096 div 4096 = f" by (simp add: word_unat_eq_iff unat_div)
qed

lemma succ_interval:
  "i \<le> j \<Longrightarrow> j < e \<Longrightarrow> {f. i \<le> f \<and> f < j + 1} = insert j {f. i \<le> f \<and> f < j}" for i j e :: u32
  using unat_succ [of j e]
  by (auto simp add: word_less_nat_alt word_le_nat_alt less_Suc_eq word_unat_eq_iff)

lemma unat_ucast_32 [unat_simps]: "unat (ucast (x :: u64) :: u32) = unat x mod 2 ^ 32"
proof -
  have "unat (ucast x :: u32) = take_bit LENGTH(32) (unat x)"
    by (rule unsigned_ucast_eq)
  then show ?thesis by (simp add: take_bit_eq_mod)
qed

lemma mod_shift_surj:
  fixes n st c :: nat
  assumes "c < n"
  shows "\<exists>j<n. (st + j) mod n = c"
proof (intro exI conjI)
  let ?j = "(c + (n - st mod n)) mod n"
  show "?j < n" using assms by simp
  have "st mod n \<le> n" using assms by (simp add: less_imp_le)
  moreover have "st = n * (st div n) + st mod n" by simp
  ultimately have "st + (c + (n - st mod n)) = c + n * Suc (st div n)"
    unfolding mult_Suc_right by linarith
  then have "(st + (c + (n - st mod n))) mod n = c"
    using assms by (metis mod_less mod_mult_self2)
  then show "(st + ?j) mod n = c" by (simp add: mod_simps)
qed

lemma card_below: "card {i :: u32. i < n} = unat n"
proof -
  have "unat ` {i :: u32. i < n} = {..<unat n}"
  proof (intro set_eqI iffI)
    fix x assume "x \<in> {..<unat n}"
    then have "x < unat n" by simp
    moreover have "unat n < 2 ^ 32" using unsigned_less [of n] by simp
    ultimately have "unat (of_nat x :: u32) = x" by (simp add: unat_of_nat)
    with \<open>x < unat n\<close> show "x \<in> unat ` {i :: u32. i < n}"
      by (intro image_eqI [of _ _ "of_nat x"]) (simp_all add: word_less_nat_alt)
  qed (auto simp add: word_less_nat_alt)
  moreover have "inj_on unat {i :: u32. i < n}" by (simp add: inj_on_def word_unat_eq_iff)
  ultimately show ?thesis by (metis card_image card_lessThan)
qed

lemma card_interval: "card {i :: u32. a \<le> i \<and> i < b} = unat b - unat a"
proof (cases "a \<le> b")
  case True
  have "{i. i < b} = {i. i < a} \<union> {i. a \<le> i \<and> i < b}" using True by auto
  moreover have "{i. i < a} \<inter> {i. a \<le> i \<and> i < b} = {}" by auto
  ultimately have "card {i. i < b} = card {i. i < a} + card {i. a \<le> i \<and> i < b}"
    by (simp add: card_Un_disjoint)
  then show ?thesis by (simp add: card_below)
next
  case False
  then have "{i. a \<le> i \<and> i < b} = {}" by auto
  moreover have "unat b \<le> unat a" using False by (simp add: word_le_nat_alt)
  ultimately show ?thesis by simp
qed

lemma bit_all_ones: "m < 32 \<Longrightarrow> bit (0xFFFFFFFF :: u32) m"
proof -
  assume "m < 32"
  have "(0xFFFFFFFF :: u32) = NOT 0" by simp
  also have "bit (NOT 0 :: u32) m" using \<open>m < 32\<close> by (simp only: bit_not_iff) simp
  finally show ?thesis .
qed

section \<open>Infinite runs\<close>

text \<open>Something happens again and again.\<close>

definition often :: "(nat \<Rightarrow> bool) \<Rightarrow> bool" where
  "often P \<longleftrightarrow> (\<forall>i. \<exists>j \<ge> i. P j)"

text \<open>A rank that never rises, and falls again and again until the goal is reached, leads to the goal.\<close>

lemma ranked_until:
  fixes V :: "nat \<Rightarrow> nat \<Rightarrow> bool"
  assumes "\<And>j n. i \<le> j \<Longrightarrow> V n j \<Longrightarrow> G (Suc j) \<or> (\<exists>n' \<le> n. V n' (Suc j) \<and> (T j \<longrightarrow> n' < n))" "i \<le> j" "V n j"
  shows "(\<exists>k \<ge> j. G k) \<or> (\<exists>n' \<le> n. V n' (j + d))"
proof (induction d)
  case 0
  then show ?case using assms(3) by auto
next
  case (Suc d)
  then show ?case
  proof
    assume "\<exists>n' \<le> n. V n' (j + d)"
    then obtain n' where n': "n' \<le> n" "V n' (j + d)" by blast
    have "i \<le> j + d" using assms(2) by simp
    from assms(1) [OF this n'(2)] show ?case
    proof
      assume "G (Suc (j + d))"
      then show ?case by (metis le_add1 add_Suc_right)
    qed (use n'(1) in \<open>auto intro: le_trans\<close>)
  qed blast
qed

lemma ranked_eventually:
  fixes V :: "nat \<Rightarrow> nat \<Rightarrow> bool"
  assumes step: "\<And>j n. i \<le> j \<Longrightarrow> V n j \<Longrightarrow> G (Suc j) \<or> (\<exists>n' \<le> n. V n' (Suc j) \<and> (T j \<longrightarrow> n' < n))" and T: "often T" and "i \<le> j" "V n j"
  shows "\<exists>k \<ge> j. G k"
  using assms(3,4)
proof (induction n arbitrary: j rule: less_induct)
  case (less n)
  obtain k where k: "j \<le> k" "T k" using T unfolding often_def by blast
  from ranked_until [OF step less.prems, of "k - j"] show ?case
  proof
    assume "\<exists>n' \<le> n. V n' (j + (k - j))"
    then obtain n' where n': "n' \<le> n" "V n' k" using k(1) by auto
    have ik: "i \<le> k" using less.prems(1) k(1) by simp
    from step [OF ik n'(2)] show ?case
    proof
      assume "\<exists>n'' \<le> n'. V n'' (Suc k) \<and> (T k \<longrightarrow> n'' < n')"
      then obtain n'' where "n'' < n" "V n'' (Suc k)" using n'(1) k(2) less_le_trans by blast
      from less.IH [OF this(1) _ this(2)] show ?case using ik k(1) by (meson le_SucI le_trans)
    qed (use k(1) in \<open>auto intro: le_SucI\<close>)
  qed blast
qed

end
