(* ===== verification/Io.thy ===== *)
theory Io
  imports KPrelude
begin

text \<open>
  Port and memory-mapped input and output (\<open>src/src/arch/i386/io.c\<close>, and the register accesses of
  \<open>apic.c\<close>). What the kernel does to the hardware is the trace of its accesses, oldest first. The hardware
  itself is no code of the repository: it is a parameter that answers each read, and may answer
  differently after every access, so the answers are functions of the trace.
\<close>

section \<open>Specification vocabulary\<close>

datatype io_event = Out_b u16 u8 | Out_w u16 u16 | In_b u16 u8 | In_w u16 u16 | Mmio_Write u32 u32 | Mmio_Read u32 u32

type_synonym io_log = "io_event list"

record device =
  port_b :: "io_log \<Rightarrow> u16 \<Rightarrow> u8"
  port_w :: "io_log \<Rightarrow> u16 \<Rightarrow> u16"
  mmio :: "io_log \<Rightarrow> u32 \<Rightarrow> u32"

definition outb :: "u16 \<Rightarrow> u8 \<Rightarrow> io_log \<Rightarrow> io_log" where
  "outb port data tr = tr @ [Out_b port data]"

definition inb :: "device \<Rightarrow> u16 \<Rightarrow> io_log \<Rightarrow> u8 \<times> io_log" where
  "inb dev port tr = (let result = port_b dev tr port in (result, tr @ [In_b port result]))"

definition inw :: "device \<Rightarrow> u16 \<Rightarrow> io_log \<Rightarrow> u16 \<times> io_log" where
  "inw dev port tr = (let result = port_w dev tr port in (result, tr @ [In_w port result]))"

definition outw :: "u16 \<Rightarrow> u16 \<Rightarrow> io_log \<Rightarrow> io_log" where
  "outw port data tr = tr @ [Out_w port data]"

definition apic_write :: "u32 \<Rightarrow> u32 \<Rightarrow> io_log \<Rightarrow> io_log" where
  "apic_write reg val tr = tr @ [Mmio_Write (0xFEE00000 + reg) val]"

definition apic_read :: "device \<Rightarrow> u32 \<Rightarrow> io_log \<Rightarrow> u32 \<times> io_log" where
  "apic_read dev reg tr = (let result = mmio dev tr (0xFEE00000 + reg) in (result, tr @ [Mmio_Read (0xFEE00000 + reg) result]))"

abbreviation APIC_REGISTER_EOI :: u32 where "APIC_REGISTER_EOI \<equiv> 0x0B0"

end
