(* ===== verification/Scheduler.thy ===== *)
theory Scheduler
  imports Io
begin

text \<open>
  The multi-level feedback queue scheduler (\<open>src/src/kernel/scheduler.c\<close>), the thread control block
  (\<open>src/include/kernel/thread.h\<close>), the accessors of \<open>thread.c\<close> it calls, the context switch
  (\<open>src/src/arch/i386/task_asm.s\<close>) and the timer interrupt (\<open>apic_timer_handler\<close> of \<open>apic.c\<close>).

  The state has one component per static variable of the C files. Thread control blocks are a store indexed
  by their addresses, so that the \<open>next\<close> pointers of the queues alias as they do in C; thread stacks are words
  of \<open>mem\<close>. The processor has the registers a switch saves. \<open>switch_to_task\<close> pushes flags and registers on the
  outgoing stack, stores the stack pointer in the outgoing control block and pops the same words from the
  incoming one, so that the code that runs after it is the incoming thread's. Every suspended thread goes on with
  \<open>unlock_scheduler\<close>: it was suspended in a \<open>yield\<close> that is followed by that call, or it is new and calls it
  first. The loops over linked lists end only when the lists are well formed; they are partial functions, and
  that they return is proved from the invariant.
\<close>

section \<open>Specification vocabulary\<close>

datatype thread_state = THREAD_READY | THREAD_RUNNING | THREAD_SLEEPING | THREAD_BLOCKED | THREAD_TERMINATED

record thread_control_block =
  esp :: u32
  esp0 :: u32
  tcb_cr3 :: u32
  next_thread :: u32
  state :: thread_state
  stack_base :: u32
  time_used :: u32
  wake_time :: u64
  thread_id :: u32
  saved_interrupt_state :: u32
  priority :: u8
  remaining_time :: u8

record cpu_state =
  r_esp :: u32
  r_ebp :: u32
  r_ebx :: u32
  r_esi :: u32
  r_edi :: u32
  eflags :: u32
  r_eip :: u32

record sched_state =
  tcbs :: "u32 \<Rightarrow> thread_control_block"
  mem :: "u32 \<Rightarrow> u32"
  cpu :: cpu_state
  first_ready_to_run_thread_list :: "nat \<Rightarrow> u32"
  last_ready_to_run_thread_list :: "nat \<Rightarrow> u32"
  sleeping_thread_queue :: u32
  terminated_thread_queue :: u32
  IRQ_disable_counter :: u8
  counter :: u8
  postponed_yield_flag :: u8
  postpone_switches_counter :: u8
  current_thread :: u32
  idle_thread :: u32
  last_id :: u32
  system_ticks :: u64
  io_trace :: io_log

abbreviation FIRST_LIMIT :: u8 where "FIRST_LIMIT \<equiv> 10"
abbreviation SECOND_LIMIT :: u8 where "SECOND_LIMIT \<equiv> 20"
abbreviation THIRD_LIMIT :: u8 where "THIRD_LIMIT \<equiv> 30"

definition NULL :: u32 where "NULL = 0"

definition upd_tcb :: "u32 \<Rightarrow> (thread_control_block \<Rightarrow> thread_control_block) \<Rightarrow> sched_state \<Rightarrow> sched_state" where
  "upd_tcb t f s = s\<lparr>tcbs := (tcbs s)(t := f (tcbs s t))\<rparr>"

definition enqueue_thread :: "u32 \<Rightarrow> u8 \<Rightarrow> sched_state \<Rightarrow> sched_state" where
  "enqueue_thread thread thread_priority s =
     (let q = unat thread_priority;
          s1 = upd_tcb thread (\<lambda>c. c\<lparr>next_thread := NULL\<rparr>) s;
          s2 = upd_tcb thread (\<lambda>c. c\<lparr>priority := thread_priority\<rparr>) s1
      in if first_ready_to_run_thread_list s2 q = NULL
         then s2\<lparr>first_ready_to_run_thread_list := (first_ready_to_run_thread_list s2)(q := thread),
                 last_ready_to_run_thread_list := (last_ready_to_run_thread_list s2)(q := thread)\<rparr>
         else let s3 = upd_tcb (last_ready_to_run_thread_list s2 q) (\<lambda>c. c\<lparr>next_thread := thread\<rparr>) s2
              in s3\<lparr>last_ready_to_run_thread_list := (last_ready_to_run_thread_list s3)(q := thread)\<rparr>)"

function dequeue_from :: "nat \<Rightarrow> sched_state \<Rightarrow> u32 \<times> sched_state" where
  "dequeue_from i s =
     (if i \<ge> 3 then (NULL, s)
      else if first_ready_to_run_thread_list s i = NULL then dequeue_from (i + 1) s
      else let r = first_ready_to_run_thread_list s i
           in (r, s\<lparr>first_ready_to_run_thread_list :=
                     (first_ready_to_run_thread_list s)(i := next_thread (tcbs s r))\<rparr>))"
  by pat_completeness auto
termination
  by (relation "measure (\<lambda>(i, s). 3 - i)") auto

declare dequeue_from.simps [simp del]

definition dequeue_thread :: "sched_state \<Rightarrow> u32 \<times> sched_state" where
  "dequeue_thread s = dequeue_from 0 s"

partial_function (option) drain_queue :: "nat \<Rightarrow> sched_state \<Rightarrow> sched_state option" where
  "drain_queue i s =
     (if first_ready_to_run_thread_list s i \<noteq> NULL then
        let t = first_ready_to_run_thread_list s i;
            next_in_line = next_thread (tcbs s t);
            s1 = upd_tcb t (\<lambda>c. c\<lparr>remaining_time := FIRST_LIMIT\<rparr>) s;
            s2 = enqueue_thread t 0 s1
        in drain_queue i (s2\<lparr>first_ready_to_run_thread_list := (first_ready_to_run_thread_list s2)(i := next_in_line)\<rparr>)
      else Some (s\<lparr>last_ready_to_run_thread_list := (last_ready_to_run_thread_list s)(i := NULL)\<rparr>))"

definition reset_queues :: "sched_state \<Rightarrow> sched_state option" where
  "reset_queues s =
     Option.bind (drain_queue 1 s) (\<lambda>s1.
     Option.bind (drain_queue 2 s1) (\<lambda>s2. Some (s2\<lparr>counter := 0\<rparr>)))"

definition get_current_thread :: "sched_state \<Rightarrow> u32" where "get_current_thread s = current_thread s"

definition set_current_thread :: "u32 \<Rightarrow> sched_state \<Rightarrow> sched_state" where
  "set_current_thread t s = s\<lparr>current_thread := t\<rparr>"

definition get_idle_thread :: "sched_state \<Rightarrow> u32" where "get_idle_thread s = idle_thread s"

definition apic_get_ticks :: "sched_state \<Rightarrow> u64" where "apic_get_ticks s = system_ticks s"

definition switch_to_task :: "u32 \<Rightarrow> u32 \<Rightarrow> sched_state \<Rightarrow> sched_state" where
  "switch_to_task prev new_esp s =
     (let c = cpu s;
          sp = r_esp c;
          m = (mem s)(sp - 4 := eflags c, sp - 8 := r_ebp c, sp - 12 := r_ebx c, sp - 16 := r_esi c, sp - 20 := r_edi c);
          s1 = upd_tcb prev (\<lambda>b. b\<lparr>esp := sp - 20\<rparr>) s
      in s1\<lparr>mem := m,
            cpu := \<lparr>r_esp = new_esp + 24, r_ebp = m (new_esp + 12), r_ebx = m (new_esp + 8), r_esi = m (new_esp + 4),
                    r_edi = m new_esp, eflags = m (new_esp + 16), r_eip = m (new_esp + 20)\<rparr>\<rparr>)"

definition yield :: "sched_state \<Rightarrow> sched_state" where
  "yield s =
     (if postpone_switches_counter s > 0 then s\<lparr>postponed_yield_flag := 1\<rparr>
      else
        let prev = get_current_thread s;
            s2 = (if state (tcbs s prev) = THREAD_RUNNING then
                    let s1 = upd_tcb prev (\<lambda>c. c\<lparr>state := THREAD_READY\<rparr>) s
                    in if prev \<noteq> get_idle_thread s1 then enqueue_thread prev (priority (tcbs s1 prev)) s1 else s1
                  else s);
            (r, s3) = dequeue_thread s2;
            next_t = (if r = NULL then get_idle_thread s3 else r)
        in if prev = next_t then upd_tcb prev (\<lambda>c. c\<lparr>state := THREAD_RUNNING\<rparr>) s3
           else
             let s4 = upd_tcb next_t (\<lambda>c. c\<lparr>state := THREAD_RUNNING\<rparr>) s3;
                 s5 = set_current_thread next_t s4
             in switch_to_task prev (esp (tcbs s5 next_t)) s5)"

definition EFLAGS_IF :: u32 where "EFLAGS_IF = 0x200"

definition lock_scheduler :: "sched_state \<Rightarrow> sched_state" where
  "lock_scheduler s =
     (let current_eflags = eflags (cpu s);
          s1 = s\<lparr>cpu := (cpu s)\<lparr>eflags := eflags (cpu s) AND NOT EFLAGS_IF\<rparr>\<rparr>;
          s2 = (if IRQ_disable_counter s1 = 0
                then upd_tcb (get_current_thread s1) (\<lambda>c. c\<lparr>saved_interrupt_state := current_eflags\<rparr>) s1 else s1)
      in s2\<lparr>IRQ_disable_counter := IRQ_disable_counter s2 + 1\<rparr>)"

definition unlock_scheduler :: "sched_state \<Rightarrow> sched_state" where
  "unlock_scheduler s =
     (if IRQ_disable_counter s = 0 then s
      else
        let s1 = s\<lparr>IRQ_disable_counter := IRQ_disable_counter s - 1\<rparr>
        in if IRQ_disable_counter s1 = 0
           then s1\<lparr>cpu := (cpu s1)\<lparr>eflags := saved_interrupt_state (tcbs s1 (get_current_thread s1))\<rparr>\<rparr>
           else s1)"

definition lock_atomic :: "sched_state \<Rightarrow> sched_state" where
  "lock_atomic s =
     (let s1 = lock_scheduler s in s1\<lparr>postpone_switches_counter := postpone_switches_counter s1 + 1\<rparr>)"

definition unlock_atomic :: "sched_state \<Rightarrow> sched_state" where
  "unlock_atomic s =
     (let s1 = s\<lparr>postpone_switches_counter := postpone_switches_counter s - 1\<rparr>;
          s2 = (if postpone_switches_counter s1 = 0 \<and> postponed_yield_flag s1 = 1
                then yield (s1\<lparr>postponed_yield_flag := 0\<rparr>) else s1)
      in unlock_scheduler s2)"

partial_function (option) wake_sleepers :: "u32 \<Rightarrow> u32 \<Rightarrow> sched_state \<Rightarrow> sched_state option" where
  "wake_sleepers current_sleep_head prev_sleep_head s =
     (if current_sleep_head \<noteq> NULL then
        let temp_sleep_head = next_thread (tcbs s current_sleep_head)
        in if wake_time (tcbs s current_sleep_head) \<le> apic_get_ticks s then
             let s1 = upd_tcb current_sleep_head (\<lambda>c. c\<lparr>state := THREAD_READY\<rparr>) s;
                 s2 = (if prev_sleep_head = NULL
                       then s1\<lparr>sleeping_thread_queue := next_thread (tcbs s1 (sleeping_thread_queue s1))\<rparr>
                       else upd_tcb prev_sleep_head (\<lambda>c. c\<lparr>next_thread := next_thread (tcbs s1 current_sleep_head)\<rparr>) s1)
             in wake_sleepers temp_sleep_head prev_sleep_head (enqueue_thread current_sleep_head 0 s2)
           else wake_sleepers temp_sleep_head current_sleep_head s
      else Some s)"

definition locked_yield :: "sched_state \<Rightarrow> sched_state" where
  "locked_yield s = unlock_scheduler (yield (lock_scheduler s))"

definition scheduler_on_tick :: "sched_state \<Rightarrow> sched_state option" where
  "scheduler_on_tick s0 =
     Option.bind (wake_sleepers (sleeping_thread_queue s0) NULL s0) (\<lambda>s.
     let c = get_current_thread s in
     if c = get_idle_thread s then
       let s1 = s\<lparr>counter := counter s + 1\<rparr>
       in if counter s1 \<ge> 100 then Option.bind (reset_queues s1) (\<lambda>s2. Some (locked_yield s2)) else Some s1
     else
       let s1 = upd_tcb c (\<lambda>b. b\<lparr>time_used := time_used b + 1\<rparr>) s;
           s2 = upd_tcb c (\<lambda>b. b\<lparr>remaining_time := remaining_time b - 1\<rparr>) s1;
           expired = (sint (remaining_time (tcbs s2 c)) \<le> 0);
           s3 = (if expired then
                   if priority (tcbs s2 c) \<ge> 1
                   then upd_tcb c (\<lambda>b. b\<lparr>remaining_time := THIRD_LIMIT, priority := 2\<rparr>) s2
                   else upd_tcb c (\<lambda>b. b\<lparr>remaining_time := SECOND_LIMIT, priority := priority b + 1\<rparr>) s2
                 else s2);
           s4 = s3\<lparr>counter := counter s3 + 1\<rparr>
       in if counter s4 \<ge> 100 then
            Option.bind (reset_queues s4) (\<lambda>s5.
            let s6 = (if c \<noteq> get_idle_thread s5
                      then upd_tcb c (\<lambda>b. b\<lparr>priority := 0, remaining_time := FIRST_LIMIT\<rparr>) s5 else s5)
            in Some (locked_yield s6))
          else Some (if expired then locked_yield s4 else s4))"

partial_function (option) list_end :: "u32 \<Rightarrow> sched_state \<Rightarrow> u32 option" where
  "list_end head s = (if next_thread (tcbs s head) \<noteq> NULL then list_end (next_thread (tcbs s head)) s else Some head)"

definition thread_sleep :: "u32 \<Rightarrow> sched_state \<Rightarrow> sched_state option" where
  "thread_sleep requested_time s0 =
     (let s = lock_scheduler s0;
          thread = get_current_thread s;
          s1 = upd_tcb thread (\<lambda>c. c\<lparr>next_thread := NULL, wake_time := apic_get_ticks s + ucast requested_time,
                                     state := THREAD_SLEEPING\<rparr>) s;
          s2 = (if sleeping_thread_queue s1 = NULL then Some (s1\<lparr>sleeping_thread_queue := thread\<rparr>)
                else Option.bind (list_end (sleeping_thread_queue s1) s1) (\<lambda>e.
                     Some (upd_tcb e (\<lambda>c. c\<lparr>next_thread := thread\<rparr>) s1)))
      in Option.bind s2 (\<lambda>s3. Some (unlock_scheduler (yield s3))))"

definition thread_exit :: "sched_state \<Rightarrow> sched_state option" where
  "thread_exit s0 =
     (let s = lock_scheduler s0;
          thread = get_current_thread s;
          s1 = upd_tcb thread (\<lambda>c. c\<lparr>next_thread := NULL, state := THREAD_TERMINATED\<rparr>) s;
          s2 = (if terminated_thread_queue s1 = NULL then Some (s1\<lparr>terminated_thread_queue := thread\<rparr>)
                else Option.bind (list_end (terminated_thread_queue s1) s1) (\<lambda>e.
                     Some (upd_tcb e (\<lambda>c. c\<lparr>next_thread := thread\<rparr>) s1)))
      in Option.bind s2 (\<lambda>s3. Some (yield s3)))"

definition get_terminated_thread_queue :: "sched_state \<Rightarrow> u32" where
  "get_terminated_thread_queue s = terminated_thread_queue s"

definition set_terminated_thread_queue :: "u32 \<Rightarrow> sched_state \<Rightarrow> sched_state" where
  "set_terminated_thread_queue new_queue s = s\<lparr>terminated_thread_queue := new_queue\<rparr>"

definition apic_timer_handler :: "sched_state \<Rightarrow> sched_state option" where
  "apic_timer_handler s =
     (let s1 = s\<lparr>system_ticks := system_ticks s + 1\<rparr>;
          s2 = s1\<lparr>io_trace := apic_write APIC_REGISTER_EOI 0 (io_trace s1)\<rparr>
      in scheduler_on_tick s2)"

end
