(* ===== verification/Frame_Pool.thy ===== *)
theory Frame_Pool
  imports KPrelude
begin

text \<open>
  The interface between the paging code and the physical memory manager: a pool of free 4 KB
  frames with an allocation that hands out one of them (address 0 when there is none) and a
  release that panics on a frame that is already free. What a client may conclude from these
  laws alone is proved here once; \<open>Pmm\<close> interprets the locale on the bitmap allocator.
\<close>

locale frame_pool =
  fixes pool_inv :: "'s \<Rightarrow> bool"
    and pool_free :: "'s \<Rightarrow> u32 set"
    and pool_alloc :: "'s \<Rightarrow> u32 \<times> 's"
    and pool_release :: "u32 \<Rightarrow> 's \<Rightarrow> panic + 's"
  assumes free_bound: "pool_inv s \<Longrightarrow> f \<in> pool_free s \<Longrightarrow> unat f < 0x100000"
    and alloc_empty: "pool_inv s \<Longrightarrow> pool_free s = {} \<Longrightarrow> pool_alloc s = (0, s)"
    and alloc_takes: "pool_inv s \<Longrightarrow> pool_free s \<noteq> {} \<Longrightarrow>
      \<exists>f \<in> pool_free s. fst (pool_alloc s) = f * 4096 \<and> pool_free (snd (pool_alloc s)) = pool_free s - {f}
        \<and> pool_inv (snd (pool_alloc s))"
    and release_inv: "pool_inv s \<Longrightarrow> pool_release a s = Inr s' \<Longrightarrow> pool_inv s'"
    and release_free: "pool_inv s \<Longrightarrow> pool_release a s = Inr s' \<Longrightarrow>
      pool_free s \<subseteq> pool_free s' \<and> pool_free s' \<subseteq> insert (a div 4096) (pool_free s)"
    and release_twice: "pool_inv s \<Longrightarrow> a div 4096 \<in> pool_free s \<Longrightarrow> pool_release a s = Inl DoubleFree"
    and release_taken: "pool_inv s \<Longrightarrow> f \<in> pool_free s \<Longrightarrow> pool_alloc s = (f * 4096, t) \<Longrightarrow>
      \<exists>t'. pool_release (f * 4096) t = Inr t' \<and> pool_free t' = pool_free s"
begin

lemma alloc_inv: "pool_inv s \<Longrightarrow> pool_inv (snd (pool_alloc s))"
  using alloc_empty alloc_takes by (cases "pool_free s = {}") auto

lemma alloc_shrinks: "pool_inv s \<Longrightarrow> pool_free (snd (pool_alloc s)) \<subseteq> pool_free s"
  using alloc_empty alloc_takes by (cases "pool_free s = {}") auto

lemma alloc_address:
  assumes "pool_inv s" "fst (pool_alloc s) \<noteq> 0"
  shows "fst (pool_alloc s) div 4096 \<in> pool_free s"
    and "pool_free (snd (pool_alloc s)) = pool_free s - {fst (pool_alloc s) div 4096}"
    and "4096 dvd unat (fst (pool_alloc s))"
proof -
  have "pool_free s \<noteq> {}" using assms alloc_empty by fastforce
  then obtain f where f: "f \<in> pool_free s" "fst (pool_alloc s) = f * 4096"
    "pool_free (snd (pool_alloc s)) = pool_free s - {f}"
    using alloc_takes [OF assms(1)] by blast
  note a = frame_addr [OF free_bound [OF assms(1) f(1)]]
  show "fst (pool_alloc s) div 4096 \<in> pool_free s" using f a by simp
  show "pool_free (snd (pool_alloc s)) = pool_free s - {fst (pool_alloc s) div 4096}" using f a by simp
  show "4096 dvd unat (fst (pool_alloc s))" using f a by simp
qed

lemma alloc_zero_iff:
  assumes "pool_inv s" "0 \<notin> pool_free s"
  shows "fst (pool_alloc s) = 0 \<longleftrightarrow> pool_free s = {}"
proof
  assume "fst (pool_alloc s) = 0"
  show "pool_free s = {}"
  proof (rule ccontr)
    assume "pool_free s \<noteq> {}"
    then obtain f where "f \<in> pool_free s" "fst (pool_alloc s) = f * 4096"
      using alloc_takes [OF assms(1)] by blast
    then have "f = 0"
      using \<open>fst (pool_alloc s) = 0\<close> frame_addr [OF free_bound [OF assms(1)], of f] by simp
    with \<open>f \<in> pool_free s\<close> assms(2) show False by simp
  qed
next
  assume "pool_free s = {}"
  then show "fst (pool_alloc s) = 0" using alloc_empty [OF assms(1)] by simp
qed

lemma alloc_fresh:
  assumes "pool_inv s" "fst (pool_alloc s) \<noteq> 0" "fst (pool_alloc (snd (pool_alloc s))) \<noteq> 0"
  shows "fst (pool_alloc (snd (pool_alloc s))) \<noteq> fst (pool_alloc s)"
proof
  assume eq: "fst (pool_alloc (snd (pool_alloc s))) = fst (pool_alloc s)"
  have "fst (pool_alloc (snd (pool_alloc s))) div 4096 \<in> pool_free (snd (pool_alloc s))"
    by (rule alloc_address(1) [OF alloc_inv [OF assms(1)] assms(3)])
  then show False unfolding eq alloc_address(2) [OF assms(1,2)] by blast
qed

lemma alloc_release:
  assumes "pool_inv s" "fst (pool_alloc s) \<noteq> 0"
  shows "\<exists>t. pool_release (fst (pool_alloc s)) (snd (pool_alloc s)) = Inr t \<and> pool_free t = pool_free s
    \<and> pool_release (fst (pool_alloc s)) t = Inl DoubleFree"
proof -
  have "pool_free s \<noteq> {}" using assms alloc_empty by fastforce
  then obtain f where f: "f \<in> pool_free s" "fst (pool_alloc s) = f * 4096"
    "pool_free (snd (pool_alloc s)) = pool_free s - {f}" "pool_inv (snd (pool_alloc s))"
    using alloc_takes [OF assms(1)] by blast
  then obtain t where t: "pool_release (f * 4096) (snd (pool_alloc s)) = Inr t" "pool_free t = pool_free s"
    using release_taken [OF assms(1) f(1), of "snd (pool_alloc s)"] by (auto simp add: prod_eq_iff)
  moreover have "pool_release (f * 4096) t = Inl DoubleFree"
    using release_twice [of t "f * 4096"] release_inv [OF f(4) t(1)] f(1) t(2)
      frame_addr [OF free_bound [OF assms(1) f(1)]] by simp
  ultimately show ?thesis using f(2) by auto
qed

end

end
