(* ===== verification/Pmm.thy ===== *)
theory Pmm
  imports Frame_Pool
begin

text \<open>
  The physical memory manager, \<open>src/src/kernel/pmm.c\<close>: a bitmap with one bit per 4 KB frame
  (1 = used), a count of the used frames and the position of the last allocation.
  \<open>pmm.array\<close> points at the memory behind the kernel image; it is modelled as the words of that
  memory by index, so an index past the bitmap reads whatever is stored there, as in C.
  The Multiboot memory map is walked by address as the code does.
\<close>

section \<open>State\<close>

record pmm_state_t =
  array :: "u32 \<Rightarrow> u32"
  max_blocks :: u32
  used_blocks :: u32
  last_allocated_bit :: u32

definition PAGE_SIZE :: u32 where
  "PAGE_SIZE = 4096"

definition PAGE_ALIGN_DOWN :: "'a::len word \<Rightarrow> 'a word" where
  "PAGE_ALIGN_DOWN addr = addr AND NOT 0xFFF"

definition PAGE_ALIGN_UP :: "'a::len word \<Rightarrow> 'a word" where
  "PAGE_ALIGN_UP addr = (addr + 0xFFF) AND NOT 0xFFF"

section \<open>The bitmap\<close>

definition bitmap_set :: "u32 \<Rightarrow> pmm_state_t \<Rightarrow> pmm_state_t" where
  "bitmap_set b s = s\<lparr>array := (array s)(b div 32 := array s (b div 32) OR push_bit (unat (b mod 32)) 1)\<rparr>"

definition bitmap_clear :: "u32 \<Rightarrow> pmm_state_t \<Rightarrow> pmm_state_t" where
  "bitmap_clear b s =
     s\<lparr>array := (array s)(b div 32 := array s (b div 32) AND NOT (push_bit (unat (b mod 32)) 1))\<rparr>"

definition bitmap_check :: "u32 \<Rightarrow> pmm_state_t \<Rightarrow> u32" where
  "bitmap_check b s = array s (b div 32) AND push_bit (unat (b mod 32)) 1"

section \<open>Operations\<close>

definition pmm_mark_used :: "u32 \<Rightarrow> pmm_state_t \<Rightarrow> pmm_state_t" where
  "pmm_mark_used physical_addr s =
     (let frame_index = physical_addr div 4096 in
      if frame_index \<ge> max_blocks s then s
      else if bitmap_check frame_index s = 0
      then let s1 = bitmap_set frame_index s in s1\<lparr>used_blocks := used_blocks s1 + 1\<rparr>
      else s)"

definition pmm_free_frame :: "u32 \<Rightarrow> pmm_state_t \<Rightarrow> panic + pmm_state_t" where
  "pmm_free_frame physical_addr s =
     (let frame_index = physical_addr div 4096 in
      if frame_index \<ge> max_blocks s then Inr s
      else if bitmap_check frame_index s \<noteq> 0
      then let s1 = bitmap_clear frame_index s in Inr (s1\<lparr>used_blocks := used_blocks s1 - 1\<rparr>)
      else Inl DoubleFree)"

definition pmm_mark_region_used :: "u32 \<Rightarrow> u32 \<Rightarrow> pmm_state_t \<Rightarrow> pmm_state_t" where
  "pmm_mark_region_used start_addr end_addr s =
     (let start_frame = PAGE_ALIGN_DOWN start_addr div PAGE_SIZE;
          end_frame = PAGE_ALIGN_UP end_addr div PAGE_SIZE
      in for_u32 start_frame end_frame (\<lambda>i. pmm_mark_used (i * PAGE_SIZE)) s)"

function pmm_alloc_loop :: "u32 \<Rightarrow> u32 \<Rightarrow> u32 \<Rightarrow> pmm_state_t \<Rightarrow> u32 \<times> pmm_state_t" where
  "pmm_alloc_loop i array_size start_index s =
     (if i < array_size then
        let current_index = (start_index + i) mod array_size;
            bit_chunk = array s current_index
        in if bit_chunk = 0xFFFFFFFF then pmm_alloc_loop (i + 1) array_size start_index s
           else
             let free_bit_offset = of_nat (builtin_ctz (NOT bit_chunk));
                 bit_index = current_index * 32 + free_bit_offset
             in if bit_index \<ge> max_blocks s then (0, s)
                else (bit_index * 4096,
                      (pmm_mark_used (bit_index * 4096) s)\<lparr>last_allocated_bit := bit_index\<rparr>)
      else (0, s))"
  by pat_completeness auto
termination
proof (relation "measure (\<lambda>(i, n, st, s). unat n - unat i)", goal_cases)
  case (2 i n st s)
  then show ?case by (simp add: unat_succ word_less_nat_alt)
qed simp

declare pmm_alloc_loop.simps [simp del]

definition pmm_alloc_frame :: "pmm_state_t \<Rightarrow> u32 \<times> pmm_state_t" where
  "pmm_alloc_frame s =
     (let array_size = (max_blocks s + 31) div 32;
          start_index = last_allocated_bit s div 32
      in pmm_alloc_loop 0 array_size start_index s)"

section \<open>Specification vocabulary\<close>

definition frame_used :: "pmm_state_t \<Rightarrow> u32 \<Rightarrow> bool" where
  "frame_used s i = bit (array s (i div 32)) (unat (i mod 32))"

definition n_words :: "pmm_state_t \<Rightarrow> u32" where
  "n_words s = (max_blocks s + 31) div 32"

definition used_frames :: "pmm_state_t \<Rightarrow> u32 set" where
  "used_frames s = {i. i < max_blocks s \<and> frame_used s i}"

definition free_frames :: "pmm_state_t \<Rightarrow> u32 set" where
  "free_frames s = {i. i < max_blocks s \<and> \<not> frame_used s i}"

definition pmm_inv :: "pmm_state_t \<Rightarrow> bool" where
  "pmm_inv s \<longleftrightarrow> max_blocks s \<le> 0x100000 \<and> last_allocated_bit s \<le> max_blocks s
     \<and> used_blocks s = of_nat (card (used_frames s))
     \<and> (\<forall>i. max_blocks s \<le> i \<and> i < n_words s * 32 \<longrightarrow> frame_used s i)"

definition chunk :: "u32 \<Rightarrow> u32 list" where
  "chunk c = map (\<lambda>b. c * 32 + of_nat b) [0..<32]"

definition scan_words :: "nat \<Rightarrow> u32 \<Rightarrow> u32 \<Rightarrow> u32 list" where
  "scan_words i start n = map (\<lambda>j. (start + of_nat j) mod n) [i..<unat n]"

definition scan_order :: "pmm_state_t \<Rightarrow> u32 list" where
  "scan_order s = concat (map chunk (scan_words 0 (last_allocated_bit s div 32) (n_words s)))"

definition take_frame :: "u32 \<Rightarrow> pmm_state_t \<Rightarrow> pmm_state_t" where
  "take_frame f s = (pmm_mark_used (f * 4096) s)\<lparr>last_allocated_bit := f\<rparr>"

definition low_pmm :: "nat \<Rightarrow> pmm_state_t" where
  "low_pmm n = \<lparr>array = (\<lambda>i. mask n), max_blocks = 32, used_blocks = of_nat n, last_allocated_bit = 0\<rparr>"

definition sample_pmm :: pmm_state_t where
  "sample_pmm = low_pmm 4"

section \<open>Lemmas\<close>

lemma bitmap_check_eq_0_iff [simp]: "bitmap_check b s = 0 \<longleftrightarrow> \<not> frame_used s b"
  by (simp add: bitmap_check_def frame_used_def)

lemma frame_used_bitmap_set [simp]: "frame_used (bitmap_set b s) i \<longleftrightarrow> i = b \<or> frame_used s i"
  by (auto simp add: frame_used_def bitmap_set_def bit_or_iff bit_exp_iff dest: word_div_mod_eqI)

lemma frame_used_bitmap_clear [simp]: "frame_used (bitmap_clear b s) i \<longleftrightarrow> i \<noteq> b \<and> frame_used s i"
  by (auto simp add: frame_used_def bitmap_clear_def bit_and_iff bit_not_iff bit_exp_iff dest: word_div_mod_eqI)

lemma bitmap_set_fields [simp]:
  "max_blocks (bitmap_set b s) = max_blocks s" "used_blocks (bitmap_set b s) = used_blocks s"
  "last_allocated_bit (bitmap_set b s) = last_allocated_bit s"
  by (simp_all add: bitmap_set_def)

lemma bitmap_clear_fields [simp]:
  "max_blocks (bitmap_clear b s) = max_blocks s" "used_blocks (bitmap_clear b s) = used_blocks s"
  "last_allocated_bit (bitmap_clear b s) = last_allocated_bit s"
  by (simp_all add: bitmap_clear_def)

lemma frame_used_update [simp]:
  "frame_used (s\<lparr>used_blocks := n\<rparr>) i = frame_used s i"
  "frame_used (s\<lparr>last_allocated_bit := n\<rparr>) i = frame_used s i"
  by (simp_all add: frame_used_def)

subsection \<open>Marking\<close>

lemma mark_used_frame [simp]:
  "frame_used (pmm_mark_used a s) i \<longleftrightarrow> frame_used s i \<or> (i = a div 4096 \<and> i < max_blocks s)"
  by (auto simp add: pmm_mark_used_def Let_def)

lemma mark_used_fields [simp]:
  "max_blocks (pmm_mark_used a s) = max_blocks s"
  "last_allocated_bit (pmm_mark_used a s) = last_allocated_bit s"
  by (simp_all add: pmm_mark_used_def Let_def)

lemma used_frames_mark:
  "used_frames (pmm_mark_used a s)
    = (if a div 4096 < max_blocks s then insert (a div 4096) (used_frames s) else used_frames s)"
  by (auto simp add: used_frames_def)

lemma used_blocks_mark:
  "used_blocks (pmm_mark_used a s) = used_blocks s
    + (if a div 4096 < max_blocks s \<and> a div 4096 \<notin> used_frames s then 1 else 0)"
  by (auto simp add: pmm_mark_used_def Let_def used_frames_def)

lemma mark_used_inv [k_inv]: "pmm_inv s \<Longrightarrow> pmm_inv (pmm_mark_used a s)"
  by (auto simp add: pmm_inv_def used_frames_mark used_blocks_mark n_words_def insert_absorb)

lemma last_allocated_inv: "pmm_inv s \<Longrightarrow> i \<le> max_blocks s \<Longrightarrow> pmm_inv (s\<lparr>last_allocated_bit := i\<rparr>)"
  by (simp add: pmm_inv_def used_frames_def n_words_def)

lemma unat_bit_index:
  "unat c < 2 ^ 27 \<Longrightarrow> b < 32 \<Longrightarrow> unat (c * 32 + of_nat b :: u32) = unat c * 32 + b"
  by (simp add: unat_word_ariths unat_of_nat)

lemma bit_index_div_mod:
  assumes "unat c < 2 ^ 27" "b < 32"
  shows "(c * 32 + of_nat b :: u32) div 32 = c" "unat ((c * 32 + of_nat b :: u32) mod 32) = b"
  using assms by (simp_all add: word_unat_eq_iff unat_div unat_mod unat_bit_index)

lemma find_chunk:
  assumes "unat c < 2 ^ 27"
  shows "find (\<lambda>f. \<not> frame_used s f) (chunk c)
    = (if array s c = 0xFFFFFFFF then None else Some (c * 32 + of_nat (builtin_ctz (NOT (array s c)))))"
proof -
  have "find ((\<lambda>f. \<not> frame_used s f) \<circ> (\<lambda>b. c * 32 + of_nat b)) [0..<32] = find (bit (NOT (array s c))) [0..<32]"
    by (rule find_cong) (auto simp add: frame_used_def bit_index_div_mod [OF assms] bit_not_iff)
  moreover have "NOT (array s c) = 0 \<longleftrightarrow> array s c = 0xFFFFFFFF"
  proof -
    have "(0xFFFFFFFF :: u32) = NOT 0" by simp
    then show ?thesis by (metis bit.double_compl)
  qed
  ultimately show ?thesis
    by (simp add: chunk_def find_map builtin_ctz_eq_find)
qed

lemma scan_words_Cons:
  "i < n \<Longrightarrow> scan_words (unat i) start n = (start + i) mod n # scan_words (unat (i + 1)) start n"
  by (simp add: scan_words_def upt_conv_Cons unat_succ word_less_nat_alt)

lemma pmm_alloc_loop_eq:
  assumes "unat n < 2 ^ 27"
  shows "pmm_alloc_loop i n start s
    = (case find (\<lambda>f. \<not> frame_used s f) (concat (map chunk (scan_words (unat i) start n))) of
         None \<Rightarrow> (0, s)
       | Some f \<Rightarrow> if f \<ge> max_blocks s then (0, s) else (f * 4096, take_frame f s))"
  using assms
proof (induction i n start s rule: pmm_alloc_loop.induct)
  case (1 i n start s)
  show ?case
  proof (cases "i < n")
    case True
    let ?c = "(start + i) mod n"
    have "0 < unat n" using True by (simp add: word_less_nat_alt)
    then have "unat ?c < unat n" by (simp add: unat_mod)
    with "1.prems" have c: "unat ?c < 2 ^ 27" by simp
    show ?thesis
      using True c "1.IH" [OF True refl refl] "1.prems"
      by (subst pmm_alloc_loop.simps)
        (simp add: Let_def scan_words_Cons find_append find_chunk take_frame_def)
  next
    case False
    then have "scan_words (unat i) start n = []"
      by (simp add: scan_words_def word_less_nat_alt)
    with False show ?thesis by (subst pmm_alloc_loop.simps) simp
  qed
qed

lemma unat_n_words: 
  assumes "max_blocks s \<le> 0x100000"
  shows "unat (n_words s) = (unat (max_blocks s) + 31) div 32" "unat (n_words s * 32) = unat (n_words s) * 32"
  "max_blocks s \<le> n_words s * 32" "unat (n_words s) < 2 ^ 27"
proof -
  have m: "unat (max_blocks s) \<le> 0x100000" using assms by (simp add: word_le_nat_alt)
  show a: "unat (n_words s) = (unat (max_blocks s) + 31) div 32"
    using m by (simp add: n_words_def unat_div unat_word_ariths)
  show b: "unat (n_words s * 32) = unat (n_words s) * 32"
    using m by (simp add: unat_word_ariths a)
  show "max_blocks s \<le> n_words s * 32"
    using m by (simp add: word_le_nat_alt a b)
  show "unat (n_words s) < 2 ^ 27"
    using m by (simp add: a)
qed

lemma set_scan_order:
  assumes "pmm_inv s"
  shows "set (scan_order s) = {f. f < n_words s * 32}"
proof -
  let ?n = "n_words s" let ?st = "last_allocated_bit s div 32"
  have m: "max_blocks s \<le> 0x100000" and "last_allocated_bit s \<le> max_blocks s"
    using assms by (auto simp add: pmm_inv_def)
  then have st: "unat ?st < 2 ^ 20 + 1"
    by (simp add: word_le_nat_alt unat_div)
  note n = unat_n_words [OF m]
  have u: "unat ((?st + of_nat j) mod ?n) = (unat ?st + j) mod unat ?n" if "j < unat ?n" for j
    using that st n(4) by (simp add: unat_mod unat_word_ariths unat_of_nat)
  have words: "set (scan_words 0 ?st ?n) = {c. c < ?n}"
  proof (intro set_eqI iffI; clarsimp)
    fix c assume "c \<in> set (scan_words 0 ?st ?n)"
    then show "c < ?n" using u by (auto simp add: scan_words_def word_less_nat_alt)
  next
    fix c assume "c < ?n"
    then obtain j where "j < unat ?n" "(unat ?st + j) mod unat ?n = unat c"
      using mod_shift_surj by (metis word_less_nat_alt)
    then show "c \<in> set (scan_words 0 ?st ?n)"
      by (auto simp add: scan_words_def word_unat_eq_iff u intro!: image_eqI [of _ _ j])
  qed
  show ?thesis
  proof (intro set_eqI iffI)
    fix f assume "f \<in> set (scan_order s)"
    then obtain c b where cb: "c < ?n" "b < 32" "f = c * 32 + of_nat b"
      by (auto simp add: scan_order_def words chunk_def)
    then have "unat c < 2 ^ 27" using n(4) by (simp add: word_less_nat_alt)
    with cb show "f \<in> {f. f < ?n * 32}" by (simp add: word_less_nat_alt unat_bit_index n(2))
  next
    fix f assume "f \<in> {f. f < ?n * 32}"
    then have "f div 32 < ?n" by (simp add: word_less_nat_alt unat_div n(2) less_mult_imp_div_less)
    moreover have "f = (f div 32) * 32 + f mod 32"
      by (rule div_mult_mod_eq [symmetric])
    then have "f = (f div 32) * 32 + of_nat (unat (f mod 32))" by simp
    then have "f \<in> set (chunk (f div 32))"
      unfolding chunk_def set_map by (rule image_eqI) simp
    ultimately show "f \<in> set (scan_order s)" by (auto simp add: scan_order_def words)
  qed
qed

lemma pmm_alloc_frame_find:
  assumes "pmm_inv s"
  shows "pmm_alloc_frame s = (case find (\<lambda>f. \<not> frame_used s f) (scan_order s) of
           None \<Rightarrow> (0, s) | Some f \<Rightarrow> (f * 4096, take_frame f s))"
proof -
  have m: "max_blocks s \<le> 0x100000" using assms by (simp add: pmm_inv_def)
  have "f < max_blocks s" if "find (\<lambda>f. \<not> frame_used s f) (scan_order s) = Some f" for f
  proof -
    from that have "f \<in> set (scan_order s)" "\<not> frame_used s f"
      by (auto simp add: find_Some_iff)
    then show ?thesis using assms by (auto simp add: set_scan_order [OF assms] pmm_inv_def not_le [symmetric])
  qed
  then show ?thesis
    using pmm_alloc_loop_eq [OF unat_n_words(4) [OF m], of 0 "last_allocated_bit s div 32" s]
    by (auto simp add: pmm_alloc_frame_def Let_def n_words_def [symmetric] scan_order_def not_le [symmetric] split: option.splits)
qed

lemma inv_frame_bound: "pmm_inv s \<Longrightarrow> f < max_blocks s \<Longrightarrow> unat f < 0x100000"
  by (simp add: pmm_inv_def word_le_nat_alt word_less_nat_alt)

lemma take_frame_spec:
  assumes "pmm_inv s" "f \<in> free_frames s"
  shows "pmm_inv (take_frame f s)" "free_frames (take_frame f s) = free_frames s - {f}"
    "max_blocks (take_frame f s) = max_blocks s" "used_blocks (take_frame f s) = used_blocks s + 1"
proof -
  have f: "f < max_blocks s" using assms by (simp add: free_frames_def)
  show "pmm_inv (take_frame f s)"
    using assms f by (simp add: take_frame_def last_allocated_inv mark_used_inv less_imp_le)
  show "free_frames (take_frame f s) = free_frames s - {f}"
    using assms f frame_addr [OF inv_frame_bound [OF assms(1) f]] by (auto simp add: free_frames_def take_frame_def)
  show "max_blocks (take_frame f s) = max_blocks s" by (simp add: take_frame_def)
  show "used_blocks (take_frame f s) = used_blocks s + 1"
    using assms f frame_addr [OF inv_frame_bound [OF assms(1) f]] by (simp add: take_frame_def used_blocks_mark used_frames_def free_frames_def)
qed

lemma free_in_scan_order:
  assumes "pmm_inv s"
  shows "{f \<in> set (scan_order s). \<not> frame_used s f} = free_frames s"
  using assms unat_n_words(3) [of s]
  by (auto simp add: set_scan_order free_frames_def pmm_inv_def not_le [symmetric])

lemma pmm_alloc_none:
  assumes "pmm_inv s" "free_frames s = {}"
  shows "pmm_alloc_frame s = (0, s)"
proof -
  have "find (\<lambda>f. \<not> frame_used s f) (scan_order s) = None"
    using assms free_in_scan_order [OF assms(1)] by (auto simp add: find_None_iff)
  then show ?thesis by (simp add: pmm_alloc_frame_find [OF assms(1)])
qed

lemma pmm_alloc_some:
  assumes "pmm_inv s" "free_frames s \<noteq> {}"
  shows "\<exists>f \<in> free_frames s. pmm_alloc_frame s = (f * 4096, take_frame f s)"
proof -
  from assms free_in_scan_order [OF assms(1)] obtain f where
    "find (\<lambda>f. \<not> frame_used s f) (scan_order s) = Some f"
    by (cases "find (\<lambda>f. \<not> frame_used s f) (scan_order s)") (auto simp add: find_None_iff)
  moreover from this have "f \<in> {f \<in> set (scan_order s). \<not> frame_used s f}"
    by (auto simp add: find_Some_iff)
  ultimately show ?thesis
    using free_in_scan_order [OF assms(1)] by (auto simp add: pmm_alloc_frame_find [OF assms(1)])
qed

lemma used_frames_clear:
  "i < max_blocks s \<Longrightarrow> frame_used s i \<Longrightarrow>
    used_frames (bitmap_clear i s) = used_frames s - {i} \<and> i \<in> used_frames s"
  by (auto simp add: used_frames_def)

lemma used_frames_fields [simp]: "used_frames (s\<lparr>used_blocks := n\<rparr>) = used_frames s"
  by (simp add: used_frames_def)

lemma clear_inv:
  assumes "pmm_inv s" "i < max_blocks s" "frame_used s i"
  shows "pmm_inv ((bitmap_clear i s)\<lparr>used_blocks := used_blocks s - 1\<rparr>)"
proof -
  have "card (used_frames s) = Suc (card (used_frames s - {i}))"
    using used_frames_clear [OF assms(2,3)] by (intro card_Suc_Diff1 [symmetric]) auto
  then show ?thesis
    using assms used_frames_clear [OF assms(2,3)] by (auto simp add: pmm_inv_def n_words_def)
qed

lemma pmm_free_frame_cases:
  "pmm_free_frame a s =
     (if max_blocks s \<le> a div 4096 then Inr s
      else if frame_used s (a div 4096)
      then Inr ((bitmap_clear (a div 4096) s)\<lparr>used_blocks := used_blocks s - 1\<rparr>)
      else Inl DoubleFree)"
  by (simp add: pmm_free_frame_def Let_def)

lemma pmm_free_frame_inv [k_inv]:
  "pmm_inv s \<Longrightarrow> pmm_free_frame a s = Inr s' \<Longrightarrow> pmm_inv s'"
  by (auto simp add: pmm_free_frame_cases not_le clear_inv split: if_splits)

lemma pmm_free_frame_free:
  "pmm_free_frame a s = Inr s' \<Longrightarrow>
    free_frames s' = free_frames s \<union> (if a div 4096 < max_blocks s then {a div 4096} else {})"
  by (auto simp add: pmm_free_frame_cases free_frames_def split: if_splits)

lemma pmm_free_taken:
  assumes "pmm_inv s" "f \<in> free_frames s"
  shows "\<exists>t. pmm_free_frame (f * 4096) (take_frame f s) = Inr t \<and> free_frames t = free_frames s"
proof -
  have f: "f < max_blocks s" using assms by (simp add: free_frames_def)
  note a = frame_addr(2) [OF inv_frame_bound [OF assms(1) f]]
  have "max_blocks (take_frame f s) = max_blocks s" "frame_used (take_frame f s) f"
    using f by (simp_all add: take_frame_def a)
  then have "\<exists>t. pmm_free_frame (f * 4096) (take_frame f s) = Inr t"
    using f by (auto simp add: pmm_free_frame_cases a)
  then obtain t where t: "pmm_free_frame (f * 4096) (take_frame f s) = Inr t" ..
  from pmm_free_frame_free [OF this] have "free_frames t = free_frames s"
    using assms f take_frame_spec [OF assms] by (auto simp add: a)
  with t show ?thesis by blast
qed

section \<open>The bitmap allocator is a frame pool\<close>

interpretation pmm: frame_pool pmm_inv free_frames pmm_alloc_frame pmm_free_frame
proof unfold_locales
  fix s f assume "pmm_inv s" "f \<in> free_frames s"
  then show "unat f < 0x100000" by (simp add: free_frames_def inv_frame_bound)
next
  fix s assume "pmm_inv s" "free_frames s = {}"
  then show "pmm_alloc_frame s = (0, s)" by (rule pmm_alloc_none)
next
  fix s assume s: "pmm_inv s" "free_frames s \<noteq> {}"
  show "\<exists>f \<in> free_frames s. fst (pmm_alloc_frame s) = f * 4096
      \<and> free_frames (snd (pmm_alloc_frame s)) = free_frames s - {f} \<and> pmm_inv (snd (pmm_alloc_frame s))"
    using pmm_alloc_some [OF s] take_frame_spec [OF s(1)] by fastforce
next
  fix s a s' assume "pmm_inv s" "pmm_free_frame a s = Inr s'"
  then show "pmm_inv s'" by (rule pmm_free_frame_inv)
next
  fix s a s' assume "pmm_free_frame a s = Inr s'"
  then show "free_frames s \<subseteq> free_frames s' \<and> free_frames s' \<subseteq> insert (a div 4096) (free_frames s)"
    by (auto simp add: pmm_free_frame_free split: if_splits)
next
  fix s a assume "a div 4096 \<in> free_frames s"
  then show "pmm_free_frame a s = Inl DoubleFree"
    by (simp add: pmm_free_frame_cases free_frames_def not_le)
next
  fix s f t assume s: "pmm_inv s" "f \<in> free_frames s" "pmm_alloc_frame s = (f * 4096, t)"
  then have "free_frames s \<noteq> {}" by blast
  then obtain g where "g \<in> free_frames s" "pmm_alloc_frame s = (g * 4096, take_frame g s)"
    using pmm_alloc_some [OF s(1)] by blast
  with s(3) have g: "g \<in> free_frames s" "g * 4096 = f * 4096" "t = take_frame g s" by simp_all
  then have "g * 4096 div 4096 = f * 4096 div 4096" by simp
  then have "g = f"
    using s g(1) by (simp add: frame_addr inv_frame_bound free_frames_def)
  with g s show "\<exists>t'. pmm_free_frame (f * 4096) t = Inr t' \<and> free_frames t' = free_frames s"
    using pmm_free_taken by blast
qed

section \<open>Properties\<close>

lemma low_used: "n < 32 \<Longrightarrow> frame_used (low_pmm n) i \<longleftrightarrow> i mod 32 < of_nat n"
  by (simp add: frame_used_def low_pmm_def bit_mask_iff word_less_nat_alt unat_of_nat)

lemma word_mod_small: "i < n \<Longrightarrow> i mod n = i" for i n :: u32
  by (simp add: word_unat_eq_iff unat_mod word_less_nat_alt)

lemma low_frames:
  assumes "n < 32"
  shows "used_frames (low_pmm n) = {i. i < of_nat n}" "free_frames (low_pmm n) = {i. of_nat n \<le> i \<and> i < 32}"
proof -
  have m: "max_blocks (low_pmm n) = 32" by (simp add: low_pmm_def)
  have "i < of_nat n \<Longrightarrow> i < 32" for i :: u32 using assms by (simp add: word_less_nat_alt unat_of_nat)
  then show "used_frames (low_pmm n) = {i. i < of_nat n}" "free_frames (low_pmm n) = {i. of_nat n \<le> i \<and> i < 32}"
    using assms by (auto simp add: used_frames_def free_frames_def m low_used word_mod_small not_less)
qed

lemma low_pmm_inv: "n < 32 \<Longrightarrow> pmm_inv (low_pmm n)"
proof -
  assume n: "n < 32"
  have f: "max_blocks (low_pmm n) = 32" "used_blocks (low_pmm n) = of_nat n" "last_allocated_bit (low_pmm n) = 0"
    "n_words (low_pmm n) = 1"
    by (simp_all add: n_words_def low_pmm_def)
  show ?thesis using n unfolding pmm_inv_def low_frames [OF n] card_below f by (auto simp add: unat_of_nat)
qed

lemma sample_frames: "used_frames sample_pmm = {i. i < 4}" "free_frames sample_pmm = {i. 4 \<le> i \<and> i < 32}"
  using low_frames [of 4] by (simp_all add: sample_pmm_def)

lemma sample_pmm_inv: "pmm_inv sample_pmm"
  using low_pmm_inv [of 4] by (simp add: sample_pmm_def)

text \<open>
  C27: the word-wise scan of \<open>pmm_alloc_frame\<close> (whole words of ones skipped, \<open>__builtin_ctz\<close> in
  the first word with a zero, wrapping round from the word of the last allocation) is
  equivalent to looking at the frames one by one in that order: it returns the address of the
  first free frame and records it as used, and returns 0 with the state untouched when no frame is free.
\<close>

theorem alloc_frame_next_fit:
  assumes "pmm_inv s"
  shows "pmm_alloc_frame s =
    (case find (\<lambda>f. \<not> frame_used s f) (scan_order s) of
       None \<Rightarrow> (0, s)
     | Some f \<Rightarrow> (f * 4096, (pmm_mark_used (f * 4096) s)\<lparr>last_allocated_bit := f\<rparr>))"
  unfolding take_frame_def [symmetric] by (rule pmm_alloc_frame_find [OF assms])

theorem alloc_frame_next_fit_witness:
  "pmm_inv sample_pmm \<and> pmm_alloc_frame sample_pmm =
    (case find (\<lambda>f. \<not> frame_used sample_pmm f) (scan_order sample_pmm) of
       None \<Rightarrow> (0, sample_pmm)
     | Some f \<Rightarrow> (f * 4096, (pmm_mark_used (f * 4096) sample_pmm)\<lparr>last_allocated_bit := f\<rparr>))"
  using sample_pmm_inv alloc_frame_next_fit [OF sample_pmm_inv] by blast

text \<open>
  Contract of \<open>pmm_alloc_frame\<close>. It keeps the invariant of the bitmap; it returns 0 exactly when
  no frame is free, and then changes nothing; otherwise the result is a page-aligned address of a
  frame that was free, exactly that frame leaves the pool, and the count of used frames grows by one.
\<close>

theorem alloc_frame_contract:
  assumes "pmm_inv s" "0 \<notin> free_frames s" "pmm_alloc_frame s = (a, s')"
  shows "pmm_inv s' \<and> (a = 0 \<longleftrightarrow> free_frames s = {})
    \<and> (if a = 0 then s' = s
       else 4096 dvd unat a \<and> a div 4096 \<in> free_frames s \<and> free_frames s' = free_frames s - {a div 4096}
         \<and> used_blocks s' = used_blocks s + 1)"
proof -
  have zero: "a = 0 \<longleftrightarrow> free_frames s = {}" using pmm.alloc_zero_iff [OF assms(1,2)] assms(3) by simp
  moreover have "used_blocks s' = used_blocks s + 1" if "free_frames s \<noteq> {}"
    using pmm_alloc_some [OF assms(1) that] take_frame_spec(4) [OF assms(1)] assms(3) by auto
  ultimately show ?thesis
    using pmm.alloc_inv [OF assms(1)] pmm.alloc_address [OF assms(1)] pmm_alloc_none [OF assms(1)] assms(3)
    by auto
qed

theorem alloc_frame_contract_witness:
  "\<exists>a s'. pmm_alloc_frame sample_pmm = (a, s') \<and> a \<noteq> 0 \<and> a div 4096 \<in> free_frames sample_pmm
     \<and> free_frames s' = free_frames sample_pmm - {a div 4096}"
proof -
  obtain a s' where a: "pmm_alloc_frame sample_pmm = (a, s')" by (cases "pmm_alloc_frame sample_pmm")
  have "0 \<notin> free_frames sample_pmm" by (simp add: sample_frames)
  note * = alloc_frame_contract [OF sample_pmm_inv this a]
  have "(4 :: u32) \<in> free_frames sample_pmm" by (simp add: sample_frames)
  with * have "a \<noteq> 0" by blast
  with * a show ?thesis by auto
qed

text \<open>
  C29: \<open>pmm_free_frame\<close> undoes \<open>pmm_alloc_frame\<close>: giving the frame back restores the pool and the
  count, and giving it back a second time panics with ``Double free detected''. Until it is given
  back no allocation returns the same frame again.
\<close>

theorem alloc_free_roundtrip:
  assumes "pmm_inv s" "pmm_alloc_frame s = (a, s1)" "a \<noteq> 0"
  shows "(\<exists>s2. pmm_free_frame a s1 = Inr s2 \<and> pmm_inv s2 \<and> free_frames s2 = free_frames s
      \<and> used_blocks s2 = used_blocks s \<and> pmm_free_frame a s2 = Inl DoubleFree)
    \<and> (fst (pmm_alloc_frame s1) \<noteq> 0 \<longrightarrow> fst (pmm_alloc_frame s1) \<noteq> a)"
proof -
  have fa: "fst (pmm_alloc_frame s) = a" "snd (pmm_alloc_frame s) = s1" using assms(2) by simp_all
  obtain s2 where s2: "pmm_free_frame a s1 = Inr s2" "free_frames s2 = free_frames s"
    "pmm_free_frame a s2 = Inl DoubleFree"
    using pmm.alloc_release [OF assms(1)] assms(3) by (auto simp add: fa)
  have inv1: "pmm_inv s1" using pmm.alloc_inv [OF assms(1)] by (simp add: fa)
  have ne: "free_frames s \<noteq> {}" using pmm_alloc_none [OF assms(1)] assms(2,3) by auto
  then obtain f where f: "f \<in> free_frames s" "a = f * 4096" "s1 = take_frame f s"
    using pmm_alloc_some [OF assms(1)] assms(2) by auto
  have "max_blocks s1 = max_blocks s" "used_blocks s1 = used_blocks s + 1"
    using take_frame_spec [OF assms(1) f(1)] f(3) by simp_all
  moreover have "a div 4096 < max_blocks s"
    using pmm.alloc_address(1) [OF assms(1)] assms(3) by (simp add: fa free_frames_def)
  ultimately have "used_blocks s2 = used_blocks s"
    using s2(1) by (auto simp add: pmm_free_frame_cases split: if_splits)
  then show ?thesis
    using s2 pmm_free_frame_inv [OF inv1 s2(1)] pmm.alloc_fresh [OF assms(1)] assms(3) by (simp add: fa)
qed

theorem alloc_free_roundtrip_witness:
  "\<exists>a s1 s2. pmm_alloc_frame sample_pmm = (a, s1) \<and> pmm_free_frame a s1 = Inr s2
     \<and> pmm_free_frame a s2 = Inl DoubleFree"
proof -
  have "(4 :: u32) \<in> free_frames sample_pmm" "0 \<notin> free_frames sample_pmm" by (simp_all add: sample_frames)
  then have "fst (pmm_alloc_frame sample_pmm) \<noteq> 0" using pmm.alloc_zero_iff [OF sample_pmm_inv] by blast
  then show ?thesis
    using alloc_free_roundtrip [OF sample_pmm_inv, of "fst (pmm_alloc_frame sample_pmm)" "snd (pmm_alloc_frame sample_pmm)"]
    by (metis prod.collapse)
qed

end
