(* ===== verification/Paging.thy ===== *)
theory Paging
  imports Pmm
begin

text \<open>
  Virtual memory, \<open>src/src/arch/i386/paging.c\<close> and \<open>src/include/arch/i386/paging.h\<close>, over the
  address translation of the processor. Physical memory is a store of 32-bit words by physical
  address; \<open>mmu\<close> is the two-level i386 walk from \<open>cr3\<close> (4 KB pages; \<open>loader.s\<close> leaves
  \<open>CR4.PSE\<close> and \<open>CR0.WP\<close> clear, so a supervisor access needs the present bits only). The code
  reaches the page directory and the page tables through the recursive slot 1023, as virtual
  addresses; the model does the same, so every access goes through \<open>mmu\<close> and may fault. The
  processor has no translation cache in the model: \<open>invlpg\<close> has no effect there.
\<close>

section \<open>State\<close>

record mm_state =
  phys :: "u32 \<Rightarrow> u32"
  cr3 :: u32
  kernel_directory :: u32
  paging_enabled :: u8
  ref_counter :: "u32 \<Rightarrow> u16"
  pmm :: pmm_state_t

abbreviation PTE_PRESENT :: u32 where "PTE_PRESENT \<equiv> 0x001"
abbreviation PTE_RW :: u32 where "PTE_RW \<equiv> 0x002"
abbreviation PTE_USER :: u32 where "PTE_USER \<equiv> 0x004"
abbreviation PTE_FRAME_MASK :: u32 where "PTE_FRAME_MASK \<equiv> 0xFFFFF000"
abbreviation PDE_PRESENT :: u32 where "PDE_PRESENT \<equiv> 0x001"
abbreviation PDE_RW :: u32 where "PDE_RW \<equiv> 0x002"
abbreviation PDE_USER :: u32 where "PDE_USER \<equiv> 0x004"
abbreviation PDE_TABLE_MASK :: u32 where "PDE_TABLE_MASK \<equiv> 0xFFFFF000"

definition RECURSIVE_DIR_PTR :: u32 where
  "RECURSIVE_DIR_PTR = 0xFFFFF000"

definition RECURSIVE_TABLE_PTR :: "u32 \<Rightarrow> u32" where
  "RECURSIVE_TABLE_PTR dir_index = 0xFFC00000 + dir_index * 0x1000"

section \<open>The processor's address translation\<close>

definition mmu :: "mm_state \<Rightarrow> u32 \<Rightarrow> u32 option" where
  "mmu s va =
     (let pde = phys s ((cr3 s AND 0xFFFFF000) + drop_bit 22 va * 4) in
      if pde AND PDE_PRESENT = 0 then None
      else let pte = phys s ((pde AND 0xFFFFF000) + (drop_bit 12 va AND 0x3FF) * 4) in
           if pte AND PTE_PRESENT = 0 then None
           else Some ((pte AND 0xFFFFF000) + (va AND 0xFFF)))"

definition vread :: "u32 \<Rightarrow> mm_state \<Rightarrow> panic + u32" where
  "vread va s = (case mmu s va of None \<Rightarrow> Inl (PageFault va) | Some pa \<Rightarrow> Inr (phys s pa))"

definition vwrite :: "u32 \<Rightarrow> u32 \<Rightarrow> mm_state \<Rightarrow> panic + mm_state" where
  "vwrite va w s =
     (case mmu s va of None \<Rightarrow> Inl (PageFault va) | Some pa \<Rightarrow> Inr (s\<lparr>phys := (phys s)(pa := w)\<rparr>))"

text \<open>\<open>memset(ptr, 0, 4 * n)\<close> on word-aligned memory, one word at a time.\<close>

fun memset_zero :: "nat \<Rightarrow> u32 \<Rightarrow> mm_state \<Rightarrow> panic + mm_state" where
  "memset_zero 0 va s = Inr s"
| "memset_zero (Suc n) va s = andthen (vwrite va 0 s) (memset_zero n (va + 4))"

section \<open>Operations\<close>

text \<open>The block of \<open>map_page\<close> that creates a missing page table.\<close>

definition new_page_table :: "u32 \<Rightarrow> u32 \<Rightarrow> mm_state \<Rightarrow> panic + mm_state" where
  "new_page_table dir_index flags s =
     (let (new_frame, pm) = pmm_alloc_frame (pmm s);
          dir_flags = PDE_PRESENT OR PDE_RW;
          dir_flags' = (if flags AND PTE_USER \<noteq> 0 then dir_flags OR PDE_USER else dir_flags)
      in andthen (vwrite (RECURSIVE_DIR_PTR + dir_index * 4) (new_frame OR dir_flags') (s\<lparr>pmm := pm\<rparr>))
           (memset_zero 1024 (RECURSIVE_TABLE_PTR dir_index)))"

definition map_page :: "u32 \<Rightarrow> u32 \<Rightarrow> u32 \<Rightarrow> mm_state \<Rightarrow> panic + mm_state" where
  "map_page virt_addr phys_addr flags s =
     (let dir_index = drop_bit 22 virt_addr;
          tab_index = drop_bit 12 virt_addr AND 0x3FF
      in if paging_enabled s \<noteq> 0 then
           andthen (vread (RECURSIVE_DIR_PTR + dir_index * 4) s) (\<lambda>pde.
           andthen (if pde AND PDE_PRESENT = 0 then new_page_table dir_index flags s else Inr s) (\<lambda>s1.
           andthen (vread (RECURSIVE_TABLE_PTR dir_index + tab_index * 4) s1) (\<lambda>pte.
             let s2 = (if pte AND PTE_PRESENT = 0
                       then s1\<lparr>ref_counter := (ref_counter s1)(dir_index := ref_counter s1 dir_index + 1)\<rparr>
                       else s1)
             in vwrite (RECURSIVE_TABLE_PTR dir_index + tab_index * 4) (phys_addr OR flags) s2)))
         else
           andthen (vread (kernel_directory s + dir_index * 4) s) (\<lambda>pde.
           andthen
             (if pde AND PDE_PRESENT = 0 then
                let (new_frame, pm) = pmm_alloc_frame (pmm s);
                    dir_flags = PDE_PRESENT OR PDE_RW
                in andthen (memset_zero 1024 new_frame (s\<lparr>pmm := pm\<rparr>)) (\<lambda>s1.
                   let dir_flags' = (if flags AND PTE_USER \<noteq> 0 then dir_flags OR PDE_USER else dir_flags)
                   in vwrite (kernel_directory s1 + dir_index * 4) (new_frame OR dir_flags') s1)
              else Inr s) (\<lambda>s2.
           andthen (vread (kernel_directory s2 + dir_index * 4) s2) (\<lambda>pde'.
             vwrite ((pde' AND PDE_TABLE_MASK) + tab_index * 4) (phys_addr OR flags) s2))))"

definition alloc_page :: "u32 \<Rightarrow> u32 \<Rightarrow> mm_state \<Rightarrow> panic + mm_state" where
  "alloc_page virt_addr flags s =
     (if paging_enabled s = 0 then Inl PagingNotEnabled
      else
        let dir_index = drop_bit 22 virt_addr;
            tab_index = drop_bit 12 virt_addr AND 0x3FF
        in andthen (vread (RECURSIVE_DIR_PTR + dir_index * 4) s) (\<lambda>pde.
           andthen (if pde AND PDE_PRESENT \<noteq> 0
                    then andthen (vread (RECURSIVE_TABLE_PTR dir_index + tab_index * 4) s)
                           (\<lambda>pte. Inr (pte AND PTE_PRESENT \<noteq> 0))
                    else Inr False) (\<lambda>already_mapped.
           if already_mapped then Inl AlreadyMapped
           else
             let (phys_addr, pm) = pmm_alloc_frame (pmm s)
             in if phys_addr = 0 then Inl OutOfRAM
                else map_page virt_addr phys_addr flags (s\<lparr>pmm := pm\<rparr>))))"

definition unmap_page :: "u32 \<Rightarrow> mm_state \<Rightarrow> panic + mm_state" where
  "unmap_page virt_addr s =
     (if paging_enabled s = 0 then Inl PagingNotEnabled
      else
        let dir_index = drop_bit 22 virt_addr;
            tab_index = drop_bit 12 virt_addr AND 0x3FF
        in andthen (vread (RECURSIVE_DIR_PTR + dir_index * 4) s) (\<lambda>pde.
           if pde AND PDE_PRESENT = 0 then Inl PDENotPresent
           else
             andthen (vread (RECURSIVE_TABLE_PTR dir_index + tab_index * 4) s) (\<lambda>pte.
             andthen (if pte AND PTE_PRESENT \<noteq> 0
                      then andthen (vwrite (RECURSIVE_TABLE_PTR dir_index + tab_index * 4) 0 s)
                             (\<lambda>s1. Inr (s1\<lparr>ref_counter := (ref_counter s1)(dir_index := ref_counter s1 dir_index - 1)\<rparr>))
                      else Inr s) (\<lambda>s2.
             if ref_counter s2 dir_index = 0 \<and> dir_index < 768
             then andthen (vread (RECURSIVE_DIR_PTR + dir_index * 4) s2) (\<lambda>pde'.
                  andthen (pmm_free_frame (pde' AND PTE_FRAME_MASK) (pmm s2)) (\<lambda>pm.
                  vwrite (RECURSIVE_DIR_PTR + dir_index * 4) 0 (s2\<lparr>pmm := pm\<rparr>)))
             else Inr s2))))"

definition free_page :: "u32 \<Rightarrow> mm_state \<Rightarrow> panic + mm_state" where
  "free_page virt_addr s =
     (if paging_enabled s = 0 then Inl PagingNotEnabled
      else
        let dir_index = drop_bit 22 virt_addr;
            tab_index = drop_bit 12 virt_addr AND 0x3FF
        in andthen (vread (RECURSIVE_DIR_PTR + dir_index * 4) s) (\<lambda>pde.
           if pde AND PDE_PRESENT = 0 then Inl PDENotPresent
           else
             andthen (vread (RECURSIVE_TABLE_PTR dir_index + tab_index * 4) s) (\<lambda>pte.
             if pte AND PTE_PRESENT = 0 then Inl PTENotPresent
             else andthen (pmm_free_frame (pte AND PTE_FRAME_MASK) (pmm s)) (\<lambda>pm.
                  unmap_page virt_addr (s\<lparr>pmm := pm\<rparr>)))))"

definition paging_init :: "mm_state \<Rightarrow> mm_state" where
  "paging_init s = s\<lparr>paging_enabled := 1\<rparr>"

end
