(* ===== verification/Paging_View.thy ===== *)
theory Paging_View
  imports Paging
begin

text \<open>
  How the page directory and the page tables look through the recursive slot: the entries
  \<open>pde\<close> and \<open>pte\<close>, the processor's walk in terms of them, what the virtual accesses of
  \<open>paging.c\<close> read and write, and the invariant \<open>vm_inv\<close> of the virtual memory manager.
\<close>

section \<open>Specification vocabulary\<close>

definition page_base :: "u32 \<Rightarrow> u32" where
  "page_base x = x AND 0xFFFFF000"

definition dir_of :: "u32 \<Rightarrow> u32" where "dir_of va = drop_bit 22 va"

definition tab_of :: "u32 \<Rightarrow> u32" where "tab_of va = drop_bit 12 va AND 0x3FF"

definition present :: "u32 \<Rightarrow> bool" where "present e \<longleftrightarrow> e AND 1 \<noteq> 0"

definition dir_base :: "mm_state \<Rightarrow> u32" where "dir_base s = page_base (cr3 s)"

definition pde :: "mm_state \<Rightarrow> u32 \<Rightarrow> u32" where "pde s d = phys s (dir_base s + d * 4)"

definition pte :: "mm_state \<Rightarrow> u32 \<Rightarrow> u32 \<Rightarrow> u32" where "pte s d t = phys s (page_base (pde s d) + t * 4)"

definition recursive :: "mm_state \<Rightarrow> bool" where
  "recursive s \<longleftrightarrow> present (pde s 1023) \<and> page_base (pde s 1023) = dir_base s"

definition set_pde :: "u32 \<Rightarrow> u32 \<Rightarrow> mm_state \<Rightarrow> mm_state" where
  "set_pde d w s = s\<lparr>phys := (phys s)(dir_base s + d * 4 := w)\<rparr>"

definition set_pte :: "u32 \<Rightarrow> u32 \<Rightarrow> u32 \<Rightarrow> mm_state \<Rightarrow> mm_state" where
  "set_pte d t w s = s\<lparr>phys := (phys s)(page_base (pde s d) + t * 4 := w)\<rparr>"

definition mapped_slots :: "mm_state \<Rightarrow> u32 \<Rightarrow> u32 set" where
  "mapped_slots s d = {t. t < 1024 \<and> present (pde s d) \<and> present (pte s d t)}"

definition table_frames :: "mm_state \<Rightarrow> u32 set" where
  "table_frames s = (\<lambda>d. page_base (pde s d) div 4096) ` {d. d < 1024 \<and> present (pde s d)}"

definition vm_inv :: "mm_state \<Rightarrow> bool" where
  "vm_inv s \<longleftrightarrow> paging_enabled s \<noteq> 0 \<and> pmm_inv (pmm s) \<and> 0 \<notin> free_frames (pmm s) \<and> recursive s
     \<and> (\<forall>d<1024. present (pde s d) \<longrightarrow> page_base (pde s d) \<noteq> 0 \<and> page_base (pde s d) div 4096 \<notin> free_frames (pmm s))
     \<and> (\<forall>d<1024. \<forall>e<1024. present (pde s d) \<and> present (pde s e) \<and> page_base (pde s d) = page_base (pde s e)
          \<longrightarrow> d = e)
     \<and> (\<forall>d<768. ref_counter s d = of_nat (card (mapped_slots s d)))"

section \<open>Lemmas\<close>

lemma frame_mask_eq: "(0xFFFFF000 :: u32) = NOT (mask 12)"
  by (simp add: mask_eq_decr_exp)

lemma unat_page_base [unat_simps]: "unat (page_base x) = unat x div 4096 * 4096"
  using unat_and_not_mask [of x 12] by (simp add: page_base_def frame_mask_eq)

lemma unat_and_3FF: "unat (x AND 0x3FF) = unat x mod 1024" for x :: u32
  using unat_take_bit_word [of 10 x] by (simp add: take_bit_eq_mask mask_eq_decr_exp)

lemma unat_and_FFF: "unat (x AND 0xFFF) = unat x mod 4096" for x :: u32
  using unat_take_bit_word [of 12 x] by (simp add: take_bit_eq_mask mask_eq_decr_exp)

lemma unat_dir_of: "unat (dir_of va) = unat va div 0x400000"
  by (simp add: dir_of_def unat_drop_bit_eq drop_bit_eq_div unat_div)

lemma unat_tab_of: "unat (tab_of va) = unat va div 4096 mod 1024"
  by (simp add: tab_of_def unat_and_3FF unat_drop_bit_eq drop_bit_eq_div unat_div)

lemma dir_of_less [simp]: "dir_of va < 1024"
proof -
  have "unat va < 2 ^ 32" using unsigned_less [of va] by simp
  then show ?thesis by (simp add: word_less_nat_alt unat_dir_of)
qed

lemma tab_of_less [simp]: "tab_of va < 1024"
  by (simp add: word_less_nat_alt unat_tab_of)

lemma unat_slot:
  assumes "i < 1024"
  shows "unat (page_base x + i * 4) = unat x div 4096 * 4096 + unat i * 4"
proof -
  have i: "unat i < 1024" using assms by (simp add: word_less_nat_alt)
  have "unat x < 2 ^ 32" using unsigned_less [of x] by simp
  then have "unat x div 4096 < 2 ^ 20" by simp
  then have "unat x div 4096 * 4096 + unat i * 4 < 2 ^ 32" using i by simp
  then show ?thesis using i by (simp add: unat_word_ariths unat_page_base)
qed

lemma page_offset:
  "x < 4096 \<Longrightarrow> (p * 4096 + x) div 4096 = p" "x < 4096 \<Longrightarrow> (p * 4096 + x) mod 4096 = x" for p x :: nat
  by simp_all

lemma split_page_eq:
  "a * 4096 + x = b * 4096 + y \<Longrightarrow> x < 4096 \<Longrightarrow> y < 4096 \<Longrightarrow> a = b \<and> x = y" for a b x y :: nat
  by (metis page_offset)

lemma slot_eq_iff:
  assumes "i < 1024" "j < 1024"
  shows "page_base x + i * 4 = page_base y + j * 4 \<longleftrightarrow> page_base x = page_base y \<and> i = j"
proof
  assume "page_base x + i * 4 = page_base y + j * 4"
  then have "unat x div 4096 * 4096 + unat i * 4 = unat y div 4096 * 4096 + unat j * 4"
    using unat_slot [OF assms(1), of x] unat_slot [OF assms(2), of y] by simp
  moreover have "unat i * 4 < 4096" "unat j * 4 < 4096" using assms by (simp_all add: word_less_nat_alt)
  ultimately have "unat x div 4096 = unat y div 4096 \<and> unat i * 4 = unat j * 4"
    by (rule split_page_eq)
  then show "page_base x = page_base y \<and> i = j" by (simp add: word_unat_eq_iff unat_page_base)
qed auto

lemma mmu_eq:
  "mmu s va = (if present (pde s (dir_of va)) \<and> present (pte s (dir_of va) (tab_of va))
               then Some (page_base (pte s (dir_of va) (tab_of va)) + (va AND 0xFFF)) else None)"
  by (simp add: mmu_def Let_def present_def pde_def pte_def dir_base_def page_base_def dir_of_def tab_of_def)

lemma dir_ptr:
  assumes "d < 1024"
  shows "dir_of (RECURSIVE_DIR_PTR + d * 4) = 1023" "tab_of (RECURSIVE_DIR_PTR + d * 4) = 1023"
    "(RECURSIVE_DIR_PTR + d * 4) AND 0xFFF = d * 4"
proof -
  have d: "unat d < 1024" using assms by (simp add: word_less_nat_alt)
  then have u: "unat (RECURSIVE_DIR_PTR + d * 4) = 0xFFFFF * 4096 + unat d * 4"
    by (simp add: RECURSIVE_DIR_PTR_def unat_word_ariths)
  have x: "unat d * 4 < 4096" using d by simp
  show "dir_of (RECURSIVE_DIR_PTR + d * 4) = 1023" "tab_of (RECURSIVE_DIR_PTR + d * 4) = 1023"
    "(RECURSIVE_DIR_PTR + d * 4) AND 0xFFF = d * 4"
    unfolding word_unat_eq_iff unat_dir_of unat_tab_of unat_and_FFF u page_offset [OF x]
    using d by (simp_all add: unat_word_ariths)
qed

lemma table_ptr:
  assumes "d < 1024" "t < 1024"
  shows "dir_of (RECURSIVE_TABLE_PTR d + t * 4) = 1023" "tab_of (RECURSIVE_TABLE_PTR d + t * 4) = d"
    "(RECURSIVE_TABLE_PTR d + t * 4) AND 0xFFF = t * 4"
proof -
  have d: "unat d < 1024" "unat t < 1024" using assms by (simp_all add: word_less_nat_alt)
  then have u: "unat (RECURSIVE_TABLE_PTR d + t * 4) = (0xFFC00 + unat d) * 4096 + unat t * 4"
    by (simp add: RECURSIVE_TABLE_PTR_def unat_word_ariths)
  have x: "unat t * 4 < 4096" using d by simp
  have m: "(0xFFC00 + unat d) mod 1024 = unat d"
    using d mod_mult_self3 [of 1023 1024 "unat d"] by simp
  show "dir_of (RECURSIVE_TABLE_PTR d + t * 4) = 1023" "tab_of (RECURSIVE_TABLE_PTR d + t * 4) = d"
    "(RECURSIVE_TABLE_PTR d + t * 4) AND 0xFFF = t * 4"
    unfolding word_unat_eq_iff unat_dir_of unat_tab_of unat_and_FFF u page_offset [OF x] m
    using d by (simp_all add: unat_word_ariths)
qed

lemma pte_recursive: "recursive s \<Longrightarrow> pte s 1023 d = pde s d"
  by (simp add: pte_def recursive_def pde_def dir_base_def)

lemma mmu_dir: "recursive s \<Longrightarrow> d < 1024 \<Longrightarrow> mmu s (RECURSIVE_DIR_PTR + d * 4) = Some (dir_base s + d * 4)"
  by (simp add: mmu_eq dir_ptr pte_recursive) (simp add: recursive_def)

lemma mmu_table:
  "recursive s \<Longrightarrow> d < 1024 \<Longrightarrow> t < 1024 \<Longrightarrow> present (pde s d) \<Longrightarrow>
    mmu s (RECURSIVE_TABLE_PTR d + t * 4) = Some (page_base (pde s d) + t * 4)"
  by (simp add: mmu_eq table_ptr pte_recursive) (simp add: recursive_def)

lemma vread_dir [simp]: "recursive s \<Longrightarrow> d < 1024 \<Longrightarrow> vread (RECURSIVE_DIR_PTR + d * 4) s = Inr (pde s d)"
  by (simp add: vread_def mmu_dir pde_def)

lemma vread_table [simp]:
  "recursive s \<Longrightarrow> d < 1024 \<Longrightarrow> t < 1024 \<Longrightarrow> present (pde s d) \<Longrightarrow>
    vread (RECURSIVE_TABLE_PTR d + t * 4) s = Inr (pte s d t)"
  by (simp add: vread_def mmu_table pte_def)

lemma vwrite_dir [simp]: "recursive s \<Longrightarrow> d < 1024 \<Longrightarrow> vwrite (RECURSIVE_DIR_PTR + d * 4) w s = Inr (set_pde d w s)"
  by (simp add: vwrite_def mmu_dir set_pde_def)

lemma vwrite_table [simp]:
  "recursive s \<Longrightarrow> d < 1024 \<Longrightarrow> t < 1024 \<Longrightarrow> present (pde s d) \<Longrightarrow>
    vwrite (RECURSIVE_TABLE_PTR d + t * 4) w s = Inr (set_pte d t w s)"
  by (simp add: vwrite_def mmu_table set_pte_def)

lemma set_fields [simp]:
  "dir_base (set_pde d w s) = dir_base s" "dir_base (set_pte d t w s) = dir_base s"
  "cr3 (set_pde d w s) = cr3 s" "cr3 (set_pte d t w s) = cr3 s"
  "pmm (set_pde d w s) = pmm s" "pmm (set_pte d t w s) = pmm s"
  "ref_counter (set_pde d w s) = ref_counter s" "ref_counter (set_pte d t w s) = ref_counter s"
  "paging_enabled (set_pde d w s) = paging_enabled s" "paging_enabled (set_pte d t w s) = paging_enabled s"
  by (simp_all add: set_pde_def set_pte_def dir_base_def)

lemma view_fields [simp]:
  "dir_base (s\<lparr>pmm := pm\<rparr>) = dir_base s" "pde (s\<lparr>pmm := pm\<rparr>) d = pde s d" "pte (s\<lparr>pmm := pm\<rparr>) d t = pte s d t"
  "dir_base (s\<lparr>ref_counter := rc\<rparr>) = dir_base s" "pde (s\<lparr>ref_counter := rc\<rparr>) d = pde s d"
  "pte (s\<lparr>ref_counter := rc\<rparr>) d t = pte s d t"
  by (simp_all add: dir_base_def pde_def pte_def)

lemma view_recursive [simp]:
  "recursive (s\<lparr>pmm := pm\<rparr>) = recursive s" "recursive (s\<lparr>ref_counter := rc\<rparr>) = recursive s"
  by (simp_all add: recursive_def)

lemma pde_set_pde [simp]:
  "d < 1024 \<Longrightarrow> e < 1024 \<Longrightarrow> pde (set_pde d w s) e = (if e = d then w else pde s e)"
  using slot_eq_iff [of e d "cr3 s" "cr3 s"] by (simp add: pde_def set_pde_def dir_base_def)

lemma pte_set_pde:
  assumes "d < 1024" "e < 1024" "t < 1024" "e \<noteq> d" "page_base (pde s e) \<noteq> dir_base s"
  shows "pte (set_pde d w s) e t = pte s e t"
  using assms slot_eq_iff [of t d "pde s e" "cr3 s"]
  by (simp add: pte_def) (simp add: set_pde_def dir_base_def)

lemma pde_set_pte [simp]:
  assumes "page_base (pde s d) \<noteq> dir_base s" "t < 1024" "e < 1024"
  shows "pde (set_pte d t w s) e = pde s e"
  using assms slot_eq_iff [of e t "cr3 s" "pde s d"]
  by (auto simp add: pde_def set_pte_def dir_base_def)

lemma pte_set_pte:
  assumes "page_base (pde s d) \<noteq> dir_base s" "t < 1024" "e < 1024" "u < 1024"
  shows "pte (set_pte d t w s) e u = (if page_base (pde s e) = page_base (pde s d) \<and> u = t then w else pte s e u)"
  using assms slot_eq_iff [of u t "pde s e" "pde s d"]
  by (simp add: pte_def) (simp add: set_pte_def)

lemma recursive_set_pte:
  "recursive s \<Longrightarrow> page_base (pde s d) \<noteq> dir_base s \<Longrightarrow> t < 1024 \<Longrightarrow> recursive (set_pte d t w s)"
  by (simp add: recursive_def)

lemma recursive_set_pde: "recursive s \<Longrightarrow> d < 1024 \<Longrightarrow> d \<noteq> 1023 \<Longrightarrow> recursive (set_pde d w s)"
  by (auto simp add: recursive_def)

lemma page_base_slot [simp]: "i < 1024 \<Longrightarrow> page_base (page_base x + i * 4) = page_base x"
proof -
  assume i: "i < 1024"
  then have "unat i * 4 < 4096" by (simp add: word_less_nat_alt)
  then show ?thesis
    by (simp only: word_unat_eq_iff unat_page_base unat_slot [OF i] page_offset(1))
qed

lemma phys_set_pte:
  "t < 1024 \<Longrightarrow> page_base a \<noteq> page_base (pde s d) \<Longrightarrow> phys (set_pte d t w s) a = phys s a"
  by (auto simp add: set_pte_def)

lemma phys_set_pde: "d < 1024 \<Longrightarrow> page_base a \<noteq> dir_base s \<Longrightarrow> phys (set_pde d w s) a = phys s a"
  by (auto simp add: set_pde_def dir_base_def)

lemma unat_of_nat_slot: "i < 1024 \<Longrightarrow> unat (of_nat i :: u32) = i"
  by (simp add: unat_of_nat)

lemma memset_table:
  assumes "recursive s" "d < 1024" "present (pde s d)" "page_base (pde s d) \<noteq> dir_base s" "i + n \<le> 1024"
  shows "\<exists>s'. memset_zero n (RECURSIVE_TABLE_PTR d + of_nat i * 4) s = Inr s'
    \<and> recursive s' \<and> dir_base s' = dir_base s \<and> pmm s' = pmm s \<and> ref_counter s' = ref_counter s
    \<and> paging_enabled s' = paging_enabled s
    \<and> (\<forall>a. page_base a \<noteq> page_base (pde s d) \<longrightarrow> phys s' a = phys s a)
    \<and> (\<forall>e<1024. pde s' e = pde s e)
    \<and> (\<forall>e<1024. \<forall>t<1024. pte s' e t =
        (if page_base (pde s e) = page_base (pde s d) \<and> i \<le> unat t \<and> unat t < i + n then 0 else pte s e t))"
  using assms
proof (induction n arbitrary: i s)
  case (Suc n)
  let ?t = "of_nat i :: u32"
  let ?s = "set_pte d ?t 0 s"
  have t: "?t < 1024" "unat ?t = i" using Suc.prems(5) by (simp_all add: word_less_nat_alt unat_of_nat)
  have w: "vwrite (RECURSIVE_TABLE_PTR d + ?t * 4) 0 s = Inr ?s"
    using Suc.prems t by simp
  have step: "RECURSIVE_TABLE_PTR d + ?t * 4 + 4 = RECURSIVE_TABLE_PTR d + of_nat (Suc i) * 4"
    by (simp add: algebra_simps)
  have pde: "\<forall>e<1024. pde ?s e = pde s e" using Suc.prems t by simp
  have pte: "\<forall>e<1024. \<forall>u<1024. pte ?s e u = (if page_base (pde s e) = page_base (pde s d) \<and> unat u = i then 0 else pte s e u)"
    using pte_set_pte [OF Suc.prems(4) t(1)] t by (auto simp add: word_unat_eq_iff)
  obtain s' where s': "memset_zero n (RECURSIVE_TABLE_PTR d + of_nat (Suc i) * 4) ?s = Inr s'"
    "recursive s' \<and> dir_base s' = dir_base ?s \<and> pmm s' = pmm ?s \<and> ref_counter s' = ref_counter ?s
      \<and> paging_enabled s' = paging_enabled ?s \<and> (\<forall>a. page_base a \<noteq> page_base (pde ?s d) \<longrightarrow> phys s' a = phys ?s a)"
    "\<forall>e<1024. pde s' e = pde ?s e"
    "\<forall>e<1024. \<forall>t<1024. pte s' e t =
        (if page_base (pde ?s e) = page_base (pde ?s d) \<and> Suc i \<le> unat t \<and> unat t < Suc i + n then 0 else pte ?s e t)"
    using Suc.IH [of ?s "Suc i"] Suc.prems pde by (auto simp add: recursive_set_pte t(1))
  have "memset_zero (Suc n) (RECURSIVE_TABLE_PTR d + ?t * 4) s = Inr s'"
    unfolding memset_zero.simps w andthen_simps step using s'(1) .
  moreover have "\<forall>e<1024. \<forall>t<1024. pte s' e t =
     (if page_base (pde s e) = page_base (pde s d) \<and> i \<le> unat t \<and> unat t < i + Suc n then 0 else pte s e t)"
    using s'(4) pte pde Suc.prems(2) by auto
  moreover have "\<forall>a. page_base a \<noteq> page_base (pde s d) \<longrightarrow> phys s' a = phys s a"
    using s'(2) pde Suc.prems(2) phys_set_pte [OF t(1)] by simp
  ultimately show ?case using s'(2,3) pde by auto
qed auto

lemma table_frames_cong: "(\<And>e. e < 1024 \<Longrightarrow> pde s' e = pde s e) \<Longrightarrow> table_frames s' = table_frames s"
  unfolding table_frames_def by (intro image_cong) auto

lemma table_frames_new:
  assumes "d < 1024" "\<not> present (pde s d)" "present (pde s' d)"
    "\<And>e. e < 1024 \<Longrightarrow> e \<noteq> d \<Longrightarrow> pde s' e = pde s e"
  shows "table_frames s' = insert (page_base (pde s' d) div 4096) (table_frames s)"
proof -
  have "present (pde s' e) \<longleftrightarrow> e = d \<or> present (pde s e)" if "e < 1024" for e
    using assms that by (cases "e = d") simp_all
  then have "{e. e < 1024 \<and> present (pde s' e)} = insert d {e. e < 1024 \<and> present (pde s e)}"
    using assms(1) by auto
  moreover have "(\<lambda>e. page_base (pde s' e) div 4096) ` {e. e < 1024 \<and> present (pde s e)} = table_frames s"
    unfolding table_frames_def
  proof (intro image_cong refl)
    fix e assume e: "e \<in> {e. e < 1024 \<and> present (pde s e)}"
    then have "e \<noteq> d" using assms(2) by auto
    then show "page_base (pde s' e) div 4096 = page_base (pde s e) div 4096" using assms(4) e by simp
  qed
  ultimately show ?thesis by (simp add: table_frames_def)
qed

lemma vm_invD:
  assumes "vm_inv s"
  shows "paging_enabled s \<noteq> 0" "pmm_inv (pmm s)" "0 \<notin> free_frames (pmm s)" "recursive s"
    "\<And>d. d < 1024 \<Longrightarrow> present (pde s d) \<Longrightarrow> page_base (pde s d) div 4096 \<notin> free_frames (pmm s)"
    "\<And>d e. d < 1024 \<Longrightarrow> e < 1024 \<Longrightarrow> present (pde s d) \<Longrightarrow> present (pde s e) \<Longrightarrow>
       page_base (pde s d) = page_base (pde s e) \<Longrightarrow> d = e"
    "\<And>d. d < 1024 \<Longrightarrow> present (pde s d) \<Longrightarrow> page_base (pde s d) \<noteq> 0"
    "\<And>d. d < 768 \<Longrightarrow> ref_counter s d = of_nat (card (mapped_slots s d))"
  using assms unfolding vm_inv_def by blast+

lemma table_not_dir:
  assumes "vm_inv s" "d < 1024" "d \<noteq> 1023" "present (pde s d)"
  shows "page_base (pde s d) \<noteq> dir_base s"
  using vm_invD(4,6) [OF assms(1)] assms by (force simp add: recursive_def)

end
