(* ===== verification/Paging_Ops.thy ===== *)
theory Paging_Ops
  imports Paging_View
begin

text \<open>
  What \<open>map_page\<close>, \<open>alloc_page\<close>, \<open>unmap_page\<close> and \<open>free_page\<close> do to the address space: each
  changes the translation of one page, keeps \<open>vm_inv\<close>, and writes no physical memory but page
  tables.
\<close>

section \<open>Specification vocabulary\<close>

definition count_map :: "u32 \<Rightarrow> u32 \<Rightarrow> mm_state \<Rightarrow> mm_state" where
  "count_map d t s = (if present (pte s d t) then s
     else s\<lparr>ref_counter := (ref_counter s)(d := ref_counter s d + 1)\<rparr>)"

definition same_page :: "u32 \<Rightarrow> u32 \<Rightarrow> bool" where
  "same_page v w \<longleftrightarrow> dir_of v = dir_of w \<and> tab_of v = tab_of w"

definition map_ok :: "u32 \<Rightarrow> u32 \<Rightarrow> u32 \<Rightarrow> mm_state \<Rightarrow> bool" where
  "map_ok va p fl s \<longleftrightarrow> dir_of va \<noteq> 1023 \<and> page_base p = p \<and> unat fl < 4096 \<and> present fl
     \<and> (present (pde s (dir_of va)) \<or> free_frames (pmm s) \<noteq> {})"

definition clear_slot :: "u32 \<Rightarrow> u32 \<Rightarrow> mm_state \<Rightarrow> mm_state" where
  "clear_slot d t s = (if present (pte s d t)
     then set_pte d t 0 (s\<lparr>ref_counter := (ref_counter s)(d := ref_counter s d - 1)\<rparr>) else s)"

definition enough_frames :: "u32 \<Rightarrow> mm_state \<Rightarrow> bool" where
  "enough_frames va s \<longleftrightarrow>
     (if present (pde s (dir_of va)) then 1 else 2) \<le> card (free_frames (pmm s))"

section \<open>Lemmas\<close>

lemma page_base_or: "page_base (x OR y) = page_base x OR page_base y"
  by (simp add: page_base_def bit.conj_disj_distrib2)

lemma page_base_small: "unat x < 4096 \<Longrightarrow> page_base x = 0"
  by (simp add: word_unat_eq_iff unat_page_base)

lemma page_base_idem [simp]: "page_base (page_base x) = page_base x"
  by (simp add: word_unat_eq_iff unat_page_base)

lemma entry_word:
  assumes "page_base x = x" "unat fl < 4096" "present fl"
  shows "page_base (x OR fl) = x" "present (x OR fl)"
  using assms by (simp_all add: page_base_or page_base_small present_def bit.conj_disj_distrib2 or_eq_0_iff)

lemma page_base_frame: "unat f < 0x100000 \<Longrightarrow> page_base (f * 4096) = f * 4096"
  by (simp add: word_unat_eq_iff unat_page_base frame_addr)

lemma not_present_0 [simp]: "\<not> present 0"
  by (simp add: present_def)

lemma mapped_slots_cong:
  "(present (pde s' d) = present (pde s d)) \<Longrightarrow> (\<And>t. t < 1024 \<Longrightarrow> present (pde s d) \<Longrightarrow> present (pte s' d t) = present (pte s d t)) \<Longrightarrow>
    mapped_slots s' d = mapped_slots s d"
  by (auto simp add: mapped_slots_def)

lemma new_table_frame:
  assumes inv: "vm_inv s" and d: "d < 1024" "\<not> present (pde s d)" and free: "free_frames (pmm s) \<noteq> {}"
  obtains f pm fl where "f \<in> free_frames (pmm s)" "pmm_inv pm" "free_frames pm = free_frames (pmm s) - {f}"
    "new_page_table d flags s = memset_zero 1024 (RECURSIVE_TABLE_PTR d) (set_pde d (f * 4096 OR fl) (s\<lparr>pmm := pm\<rparr>))"
    "page_base (f * 4096 OR fl) = f * 4096" "present (f * 4096 OR fl)"
proof -
  obtain f pm where f: "f \<in> free_frames (pmm s)" "pmm_alloc_frame (pmm s) = (f * 4096, pm)"
    "free_frames pm = free_frames (pmm s) - {f}" "pmm_inv pm"
    using pmm.alloc_takes [OF vm_invD(2) [OF inv] free] by (metis prod.collapse)
  define fl :: u32 where "fl = (if flags AND PTE_USER \<noteq> 0 then (1 OR 2) OR 4 else 1 OR 2)"
  have fl: "unat fl < 4096" "present fl" by (simp_all add: fl_def present_def)
  have pb: "page_base (f * 4096) = f * 4096"
    using page_base_frame pmm.free_bound [OF vm_invD(2) [OF inv] f(1)] by blast
  have "new_page_table d flags s = memset_zero 1024 (RECURSIVE_TABLE_PTR d) (set_pde d (f * 4096 OR fl) (s\<lparr>pmm := pm\<rparr>))"
    using vm_invD(4) [OF inv] d(1) f(2) by (simp add: new_page_table_def fl_def)
  then show ?thesis using that f(1,3,4) entry_word [OF pb fl] by blast
qed

lemma fresh_table:
  assumes "vm_inv s" "f \<in> free_frames (pmm s)" "e < 1024" "present (pde s e)"
  shows "page_base (pde s e) \<noteq> f * 4096"
  using vm_invD(5) [OF assms(1,3,4)] assms(2) pmm.free_bound [OF vm_invD(2) [OF assms(1)] assms(2)]
  by (metis frame_addr(2))

lemma new_page_table_ok:
  assumes inv: "vm_inv s" and d: "d < 1024" "\<not> present (pde s d)" and free: "free_frames (pmm s) \<noteq> {}"
  shows "\<exists>s' f. new_page_table d flags s = Inr s' \<and> vm_inv s' \<and> present (pde s' d) \<and> (\<forall>t<1024. pte s' d t = 0)
    \<and> f \<in> free_frames (pmm s) \<and> free_frames (pmm s') = free_frames (pmm s) - {f}
    \<and> (\<forall>e<1024. e \<noteq> d \<longrightarrow> pde s' e = pde s e)
    \<and> (\<forall>e<1024. \<forall>t<1024. e \<noteq> d \<longrightarrow> e \<noteq> 1023 \<longrightarrow> present (pde s e) \<longrightarrow> pte s' e t = pte s e t)
    \<and> page_base (pde s' d) = f * 4096
    \<and> (\<forall>a. page_base a \<noteq> dir_base s \<longrightarrow> page_base a \<noteq> f * 4096 \<longrightarrow> phys s' a = phys s a)"
proof -
  obtain f pm fl where f: "f \<in> free_frames (pmm s)" "pmm_inv pm" "free_frames pm = free_frames (pmm s) - {f}"
    and new: "new_page_table d flags s = memset_zero 1024 (RECURSIVE_TABLE_PTR d) (set_pde d (f * 4096 OR fl) (s\<lparr>pmm := pm\<rparr>))"
    and w: "page_base (f * 4096 OR fl) = f * 4096" "present (f * 4096 OR fl)"
    by (rule new_table_frame [OF assms])
  let ?s = "set_pde d (f * 4096 OR fl) (s\<lparr>pmm := pm\<rparr>)"
  note rec = vm_invD(4) [OF inv]
  have "d \<noteq> 1023" using d(2) rec by (auto simp add: recursive_def)
  then have rec': "recursive ?s" using rec d by (simp add: recursive_set_pde)
  have "present (pde s 1023)" "page_base (pde s 1023) = dir_base s" using rec by (auto simp add: recursive_def)
  then have fd: "f * 4096 \<noteq> dir_base s" using fresh_table [OF inv f(1), of 1023] by auto
  have pd: "pde ?s e = (if e = d then f * 4096 OR fl else pde s e)" if "e < 1024" for e
    using that d by simp
  have pt: "pte ?s e t = pte s e t" if "e < 1024" "t < 1024" "e \<noteq> d" "e \<noteq> 1023" "present (pde s e)" for e t
    using pte_set_pde [of d e t "s\<lparr>pmm := pm\<rparr>"] that d table_not_dir [OF inv, of e] by simp
  obtain s' where s': "new_page_table d flags s = Inr s'" "recursive s'" "pmm s' = pm" "ref_counter s' = ref_counter s"
    "paging_enabled s' = paging_enabled s"
    "\<forall>e<1024. pde s' e = pde ?s e"
    "\<forall>e<1024. \<forall>t<1024. pte s' e t = (if page_base (pde ?s e) = f * 4096 \<and> unat t < 1024 then 0 else pte ?s e t)"
    "\<forall>a. page_base a \<noteq> f * 4096 \<longrightarrow> phys s' a = phys ?s a"
    using memset_table [OF rec' d(1), of 0 1024] w fd by (auto simp add: pd d new)
  have 0: "\<forall>t<1024. pte s' d t = 0"
    using s'(7) d w by (simp add: pd word_less_nat_alt)
  have old: "pte s' e t = pte s e t" if "e < 1024" "t < 1024" "e \<noteq> d" "e \<noteq> 1023" "present (pde s e)" for e t
    using s'(7) that pt [OF that] fresh_table [OF inv f(1) that(1,5)] by (simp add: pd)
  have pd': "\<forall>e<1024. pde s' e = (if e = d then f * 4096 OR fl else pde s e)" using s'(6) pd by simp
  have "vm_inv s'"
    unfolding vm_inv_def
  proof (intro conjI allI impI)
    show "paging_enabled s' \<noteq> 0" "pmm_inv (pmm s')" "0 \<notin> free_frames (pmm s')" "recursive s'"
      using vm_invD(1,3) [OF inv] s' f by simp_all
    fix e assume e: "e < 1024" "present (pde s' e)"
    have "f * 4096 \<noteq> 0"
      using f(1) vm_invD(3) [OF inv] frame_addr [OF pmm.free_bound [OF vm_invD(2) [OF inv] f(1)]] by auto
    then show "page_base (pde s' e) \<noteq> 0" using e pd' w vm_invD(7) [OF inv e(1)] by auto
    show "page_base (pde s' e) div 4096 \<notin> free_frames (pmm s')"
      using e pd' w vm_invD(5) [OF inv e(1)] s'(3) f(3)
        frame_addr(2) [OF pmm.free_bound [OF vm_invD(2) [OF inv] f(1)]] by auto
  next
    fix e e' assume e: "e < 1024" "e' < 1024" and
      p: "present (pde s' e) \<and> present (pde s' e') \<and> page_base (pde s' e) = page_base (pde s' e')"
    show "e = e'"
      using e p pd' w vm_invD(6) [OF inv e] fresh_table [OF inv f(1) e(1)] fresh_table [OF inv f(1) e(2)]
      by (auto split: if_splits)
  next
    fix e :: u32 assume e: "e < 768"
    then have e': "e < 1024" "e \<noteq> 1023" by (auto simp add: word_less_nat_alt)
    have "mapped_slots s' e = mapped_slots s e"
    proof (cases "e = d")
      case True
      then show ?thesis using 0 d by (auto simp add: mapped_slots_def)
    next
      case False
      then show ?thesis using pd' old e' by (intro mapped_slots_cong) auto
    qed
    then show "ref_counter s' e = of_nat (card (mapped_slots s' e))"
      using vm_invD(8) [OF inv e] s'(4) by simp
  qed
  moreover have "\<forall>a. page_base a \<noteq> dir_base s \<longrightarrow> page_base a \<noteq> f * 4096 \<longrightarrow> phys s' a = phys s a"
    using s'(8) phys_set_pde [OF d(1), of _ "s\<lparr>pmm := pm\<rparr>"] by simp
  ultimately show ?thesis using s'(1,3) 0 f pd' old d w by auto
qed

lemma absent_iff: "e AND 1 = 0 \<longleftrightarrow> \<not> present e"
  by (simp add: present_def)

lemma count_map_view [simp]:
  "dir_base (count_map d t s) = dir_base s" "pde (count_map d t s) e = pde s e" "pte (count_map d t s) e u = pte s e u"
  "pmm (count_map d t s) = pmm s" "paging_enabled (count_map d t s) = paging_enabled s"
  "recursive (count_map d t s) = recursive s"
  by (simp_all add: count_map_def)

lemma map_page_present:
  assumes "vm_inv s" "present (pde s (dir_of va))"
  shows "map_page va p fl s = Inr (set_pte (dir_of va) (tab_of va) (p OR fl) (count_map (dir_of va) (tab_of va) s))"
  using assms vm_invD(1,4) [OF assms(1)] vwrite_table [of _ "dir_of va" "tab_of va"]
  by (simp add: map_page_def dir_of_def [symmetric] tab_of_def [symmetric] Let_def absent_iff
      count_map_def)

lemma map_page_absent:
  assumes "vm_inv s" "\<not> present (pde s (dir_of va))"
    and "new_page_table (dir_of va) fl s = Inr s1" "vm_inv s1" "present (pde s1 (dir_of va))"
  shows "map_page va p fl s = map_page va p fl s1"
  using assms vm_invD(1,4) [OF assms(1)] vm_invD(1,4) [OF assms(4)]
  by (simp add: map_page_def dir_of_def [symmetric] tab_of_def [symmetric] Let_def absent_iff)

lemma set_pte_inv:
  assumes inv: "vm_inv s" and d: "d < 1024" "d \<noteq> 1023" "t < 1024" "present (pde s d)"
    and rc: "s' = set_pte d t w (s\<lparr>ref_counter := rc\<rparr>)"
    and cnt: "d < 768 \<Longrightarrow> rc d = of_nat (card (if present w then insert t (mapped_slots s d) else mapped_slots s d - {t}))"
    and others: "\<And>e. e \<noteq> d \<Longrightarrow> rc e = ref_counter s e"
  shows "vm_inv s'"
proof -
  have nd: "page_base (pde s d) \<noteq> dir_base s" using table_not_dir [OF inv d(1,2,4)] .
  have pd: "pde s' e = pde s e" if "e < 1024" for e
    using that nd d by (simp add: rc)
  have pt: "pte s' e u = (if e = d \<and> u = t then w else pte s e u)" if "e < 1024" "u < 1024" "present (pde s e)" for e u
    using that pte_set_pte [of "s\<lparr>ref_counter := rc\<rparr>" d t e u w] nd d vm_invD(6) [OF inv that(1) d(1) that(3) d(4)]
    by (auto simp add: rc)
  show ?thesis
    unfolding vm_inv_def
  proof (intro conjI allI impI)
    show "paging_enabled s' \<noteq> 0" "pmm_inv (pmm s')" "0 \<notin> free_frames (pmm s')" "recursive s'"
      using vm_invD(1-4) [OF inv] recursive_set_pte [of "s\<lparr>ref_counter := rc\<rparr>" d t w] nd d by (simp_all add: rc)
    fix e assume "e < 1024" "present (pde s' e)"
    then show "page_base (pde s' e) \<noteq> 0" "page_base (pde s' e) div 4096 \<notin> free_frames (pmm s')"
      using vm_invD(5,7) [OF inv, of e] pd by (simp_all add: rc)
  next
    fix e e' assume "e < 1024" "e' < 1024"
      "present (pde s' e) \<and> present (pde s' e') \<and> page_base (pde s' e) = page_base (pde s' e')"
    then show "e = e'" using vm_invD(6) [OF inv, of e e'] pd by auto
  next
    fix e :: u32 assume e: "e < 768"
    then have e': "e < 1024" by (simp add: word_less_nat_alt)
    show "ref_counter s' e = of_nat (card (mapped_slots s' e))"
    proof (cases "e = d")
      case True
      have "mapped_slots s' d = (if present w then insert t (mapped_slots s d) else mapped_slots s d - {t})"
        using pd pt d by (auto simp add: mapped_slots_def split: if_splits)
      then show ?thesis using cnt e True by (simp add: rc)
    next
      case False
      have "mapped_slots s' e = mapped_slots s e"
        using pd pt e' False by (intro mapped_slots_cong) auto
      then show ?thesis using vm_invD(8) [OF inv e] others [OF False] by (simp add: rc)
    qed
  qed
qed

lemma mmu_set_pte:
  assumes inv: "vm_inv s" and d: "dir_of va \<noteq> 1023" "present (pde s (dir_of va))" and v: "dir_of v \<noteq> 1023"
  shows "mmu (set_pte (dir_of va) (tab_of va) w (s\<lparr>ref_counter := rc\<rparr>)) v
    = (if same_page v va then (if present w then Some (page_base w + (v AND 0xFFF)) else None) else mmu s v)"
proof -
  let ?s = "s\<lparr>ref_counter := rc\<rparr>"
  have nd: "page_base (pde ?s (dir_of va)) \<noteq> dir_base ?s"
    using table_not_dir [OF inv _ d] by simp
  have "pte (set_pte (dir_of va) (tab_of va) w ?s) (dir_of v) (tab_of v)
    = (if same_page v va then w else pte s (dir_of v) (tab_of v))" if "present (pde s (dir_of v))"
    using pte_set_pte [OF nd, of "tab_of va" "dir_of v" "tab_of v" w] vm_invD(6) [OF inv, of "dir_of v" "dir_of va"] that d
    by (auto simp add: same_page_def)
  then show ?thesis using d nd by (auto simp add: mmu_eq same_page_def)
qed

lemma count_map_rc:
  "count_map d t s = s\<lparr>ref_counter := (if present (pte s d t) then ref_counter s else (ref_counter s)(d := ref_counter s d + 1))\<rparr>"
  by (simp add: count_map_def)

lemma enter_page_inv:
  assumes inv: "vm_inv s" and d: "d < 1024" "d \<noteq> 1023" "t < 1024" "present (pde s d)" and w: "present w"
  shows "vm_inv (set_pte d t w (count_map d t s))"
proof (rule set_pte_inv [OF inv d, where w = w and rc = "if present (pte s d t) then ref_counter s else (ref_counter s)(d := ref_counter s d + 1)"])
  show "set_pte d t w (count_map d t s) = set_pte d t w (s\<lparr>ref_counter := if present (pte s d t) then ref_counter s else (ref_counter s)(d := ref_counter s d + 1)\<rparr>)"
    by (simp only: count_map_rc)
  assume d7: "d < 768"
  show "(if present (pte s d t) then ref_counter s else (ref_counter s)(d := ref_counter s d + 1)) d
    = of_nat (card (if present w then insert t (mapped_slots s d) else mapped_slots s d - {t}))"
    using vm_invD(8) [OF inv d7] w d by (auto simp add: mapped_slots_def insert_absorb)
qed auto

lemma enter_page_frame:
  assumes inv: "vm_inv s" and d: "d < 1024" "d \<noteq> 1023" "t < 1024" "present (pde s d)"
  shows "table_frames (set_pte d t w (s\<lparr>ref_counter := rc\<rparr>)) = table_frames s"
    and "page_base a div 4096 \<notin> table_frames s \<Longrightarrow> phys (set_pte d t w (s\<lparr>ref_counter := rc\<rparr>)) a = phys s a"
proof -
  have nd: "page_base (pde s d) \<noteq> dir_base s" using table_not_dir [OF inv d(1,2,4)] .
  then show "table_frames (set_pte d t w (s\<lparr>ref_counter := rc\<rparr>)) = table_frames s"
    using d by (intro table_frames_cong) simp
  assume "page_base a div 4096 \<notin> table_frames s"
  then have "page_base a \<noteq> page_base (pde s d)" using d by (auto simp add: table_frames_def)
  then show "phys (set_pte d t w (s\<lparr>ref_counter := rc\<rparr>)) a = phys s a"
    using phys_set_pte [OF d(3), of a "s\<lparr>ref_counter := rc\<rparr>" d w] by simp
qed

lemma map_page_ok:
  assumes inv: "vm_inv s" and ok: "map_ok va p fl s"
  shows "\<exists>s'. map_page va p fl s = Inr s' \<and> vm_inv s'
    \<and> (\<forall>v. dir_of v \<noteq> 1023 \<longrightarrow> mmu s' v = (if same_page v va then Some (p + (v AND 0xFFF)) else mmu s v))
    \<and> free_frames (pmm s') \<subseteq> free_frames (pmm s)
    \<and> card (free_frames (pmm s)) \<le> card (free_frames (pmm s')) + 1
    \<and> table_frames s' \<subseteq> table_frames s \<union> (free_frames (pmm s) - free_frames (pmm s'))
    \<and> (\<forall>a. page_base a div 4096 \<notin> table_frames s' \<longrightarrow> phys s' a = phys s a)"
proof -
  let ?d = "dir_of va" let ?t = "tab_of va"
  have w: "page_base (p OR fl) = p" "present (p OR fl)" and d: "?d \<noteq> 1023"
    using ok entry_word by (auto simp add: map_ok_def)
  have enter: "\<exists>s'. map_page va p fl s1 = Inr s' \<and> vm_inv s'
    \<and> (\<forall>v. dir_of v \<noteq> 1023 \<longrightarrow> mmu s' v = (if same_page v va then Some (p + (v AND 0xFFF)) else mmu s1 v))
    \<and> pmm s' = pmm s1 \<and> table_frames s' = table_frames s1
    \<and> (\<forall>a. page_base a div 4096 \<notin> table_frames s' \<longrightarrow> phys s' a = phys s1 a)" if "vm_inv s1" "present (pde s1 ?d)" for s1
    using map_page_present [OF that] enter_page_inv [OF that(1) _ d _ that(2) w(2)]
      mmu_set_pte [OF that(1) d that(2), where w = "p OR fl"] w enter_page_frame [OF that(1) _ d _ that(2)]
    by (auto simp add: count_map_rc)
  show ?thesis
  proof (cases "present (pde s ?d)")
    case True
    then show ?thesis using enter [OF inv] by fastforce
  next
    case False
    then have "free_frames (pmm s) \<noteq> {}" using ok by (simp add: map_ok_def)
    then obtain s1 f where s1: "new_page_table ?d fl s = Inr s1" "vm_inv s1" "present (pde s1 ?d)"
      "\<forall>t<1024. pte s1 ?d t = 0" "free_frames (pmm s1) = free_frames (pmm s) - {f}"
      "\<forall>e<1024. e \<noteq> ?d \<longrightarrow> pde s1 e = pde s e"
      "\<forall>e<1024. \<forall>t<1024. e \<noteq> ?d \<longrightarrow> e \<noteq> 1023 \<longrightarrow> present (pde s e) \<longrightarrow> pte s1 e t = pte s e t"
      "f \<in> free_frames (pmm s)" "page_base (pde s1 ?d) = f * 4096"
      "\<forall>a. page_base a \<noteq> dir_base s \<longrightarrow> page_base a \<noteq> f * 4096 \<longrightarrow> phys s1 a = phys s a"
      using new_page_table_ok [OF inv _ False, of fl] by auto
    have "mmu s1 v = mmu s v" if "dir_of v \<noteq> 1023" for v
      using s1 that False by (cases "dir_of v = ?d") (auto simp add: mmu_eq)
    moreover have tf: "table_frames s1 = insert f (table_frames s)"
    proof -
      have "f * 4096 div 4096 = f" using frame_addr(2) pmm.free_bound [OF vm_invD(2) [OF inv] s1(8)] by blast
      then show ?thesis using table_frames_new [OF _ False s1(3)] s1(6,9) by simp
    qed
    moreover have "phys s1 a = phys s a" if "page_base a div 4096 \<notin> table_frames s1" for a
    proof -
      have "dir_base s div 4096 \<in> table_frames s"
        using vm_invD(4) [OF inv] by (force simp add: recursive_def table_frames_def)
      moreover have "f * 4096 div 4096 = f" using frame_addr(2) pmm.free_bound [OF vm_invD(2) [OF inv] s1(8)] by blast
      ultimately have "page_base a \<noteq> dir_base s \<and> page_base a \<noteq> f * 4096"
        using that unfolding tf by (metis insertI1 insertI2)
      then show ?thesis using s1(10) by blast
    qed
    moreover have "card (free_frames (pmm s)) \<le> card (free_frames (pmm s1)) + 1"
      using s1(5,8) by (simp add: card_Diff_singleton)
    ultimately show ?thesis
      using enter [OF s1(2,3)] map_page_absent [OF inv False s1(1-3)] s1(5,8) by fastforce
  qed
qed

lemma vm_inv_pmm:
  assumes inv: "vm_inv s" and pm: "pmm_inv pm" "0 \<notin> free_frames pm"
    and tabs: "\<And>d. d < 1024 \<Longrightarrow> present (pde s d) \<Longrightarrow> page_base (pde s d) div 4096 \<notin> free_frames pm"
  shows "vm_inv (s\<lparr>pmm := pm\<rparr>)"
  using vm_invD(1,4,6,7,8) [OF inv] pm tabs
  unfolding vm_inv_def by (auto simp add: mapped_slots_def)

lemma vm_inv_pmm_shrink:
  "vm_inv s \<Longrightarrow> pmm_inv pm \<Longrightarrow> free_frames pm \<subseteq> free_frames (pmm s) \<Longrightarrow> vm_inv (s\<lparr>pmm := pm\<rparr>)"
  using vm_invD(3,5) by (intro vm_inv_pmm) blast+

lemma mmu_pmm [simp]: "mmu (s\<lparr>pmm := pm\<rparr>) v = mmu s v"
  by (simp add: mmu_eq)

lemma clear_slot_inv:
  assumes inv: "vm_inv s" and d: "d < 1024" "d \<noteq> 1023" "t < 1024" "present (pde s d)"
  shows "vm_inv (clear_slot d t s)"
proof (cases "present (pte s d t)")
  case True
  have "vm_inv (set_pte d t 0 (s\<lparr>ref_counter := (ref_counter s)(d := ref_counter s d - 1)\<rparr>))"
  proof (rule set_pte_inv [OF inv d refl])
    assume d7: "d < 768"
    have "t \<in> mapped_slots s d" using True d by (simp add: mapped_slots_def)
    then have "card (mapped_slots s d) = Suc (card (mapped_slots s d - {t}))"
      by (intro card_Suc_Diff1 [symmetric]) auto
    then show "((ref_counter s)(d := ref_counter s d - 1)) d
      = of_nat (card (if present 0 then insert t (mapped_slots s d) else mapped_slots s d - {t}))"
      using vm_invD(8) [OF inv d7] by simp
  qed simp
  with True show ?thesis by (simp add: clear_slot_def)
qed (simp add: clear_slot_def inv)

lemma mmu_clear_slot:
  assumes "vm_inv s" "dir_of va \<noteq> 1023" "present (pde s (dir_of va))" "dir_of v \<noteq> 1023"
  shows "mmu (clear_slot (dir_of va) (tab_of va) s) v = (if same_page v va then None else mmu s v)"
proof (cases "present (pte s (dir_of va) (tab_of va))")
  case True
  with mmu_set_pte [OF assms, where w = 0] show ?thesis by (simp add: clear_slot_def)
next
  case False
  then have "same_page v va \<Longrightarrow> mmu s v = None"
    unfolding mmu_eq by (simp add: same_page_def)
  with False show ?thesis by (auto simp add: clear_slot_def)
qed

lemma clear_slot_view:
  assumes "vm_inv s" "d < 1024" "d \<noteq> 1023" "t < 1024" "present (pde s d)"
  shows "e < 1024 \<Longrightarrow> pde (clear_slot d t s) e = pde s e" "pmm (clear_slot d t s) = pmm s"
  using table_not_dir [OF assms(1-3,5)] assms by (simp_all add: clear_slot_def)

lemma unmap_page_eq:
  assumes inv: "vm_inv s" and p: "present (pde s (dir_of va))" and d: "dir_of va \<noteq> 1023"
  shows "unmap_page va s =
    (let s2 = clear_slot (dir_of va) (tab_of va) s in
     if ref_counter s2 (dir_of va) = 0 \<and> dir_of va < 768
     then andthen (pmm_free_frame (page_base (pde s (dir_of va))) (pmm s))
            (\<lambda>pm. Inr (set_pde (dir_of va) 0 (s2\<lparr>pmm := pm\<rparr>)))
     else Inr s2)"
proof -
  have sw: "(set_pte a b w s)\<lparr>ref_counter := rc\<rparr> = set_pte a b w (s\<lparr>ref_counter := rc\<rparr>)" for a b w rc and s :: mm_state
    by (simp add: set_pte_def)
  note c = clear_slot_inv [OF inv _ d _ p, of "tab_of va"] clear_slot_view [OF inv _ d _ p, of "tab_of va"]
  note r = vm_invD(4) [OF inv] vm_invD(4) [OF c(1)]
  show ?thesis
  proof (cases "present (pte s (dir_of va) (tab_of va))")
    case True
    then have cs: "(set_pte (dir_of va) (tab_of va) 0 s)
        \<lparr>ref_counter := (ref_counter s)(dir_of va := ref_counter s (dir_of va) - 1)\<rparr> = clear_slot (dir_of va) (tab_of va) s"
      by (simp add: clear_slot_def sw)
    show ?thesis
      using vm_invD(1) [OF inv] p r c True
      by (simp add: unmap_page_def dir_of_def [symmetric] tab_of_def [symmetric] Let_def absent_iff cs
          page_base_def)
  next
    case False
    then show ?thesis
      using vm_invD(1) [OF inv] p r
      by (simp add: unmap_page_def dir_of_def [symmetric] tab_of_def [symmetric] Let_def absent_iff
          clear_slot_def page_base_def)
  qed
qed

lemma card_slots_zero:
  assumes "of_nat (card (mapped_slots s d)) = (0 :: u16)"
  shows "mapped_slots s d = {}"
proof -
  have "card (mapped_slots s d) \<le> card {t :: u32. t < 1024}"
    by (rule card_mono) (auto simp add: mapped_slots_def)
  then have "card (mapped_slots s d) \<le> 1024" by (simp add: card_below)
  moreover from assms have "unat (of_nat (card (mapped_slots s d)) :: u16) = 0" by simp
  ultimately have "card (mapped_slots s d) = 0" by (simp add: unat_of_nat)
  then show ?thesis by simp
qed

lemma pmm_free_used:
  assumes "pmm_inv pm" "a div 4096 \<notin> free_frames pm"
  shows "\<exists>pm'. pmm_free_frame a pm = Inr pm' \<and> pmm_inv pm'
    \<and> free_frames pm' = free_frames pm \<union> (if a div 4096 < max_blocks pm then {a div 4096} else {})"
proof -
  have "\<exists>pm'. pmm_free_frame a pm = Inr pm'"
    using assms by (auto simp add: pmm_free_frame_cases free_frames_def)
  then show ?thesis using pmm_free_frame_inv [OF assms(1)] pmm_free_frame_free by blast
qed

lemma drop_table_inv:
  assumes inv: "vm_inv s" and d: "d < 768" "present (pde s d)" "mapped_slots s d = {}"
    and pm: "pmm_inv pm" "free_frames pm \<subseteq> insert (page_base (pde s d) div 4096) (free_frames (pmm s))"
  shows "vm_inv (set_pde d 0 (s\<lparr>pmm := pm\<rparr>))"
    and "\<And>v. dir_of v \<noteq> 1023 \<Longrightarrow> mmu (set_pde d 0 (s\<lparr>pmm := pm\<rparr>)) v = mmu s v"
proof -
  let ?s = "set_pde d 0 (s\<lparr>pmm := pm\<rparr>)"
  have d': "d < 1024" "d \<noteq> 1023" using d(1) by (auto simp add: word_less_nat_alt)
  have pd: "pde ?s e = (if e = d then 0 else pde s e)" if "e < 1024" for e using that d' by simp
  have pt: "pte ?s e t = pte s e t" if "e < 1024" "t < 1024" "e \<noteq> d" "e \<noteq> 1023" "present (pde s e)" for e t
    using pte_set_pde [of d e t "s\<lparr>pmm := pm\<rparr>"] that d' table_not_dir [OF inv, of e] by simp
  have div: "page_base x div 4096 = page_base y div 4096 \<longleftrightarrow> page_base x = page_base y" for x y
    by (auto simp add: word_unat_eq_iff unat_div unat_page_base)
  have ne: "e \<noteq> d \<Longrightarrow> e < 1024 \<Longrightarrow> present (pde s e) \<Longrightarrow> page_base (pde s e) div 4096 \<notin> free_frames pm" for e
    using vm_invD(5) [OF inv, of e] vm_invD(6) [OF inv _ d'(1) _ d(2), of e] pm(2) div by blast
  have z: "0 \<notin> free_frames pm"
    using vm_invD(3) [OF inv] vm_invD(7) [OF inv d'(1) d(2)] pm(2) div [of "pde s d" 0]
    by (auto simp add: page_base_def)
  show "vm_inv ?s"
    unfolding vm_inv_def
  proof (intro conjI allI impI)
    show "paging_enabled ?s \<noteq> 0" "pmm_inv (pmm ?s)" "0 \<notin> free_frames (pmm ?s)" "recursive ?s"
      using vm_invD(1,4) [OF inv] pm z d' by (simp_all add: recursive_set_pde)
    fix e assume "e < 1024" "present (pde ?s e)"
    then show "page_base (pde ?s e) \<noteq> 0" "page_base (pde ?s e) div 4096 \<notin> free_frames (pmm ?s)"
      using ne [of e] vm_invD(7) [OF inv, of e] pd by (auto split: if_splits)
  next
    fix e e' assume "e < 1024" "e' < 1024" "present (pde ?s e) \<and> present (pde ?s e') \<and> page_base (pde ?s e) = page_base (pde ?s e')"
    then show "e = e'" using vm_invD(6) [OF inv, of e e'] pd by (auto split: if_splits)
  next
    fix e :: u32 assume e: "e < 768"
    then have "e < 1024" "e \<noteq> 1023" by (auto simp add: word_less_nat_alt)
    then have "mapped_slots ?s e = mapped_slots s e"
      using pd pt d(3) d' by (auto simp add: mapped_slots_def)
    then show "ref_counter ?s e = of_nat (card (mapped_slots ?s e))"
      using vm_invD(8) [OF inv e] by simp
  qed
  show "mmu ?s v = mmu s v" if "dir_of v \<noteq> 1023" for v
  proof (cases "dir_of v = d")
    case True
    have "tab_of v \<notin> mapped_slots s d" using d(3) by blast
    with True show ?thesis using pd d' by (simp add: mmu_eq mapped_slots_def)
  next
    case False
    then have "pde ?s (dir_of v) = pde s (dir_of v)"
      "present (pde s (dir_of v)) \<Longrightarrow> pte ?s (dir_of v) (tab_of v) = pte s (dir_of v) (tab_of v)"
      using pd pt that by simp_all
    then show ?thesis by (auto simp add: mmu_eq)
  qed
qed

lemma unmap_page_ok:
  assumes inv: "vm_inv s" and d: "dir_of va \<noteq> 1023" and p: "present (pde s (dir_of va))"
  shows "\<exists>s'. unmap_page va s = Inr s' \<and> vm_inv s'
    \<and> (\<forall>v. dir_of v \<noteq> 1023 \<longrightarrow> mmu s' v = (if same_page v va then None else mmu s v))
    \<and> free_frames (pmm s) \<subseteq> free_frames (pmm s')"
proof -
  let ?d = "dir_of va" let ?s = "clear_slot ?d (tab_of va) s"
  note c = clear_slot_inv [OF inv _ d _ p, of "tab_of va"] clear_slot_view [OF inv _ d _ p, of "tab_of va"]
  note m = mmu_clear_slot [OF inv d p]
  show ?thesis
  proof (cases "ref_counter ?s ?d = 0 \<and> ?d < 768")
    case True
    then have empty: "mapped_slots ?s ?d = {}"
      using vm_invD(8) [OF c(1), of ?d] by (intro card_slots_zero) auto
    obtain pm where pm: "pmm_free_frame (page_base (pde s ?d)) (pmm s) = Inr pm" "pmm_inv pm"
      "free_frames pm = free_frames (pmm s) \<union> (if page_base (pde s ?d) div 4096 < max_blocks (pmm s) then {page_base (pde s ?d) div 4096} else {})"
      using pmm_free_used [OF vm_invD(2) [OF inv] vm_invD(5) [OF inv _ p]] by auto
    have "free_frames pm \<subseteq> insert (page_base (pde ?s ?d) div 4096) (free_frames (pmm ?s))"
      using pm(3) c by auto
    note drop = drop_table_inv [OF c(1) conjunct2 [OF True] _ empty pm(2) this]
    have "unmap_page va s = Inr (set_pde ?d 0 (?s\<lparr>pmm := pm\<rparr>))"
      using unmap_page_eq [OF inv p d] True pm(1) by (simp add: Let_def)
    then show ?thesis using drop m p c pm(3) by auto
  next
    case False
    then have "unmap_page va s = Inr ?s" using unmap_page_eq [OF inv p d] by (auto simp add: Let_def)
    then show ?thesis using c m by auto
  qed
qed

lemma mmu_None_iff:
  "mmu s va = None \<longleftrightarrow> \<not> (present (pde s (dir_of va)) \<and> present (pte s (dir_of va) (tab_of va)))"
  by (simp add: mmu_eq)

lemma alloc_page_eq:
  assumes "vm_inv s"
  shows "alloc_page va fl s =
    (if mmu s va \<noteq> None then Inl AlreadyMapped
     else if free_frames (pmm s) = {} then Inl OutOfRAM
     else map_page va (fst (pmm_alloc_frame (pmm s))) fl (s\<lparr>pmm := snd (pmm_alloc_frame (pmm s))\<rparr>))"
proof -
  note z = pmm.alloc_zero_iff [OF vm_invD(2,3) [OF assms]]
  show ?thesis
    using vm_invD(1,4) [OF assms] z
    by (cases "present (pde s (dir_of va))")
      (auto simp add: alloc_page_def dir_of_def [symmetric] tab_of_def [symmetric] Let_def absent_iff
        mmu_None_iff case_prod_beta)
qed

lemma alloc_page_ok:
  assumes inv: "vm_inv s" and d: "dir_of va \<noteq> 1023" and fl: "unat fl < 4096" "present fl"
    and unmapped: "mmu s va = None" and enough: "enough_frames va s"
  shows "\<exists>s' f. alloc_page va fl s = Inr s' \<and> vm_inv s' \<and> f \<in> free_frames (pmm s) \<and> f \<notin> free_frames (pmm s')
    \<and> free_frames (pmm s') \<subseteq> free_frames (pmm s) \<and> card (free_frames (pmm s)) \<le> card (free_frames (pmm s')) + 2
    \<and> f \<notin> table_frames s' \<and> table_frames s' \<subseteq> table_frames s \<union> (free_frames (pmm s) - free_frames (pmm s'))
    \<and> (\<forall>a. page_base a div 4096 \<notin> table_frames s' \<longrightarrow> phys s' a = phys s a)
    \<and> (\<forall>v. dir_of v \<noteq> 1023 \<longrightarrow> mmu s' v = (if same_page v va then Some (f * 4096 + (v AND 0xFFF)) else mmu s v))"
proof -
  have free: "free_frames (pmm s) \<noteq> {}" using enough by (auto simp add: enough_frames_def split: if_splits)
  obtain f where f: "f \<in> free_frames (pmm s)" "fst (pmm_alloc_frame (pmm s)) = f * 4096"
    "free_frames (snd (pmm_alloc_frame (pmm s))) = free_frames (pmm s) - {f}"
    "pmm_inv (snd (pmm_alloc_frame (pmm s)))"
    using pmm.alloc_takes [OF vm_invD(2) [OF inv] free] by blast
  let ?s = "s\<lparr>pmm := snd (pmm_alloc_frame (pmm s))\<rparr>"
  have inv': "vm_inv ?s" using f(3,4) by (intro vm_inv_pmm_shrink [OF inv]) auto
  have "present (pde s (dir_of va)) \<or> free_frames (pmm s) - {f} \<noteq> {}"
    using enough f(1) by (auto simp add: enough_frames_def card_Diff_singleton split: if_splits dest: subset_singletonD)
  then have "map_ok va (f * 4096) fl ?s"
    using d fl f(3) page_base_frame [OF pmm.free_bound [OF vm_invD(2) [OF inv] f(1)]] by (simp add: map_ok_def)
  from map_page_ok [OF inv' this] obtain s' where s': "map_page va (f * 4096) fl ?s = Inr s'" "vm_inv s'"
    "\<forall>v. dir_of v \<noteq> 1023 \<longrightarrow> mmu s' v = (if same_page v va then Some (f * 4096 + (v AND 0xFFF)) else mmu ?s v)"
    "free_frames (pmm s') \<subseteq> free_frames (pmm ?s)" "card (free_frames (pmm ?s)) \<le> card (free_frames (pmm s')) + 1"
    "table_frames s' \<subseteq> table_frames ?s \<union> (free_frames (pmm ?s) - free_frames (pmm s'))"
    "\<forall>a. page_base a div 4096 \<notin> table_frames s' \<longrightarrow> phys s' a = phys ?s a" by blast
  have tf: "table_frames ?s = table_frames s" "f \<notin> table_frames s"
    using vm_invD(5) [OF inv] f(1) by (auto simp add: table_frames_def)
  have "card (free_frames (pmm s)) \<le> card (free_frames (pmm s')) + 2"
    using s'(5) f(1,3) by (simp add: card_Diff_singleton)
  moreover have "alloc_page va fl s = Inr s'"
    using alloc_page_eq [OF inv] unmapped free f(2) s'(1) by simp
  ultimately show ?thesis using s' f(1,3) tf by (intro exI [of _ s'] exI [of _ f]) auto
qed

lemma free_page_eq:
  assumes "vm_inv s"
  shows "free_page va s =
    (if \<not> present (pde s (dir_of va)) then Inl PDENotPresent
     else if \<not> present (pte s (dir_of va) (tab_of va)) then Inl PTENotPresent
     else andthen (pmm_free_frame (page_base (pte s (dir_of va) (tab_of va))) (pmm s))
            (\<lambda>pm. unmap_page va (s\<lparr>pmm := pm\<rparr>)))"
  using vm_invD(1,4) [OF assms]
  by (auto simp add: free_page_def dir_of_def [symmetric] tab_of_def [symmetric] Let_def absent_iff page_base_def)

lemma free_page_ok:
  assumes inv: "vm_inv s" and d: "dir_of va \<noteq> 1023" and mapped: "mmu s va \<noteq> None"
    and g: "g = page_base (pte s (dir_of va) (tab_of va)) div 4096"
    and own: "g \<notin> free_frames (pmm s)" "g \<notin> table_frames s" "g \<noteq> 0"
  shows "\<exists>s'. free_page va s = Inr s' \<and> vm_inv s'
    \<and> (\<forall>v. dir_of v \<noteq> 1023 \<longrightarrow> mmu s' v = (if same_page v va then None else mmu s v))
    \<and> insert g (free_frames (pmm s)) \<inter> {f. f < max_blocks (pmm s)} \<subseteq> free_frames (pmm s')"
proof -
  let ?a = "page_base (pte s (dir_of va) (tab_of va))"
  have p: "present (pde s (dir_of va))" "present (pte s (dir_of va) (tab_of va))"
    using mapped by (auto simp add: mmu_None_iff)
  obtain pm where pm: "pmm_free_frame ?a (pmm s) = Inr pm" "pmm_inv pm"
    "free_frames pm = free_frames (pmm s) \<union> (if g < max_blocks (pmm s) then {g} else {})"
    using pmm_free_used [OF vm_invD(2) [OF inv], of ?a] own(1) g by auto
  have "vm_inv (s\<lparr>pmm := pm\<rparr>)"
    using vm_invD(3,5) [OF inv] own(2,3) pm(2,3)
    by (intro vm_inv_pmm [OF inv]) (auto simp add: table_frames_def split: if_splits)
  from unmap_page_ok [OF this d] p obtain s' where s': "unmap_page va (s\<lparr>pmm := pm\<rparr>) = Inr s'" "vm_inv s'"
    "\<forall>v. dir_of v \<noteq> 1023 \<longrightarrow> mmu s' v = (if same_page v va then None else mmu s v)"
    "free_frames pm \<subseteq> free_frames (pmm s')" by auto
  have "free_page va s = Inr s'" using free_page_eq [OF inv] p pm(1) s'(1) by simp
  then show ?thesis using s' pm(3) by auto
qed

end
