(* ===== verification/Arena.thy ===== *)
theory Arena
  imports KPrelude
begin

text \<open>
  The interface between the kernel heap and virtual memory: a range of mapped addresses
  \<open>[lo, hi)\<close> with the words it holds, which can be read and written through the processor's
  translation and extended at its end by one page at a time. \<open>Paged_Mem\<close> interprets the locale
  on \<open>vread\<close>, \<open>vwrite\<close> and \<open>alloc_page\<close>.
\<close>

section \<open>Repeated growth and runs of stores\<close>

primrec grow_pages :: "(u32 \<Rightarrow> 'm \<Rightarrow> panic + 'm) \<Rightarrow> nat \<Rightarrow> u32 \<Rightarrow> 'm \<Rightarrow> panic + 'm" where
  "grow_pages grow 0 a m = Inr m"
| "grow_pages grow (Suc n) a m = andthen (grow a m) (grow_pages grow n (a + 4096))"

primrec store_all :: "(u32 \<Rightarrow> u32 \<Rightarrow> 'm \<Rightarrow> panic + 'm) \<Rightarrow> (nat \<times> u32) list \<Rightarrow> 'm \<Rightarrow> panic + 'm" where
  "store_all store [] m = Inr m"
| "store_all store (xw # xws) m = andthen (store (of_nat (fst xw)) (snd xw) m) (store_all store xws)"

section \<open>The interface\<close>

locale arena =
  fixes ok :: "nat \<Rightarrow> nat \<Rightarrow> (nat \<Rightarrow> u32) \<Rightarrow> 'm \<Rightarrow> bool"
    and load :: "u32 \<Rightarrow> 'm \<Rightarrow> panic + u32"
    and store :: "u32 \<Rightarrow> u32 \<Rightarrow> 'm \<Rightarrow> panic + 'm"
    and grow :: "u32 \<Rightarrow> 'm \<Rightarrow> panic + 'm"
    and reserve :: "'m \<Rightarrow> nat"
    and limit :: nat
  assumes load_ok: "ok lo hi v m \<Longrightarrow> lo \<le> x \<Longrightarrow> x < hi \<Longrightarrow> load (of_nat x) m = Inr (v x)"
    and store_ok: "ok lo hi v m \<Longrightarrow> lo \<le> x \<Longrightarrow> x < hi \<Longrightarrow>
      \<exists>m'. store (of_nat x) w m = Inr m' \<and> ok lo hi (v(x := w)) m' \<and> reserve m' = reserve m"
    and grow_ok: "ok lo hi v m \<Longrightarrow> hi + 4096 \<le> limit \<Longrightarrow> 2 \<le> reserve m \<Longrightarrow>
      \<exists>m' v'. grow (of_nat hi) m = Inr m' \<and> ok lo (hi + 4096) v' m' \<and> (\<forall>x<hi. v' x = v x)
        \<and> reserve m \<le> reserve m' + 2"
    and grow_out: "ok lo hi v m \<Longrightarrow> hi + 4096 \<le> limit \<Longrightarrow> reserve m = 0 \<Longrightarrow> grow (of_nat hi) m = Inl OutOfRAM"
begin

lemma store_all_ok:
  "ok lo hi v m \<Longrightarrow> \<forall>x \<in> fst ` set xws. lo \<le> x \<and> x < hi \<Longrightarrow>
    \<exists>m'. store_all store xws m = Inr m' \<and> ok lo hi (fold (\<lambda>(x, w) v. v(x := w)) xws v) m' \<and> reserve m' = reserve m"
proof (induction xws arbitrary: v m)
  case (Cons xw xws)
  obtain x w where xw: "xw = (x, w)" by (cases xw)
  with Cons.prems obtain m1 where m1: "store (of_nat x) w m = Inr m1" "ok lo hi (v(x := w)) m1" "reserve m1 = reserve m"
    using store_ok [of lo hi v m x w] by auto
  with Cons.IH [OF m1(2)] Cons.prems xw show ?case by auto
qed auto

lemma grow_pages_ok:
  "ok lo hi v m \<Longrightarrow> hi + 4096 * n \<le> limit \<Longrightarrow> 2 * n \<le> reserve m \<Longrightarrow>
    \<exists>m' v'. grow_pages grow n (of_nat hi) m = Inr m' \<and> ok lo (hi + 4096 * n) v' m' \<and> (\<forall>x<hi. v' x = v x)
      \<and> reserve m \<le> reserve m' + 2 * n"
proof (induction n arbitrary: hi v m)
  case (Suc n)
  obtain m1 v1 where m1: "grow (of_nat hi) m = Inr m1" "ok lo (hi + 4096) v1 m1" "\<forall>x<hi. v1 x = v x"
    "reserve m \<le> reserve m1 + 2"
    using grow_ok [OF Suc.prems(1)] Suc.prems(2,3) by auto
  obtain m' v' where "grow_pages grow n (of_nat (hi + 4096)) m1 = Inr m'" "ok lo (hi + 4096 + 4096 * n) v' m'"
    "\<forall>x<hi + 4096. v' x = v1 x" "reserve m1 \<le> reserve m' + 2 * n"
    using Suc.IH [OF m1(2)] Suc.prems(2,3) m1(4) by auto
  with m1 show ?case by (intro exI [of _ m'] exI [of _ v']) (auto simp add: add.assoc add.commute)
qed auto

end

end
