(* ===== verification/Paged_Mem.thy ===== *)
theory Paged_Mem
  imports Paging_Ops Arena
begin

text \<open>
  Ordinary use of mapped virtual memory: a region whose pages have frames of their own, outside
  the page tables and the free pool, reads back what was written to it and nothing else changes;
  a range of such pages grows by \<open>alloc_page\<close>. The kernel heap relies on these facts through the
  interface \<open>arena\<close>.
\<close>

section \<open>Specification vocabulary\<close>

definition region :: "nat \<Rightarrow> nat \<Rightarrow> u32 set" where
  "region b t = {a. b \<le> unat a \<and> unat a < t}"

definition frame_at :: "mm_state \<Rightarrow> u32 \<Rightarrow> u32" where
  "frame_at m a = the (mmu m a) div 4096"

definition vval :: "mm_state \<Rightarrow> u32 \<Rightarrow> u32" where
  "vval m a = phys m (the (mmu m a))"

definition mapped_region :: "mm_state \<Rightarrow> u32 set \<Rightarrow> bool" where
  "mapped_region m R \<longleftrightarrow>
     (\<forall>a \<in> R. dir_of a \<noteq> 1023 \<and> mmu m a \<noteq> None \<and> frame_at m a \<notin> table_frames m \<and> frame_at m a \<notin> free_frames (pmm m))
     \<and> (\<forall>a \<in> R. \<forall>b \<in> R. frame_at m a = frame_at m b \<longrightarrow> same_page a b)"

definition HEAP_LIMIT :: nat where "HEAP_LIMIT = 0xFEE00000"

definition heap_mem :: "nat \<Rightarrow> nat \<Rightarrow> (nat \<Rightarrow> u32) \<Rightarrow> mm_state \<Rightarrow> bool" where
  "heap_mem lo hi v m \<longleftrightarrow> vm_inv m \<and> 4096 dvd hi \<and> hi \<le> HEAP_LIMIT \<and> mapped_region m (region lo hi)
     \<and> (\<forall>a \<in> region hi HEAP_LIMIT. mmu m a = None)
     \<and> (\<forall>x. lo \<le> x \<and> x < hi \<longrightarrow> v x = vval m (of_nat x))"

section \<open>Lemmas\<close>

lemma page_base_div [simp]: "page_base a div 4096 = a div 4096"
  by (simp add: word_unat_eq_iff unat_div unat_page_base)

lemma page_base_eq_div: "page_base a = page_base b \<longleftrightarrow> a div 4096 = b div 4096"
  by (simp add: word_unat_eq_iff unat_div unat_page_base)

lemma unat_page_off: "unat (page_base x + (a AND 0xFFF)) = unat x div 4096 * 4096 + unat a mod 4096"
proof -
  have "unat x < 2 ^ 32" using unsigned_less [of x] by simp
  then have "unat x div 4096 < 2 ^ 20" by simp
  moreover have "unat a mod 4096 < 4096" by simp
  ultimately have "unat x div 4096 * 4096 + unat a mod 4096 < 2 ^ 32" by simp
  then show ?thesis by (simp add: unat_word_ariths unat_page_base unat_and_FFF)
qed

lemma page_off_div [simp]: "(page_base x + (a AND 0xFFF)) div 4096 = x div 4096"
  by (simp add: word_unat_eq_iff unat_div unat_page_off)

lemma same_page_iff: "same_page a b \<longleftrightarrow> unat a div 4096 = unat b div 4096"
proof
  assume "same_page a b"
  then have d: "unat a div 0x400000 = unat b div 0x400000" "unat a div 4096 mod 1024 = unat b div 4096 mod 1024"
    using unat_dir_of unat_tab_of by (metis same_page_def)+
  have "unat x div 4096 div 1024 = unat x div 0x400000" for x :: u32
    by (simp add: div_mult2_eq [symmetric])
  with d show "unat a div 4096 = unat b div 4096"
    by (metis div_mult_mod_eq)
next
  have e: "unat x div 0x400000 = unat x div 4096 div 1024" for x :: u32
    by (simp add: div_mult2_eq [symmetric])
  assume "unat a div 4096 = unat b div 4096"
  then show "same_page a b"
    by (simp add: same_page_def word_unat_eq_iff unat_dir_of unat_tab_of e)
qed

lemma same_page_off: "same_page a b \<Longrightarrow> a AND 0xFFF = b AND 0xFFF \<Longrightarrow> a = b"
proof -
  assume "same_page a b" "a AND 0xFFF = b AND 0xFFF"
  then have "unat a div 4096 = unat b div 4096" "unat a mod 4096 = unat b mod 4096"
    using unat_and_FFF [of a] unat_and_FFF [of b] by (simp_all add: same_page_iff)
  then have "unat a = unat b" by (metis div_mult_mod_eq)
  then show "a = b" by (simp add: word_unat_eq_iff)
qed

lemma frame_in_tables: "vm_inv s \<Longrightarrow> d < 1024 \<Longrightarrow> present (pde s d) \<Longrightarrow> pde s d div 4096 \<in> table_frames s"
  unfolding table_frames_def by (rule image_eqI [of _ _ d]) auto

lemma dir_in_tables: "vm_inv s \<Longrightarrow> cr3 s div 4096 \<in> table_frames s"
  using frame_in_tables [of s 1023] vm_invD(4) [of s]
  by (auto simp add: recursive_def dir_base_def page_base_eq_div)

lemma mmu_cong:
  assumes "vm_inv m" "\<And>e. e < 1024 \<Longrightarrow> pde m' e = pde m e"
    "\<And>e t. e < 1024 \<Longrightarrow> t < 1024 \<Longrightarrow> present (pde m e) \<Longrightarrow> pte m' e t = pte m e t"
  shows "mmu m' v = mmu m v"
  using assms(2) [of "dir_of v"] assms(3) [of "dir_of v" "tab_of v"] by (auto simp add: mmu_eq)

lemma vm_inv_cong:
  assumes inv: "vm_inv m" and pd: "\<And>e. e < 1024 \<Longrightarrow> pde m' e = pde m e"
    and pt: "\<And>e t. e < 1024 \<Longrightarrow> t < 1024 \<Longrightarrow> present (pde m e) \<Longrightarrow> pte m' e t = pte m e t"
    and f: "pmm m' = pmm m" "ref_counter m' = ref_counter m" "paging_enabled m' = paging_enabled m" "dir_base m' = dir_base m"
  shows "vm_inv m'"
  unfolding vm_inv_def
proof (intro conjI allI impI)
  show "paging_enabled m' \<noteq> 0" "pmm_inv (pmm m')" "0 \<notin> free_frames (pmm m')" "recursive m'"
    using vm_invD(1-4) [OF inv] pd f by (simp_all add: recursive_def)
  fix e assume "e < 1024" "present (pde m' e)"
  then show "page_base (pde m' e) \<noteq> 0" "page_base (pde m' e) div 4096 \<notin> free_frames (pmm m')"
    using vm_invD(5,7) [OF inv, of e] pd f by simp_all
next
  fix e e' assume "e < 1024" "e' < 1024" "present (pde m' e) \<and> present (pde m' e') \<and> page_base (pde m' e) = page_base (pde m' e')"
  then show "e = e'" using vm_invD(6) [OF inv, of e e'] pd by simp
next
  fix e :: u32 assume e: "e < 768"
  then have "e < 1024" by (simp add: word_less_nat_alt)
  then have "mapped_slots m' e = mapped_slots m e" using pd pt by (intro mapped_slots_cong) auto
  then show "ref_counter m' e = of_nat (card (mapped_slots m' e))" using vm_invD(8) [OF inv e] f by simp
qed

lemma vread_region: "mapped_region m R \<Longrightarrow> a \<in> R \<Longrightarrow> vread a m = Inr (vval m a)"
  by (auto simp add: mapped_region_def vread_def vval_def split: option.splits)

lemma vwrite_region:
  assumes inv: "vm_inv m" and R: "mapped_region m R" and a: "a \<in> R"
  shows "\<exists>m'. vwrite a w m = Inr m' \<and> vm_inv m' \<and> mapped_region m' R \<and> pmm m' = pmm m
    \<and> (\<forall>v. mmu m' v = mmu m v) \<and> (\<forall>b \<in> R. vval m' b = (if b = a then w else vval m b))"
proof -
  obtain pa where pa: "mmu m a = Some pa" "pa div 4096 \<notin> table_frames m"
    using R a by (auto simp add: mapped_region_def frame_at_def)
  let ?m = "m\<lparr>phys := (phys m)(pa := w)\<rparr>"
  have ph: "phys ?m (page_base x + i * 4) = phys m (page_base x + i * 4)" if "x div 4096 \<in> table_frames m" "i < 1024" for x i
    using that pa(2) by (metis fun_upd_other page_base_slot page_base_eq_div mm_state.select_convs(1) mm_state.surjective mm_state.update_convs(1))
  have dir: "dir_base ?m = dir_base m" by (simp add: dir_base_def)
  have pd: "pde ?m e = pde m e" if "e < 1024" for e
    using ph [OF dir_in_tables [OF inv] that] by (simp add: pde_def dir_base_def)
  have pt: "pte ?m e t = pte m e t" if "e < 1024" "t < 1024" "present (pde m e)" for e t
    using ph [OF frame_in_tables [OF inv that(1,3)] that(2)] pd that by (simp add: pte_def)
  have mmu: "mmu ?m v = mmu m v" for v using mmu_cong [OF inv pd pt] by blast
  have tf: "table_frames ?m = table_frames m" using pd by (rule table_frames_cong)
  have "vwrite a w m = Inr ?m" using pa by (simp add: vwrite_def)
  moreover have "vm_inv ?m" by (rule vm_inv_cong [OF inv pd pt]) (simp_all add: dir)
  moreover have "mapped_region ?m R" using R by (simp add: mapped_region_def frame_at_def mmu tf)
  moreover have "vval ?m b = (if b = a then w else vval m b)" if b: "b \<in> R" for b
  proof (cases "b = a")
    case True
    then show ?thesis using pa by (simp add: vval_def mmu)
  next
    case False
    have "the (mmu m b) \<noteq> pa"
    proof
      assume eq: "the (mmu m b) = pa"
      then have "same_page b a" using R a b pa by (auto simp add: mapped_region_def frame_at_def)
      moreover have "mmu m b = Some pa" using eq R b by (auto simp add: mapped_region_def)
      with pa have "(page_base (pte m (dir_of b) (tab_of b)) + (b AND 0xFFF)) = page_base (pte m (dir_of a) (tab_of a)) + (a AND 0xFFF)"
        by (auto simp add: mmu_eq split: if_splits)
      ultimately have "b AND 0xFFF = a AND 0xFFF" by (simp add: same_page_def)
      with \<open>same_page b a\<close> False show False using same_page_off by blast
    qed
    then show ?thesis using False by (simp add: vval_def mmu)
  qed
  ultimately show ?thesis using mmu by (intro exI [of _ ?m]) auto
qed

lemma heap_nat: "x < HEAP_LIMIT \<Longrightarrow> unat (of_nat x :: u32) = x"
  by (simp add: HEAP_LIMIT_def unat_of_nat)

lemma heap_memD:
  assumes "heap_mem lo hi v m"
  shows "vm_inv m" "4096 dvd hi" "hi \<le> HEAP_LIMIT" "mapped_region m (region lo hi)"
    "a \<in> region hi HEAP_LIMIT \<Longrightarrow> mmu m a = None"
    "lo \<le> x \<Longrightarrow> x < hi \<Longrightarrow> v x = vval m (of_nat x)"
    "lo \<le> x \<Longrightarrow> x < hi \<Longrightarrow> of_nat x \<in> region lo hi"
  using assms by (auto simp add: heap_mem_def region_def heap_nat)

lemma region_dir: "a \<in> region lo hi \<Longrightarrow> hi \<le> HEAP_LIMIT \<Longrightarrow> dir_of a \<noteq> 1023"
proof
  assume "a \<in> region lo hi" "hi \<le> HEAP_LIMIT" "dir_of a = 1023"
  then have "unat a div 0x400000 = 1023" "unat a < 0xFEE00000"
    using unat_dir_of [of a] by (auto simp add: region_def HEAP_LIMIT_def)
  then show False by linarith
qed

lemma heap_read: "heap_mem lo hi v m \<Longrightarrow> lo \<le> x \<Longrightarrow> x < hi \<Longrightarrow> vread (of_nat x) m = Inr (v x)"
  using vread_region [OF heap_memD(4,7)] heap_memD(6) by simp

lemma heap_write:
  assumes h: "heap_mem lo hi v m" and x: "lo \<le> x" "x < hi"
  shows "\<exists>m'. vwrite (of_nat x) w m = Inr m' \<and> heap_mem lo hi (v(x := w)) m' \<and> pmm m' = pmm m"
proof -
  obtain m' where m': "vwrite (of_nat x) w m = Inr m'" "vm_inv m'" "mapped_region m' (region lo hi)" "pmm m' = pmm m"
    "\<forall>v. mmu m' v = mmu m v" "\<forall>b \<in> region lo hi. vval m' b = (if b = of_nat x then w else vval m b)"
    using vwrite_region [OF heap_memD(1,4,7)] h x by metis
  have "(v(x := w)) y = vval m' (of_nat y)" if "lo \<le> y" "y < hi" for y
  proof -
    have "of_nat y = (of_nat x :: u32) \<longleftrightarrow> y = x"
      using heap_nat [of y] heap_nat [of x] that x heap_memD(3) [OF h] by (metis less_le_trans)
    then show ?thesis using m'(6) heap_memD(6,7) [OF h that] by auto
  qed
  then have "heap_mem lo hi (v(x := w)) m'"
    using m' heap_memD(2,3,5) [OF h] by (simp add: heap_mem_def)
  with m' show ?thesis by blast
qed

lemma page_split: "4096 dvd hi \<Longrightarrow> hi \<le> y \<Longrightarrow> y < hi + 4096 \<longleftrightarrow> y div 4096 = hi div 4096" for hi y :: nat
  by (auto elim!: dvdE)

lemma heap_grow_page:
  assumes h: "heap_mem lo hi v m" and room: "hi + 4096 \<le> HEAP_LIMIT" and res: "2 \<le> card (free_frames (pmm m))"
  shows "\<exists>m' v'. alloc_page (of_nat hi) (PTE_PRESENT OR PTE_RW) m = Inr m' \<and> heap_mem lo (hi + 4096) v' m'
    \<and> (\<forall>x<hi. v' x = v x) \<and> card (free_frames (pmm m)) \<le> card (free_frames (pmm m')) + 2"
proof -
  let ?a = "of_nat hi :: u32"
  have ua: "unat ?a = hi" using room by (intro heap_nat) simp
  then have reg: "?a \<in> region hi HEAP_LIMIT" using room by (simp add: region_def)
  note inv = heap_memD(1) [OF h]
  have sp: "same_page b ?a \<longleftrightarrow> unat b < hi + 4096" if "hi \<le> unat b" for b
    using page_split [OF heap_memD(2) [OF h] that] by (simp add: same_page_iff ua)
  have old: "\<not> same_page b ?a" if "unat b < hi" for b
    using that heap_memD(2) [OF h] by (auto simp add: same_page_iff ua elim!: dvdE)
  have "enough_frames ?a m" using res by (auto simp add: enough_frames_def)
  then obtain m' f where m': "alloc_page ?a 3 m = Inr m'" "vm_inv m'"
    and f: "f \<in> free_frames (pmm m)" "f \<notin> free_frames (pmm m')" "f \<notin> table_frames m'"
    and fr: "free_frames (pmm m') \<subseteq> free_frames (pmm m)" "card (free_frames (pmm m)) \<le> card (free_frames (pmm m')) + 2"
    and tf: "table_frames m' \<subseteq> table_frames m \<union> (free_frames (pmm m) - free_frames (pmm m'))"
    and ph: "\<And>a. page_base a div 4096 \<notin> table_frames m' \<Longrightarrow> phys m' a = phys m a"
    and mm: "\<And>b. dir_of b \<noteq> 1023 \<Longrightarrow> mmu m' b = (if same_page b ?a then Some (f * 4096 + (b AND 0xFFF)) else mmu m b)"
    using alloc_page_ok [OF inv region_dir [OF reg order_refl], of 3] heap_memD(5) [OF h reg]
    by (auto simp add: present_def)
  have new: "frame_at m' b = f \<and> mmu m' b \<noteq> None" if "b \<in> region lo (hi + 4096)" "\<not> unat b < hi" for b
  proof -
    have "mmu m' b = Some (f * 4096 + (b AND 0xFFF))"
      using mm [OF region_dir [OF that(1) room]] sp that by (simp add: region_def)
    then show ?thesis
      using page_off_div [of "f * 4096" b] pmm.free_bound [OF vm_invD(2) [OF inv] f(1)]
      by (simp add: frame_at_def page_base_frame frame_addr)
  qed
  have keep: "mmu m' b = mmu m b \<and> mmu m b \<noteq> None \<and> frame_at m b \<notin> table_frames m \<and> frame_at m b \<notin> free_frames (pmm m)"
    if "b \<in> region lo (hi + 4096)" "unat b < hi" for b
    using mm [OF region_dir [OF that(1) room]] old [OF that(2)] heap_memD(4) [OF h] that
    by (auto simp add: mapped_region_def region_def)
  then have keepf: "frame_at m' b = frame_at m b" if "b \<in> region lo (hi + 4096)" "unat b < hi" for b
    using that by (simp add: frame_at_def)
  have "mapped_region m' (region lo (hi + 4096))"
    unfolding mapped_region_def
  proof (intro conjI ballI impI)
    fix b assume b: "b \<in> region lo (hi + 4096)"
    show "dir_of b \<noteq> 1023" using region_dir [OF b room] .
    show "mmu m' b \<noteq> None" "frame_at m' b \<notin> table_frames m'" "frame_at m' b \<notin> free_frames (pmm m')"
      using keep [OF b] keepf [OF b] new [OF b] f fr tf by (cases "unat b < hi"; auto)+
  next
    fix b c assume bc: "b \<in> region lo (hi + 4096)" "c \<in> region lo (hi + 4096)" "frame_at m' b = frame_at m' c"
    show "same_page b c"
    proof (cases "unat b < hi"; cases "unat c < hi")
      assume "unat b < hi" "unat c < hi"
      then show ?thesis using bc keepf heap_memD(4) [OF h] by (auto simp add: mapped_region_def region_def)
    next
      assume "\<not> unat b < hi" "\<not> unat c < hi"
      then have "same_page b ?a" "same_page c ?a" using bc sp by (auto simp add: region_def)
      then show ?thesis by (simp add: same_page_def)
    qed (use bc keep keepf new f in metis)+
  qed
  moreover have "mmu m' b = None" if "b \<in> region (hi + 4096) HEAP_LIMIT" for b
    using mm [OF region_dir [OF that order_refl]] sp heap_memD(5) [OF h, of b] that by (auto simp add: region_def)
  moreover have "vval m' (of_nat x) = v x" if "lo \<le> x" "x < hi" for x
  proof -
    have "of_nat x \<in> region lo (hi + 4096)" "unat (of_nat x :: u32) < hi"
      using that room heap_nat [of x] by (simp_all add: region_def)
    note k = keep [OF this] keepf [OF this]
    then have "frame_at m (of_nat x) \<notin> table_frames m'" using tf fr by blast
    then have "phys m' (the (mmu m (of_nat x))) = phys m (the (mmu m (of_nat x)))"
      by (intro ph) (simp add: frame_at_def)
    with k show ?thesis using heap_memD(6) [OF h that] by (simp add: vval_def)
  qed
  ultimately have "heap_mem lo (hi + 4096) (\<lambda>x. if x < hi then v x else vval m' (of_nat x)) m'"
    using m'(2) heap_memD(2) [OF h] room by (simp add: heap_mem_def)
  then show ?thesis using m'(1) fr(2) by (intro exI [of _ m'] exI [of _ "\<lambda>x. if x < hi then v x else vval m' (of_nat x)"]) simp
qed

lemma heap_grow_out:
  assumes h: "heap_mem lo hi v m" and room: "hi + 4096 \<le> HEAP_LIMIT" and none: "card (free_frames (pmm m)) = 0"
  shows "alloc_page (of_nat hi) fl m = Inl OutOfRAM"
proof -
  have "of_nat hi \<in> region hi HEAP_LIMIT" using room heap_nat [of hi] by (simp add: region_def)
  with heap_memD(5) [OF h] have "mmu m (of_nat hi) = None" by blast
  moreover have "free_frames (pmm m) = {}" using none by simp
  ultimately show ?thesis using alloc_page_eq [OF heap_memD(1) [OF h]] by simp
qed

interpretation heap: arena heap_mem vread vwrite "\<lambda>a. alloc_page a (PTE_PRESENT OR PTE_RW)"
  "\<lambda>m. card (free_frames (pmm m))" HEAP_LIMIT
proof unfold_locales
  fix lo hi v m x w assume "heap_mem lo hi v m" "lo \<le> x" "x < hi"
  then show "vread (of_nat x) m = Inr (v x)"
    and "\<exists>m'. vwrite (of_nat x) w m = Inr m' \<and> heap_mem lo hi (v(x := w)) m'
      \<and> card (free_frames (pmm m')) = card (free_frames (pmm m))"
    using heap_read heap_write by (blast, metis)
qed (use heap_grow_page heap_grow_out in auto)

end
