(* ===== verification/Paging_Props.thy ===== *)
theory Paging_Props
  imports Paging_Ops
begin

text \<open>
  The properties of the virtual memory manager: what each of \<open>map_page\<close>, \<open>alloc_page\<close>,
  \<open>unmap_page\<close> and \<open>free_page\<close> does on every branch, and the case in which the invariant is
  lost because an allocation failure inside \<open>map_page\<close> is not looked at.
\<close>

section \<open>Specification vocabulary\<close>

definition sample_mm :: mm_state where
  "sample_mm = \<lparr>phys = (\<lambda>a. if a = 0x1FFC then 0x1003 else 0), cr3 = 0x1000, kernel_directory = 0xC0001000,
     paging_enabled = 1, ref_counter = (\<lambda>_. 0), pmm = sample_pmm\<rparr>"

section \<open>Lemmas\<close>

lemma vwrite_pmm: "vwrite a w s = Inr s' \<Longrightarrow> pmm s' = pmm s"
  by (auto simp add: vwrite_def split: option.splits)

lemma memset_zero_pmm: "memset_zero n a s = Inr s' \<Longrightarrow> pmm s' = pmm s"
  by (induction n arbitrary: a s) (auto simp add: andthen_Inr_iff dest: vwrite_pmm)

lemma pmm_alloc_frame_max: "max_blocks (snd (pmm_alloc_frame s)) = max_blocks s"
proof -
  have "max_blocks (snd (pmm_alloc_loop i n st s)) = max_blocks s" for i n st
  proof (induction i n st s rule: pmm_alloc_loop.induct)
    case (1 i n st s)
    then show ?case by (subst pmm_alloc_loop.simps) (simp add: Let_def)
  qed
  then show ?thesis by (simp add: pmm_alloc_frame_def Let_def)
qed

lemma map_page_max:
  assumes "vm_inv s" "map_page va p fl s = Inr s'"
  shows "max_blocks (pmm s') = max_blocks (pmm s)"
proof -
  have new: "max_blocks (pmm s1) = max_blocks (pmm s)" if "new_page_table d fl s = Inr s1" for d s1
    using that pmm_alloc_frame_max [of "pmm s"]
    by (auto simp add: new_page_table_def case_prod_beta Let_def andthen_Inr_iff dest!: vwrite_pmm memset_zero_pmm)
  then show ?thesis
    using assms vm_invD(1) [OF assms(1)]
    by (auto simp add: map_page_def Let_def andthen_Inr_iff dest!: vwrite_pmm split: if_splits)
qed

lemma alloc_page_max:
  assumes "vm_inv s" "alloc_page va fl s = Inr s'"
  shows "max_blocks (pmm s') = max_blocks (pmm s)"
proof -
  let ?pm = "snd (pmm_alloc_frame (pmm s))"
  have "vm_inv (s\<lparr>pmm := ?pm\<rparr>)"
    using pmm.alloc_inv pmm.alloc_shrinks vm_invD(2) [OF assms(1)] by (intro vm_inv_pmm_shrink [OF assms(1)]) auto
  moreover have "map_page va (fst (pmm_alloc_frame (pmm s))) fl (s\<lparr>pmm := ?pm\<rparr>) = Inr s'"
    using assms alloc_page_eq [OF assms(1)] by (simp split: if_splits)
  ultimately show ?thesis using map_page_max pmm_alloc_frame_max by fastforce
qed

lemma mapped_slots_clear:
  assumes "vm_inv s" "d < 1024" "d \<noteq> 1023" "t < 1024" "present (pde s d)"
  shows "mapped_slots (clear_slot d t s) d = mapped_slots s d - {t}"
proof (cases "present (pte s d t)")
  case True
  have nd: "page_base (pde s d) \<noteq> dir_base s" using table_not_dir [OF assms(1-3,5)] .
  let ?s = "s\<lparr>ref_counter := (ref_counter s)(d := ref_counter s d - 1)\<rparr>"
  have "pte (set_pte d t 0 ?s) d u = (if u = t then 0 else pte s d u)" if "u < 1024" for u
    using pte_set_pte [of ?s d t d u 0] that nd assms by simp
  then show ?thesis using True assms nd by (auto simp add: mapped_slots_def clear_slot_def split: if_splits)
qed (auto simp add: mapped_slots_def clear_slot_def)

lemma unmap_last_page:
  assumes inv: "vm_inv s" and d: "dir_of va < 768" and p: "present (pde s (dir_of va))"
    and last: "mapped_slots s (dir_of va) \<subseteq> {tab_of va}" and u: "unmap_page va s = Inr s'"
  shows "\<not> present (pde s' (dir_of va))"
    and "page_base (pde s (dir_of va)) div 4096 < max_blocks (pmm s) \<Longrightarrow>
      page_base (pde s (dir_of va)) div 4096 \<in> free_frames (pmm s')"
proof -
  let ?d = "dir_of va" let ?s = "clear_slot ?d (tab_of va) s"
  have d': "?d \<noteq> 1023" using d by auto
  note c = clear_slot_inv [OF inv _ d' _ p, of "tab_of va"]
  have "mapped_slots ?s ?d = {}" using mapped_slots_clear [OF inv _ d' _ p, of "tab_of va"] last by auto
  then have "ref_counter ?s ?d = 0" using vm_invD(8) [OF c, of ?d] d by simp
  then obtain pm where pm: "pmm_free_frame (page_base (pde s ?d)) (pmm s) = Inr pm"
    "s' = set_pde ?d 0 (?s\<lparr>pmm := pm\<rparr>)"
    using u d unmap_page_eq [OF inv p d'] by (auto simp add: Let_def andthen_Inr_iff)
  then show "\<not> present (pde s' ?d)" by simp
  assume "page_base (pde s ?d) div 4096 < max_blocks (pmm s)"
  then show "page_base (pde s ?d) div 4096 \<in> free_frames (pmm s')"
    using pmm_free_frame_free [OF pm(1)] pm(2) by simp
qed

lemma no_frame_table:
  assumes inv: "vm_inv s" and d: "d < 1024" "\<not> present (pde s d)" and none: "free_frames (pmm s) = {}"
  shows "\<exists>s'. new_page_table d 3 s = Inr s' \<and> pde s' d = 3 \<and> recursive s' \<and> paging_enabled s' \<noteq> 0 \<and> dir_base s' = dir_base s"
proof -
  note rec = vm_invD(4) [OF inv]
  have d': "d \<noteq> 1023" using d(2) rec by (auto simp add: recursive_def)
  have "dir_base s \<noteq> 0" using vm_invD(7) [OF inv, of 1023] rec by (auto simp add: recursive_def)
  moreover have "page_base 3 = 0" "present 3" by (simp_all add: page_base_def present_def)
  moreover have "new_page_table d 3 s = memset_zero 1024 (RECURSIVE_TABLE_PTR d) (set_pde d 3 s)"
    using pmm_alloc_none [OF vm_invD(2) [OF inv] none] rec d by (simp add: new_page_table_def)
  moreover have "recursive (set_pde d 3 s)" using rec d d' by (simp add: recursive_set_pde)
  ultimately show ?thesis
    using memset_table [of "set_pde d 3 s" d 0 1024] d vm_invD(1) [OF inv] by auto
qed

lemma sample_pde: "e < 1024 \<Longrightarrow> pde sample_mm e = (if e = 1023 then 0x1003 else 0)"
proof -
  assume e: "e < 1024"
  have "(0x1000 + e * 4 = 0x1FFC) \<longleftrightarrow> e = 1023"
    using slot_eq_iff [OF e, of 1023 "0x1000" "0x1000"] by (simp add: page_base_def word_less_nat_alt)
  then show ?thesis by (simp add: pde_def sample_mm_def dir_base_def page_base_def)
qed

lemma sample_vm_inv_pool:
  assumes "pmm_inv pm" "0 \<notin> free_frames pm" "1 \<notin> free_frames pm"
  shows "vm_inv (sample_mm\<lparr>pmm := pm\<rparr>)"
proof -
  have f: "paging_enabled sample_mm = 1" "ref_counter sample_mm = (\<lambda>_. 0)" "dir_base sample_mm = 0x1000"
    by (simp_all add: sample_mm_def dir_base_def page_base_def)
  have p: "present (pde sample_mm e) \<longleftrightarrow> e = 1023" if "e < 1024" for e
    using sample_pde [OF that] by (simp add: present_def)
  have b: "page_base (pde sample_mm 1023) = 0x1000" by (simp add: sample_pde page_base_def)
  have "mapped_slots (sample_mm\<lparr>pmm := pm\<rparr>) d = {}" if "d < 768" for d
    using p [of d] that by (auto simp add: mapped_slots_def word_less_nat_alt)
  with assms p b f show ?thesis unfolding vm_inv_def recursive_def by auto
qed

lemma sample_vm_inv: "vm_inv sample_mm"
proof -
  have "0 \<notin> free_frames sample_pmm" "1 \<notin> free_frames sample_pmm"
    by (simp_all add: sample_frames word_le_nat_alt)
  from sample_vm_inv_pool [OF sample_pmm_inv this] show ?thesis by (simp add: sample_mm_def)
qed

lemma sample_mm_view:
  "pmm sample_mm = sample_pmm" "\<not> present (pde sample_mm 768)" "mmu sample_mm 0xC0000000 = None" "dir_of 0xC0000000 = 768"
proof -
  show d: "dir_of 0xC0000000 = 768" by (simp add: dir_of_def)
  show p: "\<not> present (pde sample_mm 768)" by (simp add: sample_pde)
  show "mmu sample_mm 0xC0000000 = None" using p by (simp add: mmu_None_iff d)
qed (simp add: sample_mm_def)

lemma sample_reserve: "card (free_frames (pmm sample_mm)) = 28"
  by (simp add: sample_mm_view sample_frames card_interval)

text \<open>
  C24: \<open>map_page\<close> outside the recursive window, with a page table present or a frame left to build one,
  succeeds, keeps the invariant of the address space, makes the processor translate exactly the
  given page to the given frame, and leaves the translation of every other address and every
  physical word outside the page tables as they were.
\<close>

theorem map_page_translates:
  assumes "vm_inv s" "map_ok va p fl s"
  shows "\<exists>s'. map_page va p fl s = Inr s' \<and> vm_inv s'
    \<and> (\<forall>v. dir_of v \<noteq> 1023 \<longrightarrow> mmu s' v = (if same_page v va then Some (p + (v AND 0xFFF)) else mmu s v))
    \<and> (\<forall>a. page_base a div 4096 \<notin> table_frames s' \<longrightarrow> phys s' a = phys s a)"
  using map_page_ok [OF assms] by blast

theorem map_page_translates_witness:
  "\<exists>s'. map_page 0xC0000000 0x5000 3 sample_mm = Inr s' \<and> mmu s' 0xC0000123 = Some 0x5123"
proof -
  have "map_ok 0xC0000000 0x5000 3 sample_mm"
    using sample_reserve by (auto simp add: map_ok_def sample_mm_view page_base_def present_def)
  from map_page_translates [OF sample_vm_inv this] obtain s' where
    "map_page 0xC0000000 0x5000 3 sample_mm = Inr s'"
    "mmu s' 0xC0000123 = (if same_page 0xC0000123 0xC0000000 then Some (0x5000 + (0xC0000123 AND 0xFFF)) else mmu sample_mm 0xC0000123)"
    by (auto simp add: dir_of_def)
  then show ?thesis by (simp add: same_page_def dir_of_def tab_of_def)
qed



text \<open>
  C23: \<open>free_page\<close> undoes \<open>alloc_page\<close>: it succeeds on the page just allocated, every address translates
  as before, the invariant holds again and the frame is back in the pool, so that no memory leaks.
\<close>

theorem alloc_free_page_roundtrip:
  assumes "vm_inv s" "dir_of va \<noteq> 1023" "unat fl < 4096" "present fl" "mmu s va = None" "enough_frames va s"
  shows "\<exists>s1 s2. alloc_page va fl s = Inr s1 \<and> free_page va s1 = Inr s2 \<and> vm_inv s2
    \<and> (\<forall>v. dir_of v \<noteq> 1023 \<longrightarrow> mmu s2 v = mmu s v)
    \<and> (\<exists>f \<in> free_frames (pmm s). mmu s1 va = Some (f * 4096 + (va AND 0xFFF))
          \<and> f \<in> free_frames (pmm s2))"
proof -
  obtain s1 f where s1: "alloc_page va fl s = Inr s1" "vm_inv s1" "f \<in> free_frames (pmm s)"
    "f \<notin> free_frames (pmm s1)" "f \<notin> table_frames s1"
    "\<And>v. dir_of v \<noteq> 1023 \<Longrightarrow> mmu s1 v = (if same_page v va then Some (f * 4096 + (v AND 0xFFF)) else mmu s v)"
    using alloc_page_ok [OF assms] by blast
  have same: "same_page va va" by (simp add: same_page_def)
  have m: "mmu s1 va = Some (f * 4096 + (va AND 0xFFF))" using s1(6) [OF assms(2)] same by simp
  have f0: "f \<noteq> 0" using s1(3) vm_invD(3) [OF assms(1)] by blast
  have "unat f < 0x100000" using pmm.free_bound [OF vm_invD(2) [OF assms(1)] s1(3)] .
  then have b: "page_base (f * 4096) = f * 4096" "f * 4096 div 4096 = f"
    by (simp_all add: page_base_frame frame_addr)
  have "page_base (pte s1 (dir_of va) (tab_of va)) + (va AND 0xFFF) = f * 4096 + (va AND 0xFFF)"
    using m by (simp add: mmu_eq split: if_splits)
  then have g: "f = page_base (pte s1 (dir_of va) (tab_of va)) div 4096" using b by simp
  obtain s2 where "free_page va s1 = Inr s2" "vm_inv s2"
    "\<forall>v. dir_of v \<noteq> 1023 \<longrightarrow> mmu s2 v = (if same_page v va then None else mmu s1 v)"
    "insert f (free_frames (pmm s1)) \<inter> {f. f < max_blocks (pmm s1)} \<subseteq> free_frames (pmm s2)"
    using free_page_ok [OF s1(2) assms(2) _ g s1(4,5) f0] m by auto
  moreover have "same_page v va \<Longrightarrow> mmu s v = None" for v
    using assms(5) by (simp add: mmu_None_iff same_page_def)
  moreover have "f < max_blocks (pmm s1)"
    using s1(3) alloc_page_max [OF assms(1) s1(1)] by (simp add: free_frames_def)
  ultimately show ?thesis using s1(1,3,6) m by (intro exI [of _ s1] exI [of _ s2]) auto
qed

theorem alloc_free_page_roundtrip_witness:
  "\<exists>s1 s2. alloc_page 0xC0000000 3 sample_mm = Inr s1 \<and> free_page 0xC0000000 s1 = Inr s2
     \<and> mmu s2 0xC0000000 = None"
proof -
  have "enough_frames 0xC0000000 sample_mm" by (simp add: enough_frames_def sample_reserve)
  then show ?thesis
    using alloc_free_page_roundtrip [OF sample_vm_inv, of "0xC0000000" 3]
    by (fastforce simp add: sample_mm_view present_def)
qed

text \<open>
  C26: \<open>unmap_page\<close> clears exactly one translation, and when the last page of a user-space table
  (directory index below 768, by \<open>page_table_ref_counter\<close>) goes, the table's frame returns to the
  pool and its directory entry is cleared; a missing directory entry panics.
\<close>

theorem unmap_page_releases_table:
  assumes "vm_inv s" "dir_of va \<noteq> 1023" "present (pde s (dir_of va))"
  shows "\<exists>s'. unmap_page va s = Inr s' \<and> vm_inv s'
    \<and> (\<forall>v. dir_of v \<noteq> 1023 \<longrightarrow> mmu s' v = (if same_page v va then None else mmu s v))
    \<and> (mapped_slots s (dir_of va) \<subseteq> {tab_of va} \<and> dir_of va < 768 \<longrightarrow> \<not> present (pde s' (dir_of va))
        \<and> (page_base (pde s (dir_of va)) div 4096 < max_blocks (pmm s) \<longrightarrow>
            page_base (pde s (dir_of va)) div 4096 \<in> free_frames (pmm s')))"
  using unmap_page_ok [OF assms] unmap_last_page [OF assms(1) _ assms(3)] by blast

theorem unmap_page_releases_table_witness:
  "\<exists>s1 s2. map_page 0x400000 0x5000 3 sample_mm = Inr s1 \<and> unmap_page 0x400000 s1 = Inr s2
     \<and> vm_inv s2 \<and> mmu s2 0x400000 = None"
proof -
  have "map_ok 0x400000 0x5000 3 sample_mm"
    using sample_reserve by (auto simp add: map_ok_def dir_of_def page_base_def present_def)
  from map_page_ok [OF sample_vm_inv this] obtain s1 where
    s1: "map_page 0x400000 0x5000 3 sample_mm = Inr s1" "vm_inv s1"
    "mmu s1 0x400000 \<noteq> None"
    by (auto simp add: same_page_def dir_of_def)
  then have "present (pde s1 (dir_of 0x400000))" by (simp add: mmu_None_iff)
  from unmap_page_releases_table [OF s1(2) _ this] s1(1) show ?thesis
    by (fastforce simp add: dir_of_def same_page_def)
qed

text \<open>
  \<open>map_page\<close> does not look at the result of its own \<open>pmm_alloc_frame\<close>. When the page \<open>alloc_page\<close>
  maps needs a new table and only one frame is left, the check for exhausted memory passes, the
  call reports success, and physical frame 0 is installed as the page table: the invariant is lost.
\<close>

theorem alloc_page_last_frame_table_at_zero:
  assumes "vm_inv s" "dir_of va \<noteq> 1023" "\<not> present (pde s (dir_of va))" "free_frames (pmm s) = {f}"
  shows "\<exists>s'. alloc_page va (PTE_PRESENT OR PTE_RW) s = Inr s' \<and> pde s' (dir_of va) = 3 \<and> \<not> vm_inv s'"
proof -
  let ?pm = "snd (pmm_alloc_frame (pmm s))" let ?d = "dir_of va"
  have u: "mmu s va = None" using assms(3) by (simp add: mmu_None_iff)
  have pm: "pmm_inv ?pm" "free_frames ?pm = {}"
    using pmm.alloc_takes [OF vm_invD(2) [OF assms(1)]] assms(4) by auto
  let ?s = "s\<lparr>pmm := ?pm\<rparr>"
  have inv: "vm_inv ?s" using pm by (intro vm_inv_pmm_shrink [OF assms(1)]) auto
  obtain s1 where s1: "new_page_table ?d 3 ?s = Inr s1" "pde s1 ?d = 3" "recursive s1" "paging_enabled s1 \<noteq> 0"
    "dir_base s1 = dir_base s"
    using no_frame_table [OF inv, of ?d] assms(3) pm(2) by auto
  have p3: "present 3" "page_base 3 = 0" by (simp_all add: present_def page_base_def)
  let ?w = "fst (pmm_alloc_frame (pmm s)) OR 3" let ?s2 = "set_pte ?d (tab_of va) ?w (count_map ?d (tab_of va) s1)"
  have "map_page va (fst (pmm_alloc_frame (pmm s))) 3 ?s = Inr ?s2"
    using s1 p3 assms(3) vm_invD(1,4) [OF inv] vwrite_table [of "count_map ?d (tab_of va) s1" ?d "tab_of va"]
    by (simp add: map_page_def dir_of_def [symmetric] tab_of_def [symmetric] Let_def absent_iff count_map_def)
  moreover have "dir_base s \<noteq> 0"
    using vm_invD(7) [OF assms(1), of 1023] vm_invD(4) [OF assms(1)] by (auto simp add: recursive_def)
  then have "pde ?s2 ?d = 3" using s1 p3 by simp
  moreover from this have "\<not> vm_inv ?s2" using vm_invD(7) [of ?s2 ?d] p3 by auto
  ultimately show ?thesis using alloc_page_eq [OF assms(1)] u assms(4) by (intro exI [of _ ?s2]) simp
qed

theorem alloc_page_last_frame_table_at_zero_witness:
  "\<exists>s'. alloc_page 0xC0000000 (PTE_PRESENT OR PTE_RW) (sample_mm\<lparr>pmm := low_pmm 31\<rparr>) = Inr s' \<and> \<not> vm_inv s'"
proof -
  have "x = 31" if "31 \<le> x" "x < 32" for x :: u32
    using that by (simp add: word_le_nat_alt word_less_nat_alt word_unat_eq_iff)
  then have fr: "free_frames (low_pmm 31) = {31}" using low_frames [of 31] by auto
  have "vm_inv (sample_mm\<lparr>pmm := low_pmm 31\<rparr>)"
    using low_pmm_inv [of 31] by (intro sample_vm_inv_pool) (simp_all add: fr)
  then show ?thesis
    using alloc_page_last_frame_table_at_zero [of "sample_mm\<lparr>pmm := low_pmm 31\<rparr>" "0xC0000000" 31] fr
    by (auto simp add: sample_mm_view)
qed

end
