(* ===== verification/Kmalloc.thy ===== *)
theory Kmalloc
  imports Paged_Mem Paging_Props
begin

text \<open>
  The kernel heap, \<open>src/src/kernel/kmalloc.c\<close>: a free list of blocks in address order, each headed by
  two words (\<open>size_and_flags\<close>, whose lowest bit means free, and \<open>next_free_slot\<close>), on virtual memory
  that \<open>alloc_page\<close> extends at \<open>heap_watermark\<close>. The headers live in the memory of the machine and are
  read and written through the processor's translation, so a corrupt list may fault or never end:
  the two list searches are partial functions whose value \<open>None\<close> stands for not returning.
\<close>

section \<open>The allocator\<close>

record heap_state =
  free_list_head :: u32
  heap_watermark :: u32
  hvm :: mm_state

definition hload :: "u32 \<Rightarrow> heap_state \<Rightarrow> panic + u32" where
  "hload a h = vread a (hvm h)"

definition hstore :: "u32 \<Rightarrow> u32 \<Rightarrow> heap_state \<Rightarrow> panic + heap_state" where
  "hstore a w h = andthen (vwrite a w (hvm h)) (\<lambda>m. Inr (h\<lparr>hvm := m\<rparr>))"

definition hmodify :: "u32 \<Rightarrow> (u32 \<Rightarrow> u32) \<Rightarrow> heap_state \<Rightarrow> panic + heap_state" where
  "hmodify a f h = andthen (hload a h) (\<lambda>w. hstore a (f w) h)"

definition size_and_flags :: "u32 \<Rightarrow> u32" where
  "size_and_flags block = block"

definition next_free_slot :: "u32 \<Rightarrow> u32" where
  "next_free_slot block = block + 4"

definition SIZEOF_HEADER :: u32 where
  "SIZEOF_HEADER = 8"

partial_function (option) find_fit ::
  "u32 \<Rightarrow> u32 \<Rightarrow> u32 \<Rightarrow> heap_state \<Rightarrow> (panic + (u32 \<times> u32)) option" where
  "find_fit real_size current previous h =
     (if current = 0 then Some (Inr (current, previous))
      else case hload (size_and_flags current) h of
        Inl e \<Rightarrow> Some (Inl e)
      | Inr w \<Rightarrow>
          if w AND NOT 1 \<ge> real_size then Some (Inr (current, previous))
          else case hload (next_free_slot current) h of
            Inl e \<Rightarrow> Some (Inl e)
          | Inr nxt \<Rightarrow> find_fit real_size nxt current h)"

definition relink :: "u32 \<Rightarrow> u32 \<Rightarrow> heap_state \<Rightarrow> panic + heap_state" where
  "relink previous block h =
     (if previous = 0 then Inr (h\<lparr>free_list_head := block\<rparr>) else hstore (next_free_slot previous) block h)"

definition take_block :: "u32 \<Rightarrow> u32 \<Rightarrow> u32 \<Rightarrow> heap_state \<Rightarrow> panic + (u32 \<times> heap_state)" where
  "take_block real_size current previous h =
     andthen (hload (size_and_flags current) h) (\<lambda>w.
     let size = w AND NOT 1;
         remaining_space = size - real_size
     in andthen
          (if remaining_space \<ge> SIZEOF_HEADER + 4 then
             let new_block = current + real_size in
             andthen (hstore (size_and_flags new_block) remaining_space h) (\<lambda>h1.
             andthen (hmodify (size_and_flags new_block) (\<lambda>x. x OR 1) h1) (\<lambda>h2.
             andthen (hstore (size_and_flags current) real_size h2) (\<lambda>h3.
             andthen (hmodify (size_and_flags current) (\<lambda>x. x AND NOT 1) h3) (\<lambda>h4.
             andthen (hload (next_free_slot current) h4) (\<lambda>nxt.
             andthen (hstore (next_free_slot new_block) nxt h4) (\<lambda>h5.
             relink previous new_block h5))))))
           else
             andthen (hmodify (size_and_flags current) (\<lambda>x. x AND NOT 1) h) (\<lambda>h1.
             andthen (hload (next_free_slot current) h1) (\<lambda>nxt.
             relink previous nxt h1)))
          (\<lambda>h'. Inr (current + SIZEOF_HEADER, h')))"

primrec heap_grow :: "nat \<Rightarrow> heap_state \<Rightarrow> panic + heap_state" where
  "heap_grow 0 h = Inr h"
| "heap_grow (Suc n) h =
     andthen (alloc_page (heap_watermark h) (PTE_PRESENT OR PTE_RW) (hvm h)) (\<lambda>m.
       heap_grow n (h\<lparr>hvm := m, heap_watermark := heap_watermark h + 4096\<rparr>))"

definition expand_heap :: "u32 \<Rightarrow> u32 \<Rightarrow> heap_state \<Rightarrow> panic + (u32 \<times> heap_state)" where
  "expand_heap real_size previous h =
     (let new_block_addr = heap_watermark h;
          pages_needed = (real_size + 4095) div 4096
      in andthen (heap_grow (unat pages_needed) h) (\<lambda>h1.
         let remaining_space = pages_needed * 4096 - real_size;
             new_block = new_block_addr
         in andthen
              (if remaining_space \<ge> SIZEOF_HEADER + 4 then
                 let last_block = new_block_addr + real_size in
                 andthen (hstore (size_and_flags last_block) remaining_space h1) (\<lambda>h2.
                 andthen (hmodify (size_and_flags last_block) (\<lambda>x. x OR 1) h2) (\<lambda>h3.
                 andthen (hstore (next_free_slot last_block) 0 h3) (\<lambda>h4.
                 andthen (hstore (size_and_flags new_block) real_size h4) (\<lambda>h5.
                 andthen (hmodify (size_and_flags new_block) (\<lambda>x. x AND NOT 1) h5) (\<lambda>h6.
                 if free_list_head h6 = 0 then Inr (h6\<lparr>free_list_head := last_block\<rparr>)
                 else hstore (next_free_slot previous) last_block h6)))))
               else hstore (size_and_flags new_block) ((pages_needed * 4096) AND NOT 1) h1)
              (\<lambda>h'. Inr (new_block_addr + SIZEOF_HEADER, h'))))"

definition kmalloc :: "u32 \<Rightarrow> heap_state \<Rightarrow> (panic + (u32 \<times> heap_state)) option" where
  "kmalloc bytes_to_allocate h =
     (if bytes_to_allocate \<le> 0 then Some (Inr (0, h))
      else
        let real_size = (bytes_to_allocate + SIZEOF_HEADER + 15) AND NOT 0xF in
        case find_fit real_size (free_list_head h) 0 h of
          None \<Rightarrow> None
        | Some r \<Rightarrow> Some (andthen r (\<lambda>(current, previous).
            if current \<noteq> 0 then take_block real_size current previous h
            else expand_heap real_size previous h)))"

partial_function (option) find_slot ::
  "u32 \<Rightarrow> u32 \<Rightarrow> u32 \<Rightarrow> heap_state \<Rightarrow> (panic + (u32 \<times> u32)) option" where
  "find_slot current head prev h =
     (if head \<noteq> 0 \<and> head < current
      then case hload (next_free_slot head) h of
             Inl e \<Rightarrow> Some (Inl e)
           | Inr nxt \<Rightarrow> find_slot current nxt head h
      else Some (Inr (head, prev)))"

definition merge_next :: "u32 \<Rightarrow> u32 \<Rightarrow> heap_state \<Rightarrow> panic + heap_state" where
  "merge_next current head h =
     andthen (hload (size_and_flags current) h) (\<lambda>w.
     let current_size = w AND NOT 1 in
     if head \<noteq> 0 \<and> current + current_size = head then
       andthen (hload (size_and_flags head) h) (\<lambda>hw.
       andthen (hmodify (size_and_flags current) (\<lambda>x. x + (hw AND NOT 1)) h) (\<lambda>h1.
       andthen (hload (next_free_slot head) h1) (\<lambda>nxt.
       hstore (next_free_slot current) nxt h1)))
     else Inr h)"

definition merge_prev :: "u32 \<Rightarrow> u32 \<Rightarrow> heap_state \<Rightarrow> panic + heap_state" where
  "merge_prev current prev h =
     (if prev \<noteq> 0 then
        andthen (hload (size_and_flags prev) h) (\<lambda>w.
        let prev_size = w AND NOT 1 in
        if prev + prev_size = current then
          andthen (hload (size_and_flags current) h) (\<lambda>cw.
          andthen (hmodify (size_and_flags prev) (\<lambda>x. x + (cw AND NOT 1)) h) (\<lambda>h1.
          andthen (hload (next_free_slot current) h1) (\<lambda>nxt.
          hstore (next_free_slot prev) nxt h1)))
        else Inr h)
      else Inr h)"

definition kfree :: "u32 \<Rightarrow> heap_state \<Rightarrow> (panic + heap_state) option" where
  "kfree address h =
     (let current = address - SIZEOF_HEADER in
      case hload (size_and_flags current) h of
        Inl e \<Rightarrow> Some (Inl e)
      | Inr w \<Rightarrow>
          if w AND 1 \<noteq> 0 then Some (Inl UseAfterFree)
          else case hmodify (size_and_flags current) (\<lambda>x. x OR 1) h of
            Inl e \<Rightarrow> Some (Inl e)
          | Inr h1 \<Rightarrow>
              (case find_slot current (free_list_head h1) 0 h1 of
                 None \<Rightarrow> None
               | Some r \<Rightarrow> Some (andthen r (\<lambda>(head, prev).
                   andthen (hstore (next_free_slot current) head h1) (\<lambda>h2.
                   andthen (relink prev current h2) (\<lambda>h3.
                   andthen (merge_next current head h3) (\<lambda>h4.
                   merge_prev current prev h4)))))))"

definition kmalloc_init :: "u32 \<Rightarrow> heap_state \<Rightarrow> heap_state" where
  "kmalloc_init kernel_end h =
     (let watermark = kernel_end + 0x400000
      in h\<lparr>heap_watermark := (watermark + 0xFFF) AND NOT 0xFFF\<rparr>)"

end
