(* ===== verification/Threads.thy ===== *)
theory Threads
  imports Scheduler Kmalloc
begin

text \<open>
  Threads and synchronisation (\<open>src/src/kernel/thread.c\<close>, the structures of \<open>src/include/kernel/thread.h\<close>): creation
  of kernel threads, the start of multitasking, the cleaner that frees terminated threads, semaphores and mutexes.

  The state adds to the scheduler's the stores of semaphores and mutexes, indexed by their addresses, and the heap they and
  the control blocks are allocated from. The addresses of the functions whose addresses the code stores are parameters.
  An operation that allocates or frees has an outcome of its own for a panic of the heap. The loop of the cleaner is
  modelled pass by pass; the part that follows the list of terminated threads is a partial function.
\<close>

section \<open>Specification vocabulary\<close>

record semaphore =
  max_count :: u16
  current_count :: u16
  sem_first_waiting_thread :: u32
  sem_last_waiting_thread :: u32

record mutex =
  owner_thread :: u32
  mtx_first_waiting_thread :: u32
  mtx_last_waiting_thread :: u32

record kernel_state =
  sched :: sched_state
  semaphores :: "u32 \<Rightarrow> semaphore"
  mutexes :: "u32 \<Rightarrow> mutex"
  kheap :: heap_state

text \<open>The addresses the linker gives to the functions whose addresses the code stores.\<close>

record code_addresses =
  addr_idle_thread_method :: u32
  addr_cleaner_task :: u32
  addr_thread_exit :: u32

text \<open>\<open>sizeof\<close> on i386, where a \<open>uint64_t\<close> member of a structure is aligned to four bytes.\<close>

definition SIZEOF_TCB :: u32 where "SIZEOF_TCB = 48"
definition SIZEOF_SEMAPHORE :: u32 where "SIZEOF_SEMAPHORE = 12"
definition SIZEOF_MUTEX :: u32 where "SIZEOF_MUTEX = 12"

definition kbind :: "(panic + 'a) option \<Rightarrow> ('a \<Rightarrow> (panic + 'b) option) \<Rightarrow> (panic + 'b) option" where
  "kbind r f = (case r of None \<Rightarrow> None | Some (Inl e) \<Rightarrow> Some (Inl e) | Some (Inr a) \<Rightarrow> f a)"

definition on_sched :: "(sched_state \<Rightarrow> sched_state) \<Rightarrow> kernel_state \<Rightarrow> kernel_state" where
  "on_sched f k = k\<lparr>sched := f (sched k)\<rparr>"

definition upd_sem :: "u32 \<Rightarrow> (semaphore \<Rightarrow> semaphore) \<Rightarrow> kernel_state \<Rightarrow> kernel_state" where
  "upd_sem x f k = k\<lparr>semaphores := (semaphores k)(x := f (semaphores k x))\<rparr>"

definition upd_mtx :: "u32 \<Rightarrow> (mutex \<Rightarrow> mutex) \<Rightarrow> kernel_state \<Rightarrow> kernel_state" where
  "upd_mtx x f k = k\<lparr>mutexes := (mutexes k)(x := f (mutexes k x))\<rparr>"

definition kmalloc_k :: "u32 \<Rightarrow> kernel_state \<Rightarrow> (panic + (u32 \<times> kernel_state)) option" where
  "kmalloc_k n k = kbind (kmalloc n (kheap k)) (\<lambda>(a, h). Some (Inr (a, k\<lparr>kheap := h\<rparr>)))"

definition kfree_k :: "u32 \<Rightarrow> kernel_state \<Rightarrow> (panic + kernel_state) option" where
  "kfree_k a k = kbind (kfree a (kheap k)) (\<lambda>h. Some (Inr (k\<lparr>kheap := h\<rparr>)))"

definition push_initial_frame :: "u32 \<Rightarrow> u32 \<Rightarrow> u32 \<Rightarrow> sched_state \<Rightarrow> sched_state" where
  "push_initial_frame stack entry_point exit_point s =
     s\<lparr>mem := (mem s)(stack := 0, stack + 4 := 0, stack + 8 := 0, stack + 12 := 0, stack + 16 := 0x202,
                      stack + 20 := entry_point, stack + 24 := exit_point)\<rparr>"

definition create_kernel_thread :: "code_addresses \<Rightarrow> u32 \<Rightarrow> kernel_state \<Rightarrow> (panic + kernel_state) option" where
  "create_kernel_thread code entry_point k =
     kbind (kmalloc_k SIZEOF_TCB k) (\<lambda>(new_thread, k1).
     kbind (kmalloc_k 4096 k1) (\<lambda>(stack_base_addr, k2).
     let stack = stack_base_addr + 4096 - 24;
         s1 = push_initial_frame stack entry_point (addr_thread_exit code) (sched k2);
         s2 = s1\<lparr>last_id := last_id s1 + 1\<rparr>;
         s3 = upd_tcb new_thread (\<lambda>c. c\<lparr>esp := stack, stack_base := stack_base_addr, state := THREAD_READY, time_used := 0,
                priority := 0, thread_id := last_id s2, remaining_time := FIRST_LIMIT, saved_interrupt_state := 0x202\<rparr>) s2
     in Some (Inr (k2\<lparr>sched := enqueue_thread new_thread 0 s3\<rparr>))))"

definition initialize_multitasking :: "code_addresses \<Rightarrow> kernel_state \<Rightarrow> (panic + kernel_state) option" where
  "initialize_multitasking code k =
     kbind (kmalloc_k SIZEOF_TCB k) (\<lambda>(root_thread, k1).
     let s1 = upd_tcb root_thread (\<lambda>c. c\<lparr>esp := 0, esp0 := 0, state := THREAD_RUNNING, thread_id := 0, time_used := 0,
                priority := 0, remaining_time := FIRST_LIMIT, saved_interrupt_state := 0x202\<rparr>) (sched k1);
         k2 = k1\<lparr>sched := s1\<lparr>current_thread := root_thread\<rparr>\<rparr>
     in kbind (kmalloc_k SIZEOF_TCB k2) (\<lambda>(idle, k3).
     let k4 = k3\<lparr>sched := (sched k3)\<lparr>idle_thread := idle\<rparr>\<rparr>
     in kbind (kmalloc_k 4096 k4) (\<lambda>(idle_stack_base, k5).
     let idle_stack = idle_stack_base + 4096 - 24;
         s2 = push_initial_frame idle_stack (addr_idle_thread_method code) (addr_thread_exit code) (sched k5);
         s3 = upd_tcb idle (\<lambda>c. c\<lparr>esp := idle_stack, stack_base := idle_stack_base, state := THREAD_READY, time_used := 0,
                priority := 2, thread_id := 0xFFFFFFFE, remaining_time := 0, saved_interrupt_state := 0x202\<rparr>) s2
     in create_kernel_thread code (addr_cleaner_task code) (k5\<lparr>sched := s3\<rparr>))))"

partial_function (option) cleaner_free :: "u32 \<Rightarrow> kernel_state \<Rightarrow> (panic + kernel_state) option" where
  "cleaner_free q k =
     (if q \<noteq> NULL then
        let tmp = next_thread (tcbs (sched k) q) in
        case kfree_k (stack_base (tcbs (sched k) q)) k of
          None \<Rightarrow> None
        | Some (Inl e) \<Rightarrow> Some (Inl e)
        | Some (Inr k1) \<Rightarrow>
            (case kfree_k q k1 of
               None \<Rightarrow> None
             | Some (Inl e) \<Rightarrow> Some (Inl e)
             | Some (Inr k2) \<Rightarrow> cleaner_free tmp k2)
      else Some (Inr k))"

definition cleaner_task_pass :: "kernel_state \<Rightarrow> (panic + kernel_state) option" where
  "cleaner_task_pass k =
     (let s1 = lock_scheduler (sched k);
          q = get_terminated_thread_queue s1;
          s2 = (if q \<noteq> NULL then set_terminated_thread_queue NULL s1 else s1);
          k1 = k\<lparr>sched := unlock_scheduler s2\<rparr>
      in kbind (cleaner_free q k1) (\<lambda>k2.
         case thread_sleep 2000 (sched k2) of None \<Rightarrow> None | Some s3 \<Rightarrow> Some (Inr (k2\<lparr>sched := s3\<rparr>))))"

definition create_semaphore :: "u16 \<Rightarrow> kernel_state \<Rightarrow> (panic + (u32 \<times> kernel_state)) option" where
  "create_semaphore limit k =
     kbind (kmalloc_k SIZEOF_SEMAPHORE k) (\<lambda>(x, k1).
       Some (Inr (x, upd_sem x (\<lambda>_. \<lparr>max_count = limit, current_count = 0, sem_first_waiting_thread = NULL, sem_last_waiting_thread = NULL\<rparr>) k1)))"

definition create_mutex :: "kernel_state \<Rightarrow> (panic + (u32 \<times> kernel_state)) option" where
  "create_mutex k =
     kbind (kmalloc_k SIZEOF_MUTEX k) (\<lambda>(x, k1).
       Some (Inr (x, upd_mtx x (\<lambda>_. \<lparr>owner_thread = NULL, mtx_first_waiting_thread = NULL, mtx_last_waiting_thread = NULL\<rparr>) k1)))"

definition sem_append :: "u32 \<Rightarrow> u32 \<Rightarrow> kernel_state \<Rightarrow> kernel_state" where
  "sem_append x thread k =
     (let k1 = on_sched (upd_tcb thread (\<lambda>c. c\<lparr>next_thread := NULL\<rparr>)) k;
          k2 = (if sem_first_waiting_thread (semaphores k1 x) = NULL
                then upd_sem x (\<lambda>m. m\<lparr>sem_first_waiting_thread := thread\<rparr>) k1
                else on_sched (upd_tcb (sem_last_waiting_thread (semaphores k1 x)) (\<lambda>c. c\<lparr>next_thread := thread\<rparr>)) k1)
      in upd_sem x (\<lambda>m. m\<lparr>sem_last_waiting_thread := thread\<rparr>) k2)"

definition mtx_append :: "u32 \<Rightarrow> u32 \<Rightarrow> kernel_state \<Rightarrow> kernel_state" where
  "mtx_append x thread k =
     (let k1 = on_sched (upd_tcb thread (\<lambda>c. c\<lparr>next_thread := NULL\<rparr>)) k;
          k2 = (if mtx_first_waiting_thread (mutexes k1 x) = NULL
                then upd_mtx x (\<lambda>m. m\<lparr>mtx_first_waiting_thread := thread\<rparr>) k1
                else on_sched (upd_tcb (mtx_last_waiting_thread (mutexes k1 x)) (\<lambda>c. c\<lparr>next_thread := thread\<rparr>)) k1)
      in upd_mtx x (\<lambda>m. m\<lparr>mtx_last_waiting_thread := thread\<rparr>) k2)"

definition acquire_semaphore :: "u32 \<Rightarrow> kernel_state \<Rightarrow> kernel_state" where
  "acquire_semaphore x k =
     (let k1 = on_sched lock_atomic k;
          k2 = (if current_count (semaphores k1 x) < max_count (semaphores k1 x)
                then upd_sem x (\<lambda>m. m\<lparr>current_count := current_count m + 1\<rparr>) k1
                else
                  let t = current_thread (sched k1);
                      k3 = sem_append x t k1;
                      k4 = on_sched (upd_tcb t (\<lambda>c. c\<lparr>state := THREAD_BLOCKED\<rparr>)) k3
                  in on_sched yield k4)
      in on_sched unlock_atomic k2)"

definition acquire_mutex :: "u32 \<Rightarrow> kernel_state \<Rightarrow> kernel_state" where
  "acquire_mutex x k =
     (let k1 = on_sched lock_atomic k;
          t = current_thread (sched k1);
          k2 = (if owner_thread (mutexes k1 x) = NULL
                then upd_mtx x (\<lambda>m. m\<lparr>owner_thread := t\<rparr>) k1
                else
                  let k3 = mtx_append x t k1;
                      k4 = on_sched (upd_tcb t (\<lambda>c. c\<lparr>state := THREAD_BLOCKED\<rparr>)) k3
                  in on_sched yield k4)
      in on_sched unlock_atomic k2)"

definition release_semaphore :: "u32 \<Rightarrow> kernel_state \<Rightarrow> kernel_state" where
  "release_semaphore x k =
     (let k1 = on_sched lock_atomic k;
          thread = sem_first_waiting_thread (semaphores k1 x);
          k2 = (if thread \<noteq> NULL then
                  let k3 = on_sched (upd_tcb thread (\<lambda>c. c\<lparr>state := THREAD_READY\<rparr>)) k1;
                      k4 = upd_sem x (\<lambda>m. m\<lparr>sem_first_waiting_thread := next_thread (tcbs (sched k3) thread)\<rparr>) k3;
                      k5 = on_sched (enqueue_thread thread (priority (tcbs (sched k4) thread))) k4
                  in on_sched yield k5
                else if current_count (semaphores k1 x) > 0
                then upd_sem x (\<lambda>m. m\<lparr>current_count := current_count m - 1\<rparr>) k1 else k1)
      in on_sched unlock_atomic k2)"

definition release_mutex :: "u32 \<Rightarrow> kernel_state \<Rightarrow> kernel_state" where
  "release_mutex x k =
     (let k1 = on_sched lock_atomic k;
          thread = mtx_first_waiting_thread (mutexes k1 x);
          k2 = (if thread = NULL then upd_mtx x (\<lambda>m. m\<lparr>owner_thread := NULL\<rparr>) k1
                else
                  let k3 = upd_mtx x (\<lambda>m. m\<lparr>mtx_first_waiting_thread := next_thread (tcbs (sched k1) (mtx_first_waiting_thread m))\<rparr>) k1;
                      k4 = on_sched (upd_tcb thread (\<lambda>c. c\<lparr>state := THREAD_READY\<rparr>)) k3;
                      k5 = on_sched (enqueue_thread thread (priority (tcbs (sched k4) thread))) k4;
                      k6 = upd_mtx x (\<lambda>m. m\<lparr>owner_thread := thread\<rparr>) k5
                  in on_sched yield k6)
      in on_sched unlock_atomic k2)"

end
