(* ===== verification/Fifo.thy ===== *)
theory Fifo
  imports KPrelude
begin

text \<open>
  The interface of the singly linked queues of threads: a head pointer, a tail pointer that means
  something only while the queue is not empty, and \<open>next\<close> pointers inside the threads. The kernel has
  this structure three times in its ready lists and once in every semaphore and every mutex. What
  appending at the tail does to the queue itself, and that it leaves every other queue alone, is
  proved here once.
\<close>

fun path :: "(u32 \<Rightarrow> u32) \<Rightarrow> u32 \<Rightarrow> u32 list \<Rightarrow> bool" where
  "path nx p [] \<longleftrightarrow> p = 0"
| "path nx p (t # ts) \<longleftrightarrow> p = t \<and> t \<noteq> 0 \<and> path nx (nx t) ts"

lemma path_cong: "(\<And>t. t \<in> set ts \<Longrightarrow> nx' t = nx t) \<Longrightarrow> path nx' p ts = path nx p ts"
  by (induction ts arbitrary: p) auto

lemma path_empty: "path nx p ts \<Longrightarrow> p = 0 \<longleftrightarrow> ts = []"
  by (cases ts) auto

lemma path_nonzero: "path nx p ts \<Longrightarrow> 0 \<notin> set ts"
  by (induction ts arbitrary: p) auto

lemma path_unique: "path nx p ts \<Longrightarrow> path nx p us \<Longrightarrow> ts = us"
proof (induction ts arbitrary: p us)
  case Nil
  then show ?case by (cases us) auto
next
  case (Cons t ts)
  then show ?case by (cases us) auto
qed

lemma path_suffix: "path nx p (ts @ t # us) \<Longrightarrow> path nx t (t # us)"
  by (induction ts arbitrary: p) auto

lemma path_distinct: "path nx p ts \<Longrightarrow> distinct ts"
proof (induction ts arbitrary: p)
  case (Cons t ts)
  have "t \<notin> set ts"
  proof
    assume "t \<in> set ts"
    then obtain xs ys where ts: "ts = xs @ t # ys" by (meson split_list)
    have "path nx t (t # ts)" "path nx t (t # ys)" using Cons.prems ts path_suffix [of nx p "t # xs" t ys] by auto
    then have "ts = ys" using path_unique by blast
    with ts show False by simp
  qed
  with Cons show ?case by auto
qed simp

lemma path_append_tail:
  assumes "path nx p (ts @ [l])" "t \<notin> set (ts @ [l])" "t \<noteq> 0"
  shows "path (nx(t := 0, l := t)) p (ts @ [l] @ [t])"
  using assms
proof (induction ts arbitrary: p)
  case (Cons a ts)
  then have "path (nx(t := 0, l := t)) (nx a) (ts @ [l] @ [t])" by (intro Cons.IH) auto
  moreover have "a \<noteq> l" "a \<noteq> t" using Cons.prems path_distinct [OF Cons.prems(1)] by auto
  ultimately show ?case using Cons.prems(1) by (simp only: append_Cons path.simps fun_upd_other) simp
qed auto

lemma path_remove:
  assumes "path nx p (ks @ [k] @ t # rest)"
  shows "path (nx(k := nx t)) p (ks @ [k] @ rest)"
  using assms
proof (induction ks arbitrary: p)
  case Nil
  then have "k \<notin> set rest" using path_distinct by fastforce
  then have "path (nx(k := nx t)) (nx t) rest = path nx (nx t) rest" by (intro path_cong) auto
  with Nil show ?case by (simp del: fun_upd_apply add: fun_upd_same)
next
  case (Cons a ks)
  then have "path (nx(k := nx t)) (nx a) (ks @ [k] @ rest)" by (intro Cons.IH) simp
  moreover have "a \<noteq> k" using path_distinct [OF Cons.prems] by auto
  ultimately show ?case using Cons.prems by (simp del: fun_upd_apply add: fun_upd_other)
qed

locale fifo =
  fixes head tail :: "'s \<Rightarrow> u32"
    and nxt :: "'s \<Rightarrow> u32 \<Rightarrow> u32"
    and put :: "u32 \<Rightarrow> 's \<Rightarrow> 's"
  assumes put_head: "head (put t s) = (if head s = 0 then t else head s)"
    and put_tail: "tail (put t s) = t"
    and put_nxt: "nxt (put t s) = (if head s = 0 then (nxt s)(t := 0) else (nxt s)(t := 0, tail s := t))"
begin

lemma put_queue:
  assumes "path (nxt s) (head s) ts" "ts \<noteq> [] \<longrightarrow> tail s = last ts" "t \<notin> set ts" "t \<noteq> 0"
  shows "path (nxt (put t s)) (head (put t s)) (ts @ [t])" "tail (put t s) = last (ts @ [t])"
proof -
  show "path (nxt (put t s)) (head (put t s)) (ts @ [t])"
  proof (cases ts rule: rev_cases)
    case Nil
    then show ?thesis using assms by (simp add: put_head put_nxt)
  next
    case (snoc us l)
    then have "head s \<noteq> 0" "tail s = l" using path_empty [OF assms(1)] assms(2) by auto
    moreover have "path ((nxt s)(t := 0, l := t)) (head s) (us @ [l] @ [t])"
      using assms snoc by (intro path_append_tail) auto
    ultimately show ?thesis using snoc by (simp add: put_head put_nxt)
  qed
qed (simp add: put_tail)

lemma put_frame:
  assumes "path (nxt s) (head s) ts" "ts \<noteq> [] \<longrightarrow> tail s = last ts" "u \<noteq> t" "u \<notin> set ts"
  shows "nxt (put t s) u = nxt s u"
proof (cases "ts = []")
  case True
  then show ?thesis using assms path_empty [OF assms(1)] by (simp add: put_nxt)
next
  case False
  then have "head s \<noteq> 0" "tail s \<in> set ts" using assms path_empty [OF assms(1)] by auto
  then show ?thesis using assms(3,4) by (auto simp add: put_nxt)
qed

end

end
