(* ===== verification/Sched_Queues.thy ===== *)
theory Sched_Queues
  imports Scheduler Fifo
begin

text \<open>
  The ready queues, the list of sleeping threads and the list of terminated ones as Isabelle lists. The relation
  \<open>sched_core s R S D W\<close> says that the pointers of state \<open>s\<close> form the three ready queues \<open>R\<close>, the sleepers \<open>S\<close> and
  the terminated threads \<open>D\<close>, that every thread's state and level agree with the list it is in, and that the
  blocked threads \<open>W\<close> (a map to their \<open>next\<close> pointers, which belong to semaphores and mutexes) are untouched.
  The ready queues are an instance of the queue interface. The last lemma says what \<open>yield\<close> does.
\<close>

section \<open>Specification vocabulary\<close>

abbreviation nx :: "sched_state \<Rightarrow> u32 \<Rightarrow> u32" where
  "nx s \<equiv> \<lambda>t. next_thread (tcbs s t)"

definition queue_ok :: "sched_state \<Rightarrow> nat \<Rightarrow> u32 list \<Rightarrow> bool" where
  "queue_ok s q ts \<longleftrightarrow> path (nx s) (first_ready_to_run_thread_list s q) ts
     \<and> (ts \<noteq> [] \<longrightarrow> last_ready_to_run_thread_list s q = last ts)"

definition sched_core :: "sched_state \<Rightarrow> (nat \<Rightarrow> u32 list) \<Rightarrow> u32 list \<Rightarrow> u32 list \<Rightarrow> (u32 \<rightharpoonup> u32) \<Rightarrow> bool" where
  "sched_core s R S D W \<longleftrightarrow> (\<forall>q<3. queue_ok s q (R q)) \<and> path (nx s) (sleeping_thread_queue s) S
     \<and> path (nx s) (terminated_thread_queue s) D
     \<and> idle_thread s \<noteq> 0 \<and> 0 \<notin> dom W \<and> (\<forall>q<3. idle_thread s \<notin> set (R q))
     \<and> state (tcbs s (idle_thread s)) \<in> {THREAD_READY, THREAD_RUNNING}
     \<and> (\<forall>q<3. \<forall>t \<in> set (R q). state (tcbs s t) = THREAD_READY \<and> priority (tcbs s t) = of_nat q)
     \<and> (\<forall>t \<in> set S. state (tcbs s t) = THREAD_SLEEPING)
     \<and> (\<forall>t \<in> set D. state (tcbs s t) = THREAD_TERMINATED)
     \<and> (\<forall>t \<in> dom W. state (tcbs s t) = THREAD_BLOCKED \<and> W t = Some (nx s t) \<and> unat (priority (tcbs s t)) < 3)"

definition listed :: "(nat \<Rightarrow> u32 list) \<Rightarrow> u32 list \<Rightarrow> u32 list \<Rightarrow> (u32 \<rightharpoonup> u32) \<Rightarrow> u32 set" where
  "listed R S D W = set (R 0) \<union> set (R 1) \<union> set (R 2) \<union> set S \<union> set D \<union> dom W"

text \<open>
  What a scheduling decision does, on the lists: a thread that is still runnable goes to the back of
  the queue of its level, and the head of the first non-empty queue runs next, or the idle thread.
\<close>

definition requeue :: "sched_state \<Rightarrow> (nat \<Rightarrow> u32 list) \<Rightarrow> nat \<Rightarrow> u32 list" where
  "requeue s R = (let c = current_thread s; p = unat (priority (tcbs s c))
     in if state (tcbs s c) = THREAD_RUNNING \<and> c \<noteq> idle_thread s then R(p := R p @ [c]) else R)"

definition pick :: "u32 \<Rightarrow> (nat \<Rightarrow> u32 list) \<Rightarrow> u32 \<times> (nat \<Rightarrow> u32 list)" where
  "pick idle R =
     (if R 0 \<noteq> [] then (hd (R 0), R(0 := tl (R 0)))
      else if R 1 \<noteq> [] then (hd (R 1), R(1 := tl (R 1)))
      else if R 2 \<noteq> [] then (hd (R 2), R(2 := tl (R 2)))
      else (idle, R))"

text \<open>
  The scheduler at rest: the lists are well formed, the current thread is the one that runs, its level
  is one of the three, and the idle thread is marked running only while it is the current one.
\<close>

definition sched_ok :: "sched_state \<Rightarrow> (nat \<Rightarrow> u32 list) \<Rightarrow> u32 list \<Rightarrow> u32 list \<Rightarrow> (u32 \<rightharpoonup> u32) \<Rightarrow> bool" where
  "sched_ok s R S D W \<longleftrightarrow> sched_core s R S D W \<and> current_thread s \<noteq> 0
     \<and> state (tcbs s (current_thread s)) = THREAD_RUNNING \<and> unat (priority (tcbs s (current_thread s))) < 3
     \<and> (state (tcbs s (idle_thread s)) = THREAD_RUNNING \<longrightarrow> current_thread s = idle_thread s)
     \<and> unat (priority (tcbs s (idle_thread s))) < 3"

text \<open>The condition under which \<open>yield\<close> is called: the current thread still runs, or has just left the running state.\<close>

definition leaving_ok :: "sched_state \<Rightarrow> bool" where
  "leaving_ok s \<longleftrightarrow> current_thread s \<noteq> 0 \<and> unat (priority (tcbs s (current_thread s))) < 3
     \<and> unat (priority (tcbs s (idle_thread s))) < 3
     \<and> (if current_thread s = idle_thread s then state (tcbs s (current_thread s)) = THREAD_RUNNING
        else state (tcbs s (current_thread s)) \<noteq> THREAD_READY \<and> state (tcbs s (idle_thread s)) \<noteq> THREAD_RUNNING)"

definition sched_frame :: "sched_state \<Rightarrow> sched_state \<Rightarrow> bool" where
  "sched_frame s s' \<longleftrightarrow> IRQ_disable_counter s' = IRQ_disable_counter s \<and> counter s' = counter s \<and> idle_thread s' = idle_thread s
     \<and> postponed_yield_flag s' = postponed_yield_flag s \<and> postpone_switches_counter s' = postpone_switches_counter s
     \<and> last_id s' = last_id s \<and> system_ticks s' = system_ticks s
     \<and> (\<forall>t. remaining_time (tcbs s' t) = remaining_time (tcbs s t) \<and> priority (tcbs s' t) = priority (tcbs s t)
        \<and> wake_time (tcbs s' t) = wake_time (tcbs s t) \<and> saved_interrupt_state (tcbs s' t) = saved_interrupt_state (tcbs s t)
        \<and> stack_base (tcbs s' t) = stack_base (tcbs s t) \<and> time_used (tcbs s' t) = time_used (tcbs s t))"

definition requeued :: "sched_state \<Rightarrow> sched_state" where
  "requeued s = (let prev = current_thread s in
     if state (tcbs s prev) = THREAD_RUNNING then
       let s1 = upd_tcb prev (\<lambda>c. c\<lparr>state := THREAD_READY\<rparr>) s
       in if prev \<noteq> idle_thread s1 then enqueue_thread prev (priority (tcbs s1 prev)) s1 else s1
     else s)"

text \<open>What a scheduling decision leaves behind, thread by thread.\<close>

definition handed_over :: "sched_state \<Rightarrow> u32 \<Rightarrow> sched_state \<Rightarrow> bool" where
  "handed_over s n s' \<longleftrightarrow> current_thread s' = n \<and> sched_frame s s'
     \<and> (\<forall>t. state (tcbs s' t) = (if t = n then THREAD_RUNNING
            else if t = current_thread s \<and> state (tcbs s t) = THREAD_RUNNING then THREAD_READY else state (tcbs s t)))
     \<and> (\<forall>t. esp (tcbs s' t) = (if t = current_thread s \<and> n \<noteq> t then r_esp (cpu s) - 20 else esp (tcbs s t)))
     \<and> (if n = current_thread s then cpu s' = cpu s \<and> mem s' = mem s
        else cpu s' = cpu (switch_to_task (current_thread s) (esp (tcbs s n)) s)
           \<and> mem s' = mem (switch_to_task (current_thread s) (esp (tcbs s n)) s))"

section \<open>Lemmas\<close>

lemma upd_tcb_simps [simp]:
  "tcbs (upd_tcb t f s) = (tcbs s)(t := f (tcbs s t))" "mem (upd_tcb t f s) = mem s" "cpu (upd_tcb t f s) = cpu s"
  "first_ready_to_run_thread_list (upd_tcb t f s) = first_ready_to_run_thread_list s"
  "last_ready_to_run_thread_list (upd_tcb t f s) = last_ready_to_run_thread_list s"
  "sleeping_thread_queue (upd_tcb t f s) = sleeping_thread_queue s"
  "terminated_thread_queue (upd_tcb t f s) = terminated_thread_queue s"
  "IRQ_disable_counter (upd_tcb t f s) = IRQ_disable_counter s" "counter (upd_tcb t f s) = counter s"
  "postponed_yield_flag (upd_tcb t f s) = postponed_yield_flag s"
  "postpone_switches_counter (upd_tcb t f s) = postpone_switches_counter s"
  "current_thread (upd_tcb t f s) = current_thread s" "idle_thread (upd_tcb t f s) = idle_thread s"
  "last_id (upd_tcb t f s) = last_id s" "system_ticks (upd_tcb t f s) = system_ticks s"
  by (simp_all add: upd_tcb_def)

lemma enqueue_fields [simp]:
  "mem (enqueue_thread t p s) = mem s" "cpu (enqueue_thread t p s) = cpu s"
  "sleeping_thread_queue (enqueue_thread t p s) = sleeping_thread_queue s"
  "terminated_thread_queue (enqueue_thread t p s) = terminated_thread_queue s"
  "IRQ_disable_counter (enqueue_thread t p s) = IRQ_disable_counter s" "counter (enqueue_thread t p s) = counter s"
  "postponed_yield_flag (enqueue_thread t p s) = postponed_yield_flag s"
  "postpone_switches_counter (enqueue_thread t p s) = postpone_switches_counter s"
  "current_thread (enqueue_thread t p s) = current_thread s" "idle_thread (enqueue_thread t p s) = idle_thread s"
  "last_id (enqueue_thread t p s) = last_id s" "system_ticks (enqueue_thread t p s) = system_ticks s"
  by (simp_all add: enqueue_thread_def Let_def)

lemma enqueue_tcbs:
  "first_ready_to_run_thread_list (enqueue_thread t p s) = (if first_ready_to_run_thread_list s (unat p) = 0
     then (first_ready_to_run_thread_list s)(unat p := t) else first_ready_to_run_thread_list s)"
  "last_ready_to_run_thread_list (enqueue_thread t p s) = (last_ready_to_run_thread_list s)(unat p := t)"
  "state (tcbs (enqueue_thread t p s) u) = state (tcbs s u)"
  "priority (tcbs (enqueue_thread t p s) u) = (if u = t then p else priority (tcbs s u))"
  "wake_time (tcbs (enqueue_thread t p s) u) = wake_time (tcbs s u)"
  "remaining_time (tcbs (enqueue_thread t p s) u) = remaining_time (tcbs s u)"
  "saved_interrupt_state (tcbs (enqueue_thread t p s) u) = saved_interrupt_state (tcbs s u)"
  "esp (tcbs (enqueue_thread t p s) u) = esp (tcbs s u)" "stack_base (tcbs (enqueue_thread t p s) u) = stack_base (tcbs s u)"
  "time_used (tcbs (enqueue_thread t p s) u) = time_used (tcbs s u)"
  by (auto simp add: enqueue_thread_def Let_def NULL_def)

interpretation rq: fifo "\<lambda>s. first_ready_to_run_thread_list s (unat p)" "\<lambda>s. last_ready_to_run_thread_list s (unat p)"
  nx "\<lambda>t. enqueue_thread t p" for p
  by unfold_locales (auto simp add: enqueue_thread_def Let_def NULL_def)

lemma sched_coreD:
  assumes "sched_core s R S D W"
  shows "q < 3 \<Longrightarrow> queue_ok s q (R q)" "path (nx s) (sleeping_thread_queue s) S" "path (nx s) (terminated_thread_queue s) D"
    "idle_thread s \<noteq> 0" "0 \<notin> dom W" "q < 3 \<Longrightarrow> idle_thread s \<notin> set (R q)"
    "state (tcbs s (idle_thread s)) \<in> {THREAD_READY, THREAD_RUNNING}"
    "q < 3 \<Longrightarrow> t \<in> set (R q) \<Longrightarrow> state (tcbs s t) = THREAD_READY"
    "q < 3 \<Longrightarrow> t \<in> set (R q) \<Longrightarrow> priority (tcbs s t) = of_nat q"
    "t \<in> set S \<Longrightarrow> state (tcbs s t) = THREAD_SLEEPING" "t \<in> set D \<Longrightarrow> state (tcbs s t) = THREAD_TERMINATED"
    "t \<in> dom W \<Longrightarrow> state (tcbs s t) = THREAD_BLOCKED"
    "t \<in> dom W \<Longrightarrow> W t = Some (nx s t)" "t \<in> dom W \<Longrightarrow> unat (priority (tcbs s t)) < 3"
  using assms unfolding sched_core_def by auto

lemma sched_coreI:
  assumes "\<And>q. q < 3 \<Longrightarrow> queue_ok s q (R q)" "path (nx s) (sleeping_thread_queue s) S" "path (nx s) (terminated_thread_queue s) D"
    "idle_thread s \<noteq> 0" "0 \<notin> dom W" "\<And>q. q < 3 \<Longrightarrow> idle_thread s \<notin> set (R q)"
    "state (tcbs s (idle_thread s)) \<in> {THREAD_READY, THREAD_RUNNING}"
    "\<And>q t. q < 3 \<Longrightarrow> t \<in> set (R q) \<Longrightarrow> state (tcbs s t) = THREAD_READY"
    "\<And>q t. q < 3 \<Longrightarrow> t \<in> set (R q) \<Longrightarrow> priority (tcbs s t) = of_nat q"
    "\<And>t. t \<in> set S \<Longrightarrow> state (tcbs s t) = THREAD_SLEEPING" "\<And>t. t \<in> set D \<Longrightarrow> state (tcbs s t) = THREAD_TERMINATED"
    "\<And>t. t \<in> dom W \<Longrightarrow> state (tcbs s t) = THREAD_BLOCKED" "\<And>t. t \<in> dom W \<Longrightarrow> W t = Some (nx s t)"
    "\<And>t. t \<in> dom W \<Longrightarrow> unat (priority (tcbs s t)) < 3"
  shows "sched_core s R S D W"
  unfolding sched_core_def using assms by auto

lemma less_3_cases: "q < 3 \<Longrightarrow> q = 0 \<or> q = 1 \<or> q = (2 :: nat)" by auto

lemma of_nat_prio: "q < 3 \<Longrightarrow> q' < 3 \<Longrightarrow> (of_nat q :: u8) = of_nat q' \<Longrightarrow> q = q'"
  by (auto dest!: less_3_cases)

lemma ready_unique:
  assumes "sched_core s R S D W" "q < 3" "q' < 3" "t \<in> set (R q)" "t \<in> set (R q')"
  shows "q = q'"
  using sched_coreD(9) [OF assms(1,2,4)] sched_coreD(9) [OF assms(1,3,5)] of_nat_prio [OF assms(2,3)] by simp

lemma enqueue_core:
  assumes core: "sched_core s R S D W" and p: "unat p < 3" and t: "t \<noteq> 0" "\<And>q. q < 3 \<Longrightarrow> t \<notin> set (R q)" "t \<noteq> idle_thread s"
    and st: "state (tcbs s t) = THREAD_READY"
  shows "sched_core (enqueue_thread t p s) (R(unat p := R (unat p) @ [t])) S D W"
proof -
  let ?s = "enqueue_thread t p s" let ?R = "R(unat p := R (unat p) @ [t])"
  note c = sched_coreD [OF core]
  have q: "path (nx s) (first_ready_to_run_thread_list s (unat p)) (R (unat p))"
    "R (unat p) \<noteq> [] \<longrightarrow> last_ready_to_run_thread_list s (unat p) = last (R (unat p))"
    using c(1) [OF p] by (simp_all add: queue_ok_def)
  note put = rq.put_queue [OF q t(2) [OF p] t(1)] and frame = rq.put_frame [OF q]
  have same: "path (nx ?s) p' ts = path (nx s) p' ts" if "t \<notin> set ts" "\<And>u. u \<in> set ts \<Longrightarrow> u \<notin> set (R (unat p))" for p' ts
    using that by (intro path_cong frame) auto
  show ?thesis
  proof (rule sched_coreI)
    fix k assume k: "k < (3 :: nat)"
    show "queue_ok ?s k (?R k)"
    proof (cases "k = unat p")
      case True
      then show ?thesis using put by (simp add: queue_ok_def)
    next
      case False
      then have "u \<notin> set (R (unat p))" if "u \<in> set (R k)" for u using ready_unique [OF core k p that] by blast
      then show ?thesis using c(1) [OF k] same [OF t(2) [OF k]] False by (simp add: queue_ok_def enqueue_tcbs)
    qed
    show "idle_thread ?s \<notin> set (?R k)" using c(6) [OF k] t(3) by auto
    fix u assume "u \<in> set (?R k)"
    then show "state (tcbs ?s u) = THREAD_READY" "priority (tcbs ?s u) = of_nat k"
      using c(8,9) [OF k, of u] st t(2) [OF k] by (auto simp add: enqueue_tcbs split: if_splits)
  next
    show "path (nx ?s) (sleeping_thread_queue ?s) S"
      using c(2) same [of S] c(10) c(8) [OF p] st by fastforce
    show "path (nx ?s) (terminated_thread_queue ?s) D"
      using c(3) same [of D] c(11) c(8) [OF p] st by fastforce
    fix u assume u: "u \<in> dom W"
    then have "u \<noteq> t" "u \<notin> set (R (unat p))" using c(12) [OF u] c(8) [OF p, of u] st by auto
    then show "W u = Some (nx ?s u)" "unat (priority (tcbs ?s u)) < 3" using frame [of u t] c(13,14) [OF u] by (simp_all add: enqueue_tcbs)
  qed (use c in \<open>auto simp add: enqueue_tcbs\<close>)
qed

lemma listed_ready: "q < 3 \<Longrightarrow> t \<in> set (R q) \<Longrightarrow> t \<in> listed R S D W"
  by (auto simp add: listed_def dest: less_3_cases)

lemma core_change:
  assumes core: "sched_core s R S D W"
    and heads: "\<And>q. q < 3 \<Longrightarrow> first_ready_to_run_thread_list s' q = first_ready_to_run_thread_list s q"
      "\<And>q. q < 3 \<Longrightarrow> last_ready_to_run_thread_list s' q = last_ready_to_run_thread_list s q"
      "idle_thread s' = idle_thread s" "state (tcbs s' (idle_thread s)) \<in> {THREAD_READY, THREAD_RUNNING}"
    and same: "\<And>t. t \<in> listed R [] [] W \<Longrightarrow> nx s' t = nx s t \<and> state (tcbs s' t) = state (tcbs s t) \<and> priority (tcbs s' t) = priority (tcbs s t)"
    and SD: "path (nx s') (sleeping_thread_queue s') S'" "\<And>t. t \<in> set S' \<Longrightarrow> state (tcbs s' t) = THREAD_SLEEPING"
      "path (nx s') (terminated_thread_queue s') D'" "\<And>t. t \<in> set D' \<Longrightarrow> state (tcbs s' t) = THREAD_TERMINATED"
  shows "sched_core s' R S' D' W"
proof -
  note c = sched_coreD [OF core]
  show ?thesis
  proof (rule sched_coreI)
    fix q :: nat assume q: "q < 3"
    have sub: "set (R q) \<subseteq> listed R [] [] W" using listed_ready [OF q] by blast
    then have "path (nx s') p (R q) = path (nx s) p (R q)" for p using same by (intro path_cong) blast
    then show "queue_ok s' q (R q)" using c(1) [OF q] heads(1,2) [OF q] by (simp add: queue_ok_def)
    show "idle_thread s' \<notin> set (R q)" using c(6) [OF q] heads(3) by simp
    fix t assume t: "t \<in> set (R q)"
    then have "t \<in> listed R [] [] W" using sub by blast
    then show "state (tcbs s' t) = THREAD_READY" "priority (tcbs s' t) = of_nat q"
      using same [of t] c(8,9) [OF q t] by simp_all
  next
    show "0 \<notin> dom W" by (rule c(5))
  next
    fix t assume "t \<in> dom W"
    then show "state (tcbs s' t) = THREAD_BLOCKED" "W t = Some (nx s' t)" "unat (priority (tcbs s' t)) < 3"
      using c(12-14) [of t] same [of t] by (auto simp add: listed_def)
  qed (use c heads SD in simp_all)
qed

lemma core_cong:
  assumes core: "sched_core s R S D W"
    and heads: "\<And>q. q < 3 \<Longrightarrow> first_ready_to_run_thread_list s' q = first_ready_to_run_thread_list s q"
      "\<And>q. q < 3 \<Longrightarrow> last_ready_to_run_thread_list s' q = last_ready_to_run_thread_list s q"
      "sleeping_thread_queue s' = sleeping_thread_queue s" "terminated_thread_queue s' = terminated_thread_queue s"
      "idle_thread s' = idle_thread s" "state (tcbs s' (idle_thread s)) \<in> {THREAD_READY, THREAD_RUNNING}"
    and same: "\<And>t. t \<in> listed R S D W \<Longrightarrow> nx s' t = nx s t \<and> state (tcbs s' t) = state (tcbs s t) \<and> priority (tcbs s' t) = priority (tcbs s t)"
  shows "sched_core s' R S D W"
proof (rule core_change [OF core])
  have S: "set S \<subseteq> listed R S D W" "set D \<subseteq> listed R S D W" by (auto simp add: listed_def)
  then have "path (nx s') p S = path (nx s) p S" "path (nx s') p D = path (nx s) p D" for p
    using same by (intro path_cong; blast)+
  then show "path (nx s') (sleeping_thread_queue s') S" "path (nx s') (terminated_thread_queue s') D"
    using sched_coreD(2,3) [OF core] heads(3,4) by simp_all
  show "state (tcbs s' t) = THREAD_SLEEPING" if "t \<in> set S" for t using sched_coreD(10) [OF core that] same [of t] S that by auto
  show "state (tcbs s' t) = THREAD_TERMINATED" if "t \<in> set D" for t using sched_coreD(11) [OF core that] same [of t] S that by auto
qed (use heads same in \<open>auto simp add: listed_def\<close>)

lemma running_not_listed:
  assumes "sched_core s R S D W" "state (tcbs s t) = THREAD_RUNNING"
  shows "t \<notin> listed R S D W"
  using sched_coreD(8) [OF assms(1), of 0 t] sched_coreD(8) [OF assms(1), of 1 t] sched_coreD(8) [OF assms(1), of 2 t]
    sched_coreD(10-12) [OF assms(1), where t = t] assms(2) by (auto simp add: listed_def)

text \<open>Changing a thread that is in no list, or only fields the lists do not depend on.\<close>

lemma core_upd:
  assumes "sched_core s R S D W" "t \<notin> listed R S D W"
    "t = idle_thread s \<Longrightarrow> state (f (tcbs s t)) \<in> {THREAD_READY, THREAD_RUNNING}"
  shows "sched_core (upd_tcb t f s) R S D W"
  using assms(2,3) sched_coreD(7) [OF assms(1)] by (intro core_cong [OF assms(1)]) auto

lemma core_upd_keep:
  assumes "sched_core s R S D W" "\<And>c. next_thread (f c) = next_thread c" "\<And>c. state (f c) = state c" "\<And>c. priority (f c) = priority c"
  shows "sched_core (upd_tcb t f s) R S D W"
  using assms(2-) sched_coreD(7) [OF assms(1)] by (intro core_cong [OF assms(1)]) auto

lemma dequeue_from_eq:
  "dequeue_thread s = (let F = first_ready_to_run_thread_list s in
     if F 0 \<noteq> 0 then (F 0, s\<lparr>first_ready_to_run_thread_list := F(0 := nx s (F 0))\<rparr>)
     else if F 1 \<noteq> 0 then (F 1, s\<lparr>first_ready_to_run_thread_list := F(1 := nx s (F 1))\<rparr>)
     else if F 2 \<noteq> 0 then (F 2, s\<lparr>first_ready_to_run_thread_list := F(2 := nx s (F 2))\<rparr>) else (0, s))"
proof -
  have "dequeue_from 3 s = (0, s)" by (simp add: dequeue_from.simps NULL_def)
  moreover have "dequeue_from i s = (if first_ready_to_run_thread_list s i \<noteq> 0
      then (first_ready_to_run_thread_list s i, s\<lparr>first_ready_to_run_thread_list :=
        (first_ready_to_run_thread_list s)(i := nx s (first_ready_to_run_thread_list s i))\<rparr>)
      else dequeue_from (i + 1) s)" if "i < 3" for i
    using that by (subst dequeue_from.simps) (simp add: NULL_def Let_def)
  from this [of 0] this [of 1] this [of 2] show ?thesis
    unfolding dequeue_thread_def Let_def using calculation by (simp add: numeral_3_eq_3 numeral_2_eq_2)
qed

lemma pop_core:
  assumes core: "sched_core s R S D W" and q: "q < 3" and R: "R q = t # ts"
  shows "first_ready_to_run_thread_list s q = t"
    "sched_core (s\<lparr>first_ready_to_run_thread_list := (first_ready_to_run_thread_list s)(q := nx s t)\<rparr>) (R(q := ts)) S D W"
proof -
  note c = sched_coreD [OF core]
  have "queue_ok s q (t # ts)" using c(1) [OF q] R by simp
  then show t: "first_ready_to_run_thread_list s q = t" by (simp add: queue_ok_def)
  let ?s = "s\<lparr>first_ready_to_run_thread_list := (first_ready_to_run_thread_list s)(q := nx s t)\<rparr>"
  show "sched_core ?s (R(q := ts)) S D W"
  proof (rule sched_coreI)
    fix k :: nat assume k: "k < 3"
    have sub: "set ((R(q := ts)) k) \<subseteq> set (R k)" using R by auto
    show "queue_ok ?s k ((R(q := ts)) k)"
      using c(1) [OF k] c(1) [OF q] R by (auto simp add: queue_ok_def)
    show "idle_thread ?s \<notin> set ((R(q := ts)) k)" using c(6) [OF k] sub by auto
    fix u assume "u \<in> set ((R(q := ts)) k)"
    then have "u \<in> set (R k)" using sub by blast
    then show "state (tcbs ?s u) = THREAD_READY" "priority (tcbs ?s u) = of_nat k" using c(8,9) [OF k] by simp_all
  qed (use c in simp_all)
qed

lemma core_head_empty:
  assumes "sched_core s R S D W" "q < 3"
  shows "first_ready_to_run_thread_list s q = 0 \<longleftrightarrow> R q = []"
  using sched_coreD(1) [OF assms] path_empty unfolding queue_ok_def by blast

lemma dequeue_core:
  assumes core: "sched_core s R S D W"
  defines "r \<equiv> fst (dequeue_thread s)" and "s' \<equiv> snd (dequeue_thread s)" and "R' \<equiv> snd (pick (idle_thread s) R)"
  shows "sched_core s' R' S D W" "(if r = NULL then idle_thread s else r) = fst (pick (idle_thread s) R)"
    "\<exists>F. s' = s\<lparr>first_ready_to_run_thread_list := F\<rparr>"
proof -
  have e: "first_ready_to_run_thread_list s 0 = 0 \<longleftrightarrow> R 0 = []" "first_ready_to_run_thread_list s 1 = 0 \<longleftrightarrow> R 1 = []"
    "first_ready_to_run_thread_list s 2 = 0 \<longleftrightarrow> R 2 = []" using core_head_empty [OF core] by simp_all
  have pop: "sched_core (s\<lparr>first_ready_to_run_thread_list := (first_ready_to_run_thread_list s)(q := nx s (first_ready_to_run_thread_list s q))\<rparr>)
      (R(q := tl (R q))) S D W \<and> first_ready_to_run_thread_list s q = hd (R q)" if "q < 3" "R q \<noteq> []" for q
    using pop_core [OF core that(1)] that(2) by (cases "R q") auto
  show "sched_core s' R' S D W" "(if r = NULL then idle_thread s else r) = fst (pick (idle_thread s) R)"
    unfolding s'_def r_def R'_def dequeue_from_eq Let_def pick_def NULL_def using e pop [of 0] pop [of 1] pop [of 2] core by auto
  show "\<exists>F. s' = s\<lparr>first_ready_to_run_thread_list := F\<rparr>"
    unfolding s'_def dequeue_from_eq Let_def by (auto intro: exI [of _ "first_ready_to_run_thread_list s"])
qed

lemma switch_fields [simp]:
  "first_ready_to_run_thread_list (switch_to_task p n s) = first_ready_to_run_thread_list s"
  "last_ready_to_run_thread_list (switch_to_task p n s) = last_ready_to_run_thread_list s"
  "sleeping_thread_queue (switch_to_task p n s) = sleeping_thread_queue s"
  "terminated_thread_queue (switch_to_task p n s) = terminated_thread_queue s"
  "IRQ_disable_counter (switch_to_task p n s) = IRQ_disable_counter s" "counter (switch_to_task p n s) = counter s"
  "postponed_yield_flag (switch_to_task p n s) = postponed_yield_flag s"
  "postpone_switches_counter (switch_to_task p n s) = postpone_switches_counter s"
  "current_thread (switch_to_task p n s) = current_thread s" "idle_thread (switch_to_task p n s) = idle_thread s"
  "last_id (switch_to_task p n s) = last_id s" "system_ticks (switch_to_task p n s) = system_ticks s"
  "tcbs (switch_to_task p n s) = (tcbs s)(p := (tcbs s p)\<lparr>esp := r_esp (cpu s) - 20\<rparr>)"
  by (simp_all add: switch_to_task_def Let_def)

lemma yield_unfold:
  assumes "postpone_switches_counter s = 0"
  shows "yield s = (let prev = current_thread s; (r, s3) = dequeue_thread (requeued s); n = (if r = NULL then idle_thread s3 else r)
     in if prev = n then upd_tcb prev (\<lambda>c. c\<lparr>state := THREAD_RUNNING\<rparr>) s3
        else switch_to_task prev (esp (tcbs s3 n)) (upd_tcb n (\<lambda>c. c\<lparr>state := THREAD_RUNNING\<rparr>) s3\<lparr>current_thread := n\<rparr>))"
proof -
  have "yield s = (let prev = current_thread s; (r, s3) = dequeue_thread (requeued s); n = (if r = NULL then idle_thread s3 else r)
     in if prev = n then upd_tcb prev (\<lambda>c. c\<lparr>state := THREAD_RUNNING\<rparr>) s3
        else let s4 = upd_tcb n (\<lambda>c. c\<lparr>state := THREAD_RUNNING\<rparr>) s3; s5 = s4\<lparr>current_thread := n\<rparr>
             in switch_to_task prev (esp (tcbs s5 n)) s5)"
    using assms by (simp only: yield_def requeued_def get_current_thread_def get_idle_thread_def set_current_thread_def Let_def
        less_irrefl if_False)
  then show ?thesis by (simp add: Let_def cong: if_cong)
qed

lemma requeued_core:
  assumes core: "sched_core s R S D W" and l: "leaving_ok s"
  shows "sched_core (requeued s) (requeue s R) S D W" "sched_frame s (requeued s)" "cpu (requeued s) = cpu s" "mem (requeued s) = mem s"
    "current_thread (requeued s) = current_thread s"
    "\<And>t. state (tcbs (requeued s) t) = (if t = current_thread s \<and> state (tcbs s t) = THREAD_RUNNING then THREAD_READY else state (tcbs s t))"
    "\<And>t. esp (tcbs (requeued s) t) = esp (tcbs s t)"
proof -
  let ?c = "current_thread s" and ?s1 = "upd_tcb (current_thread s) (\<lambda>c. c\<lparr>state := THREAD_READY\<rparr>) s"
  have "sched_core ?s1 R S D W" if "state (tcbs s ?c) = THREAD_RUNNING"
    using core running_not_listed [OF core that] by (intro core_upd) auto
  moreover have "?c \<notin> set (R q)" if "state (tcbs s ?c) = THREAD_RUNNING" "q < 3" for q
    using running_not_listed [OF core that(1)] listed_ready [OF that(2)] by blast
  ultimately show "sched_core (requeued s) (requeue s R) S D W"
    using core l enqueue_core [of ?s1 R S D W "priority (tcbs s ?c)" ?c]
    by (auto simp add: requeued_def requeue_def leaving_ok_def Let_def)
qed (auto simp add: requeued_def sched_frame_def Let_def enqueue_tcbs)

lemma pick_cases:
  obtains (ready) q where "q < 3" "R q \<noteq> []" "\<And>k. k < q \<Longrightarrow> R k = []" "pick i R = (hd (R q), R(q := tl (R q)))"
  | (idle) "R 0 = []" "R 1 = []" "R 2 = []" "pick i R = (i, R)"
proof -
  consider "R 0 \<noteq> []" | "R 0 = []" "R 1 \<noteq> []" | "R 0 = []" "R 1 = []" "R 2 \<noteq> []" | "R 0 = []" "R 1 = []" "R 2 = []"
    by blast
  then show thesis
  proof cases
    case 1 then show ?thesis by (intro ready [of 0]) (auto simp add: pick_def)
  next
    case 2 then show ?thesis by (intro ready [of 1]) (auto simp add: pick_def)
  next
    case 3 then show ?thesis by (intro ready [of 2]) (auto simp add: pick_def less_2_cases_iff)
  next
    case 4 then show ?thesis by (intro idle) (auto simp add: pick_def)
  qed
qed

lemma core_not_in_others:
  assumes core: "sched_core s R S D W" and st: "state (tcbs s t) = THREAD_READY" and q: "\<And>q. q < 3 \<Longrightarrow> t \<notin> set (R q)"
  shows "t \<notin> listed R S D W"
  using q [of 0] q [of 1] q [of 2] sched_coreD(10-12) [OF core, where t = t] st by (auto simp add: listed_def)

lemma pick_fresh:
  assumes core: "sched_core s R S D W"
  shows "fst (pick (idle_thread s) R) \<notin> listed (snd (pick (idle_thread s) R)) S D W" "fst (pick (idle_thread s) R) \<noteq> 0"
    "fst (pick (idle_thread s) R) \<noteq> idle_thread s \<Longrightarrow> \<exists>q<3. fst (pick (idle_thread s) R) \<in> set (R q)"
proof -
  note c = sched_coreD [OF core]
  have "fst (pick (idle_thread s) R) \<notin> listed (snd (pick (idle_thread s) R)) S D W \<and> fst (pick (idle_thread s) R) \<noteq> 0
    \<and> (fst (pick (idle_thread s) R) \<noteq> idle_thread s \<longrightarrow> (\<exists>q<3. fst (pick (idle_thread s) R) \<in> set (R q)))"
  proof (cases rule: pick_cases [of R "idle_thread s"])
    case (ready q)
    then obtain t ts where R: "R q = t # ts" by (cases "R q") auto
    have "path (nx s) (first_ready_to_run_thread_list s q) (t # ts)" using c(1) [OF ready(1)] R by (simp add: queue_ok_def)
    then have t: "t \<noteq> 0" "t \<notin> set ts" using path_distinct [of "nx s" _ "t # ts"] by auto
    have "t \<notin> set ((R(q := ts)) k)" if "k < 3" for k
      using t ready_unique [OF core ready(1) that, of t] R by auto
    moreover have "state (tcbs s t) = THREAD_READY" using c(8) [OF ready(1)] R by simp
    ultimately have "t \<notin> listed (R(q := ts)) S D W"
      by (intro core_not_in_others [OF pop_core(2) [OF core ready(1) R]]) simp_all
    then show ?thesis using R t ready(1,4) by auto
  next
    case idle
    moreover have "idle_thread s \<notin> listed R S D W"
      using c(7) c(10,11) [where t = "idle_thread s"] c(12) [of "idle_thread s"] c(6) [of 0] c(6) [of 1] c(6) [of 2]
      unfolding listed_def by fastforce
    ultimately show ?thesis using c(4) by simp
  qed
  then show "fst (pick (idle_thread s) R) \<notin> listed (snd (pick (idle_thread s) R)) S D W" "fst (pick (idle_thread s) R) \<noteq> 0"
    "fst (pick (idle_thread s) R) \<noteq> idle_thread s \<Longrightarrow> \<exists>q<3. fst (pick (idle_thread s) R) \<in> set (R q)" by blast+
qed

lemma switch_cpu_mem:
  assumes "cpu s' = cpu s" "mem s' = mem s"
  shows "cpu (switch_to_task p n s') = cpu (switch_to_task p n s)" "mem (switch_to_task p n s') = mem (switch_to_task p n s)"
  using assms by (simp_all add: switch_to_task_def Let_def)

lemma yield_core:
  assumes core: "sched_core s R S D W" and l: "leaving_ok s" and p: "postpone_switches_counter s = 0"
  defines "n \<equiv> fst (pick (idle_thread s) (requeue s R))" and "R' \<equiv> snd (pick (idle_thread s) (requeue s R))"
  shows "sched_ok (yield s) R' S D W" "handed_over s n (yield s)"
proof -
  let ?c = "current_thread s" and ?q = "requeued s"
  note q = requeued_core [OF core l]
  have idle: "idle_thread ?q = idle_thread s" using q(2) by (simp add: sched_frame_def)
  note d = dequeue_core [OF q(1), unfolded idle, folded n_def R'_def]
  obtain F where F: "snd (dequeue_thread ?q) = ?q\<lparr>first_ready_to_run_thread_list := F\<rparr>" using d(3) by blast
  let ?d = "?q\<lparr>first_ready_to_run_thread_list := F\<rparr>"
  have idle': "idle_thread ?d = idle_thread s" by (simp add: idle)
  have y: "yield s = (if ?c = n then upd_tcb ?c (\<lambda>c. c\<lparr>state := THREAD_RUNNING\<rparr>) ?d
        else switch_to_task ?c (esp (tcbs ?d n)) (upd_tcb n (\<lambda>c. c\<lparr>state := THREAD_RUNNING\<rparr>) ?d\<lparr>current_thread := n\<rparr>))"
    unfolding yield_unfold [OF p] Let_def case_prod_beta F by (simp only: idle' d(2))
  note fresh = pick_fresh [OF q(1), unfolded idle, folded n_def R'_def]
  have dc: "sched_core ?d R' S D W" using d(1) F by simp
  have "sched_core (upd_tcb n (\<lambda>c. c\<lparr>state := THREAD_RUNNING\<rparr>) ?d) R' S D W" using fresh(1) by (intro core_upd [OF dc]) auto
  then have yc: "sched_core (yield s) R' S D W" unfolding y
    by (rule core_cong) (use sched_coreD(7) [OF dc] in \<open>auto simp add: idle\<close>)
  have "unat (priority (tcbs ?q n)) < 3"
  proof (cases "n = idle_thread s")
    case True
    then show ?thesis using l q(2) by (simp add: leaving_ok_def sched_frame_def)
  next
    case False
    then obtain k where "k < 3" "n \<in> set (requeue s R k)" using fresh(3) by blast
    then show ?thesis using sched_coreD(9) [OF q(1), of k n] by (auto dest!: less_3_cases)
  qed
  moreover have "unat (priority (tcbs ?q (idle_thread s))) < 3" using l q(2) by (simp add: leaving_ok_def sched_frame_def)
  moreover show h: "handed_over s n (yield s)"
    using q(2-7) switch_cpu_mem [of ?q s] unfolding y handed_over_def sched_frame_def
    by (auto simp add: switch_to_task_def Let_def)
  ultimately show "sched_ok (yield s) R' S D W"
    using yc fresh(2) l q(2) unfolding sched_ok_def handed_over_def sched_frame_def leaving_ok_def by auto
qed

end
