(* ===== verification/Sched_Ops.thy ===== *)
theory Sched_Ops
  imports Sched_Queues
begin

text \<open>
  The operations a thread calls: the locks, the locked \<open>yield\<close>, \<open>thread_sleep\<close> and \<open>thread_exit\<close>. Each returns,
  keeps the lists well formed, and changes them as stated.
\<close>

section \<open>Specification vocabulary\<close>

text \<open>Appending a thread at the tail of a list that has no tail pointer.\<close>

definition append_to :: "u32 \<Rightarrow> u32 \<Rightarrow> (u32 \<Rightarrow> sched_state \<Rightarrow> sched_state) \<Rightarrow> sched_state \<Rightarrow> sched_state option" where
  "append_to head thread set_head s =
     (if head = NULL then Some (set_head thread s)
      else Option.bind (list_end head s) (\<lambda>e. Some (upd_tcb e (\<lambda>c. c\<lparr>next_thread := thread\<rparr>) s)))"

text \<open>
  What a locked operation leaves behind, compared with the state \<open>s\<close> it started from, when it began
  outside every lock: it ends outside every lock, in the flags the now current thread had when it
  last took the lock.
\<close>

definition settled :: "sched_state \<Rightarrow> sched_state \<Rightarrow> bool" where
  "settled s s' \<longleftrightarrow> IRQ_disable_counter s' = 0 \<and> postpone_switches_counter s' = 0
     \<and> postponed_yield_flag s' = postponed_yield_flag s \<and> idle_thread s' = idle_thread s \<and> last_id s' = last_id s
     \<and> system_ticks s' = system_ticks s \<and> counter s' = counter s
     \<and> eflags (cpu s') = (if current_thread s' = current_thread s then eflags (cpu s) else saved_interrupt_state (tcbs s (current_thread s')))
     \<and> (\<forall>t. priority (tcbs s' t) = priority (tcbs s t) \<and> remaining_time (tcbs s' t) = remaining_time (tcbs s t)
        \<and> stack_base (tcbs s' t) = stack_base (tcbs s t) \<and> time_used (tcbs s' t) = time_used (tcbs s t)
        \<and> (t \<noteq> current_thread s \<longrightarrow> saved_interrupt_state (tcbs s' t) = saved_interrupt_state (tcbs s t)
                                   \<and> wake_time (tcbs s' t) = wake_time (tcbs s t)))"

text \<open>The state in which a thread that gives up the processor calls \<open>yield\<close>: the lock is taken and its state is set.\<close>

definition left_running :: "sched_state \<Rightarrow> thread_state \<Rightarrow> sched_state \<Rightarrow> bool" where
  "left_running s st s2 \<longleftrightarrow> IRQ_disable_counter s2 = 1 \<and> postpone_switches_counter s2 = 0 \<and> current_thread s2 = current_thread s
     \<and> postponed_yield_flag s2 = postponed_yield_flag s \<and> idle_thread s2 = idle_thread s \<and> last_id s2 = last_id s
     \<and> system_ticks s2 = system_ticks s \<and> counter s2 = counter s
     \<and> (\<forall>t. state (tcbs s2 t) = (if t = current_thread s then st else state (tcbs s t))
        \<and> priority (tcbs s2 t) = priority (tcbs s t) \<and> remaining_time (tcbs s2 t) = remaining_time (tcbs s t)
        \<and> stack_base (tcbs s2 t) = stack_base (tcbs s t) \<and> time_used (tcbs s2 t) = time_used (tcbs s t)
        \<and> saved_interrupt_state (tcbs s2 t) = (if t = current_thread s then eflags (cpu s) else saved_interrupt_state (tcbs s t))
        \<and> (t \<noteq> current_thread s \<longrightarrow> wake_time (tcbs s2 t) = wake_time (tcbs s t)))"

section \<open>Lemmas\<close>

lemma list_end_last:
  assumes "path (nx s) h ts" "ts \<noteq> []"
  shows "list_end h s = Some (last ts)"
  using assms
proof (induction ts arbitrary: h)
  case (Cons t ts)
  have "nx s t = 0 \<longleftrightarrow> ts = []" using Cons.prems path_empty [of "nx s" "nx s t" ts] by simp
  then show ?case using Cons by (simp add: list_end.simps [of t] NULL_def)
qed simp

lemma append_to_eq:
  assumes "path (nx s) h ts" "t \<notin> set ts"
  shows "append_to h t g (upd_tcb t f s) =
    Some (if ts = [] then g t (upd_tcb t f s) else upd_tcb (last ts) (\<lambda>c. c\<lparr>next_thread := t\<rparr>) (upd_tcb t f s))"
proof -
  have "path (nx (upd_tcb t f s)) h ts = path (nx s) h ts" using assms(2) by (intro path_cong) auto
  then have "path (nx (upd_tcb t f s)) h ts" using assms(1) by blast
  then show ?thesis using list_end_last [of "upd_tcb t f s" h ts] path_empty [OF assms(1)]
    by (auto simp add: append_to_def NULL_def)
qed

lemma tail_link:
  assumes "path (nx s) h ts" "t \<notin> set ts" "t \<noteq> 0" "next_thread (f (tcbs s t)) = 0" "ts \<noteq> []"
  shows "path (nx (upd_tcb (last ts) (\<lambda>c. c\<lparr>next_thread := t\<rparr>) (upd_tcb t f s))) h (ts @ [t])"
proof -
  obtain us l where ts: "ts = us @ [l]" using assms(5) by (cases ts rule: rev_cases) auto
  have "path ((nx s)(t := 0, l := t)) h (us @ [l] @ [t])" using assms ts by (intro path_append_tail) auto
  moreover have "nx (upd_tcb l (\<lambda>c. c\<lparr>next_thread := t\<rparr>) (upd_tcb t f s)) = (nx s)(t := 0, l := t)"
    using assms(4) by (auto simp add: fun_eq_iff)
  ultimately show ?thesis using ts by simp
qed

text \<open>The current thread leaves the running state and joins the list of sleeping threads, or that of terminated ones.\<close>

lemma sleep_core:
  assumes core: "sched_core s R S D W" and t: "t \<notin> listed R S D W" "t \<noteq> 0" "t \<noteq> idle_thread s"
    and f: "next_thread (f (tcbs s t)) = 0" "state (f (tcbs s t)) = THREAD_SLEEPING"
  defines "s1 \<equiv> upd_tcb t f s"
  defines "s2 \<equiv> (if S = [] then s1\<lparr>sleeping_thread_queue := t\<rparr> else upd_tcb (last S) (\<lambda>c. c\<lparr>next_thread := t\<rparr>) s1)"
  shows "append_to (sleeping_thread_queue s) t (\<lambda>h s. s\<lparr>sleeping_thread_queue := h\<rparr>) s1 = Some s2" "sched_core s2 R (S @ [t]) D W"
proof -
  note c = sched_coreD [OF core]
  have "t \<notin> set S" using t(1) by (simp add: listed_def)
  then show "append_to (sleeping_thread_queue s) t (\<lambda>h s. s\<lparr>sleeping_thread_queue := h\<rparr>) s1 = Some s2"
    unfolding s1_def s2_def using append_to_eq [OF c(2)] by simp
  have dis: "u \<notin> set S" if "u \<in> listed R [] D W" for u
    using that c(8) [of 0 u] c(8) [of 1 u] c(8) [of 2 u] c(10-12) [where t = u] by (auto simp add: listed_def domIff)
  have keep: "nx s2 u = nx s u \<and> state (tcbs s2 u) = state (tcbs s u) \<and> priority (tcbs s2 u) = priority (tcbs s u)"
    if "u \<in> listed R [] D W" for u
  proof -
    have "u \<noteq> t" using that t(1) by (auto simp add: listed_def)
    moreover have "u \<noteq> last S" if "S \<noteq> []" using dis [OF \<open>u \<in> listed R [] D W\<close>] that by auto
    ultimately show ?thesis by (simp add: s2_def s1_def)
  qed
  have st2: "state (tcbs s2 u) = (if u = t then THREAD_SLEEPING else state (tcbs s u))" for u
    using f by (simp add: s2_def s1_def)
  show "sched_core s2 R (S @ [t]) D W"
  proof (rule core_change [OF core])
    show "path (nx s2) (sleeping_thread_queue s2) (S @ [t])"
    proof (cases "S = []")
      case True then show ?thesis using f(1) t(2) by (simp add: s2_def s1_def)
    next
      case False then show ?thesis using tail_link [OF c(2) \<open>t \<notin> set S\<close> t(2), of f] f(1) by (simp add: s2_def s1_def)
    qed
    have "path (nx s2) p D = path (nx s) p D" for p using keep by (intro path_cong) (auto simp add: listed_def)
    then show "path (nx s2) (terminated_thread_queue s2) D" using c(3) by (simp add: s2_def s1_def)
    show "state (tcbs s2 u) = THREAD_SLEEPING" if "u \<in> set (S @ [t])" for u using that c(10) by (auto simp add: st2)
    have "t \<notin> set D" using t(1) by (simp add: listed_def)
    then show "state (tcbs s2 u) = THREAD_TERMINATED" if "u \<in> set D" for u using that c(11) [of u] by (auto simp add: st2)
    show "state (tcbs s2 (idle_thread s)) \<in> {THREAD_READY, THREAD_RUNNING}" using c(7) t(3) by (simp add: st2)
    show "nx s2 u = nx s u \<and> state (tcbs s2 u) = state (tcbs s u) \<and> priority (tcbs s2 u) = priority (tcbs s u)"
      if "u \<in> listed R [] [] W" for u using that by (intro keep) (auto simp add: listed_def)
  qed (simp_all add: s2_def s1_def)
qed

lemma exit_core:
  assumes core: "sched_core s R S D W" and t: "t \<notin> listed R S D W" "t \<noteq> 0" "t \<noteq> idle_thread s"
    and f: "next_thread (f (tcbs s t)) = 0" "state (f (tcbs s t)) = THREAD_TERMINATED"
  defines "s1 \<equiv> upd_tcb t f s"
  defines "s2 \<equiv> (if D = [] then s1\<lparr>terminated_thread_queue := t\<rparr> else upd_tcb (last D) (\<lambda>c. c\<lparr>next_thread := t\<rparr>) s1)"
  shows "append_to (terminated_thread_queue s) t (\<lambda>h s. s\<lparr>terminated_thread_queue := h\<rparr>) s1 = Some s2" "sched_core s2 R S (D @ [t]) W"
proof -
  note c = sched_coreD [OF core]
  have "t \<notin> set D" using t(1) by (simp add: listed_def)
  then show "append_to (terminated_thread_queue s) t (\<lambda>h s. s\<lparr>terminated_thread_queue := h\<rparr>) s1 = Some s2"
    unfolding s1_def s2_def using append_to_eq [OF c(3)] by simp
  have dis: "u \<notin> set D" if "u \<in> listed R S [] W" for u
    using that c(8) [of 0 u] c(8) [of 1 u] c(8) [of 2 u] c(10-12) [where t = u] by (auto simp add: listed_def domIff)
  have keep: "nx s2 u = nx s u \<and> state (tcbs s2 u) = state (tcbs s u) \<and> priority (tcbs s2 u) = priority (tcbs s u)"
    if "u \<in> listed R S [] W" for u
  proof -
    have "u \<noteq> t" using that t(1) by (auto simp add: listed_def)
    moreover have "u \<noteq> last D" if "D \<noteq> []" using dis [OF \<open>u \<in> listed R S [] W\<close>] that by auto
    ultimately show ?thesis by (simp add: s2_def s1_def)
  qed
  have st2: "state (tcbs s2 u) = (if u = t then THREAD_TERMINATED else state (tcbs s u))" for u
    using f by (simp add: s2_def s1_def)
  show "sched_core s2 R S (D @ [t]) W"
  proof (rule core_change [OF core])
    show "path (nx s2) (terminated_thread_queue s2) (D @ [t])"
    proof (cases "D = []")
      case True then show ?thesis using f(1) t(2) by (simp add: s2_def s1_def)
    next
      case False then show ?thesis using tail_link [OF c(3) \<open>t \<notin> set D\<close> t(2), of f] f(1) by (simp add: s2_def s1_def)
    qed
    have "path (nx s2) p S = path (nx s) p S" for p using keep by (intro path_cong) (auto simp add: listed_def)
    then show "path (nx s2) (sleeping_thread_queue s2) S" using c(2) by (simp add: s2_def s1_def)
    show "state (tcbs s2 u) = THREAD_TERMINATED" if "u \<in> set (D @ [t])" for u using that c(11) by (auto simp add: st2)
    have "t \<notin> set S" using t(1) by (simp add: listed_def)
    then show "state (tcbs s2 u) = THREAD_SLEEPING" if "u \<in> set S" for u using that c(10) [of u] by (auto simp add: st2)
    show "state (tcbs s2 (idle_thread s)) \<in> {THREAD_READY, THREAD_RUNNING}" using c(7) t(3) by (simp add: st2)
    show "nx s2 u = nx s u \<and> state (tcbs s2 u) = state (tcbs s u) \<and> priority (tcbs s2 u) = priority (tcbs s u)"
      if "u \<in> listed R [] [] W" for u using that by (intro keep) (auto simp add: listed_def)
  qed (simp_all add: s2_def s1_def)
qed

lemma lock_fields [simp]:
  "tcbs (lock_scheduler s) = (if IRQ_disable_counter s = 0
     then (tcbs s)(current_thread s := (tcbs s (current_thread s))\<lparr>saved_interrupt_state := eflags (cpu s)\<rparr>) else tcbs s)"
  "mem (lock_scheduler s) = mem s"
  "cpu (lock_scheduler s) = (cpu s)\<lparr>eflags := eflags (cpu s) AND NOT EFLAGS_IF\<rparr>"
  "first_ready_to_run_thread_list (lock_scheduler s) = first_ready_to_run_thread_list s"
  "last_ready_to_run_thread_list (lock_scheduler s) = last_ready_to_run_thread_list s"
  "sleeping_thread_queue (lock_scheduler s) = sleeping_thread_queue s"
  "terminated_thread_queue (lock_scheduler s) = terminated_thread_queue s"
  "IRQ_disable_counter (lock_scheduler s) = IRQ_disable_counter s + 1" "counter (lock_scheduler s) = counter s"
  "postponed_yield_flag (lock_scheduler s) = postponed_yield_flag s"
  "postpone_switches_counter (lock_scheduler s) = postpone_switches_counter s"
  "current_thread (lock_scheduler s) = current_thread s" "idle_thread (lock_scheduler s) = idle_thread s"
  "last_id (lock_scheduler s) = last_id s" "system_ticks (lock_scheduler s) = system_ticks s"
  by (simp_all add: lock_scheduler_def Let_def get_current_thread_def)

lemma unlock_fields [simp]:
  "tcbs (unlock_scheduler s) = tcbs s" "mem (unlock_scheduler s) = mem s"
  "first_ready_to_run_thread_list (unlock_scheduler s) = first_ready_to_run_thread_list s"
  "last_ready_to_run_thread_list (unlock_scheduler s) = last_ready_to_run_thread_list s"
  "sleeping_thread_queue (unlock_scheduler s) = sleeping_thread_queue s"
  "terminated_thread_queue (unlock_scheduler s) = terminated_thread_queue s"
  "IRQ_disable_counter (unlock_scheduler s) = (if IRQ_disable_counter s = 0 then 0 else IRQ_disable_counter s - 1)"
  "counter (unlock_scheduler s) = counter s" "postponed_yield_flag (unlock_scheduler s) = postponed_yield_flag s"
  "postpone_switches_counter (unlock_scheduler s) = postpone_switches_counter s"
  "current_thread (unlock_scheduler s) = current_thread s" "idle_thread (unlock_scheduler s) = idle_thread s"
  "last_id (unlock_scheduler s) = last_id s" "system_ticks (unlock_scheduler s) = system_ticks s"
  by (simp_all add: unlock_scheduler_def Let_def)

lemma unlock_cpu:
  "cpu (unlock_scheduler s) = (if IRQ_disable_counter s = 1
     then (cpu s)\<lparr>eflags := saved_interrupt_state (tcbs s (current_thread s))\<rparr> else cpu s)"
  by (simp add: unlock_scheduler_def Let_def get_current_thread_def)

lemma core_same:
  assumes "sched_core s R S D W"
    "first_ready_to_run_thread_list s' = first_ready_to_run_thread_list s" "last_ready_to_run_thread_list s' = last_ready_to_run_thread_list s"
    "sleeping_thread_queue s' = sleeping_thread_queue s" "terminated_thread_queue s' = terminated_thread_queue s"
    "idle_thread s' = idle_thread s"
    "\<And>t. nx s' t = nx s t \<and> state (tcbs s' t) = state (tcbs s t) \<and> priority (tcbs s' t) = priority (tcbs s t)"
  shows "sched_core s' R S D W"
  using assms sched_coreD(7) [OF assms(1)] by (intro core_cong [OF assms(1)]) auto

lemma lock_core: "sched_core s R S D W \<Longrightarrow> sched_core (lock_scheduler s) R S D W"
  by (erule core_same) auto

lemma unlock_ok: "sched_ok s R S D W \<Longrightarrow> sched_ok (unlock_scheduler s) R S D W"
  unfolding sched_ok_def by (auto elim: core_same)

lemma sched_okD:
  assumes "sched_ok s R S D W"
  shows "sched_core s R S D W" "current_thread s \<noteq> 0" "state (tcbs s (current_thread s)) = THREAD_RUNNING"
    "unat (priority (tcbs s (current_thread s))) < 3" "current_thread s \<notin> listed R S D W"
    "state (tcbs s (idle_thread s)) = THREAD_RUNNING \<Longrightarrow> current_thread s = idle_thread s"
    "unat (priority (tcbs s (idle_thread s))) < 3"
  using assms running_not_listed [of s R S D W "current_thread s"] by (auto simp add: sched_ok_def)

lemma yield_unlock:
  assumes core: "sched_core s R S D W" and l: "leaving_ok s" and p: "postpone_switches_counter s = 0" "IRQ_disable_counter s = 1"
  defines "n \<equiv> fst (pick (idle_thread s) (requeue s R))" and "R' \<equiv> snd (pick (idle_thread s) (requeue s R))"
  shows "sched_ok (unlock_scheduler (yield s)) R' S D W" "current_thread (unlock_scheduler (yield s)) = n"
    "IRQ_disable_counter (unlock_scheduler (yield s)) = 0"
    "eflags (cpu (unlock_scheduler (yield s))) = saved_interrupt_state (tcbs s n)"
    "sched_frame s (yield s)"
proof -
  note y = yield_core [OF core l p(1), folded n_def R'_def]
  show "sched_ok (unlock_scheduler (yield s)) R' S D W" using y(1) by (rule unlock_ok)
  show "current_thread (unlock_scheduler (yield s)) = n" "IRQ_disable_counter (unlock_scheduler (yield s)) = 0"
    "eflags (cpu (unlock_scheduler (yield s))) = saved_interrupt_state (tcbs s n)" "sched_frame s (yield s)"
    using y(2) p(2) by (auto simp add: handed_over_def sched_frame_def unlock_cpu)
qed

lemma locked_yield_ok:
  assumes ok: "sched_ok s R S D W" and p: "postpone_switches_counter s = 0" "IRQ_disable_counter s = 0"
  defines "n \<equiv> fst (pick (idle_thread s) (requeue s R))" and "R' \<equiv> snd (pick (idle_thread s) (requeue s R))"
  shows "sched_ok (locked_yield s) R' S D W" "current_thread (locked_yield s) = n" "settled s (locked_yield s)"
    "\<And>t. wake_time (tcbs (locked_yield s) t) = wake_time (tcbs s t)"
proof -
  note o = sched_okD [OF ok]
  let ?l = "lock_scheduler s"
  have rq: "requeue ?l R = requeue s R" by (auto simp add: requeue_def Let_def)
  have "leaving_ok ?l" using o(2-4,6,7) by (auto simp add: leaving_ok_def)
  note y = yield_unlock [OF lock_core [OF o(1)] this, unfolded rq lock_fields(13), folded n_def R'_def]
  show "sched_ok (locked_yield s) R' S D W" "current_thread (locked_yield s) = n"
    using y(1,2) p by (simp_all add: locked_yield_def)
  show "settled s (locked_yield s)" "\<And>t. wake_time (tcbs (locked_yield s) t) = wake_time (tcbs s t)"
    using y(2-5) p by (auto simp add: locked_yield_def settled_def sched_frame_def)
qed

lemma leave_ok:
  assumes ok: "sched_ok s R S D W" and l: "left_running s st s2" and st: "st \<noteq> THREAD_RUNNING" "st \<noteq> THREAD_READY"
    and c: "current_thread s \<noteq> idle_thread s" and core: "sched_core s2 R S' D' W'"
  defines "n \<equiv> fst (pick (idle_thread s) R)" and "R' \<equiv> snd (pick (idle_thread s) R)"
  shows "sched_ok (unlock_scheduler (yield s2)) R' S' D' W'" "current_thread (yield s2) = n"
    "settled s (unlock_scheduler (yield s2))" "IRQ_disable_counter (yield s2) = 1"
    "\<And>t. wake_time (tcbs (yield s2) t) = wake_time (tcbs s2 t)"
proof -
  note o = sched_okD [OF ok]
  have "leaving_ok s2" using o(2-4,6,7) c l st by (auto simp add: leaving_ok_def left_running_def)
  moreover have r: "requeue s2 R = R" using l st by (simp add: requeue_def left_running_def Let_def)
  moreover have idle: "idle_thread s2 = idle_thread s" using l by (simp add: left_running_def)
  moreover have irq: "postpone_switches_counter s2 = 0" "IRQ_disable_counter s2 = 1" using l by (simp_all add: left_running_def)
  ultimately have y: "sched_ok (unlock_scheduler (yield s2)) R' S' D' W'" "current_thread (unlock_scheduler (yield s2)) = n"
    "IRQ_disable_counter (unlock_scheduler (yield s2)) = 0"
    "eflags (cpu (unlock_scheduler (yield s2))) = saved_interrupt_state (tcbs s2 n)" "sched_frame s2 (yield s2)"
    using yield_unlock [OF core] by (simp_all add: n_def R'_def)
  show "sched_ok (unlock_scheduler (yield s2)) R' S' D' W'" by (rule y(1))
  show "settled s (unlock_scheduler (yield s2))" using y(2-5) l unfolding settled_def sched_frame_def left_running_def by auto
  show "current_thread (yield s2) = n" "IRQ_disable_counter (yield s2) = 1" "\<And>t. wake_time (tcbs (yield s2) t) = wake_time (tcbs s2 t)"
    using y(2,5) irq by (simp_all add: sched_frame_def)
qed

lemma thread_sleep_eq:
  "thread_sleep r s = Option.bind (append_to (sleeping_thread_queue s) (current_thread s) (\<lambda>h s. s\<lparr>sleeping_thread_queue := h\<rparr>)
     (upd_tcb (current_thread s) (\<lambda>b. b\<lparr>next_thread := NULL, wake_time := system_ticks s + ucast r, state := THREAD_SLEEPING\<rparr>)
       (lock_scheduler s))) (\<lambda>s3. Some (unlock_scheduler (yield s3)))"
  by (simp add: thread_sleep_def append_to_def get_current_thread_def apic_get_ticks_def Let_def)

lemma thread_exit_eq:
  "thread_exit s = Option.bind (append_to (terminated_thread_queue s) (current_thread s) (\<lambda>h s. s\<lparr>terminated_thread_queue := h\<rparr>)
     (upd_tcb (current_thread s) (\<lambda>b. b\<lparr>next_thread := NULL, state := THREAD_TERMINATED\<rparr>) (lock_scheduler s)))
     (\<lambda>s3. Some (yield s3))"
  by (simp add: thread_exit_def append_to_def get_current_thread_def Let_def)

lemma sleep_ok:
  assumes ok: "sched_ok s R S D W" and p: "postpone_switches_counter s = 0" "IRQ_disable_counter s = 0"
    and c: "current_thread s \<noteq> idle_thread s"
  defines "n \<equiv> fst (pick (idle_thread s) R)" and "R' \<equiv> snd (pick (idle_thread s) R)"
  obtains s' where "thread_sleep r s = Some s'" "sched_ok s' R' (S @ [current_thread s]) D W" "current_thread s' = n" "settled s s'"
    "wake_time (tcbs s' (current_thread s)) = system_ticks s + ucast r"
proof -
  note o = sched_okD [OF ok]
  let ?l = "lock_scheduler s" and ?c = "current_thread s"
  let ?f = "\<lambda>b. b\<lparr>next_thread := NULL, wake_time := system_ticks s + ucast r, state := THREAD_SLEEPING\<rparr>"
  let ?s1 = "upd_tcb ?c ?f ?l"
  define s2 where "s2 = (if S = [] then ?s1\<lparr>sleeping_thread_queue := ?c\<rparr> else upd_tcb (last S) (\<lambda>b. b\<lparr>next_thread := ?c\<rparr>) ?s1)"
  have a: "append_to (sleeping_thread_queue s) ?c (\<lambda>h s. s\<lparr>sleeping_thread_queue := h\<rparr>) ?s1 = Some s2" "sched_core s2 R (S @ [?c]) D W"
    using sleep_core [OF lock_core [OF o(1)], of ?c ?f] o(2,5) c by (simp_all add: NULL_def s2_def)
  have l: "left_running s THREAD_SLEEPING s2" "wake_time (tcbs s2 ?c) = system_ticks s + ucast r"
    using p by (auto simp add: left_running_def s2_def)
  note y = leave_ok [OF ok l(1) _ _ c a(2), folded n_def R'_def]
  have "thread_sleep r s = Some (unlock_scheduler (yield s2))"
    using a(1) by (simp add: thread_sleep_eq)
  then show thesis using y l(2) by (intro that [of "unlock_scheduler (yield s2)"]) simp_all
qed

lemma exit_ok:
  assumes ok: "sched_ok s R S D W" and p: "postpone_switches_counter s = 0" "IRQ_disable_counter s = 0"
    and c: "current_thread s \<noteq> idle_thread s"
  defines "n \<equiv> fst (pick (idle_thread s) R)" and "R' \<equiv> snd (pick (idle_thread s) R)"
  obtains s' where "thread_exit s = Some s'" "sched_ok (unlock_scheduler s') R' S (D @ [current_thread s]) W"
    "current_thread s' = n" "IRQ_disable_counter s' = 1" "settled s (unlock_scheduler s')"
proof -
  note o = sched_okD [OF ok]
  let ?l = "lock_scheduler s" and ?c = "current_thread s"
  let ?f = "\<lambda>b. b\<lparr>next_thread := NULL, state := THREAD_TERMINATED\<rparr>"
  let ?s1 = "upd_tcb ?c ?f ?l"
  define s2 where "s2 = (if D = [] then ?s1\<lparr>terminated_thread_queue := ?c\<rparr> else upd_tcb (last D) (\<lambda>b. b\<lparr>next_thread := ?c\<rparr>) ?s1)"
  have a: "append_to (terminated_thread_queue s) ?c (\<lambda>h s. s\<lparr>terminated_thread_queue := h\<rparr>) ?s1 = Some s2" "sched_core s2 R S (D @ [?c]) W"
    using exit_core [OF lock_core [OF o(1)], of ?c ?f] o(2,5) c by (simp_all add: NULL_def s2_def)
  have l: "left_running s THREAD_TERMINATED s2" using p by (auto simp add: left_running_def s2_def)
  note y = leave_ok [OF ok l _ _ c a(2), folded n_def R'_def]
  have "thread_exit s = Some (yield s2)"
    using a(1) by (simp add: thread_exit_eq)
  then show thesis using y by (intro that [of "yield s2"]) simp_all
qed

end
