(* ===== verification/Sched_Tick.thy ===== *)
theory Sched_Tick
  imports Sched_Ops
begin

text \<open>
  The timer tick: emptying the lower queues into the first, waking the sleepers that are due, and the slice of
  the running thread. Each loop is shown to return, with the lists it leaves.
\<close>

section \<open>Specification vocabulary\<close>

text \<open>What a change of the ready lists alone leaves of a state.\<close>

definition lists_frame :: "sched_state \<Rightarrow> sched_state \<Rightarrow> bool" where
  "lists_frame s s' \<longleftrightarrow> IRQ_disable_counter s' = IRQ_disable_counter s \<and> idle_thread s' = idle_thread s
     \<and> current_thread s' = current_thread s \<and> cpu s' = cpu s \<and> mem s' = mem s
     \<and> postponed_yield_flag s' = postponed_yield_flag s \<and> postpone_switches_counter s' = postpone_switches_counter s
     \<and> last_id s' = last_id s \<and> system_ticks s' = system_ticks s
     \<and> (\<forall>t. wake_time (tcbs s' t) = wake_time (tcbs s t) \<and> saved_interrupt_state (tcbs s' t) = saved_interrupt_state (tcbs s t)
        \<and> stack_base (tcbs s' t) = stack_base (tcbs s t) \<and> time_used (tcbs s' t) = time_used (tcbs s t) \<and> esp (tcbs s' t) = esp (tcbs s t))"

definition boost :: "(nat \<Rightarrow> u32 list) \<Rightarrow> nat \<Rightarrow> u32 list" where
  "boost R = R(0 := R 0 @ R 1 @ R 2, 1 := [], 2 := [])"

text \<open>Taking a thread out of the list of sleeping threads, given its predecessor there.\<close>

definition unlink_sleeper :: "u32 \<Rightarrow> u32 \<Rightarrow> sched_state \<Rightarrow> sched_state" where
  "unlink_sleeper t prev s =
     (let s1 = upd_tcb t (\<lambda>c. c\<lparr>state := THREAD_READY\<rparr>) s
      in if prev = NULL then s1\<lparr>sleeping_thread_queue := next_thread (tcbs s1 (sleeping_thread_queue s1))\<rparr>
         else upd_tcb prev (\<lambda>c. c\<lparr>next_thread := next_thread (tcbs s1 t)\<rparr>) s1)"

definition due :: "sched_state \<Rightarrow> u32 \<Rightarrow> bool" where
  "due s t \<longleftrightarrow> wake_time (tcbs s t) \<le> system_ticks s"

text \<open>The loop over the sleepers terminates: those due go, in order, to the back of the first queue, the others keep sleeping.\<close>

definition woken :: "u32 set \<Rightarrow> sched_state \<Rightarrow> sched_state \<Rightarrow> bool" where
  "woken T s s' \<longleftrightarrow> lists_frame s s' \<and> counter s' = counter s
     \<and> (\<forall>t. state (tcbs s' t) = (if t \<in> T then THREAD_READY else state (tcbs s t))
        \<and> priority (tcbs s' t) = (if t \<in> T then 0 else priority (tcbs s t))
        \<and> remaining_time (tcbs s' t) = remaining_time (tcbs s t))"

text \<open>
  What a timer tick means for the running thread: its slice shrinks by one tick; when it is used up the
  thread drops one level and gets the slice of that level.
\<close>

definition slice_over :: "sched_state \<Rightarrow> bool" where
  "slice_over s \<longleftrightarrow> sint (remaining_time (tcbs s (current_thread s)) - 1) \<le> 0"

definition next_level :: "u8 \<Rightarrow> u8" where
  "next_level p = (if p = 0 then 1 else 2)"

definition level_slice :: "u8 \<Rightarrow> u8" where
  "level_slice p = (if p = 0 then FIRST_LIMIT else if p = 1 then SECOND_LIMIT else THIRD_LIMIT)"

definition charge :: "sched_state \<Rightarrow> sched_state" where
  "charge s = upd_tcb (current_thread s) (\<lambda>b. let p = next_level (priority b) in
     if slice_over s then b\<lparr>time_used := time_used b + 1, remaining_time := level_slice p, priority := p\<rparr>
     else b\<lparr>time_used := time_used b + 1, remaining_time := remaining_time b - 1\<rparr>) s"

text \<open>
  The effect of a timer tick on the lists: sleepers that are due join the first queue; every hundredth
  tick all ready threads, and the running one, are moved back to the first queue; the running thread
  is replaced when its slice is over or on that hundredth tick, and the idle thread only then.
\<close>

definition wake_spec :: "sched_state \<Rightarrow> (nat \<Rightarrow> u32 list) \<Rightarrow> u32 list \<Rightarrow> nat \<Rightarrow> u32 list" where
  "wake_spec s R S = R(0 := R 0 @ filter (due s) S)"

definition decide :: "sched_state \<Rightarrow> (nat \<Rightarrow> u32 list) \<Rightarrow> u32 \<times> (nat \<Rightarrow> u32 list)" where
  "decide s R =
     (let c = current_thread s; idle = idle_thread s
      in if counter s \<ge> 99 then
           let R' = boost R in pick idle (if c = idle then R' else R'(0 := R' 0 @ [c]))
         else if c \<noteq> idle \<and> slice_over s then
           let p = unat (next_level (priority (tcbs s c))) in pick idle (R(p := R p @ [c]))
         else (c, R))"

text \<open>What a tick does to levels, slices and the bookkeeping.\<close>

definition decided :: "sched_state \<Rightarrow> (nat \<Rightarrow> u32 list) \<Rightarrow> sched_state \<Rightarrow> bool" where
  "decided s R s' \<longleftrightarrow> current_thread s' = fst (decide s R)
     \<and> IRQ_disable_counter s' = 0 \<and> postpone_switches_counter s' = 0 \<and> idle_thread s' = idle_thread s
     \<and> postponed_yield_flag s' = postponed_yield_flag s \<and> last_id s' = last_id s
     \<and> system_ticks s' = system_ticks s \<and> counter s' = (if counter s \<ge> 99 then 0 else counter s + 1)
     \<and> (\<forall>t. stack_base (tcbs s' t) = stack_base (tcbs s t) \<and> wake_time (tcbs s' t) = wake_time (tcbs s t)
        \<and> (t \<noteq> current_thread s \<longrightarrow> saved_interrupt_state (tcbs s' t) = saved_interrupt_state (tcbs s t))
        \<and> (if t = current_thread s \<and> t \<noteq> idle_thread s then
             (if counter s \<ge> 99 then priority (tcbs s' t) = 0 \<and> remaining_time (tcbs s' t) = FIRST_LIMIT
              else if slice_over s then
                priority (tcbs s' t) = next_level (priority (tcbs s t)) \<and> remaining_time (tcbs s' t) = level_slice (priority (tcbs s' t))
              else priority (tcbs s' t) = priority (tcbs s t) \<and> remaining_time (tcbs s' t) = remaining_time (tcbs s t) - 1)
           else if counter s \<ge> 99 \<and> t \<in> set (R 1) \<union> set (R 2) then priority (tcbs s' t) = 0 \<and> remaining_time (tcbs s' t) = FIRST_LIMIT
           else priority (tcbs s' t) = priority (tcbs s t) \<and> remaining_time (tcbs s' t) = remaining_time (tcbs s t)))"

definition boosted :: "sched_state \<Rightarrow> (nat \<Rightarrow> u32 list) \<Rightarrow> sched_state \<Rightarrow> bool" where
  "boosted s R s' \<longleftrightarrow> lists_frame s s' \<and> counter s' = 0
     \<and> (\<forall>t. priority (tcbs s' t) = (if t \<in> set (R 1) \<union> set (R 2) then 0 else priority (tcbs s t))
        \<and> remaining_time (tcbs s' t) = (if t \<in> set (R 1) \<union> set (R 2) then FIRST_LIMIT else remaining_time (tcbs s t)))"

definition after_wake :: "sched_state \<Rightarrow> sched_state option" where
  "after_wake s =
     (if current_thread s = idle_thread s then
       let s1 = s\<lparr>counter := counter s + 1\<rparr>
       in if counter s1 \<ge> 100 then Option.bind (reset_queues s1) (\<lambda>s2. Some (locked_yield s2)) else Some s1
     else
       let s4 = (charge s)\<lparr>counter := counter s + 1\<rparr>
       in if counter s4 \<ge> 100 then
            Option.bind (reset_queues s4) (\<lambda>s5.
            Some (locked_yield (if current_thread s \<noteq> idle_thread s5
               then upd_tcb (current_thread s) (\<lambda>b. b\<lparr>priority := 0, remaining_time := FIRST_LIMIT\<rparr>) s5 else s5)))
          else Some (if slice_over s then locked_yield s4 else s4))"

section \<open>Lemmas\<close>

lemma lists_frame_refl [simp]: "lists_frame s s"
  by (simp add: lists_frame_def)

lemma lists_frame_trans: "lists_frame s s' \<Longrightarrow> lists_frame s' s'' \<Longrightarrow> lists_frame s s''"
  by (simp add: lists_frame_def)

lemma enqueue_after_pop:
  assumes "i \<noteq> unat p"
  shows "(enqueue_thread t p (upd_tcb t f s))\<lparr>first_ready_to_run_thread_list :=
      (first_ready_to_run_thread_list (enqueue_thread t p (upd_tcb t f s)))(i := x)\<rparr>
    = enqueue_thread t p (upd_tcb t f (s\<lparr>first_ready_to_run_thread_list := (first_ready_to_run_thread_list s)(i := x)\<rparr>))"
  using assms by (simp add: enqueue_thread_def upd_tcb_def Let_def fun_upd_twist)

lemma pop_fresh:
  assumes core: "sched_core s R S D W" and q: "q < 3" and R: "R q = t # ts"
  shows "t \<noteq> 0" "\<And>k. k < 3 \<Longrightarrow> t \<notin> set ((R(q := ts)) k)" "t \<noteq> idle_thread s" "state (tcbs s t) = THREAD_READY"
proof -
  have "path (nx s) (first_ready_to_run_thread_list s q) (t # ts)" using sched_coreD(1) [OF core q] R by (simp add: queue_ok_def)
  then have "t \<noteq> 0" "t \<notin> set ts" using path_distinct [of "nx s" _ "t # ts"] by auto
  moreover have "t \<in> set (R q)" using R by simp
  ultimately show "t \<noteq> 0" "\<And>k. k < 3 \<Longrightarrow> t \<notin> set ((R(q := ts)) k)" "t \<noteq> idle_thread s" "state (tcbs s t) = THREAD_READY"
    using ready_unique [OF core q] sched_coreD(6,8) [OF core q] by (auto split: if_splits)
qed

lemma core_tail_irrelevant:
  assumes "sched_core s R S D W" "R i = []"
  shows "sched_core (s\<lparr>last_ready_to_run_thread_list := (last_ready_to_run_thread_list s)(i := x)\<rparr>) R S D W"
  using assms unfolding sched_core_def queue_ok_def by auto

text \<open>Draining a lower queue terminates, and moves its threads, in order, to the back of the first queue.\<close>

lemma drain_queue_ok:
  assumes "sched_core s R S D W" "0 < i" "i < 3"
  obtains s' where "drain_queue i s = Some s'" "sched_core s' (R(0 := R 0 @ R i, i := [])) S D W" "lists_frame s s'" "counter s' = counter s"
    "\<And>t. state (tcbs s' t) = state (tcbs s t)"
    "\<And>t. priority (tcbs s' t) = (if t \<in> set (R i) then 0 else priority (tcbs s t))"
    "\<And>t. remaining_time (tcbs s' t) = (if t \<in> set (R i) then FIRST_LIMIT else remaining_time (tcbs s t))"
  using assms
proof (induction "R i" arbitrary: s R thesis)
  case Nil
  then have "first_ready_to_run_thread_list s i = 0" using core_head_empty [of s R S D W i] by simp
  then have "drain_queue i s = Some (s\<lparr>last_ready_to_run_thread_list := (last_ready_to_run_thread_list s)(i := NULL)\<rparr>)"
    by (simp add: drain_queue.simps NULL_def)
  moreover have "R(0 := R 0 @ R i, i := []) = R" using Nil(1) by (auto simp add: fun_eq_iff)
  ultimately show ?case using Nil core_tail_irrelevant [OF Nil(3), of i NULL] by (auto simp add: lists_frame_def)
next
  case (Cons t ts)
  note R = Cons.hyps(2) [symmetric]
  let ?f = "\<lambda>c. c\<lparr>remaining_time := FIRST_LIMIT\<rparr>"
  let ?p = "s\<lparr>first_ready_to_run_thread_list := (first_ready_to_run_thread_list s)(i := nx s t)\<rparr>"
  let ?s1 = "enqueue_thread t 0 (upd_tcb t ?f ?p)" and ?R1 = "R(i := ts, 0 := R 0 @ [t])"
  note head = pop_core [OF Cons.prems(2,4) R] and fresh = pop_fresh [OF Cons.prems(2,4) R]
  have "drain_queue i s = drain_queue i ?s1"
    using head(1) fresh(1) Cons.prems(3) by (subst drain_queue.simps) (simp add: NULL_def Let_def enqueue_after_pop [symmetric])
  moreover have "sched_core (upd_tcb t ?f ?p) (R(i := ts)) S D W" by (rule core_upd_keep [OF head(2)]) simp_all
  then have "sched_core ?s1 ?R1 S D W"
    using enqueue_core [of "upd_tcb t ?f ?p" "R(i := ts)" S D W 0 t] fresh Cons.prems(3) by auto
  moreover have "ts = ?R1 i" using Cons.prems(3) by simp
  ultimately obtain s' where s': "drain_queue i s = Some s'" "sched_core s' (?R1(0 := ?R1 0 @ ?R1 i, i := [])) S D W"
    "lists_frame ?s1 s'" "counter s' = counter ?s1" "\<And>u. state (tcbs s' u) = state (tcbs ?s1 u)"
    "\<And>u. priority (tcbs s' u) = (if u \<in> set ts then 0 else priority (tcbs ?s1 u))"
    "\<And>u. remaining_time (tcbs s' u) = (if u \<in> set ts then FIRST_LIMIT else remaining_time (tcbs ?s1 u))"
    using Cons.hyps(1) [of ?R1 ?s1] Cons.prems(3,4) by auto
  have "lists_frame s ?s1" by (auto simp add: lists_frame_def enqueue_tcbs)
  moreover have "?R1(0 := ?R1 0 @ ?R1 i, i := []) = R(0 := R 0 @ R i, i := [])" using R Cons.prems(3) by (auto simp add: fun_eq_iff)
  ultimately show ?case
    using s' R by (intro Cons.prems(1) [of s']) (auto simp add: enqueue_tcbs intro: lists_frame_trans)
qed

lemma reset_queues_ok:
  assumes "sched_core s R S D W"
  obtains s' where "reset_queues s = Some s'" "sched_core s' (boost R) S D W" "lists_frame s s'" "counter s' = 0"
    "\<And>t. state (tcbs s' t) = state (tcbs s t)"
    "\<And>t. priority (tcbs s' t) = (if t \<in> set (R 1) \<union> set (R 2) then 0 else priority (tcbs s t))"
    "\<And>t. remaining_time (tcbs s' t) = (if t \<in> set (R 1) \<union> set (R 2) then FIRST_LIMIT else remaining_time (tcbs s t))"
proof -
  let ?R1 = "R(0 := R 0 @ R 1, 1 := [])"
  obtain s1 where s1: "drain_queue 1 s = Some s1" "sched_core s1 ?R1 S D W" "lists_frame s s1"
    "\<And>t. state (tcbs s1 t) = state (tcbs s t)"
    "\<And>t. priority (tcbs s1 t) = (if t \<in> set (R 1) then 0 else priority (tcbs s t))"
    "\<And>t. remaining_time (tcbs s1 t) = (if t \<in> set (R 1) then FIRST_LIMIT else remaining_time (tcbs s t))"
    by (rule drain_queue_ok [OF assms, of 1]) auto
  obtain s2 where s2: "drain_queue 2 s1 = Some s2" "sched_core s2 (?R1(0 := ?R1 0 @ ?R1 2, 2 := [])) S D W" "lists_frame s1 s2"
    "\<And>t. state (tcbs s2 t) = state (tcbs s1 t)"
    "\<And>t. priority (tcbs s2 t) = (if t \<in> set (R 2) then 0 else priority (tcbs s1 t))"
    "\<And>t. remaining_time (tcbs s2 t) = (if t \<in> set (R 2) then FIRST_LIMIT else remaining_time (tcbs s1 t))"
    by (rule drain_queue_ok [OF s1(2), of 2]) auto
  have "?R1(0 := ?R1 0 @ ?R1 2, 2 := []) = boost R" by (auto simp add: boost_def fun_eq_iff)
  then have "sched_core s2 (boost R) S D W" using s2(2) by simp
  then have "sched_core (s2\<lparr>counter := 0\<rparr>) (boost R) S D W" by (rule core_same) simp_all
  moreover have "lists_frame s (s2\<lparr>counter := 0\<rparr>)" using lists_frame_trans [OF s1(3) s2(3)] by (simp add: lists_frame_def)
  ultimately show thesis using s1 s2 by (intro that [of "s2\<lparr>counter := 0\<rparr>"]) (simp_all add: reset_queues_def)
qed

lemma unlink_path:
  assumes p: "path (nx s) (sleeping_thread_queue s) (ks @ t # rest)"
  defines "prev \<equiv> (if ks = [] then 0 else last ks)"
  shows "path (nx (unlink_sleeper t prev s)) (sleeping_thread_queue (unlink_sleeper t prev s)) (ks @ rest)"
proof (cases ks rule: rev_cases)
  case Nil
  have "nx (upd_tcb t (\<lambda>c. c\<lparr>state := THREAD_READY\<rparr>) s) = nx s" by (auto simp add: fun_eq_iff)
  then show ?thesis using p Nil by (simp add: unlink_sleeper_def prev_def NULL_def Let_def)
next
  case (snoc us k)
  have "k \<noteq> 0" using path_nonzero [OF p] snoc by auto
  moreover have "nx (upd_tcb k (\<lambda>c. c\<lparr>next_thread := nx s t\<rparr>) (upd_tcb t (\<lambda>c. c\<lparr>state := THREAD_READY\<rparr>) s)) = (nx s)(k := nx s t)"
    by (auto simp add: fun_eq_iff)
  moreover have "path ((nx s)(k := nx s t)) (sleeping_thread_queue s) (us @ [k] @ rest)"
    using p snoc by (intro path_remove) simp
  ultimately show ?thesis using snoc by (simp add: unlink_sleeper_def prev_def NULL_def Let_def)
qed

lemma unlink_core:
  assumes core: "sched_core s R (ks @ t # rest) D W"
  defines "prev \<equiv> (if ks = [] then 0 else last ks)"
  shows "sched_core (unlink_sleeper t prev s) R (ks @ rest) D W" "t \<notin> listed R (ks @ rest) D W" "t \<noteq> 0" "t \<noteq> idle_thread s"
    "state (tcbs (unlink_sleeper t prev s) u) = (if u = t then THREAD_READY else state (tcbs s u))"
    "lists_frame s (unlink_sleeper t prev s)" "counter (unlink_sleeper t prev s) = counter s"
    "priority (tcbs (unlink_sleeper t prev s) u) = priority (tcbs s u)"
    "remaining_time (tcbs (unlink_sleeper t prev s) u) = remaining_time (tcbs s u)"
proof -
  note c = sched_coreD [OF core]
  let ?s = "unlink_sleeper t prev s"
  have dist: "t \<notin> set (ks @ rest)" "t \<noteq> 0" using path_distinct [OF c(2)] path_nonzero [OF c(2)] by auto
  have st: "state (tcbs s t) = THREAD_SLEEPING" using c(10) by simp
  have notin: "u \<notin> set (ks @ t # rest)" if "u \<in> listed R [] D W" for u
    using that c(8) [of 0 u] c(8) [of 1 u] c(8) [of 2 u] c(10-12) [where t = u] by (auto simp add: listed_def domIff)
  then have "t \<notin> listed R [] D W" by auto
  then show "t \<notin> listed R (ks @ rest) D W" "t \<noteq> 0" using dist by (auto simp add: listed_def)
  show ti: "t \<noteq> idle_thread s" using c(7) st by auto
  show st': "state (tcbs ?s u) = (if u = t then THREAD_READY else state (tcbs s u))" for u
    by (simp add: unlink_sleeper_def Let_def)
  show "lists_frame s ?s" "counter ?s = counter s" "priority (tcbs ?s u) = priority (tcbs s u)"
    "remaining_time (tcbs ?s u) = remaining_time (tcbs s u)" for u
    by (auto simp add: unlink_sleeper_def Let_def lists_frame_def)
  have keep: "nx ?s u = nx s u \<and> state (tcbs ?s u) = state (tcbs s u) \<and> priority (tcbs ?s u) = priority (tcbs s u)"
    if "u \<in> listed R [] D W" for u
  proof -
    have "u \<noteq> t" "u \<noteq> prev \<or> prev = 0" using notin [OF that] by (auto simp add: prev_def)
    then show ?thesis by (auto simp add: unlink_sleeper_def Let_def NULL_def)
  qed
  show "sched_core ?s R (ks @ rest) D W"
  proof (rule core_change [OF core])
    show "path (nx ?s) (sleeping_thread_queue ?s) (ks @ rest)" unfolding prev_def by (rule unlink_path [OF c(2)])
    have "path (nx ?s) p D = path (nx s) p D" for p using keep by (intro path_cong) (auto simp add: listed_def)
    then show "path (nx ?s) (terminated_thread_queue ?s) D" using c(3) by (simp add: unlink_sleeper_def Let_def)
    show "state (tcbs ?s u) = THREAD_SLEEPING" if "u \<in> set (ks @ rest)" for u using that c(10) [of u] dist by (auto simp add: st')
    show "state (tcbs ?s u) = THREAD_TERMINATED" if "u \<in> set D" for u using that c(11) [of u] st by (auto simp add: st')
    show "state (tcbs ?s (idle_thread s)) \<in> {THREAD_READY, THREAD_RUNNING}" using c(7) ti by (simp add: st')
    show "nx ?s u = nx s u \<and> state (tcbs ?s u) = state (tcbs s u) \<and> priority (tcbs ?s u) = priority (tcbs s u)"
      if "u \<in> listed R [] [] W" for u using that by (intro keep) (auto simp add: listed_def)
  qed (simp_all add: unlink_sleeper_def Let_def)
qed

lemma wake_sleepers_unfold:
  "wake_sleepers h prev s =
     (if h = 0 then Some s
      else if wake_time (tcbs s h) \<le> system_ticks s then wake_sleepers (nx s h) prev (enqueue_thread h 0 (unlink_sleeper h prev s))
      else wake_sleepers (nx s h) h s)"
  by (subst wake_sleepers.simps) (simp add: NULL_def unlink_sleeper_def apic_get_ticks_def Let_def)

lemma woken_trans: "woken T s s' \<Longrightarrow> woken U s' s'' \<Longrightarrow> woken (T \<union> U) s s''"
  unfolding woken_def using lists_frame_trans by auto

lemma woken_one:
  assumes "sched_core s R (ks @ t # rest) D W"
  shows "woken {t} s (enqueue_thread t 0 (unlink_sleeper t (if ks = [] then 0 else last ks) s))"
proof -
  define s1 where "s1 = unlink_sleeper t (if ks = [] then 0 else last ks) s"
  note u = unlink_core(5-9) [OF assms, folded s1_def]
  show ?thesis unfolding s1_def [symmetric] using u by (simp add: woken_def lists_frame_def enqueue_tcbs)
qed

lemma wake_loop:
  assumes "sched_core s R (ks @ rest) D W"
  shows "\<exists>s'. wake_sleepers (hd (rest @ [0])) (if ks = [] then 0 else last ks) s = Some s'
    \<and> sched_core s' (R(0 := R 0 @ filter (due s) rest)) (ks @ filter (\<lambda>t. \<not> due s t) rest) D W
    \<and> woken (set (filter (due s) rest)) s s'"
  using assms
proof (induction rest arbitrary: s R ks)
  case Nil
  then show ?case by (simp add: wake_sleepers_unfold woken_def)
next
  case (Cons t rest)
  let ?prev = "if ks = [] then 0 else last ks"
  have p: "path (nx s) (sleeping_thread_queue s) (ks @ t # rest)" by (rule sched_coreD(2) [OF Cons.prems])
  then have t: "t \<noteq> 0" "path (nx s) (nx s t) rest" using path_nonzero [OF p] path_suffix [OF p] by auto
  then have nxt: "nx s t = hd (rest @ [0])" by (cases rest) auto
  show ?case
  proof (cases "due s t")
    case False
    then have "wake_sleepers (hd ((t # rest) @ [0])) ?prev s = wake_sleepers (hd (rest @ [0])) t s"
      using t(1) nxt by (simp add: wake_sleepers_unfold [of t] due_def)
    then show ?thesis using Cons.IH [of s R "ks @ [t]"] Cons.prems False by simp
  next
    case True
    note u = unlink_core [OF Cons.prems] and w = woken_one [OF Cons.prems]
    let ?s1 = "enqueue_thread t 0 (unlink_sleeper t ?prev s)" and ?R1 = "R(0 := R 0 @ [t])"
    have step: "wake_sleepers (hd ((t # rest) @ [0])) ?prev s = wake_sleepers (hd (rest @ [0])) ?prev ?s1"
      using True t(1) nxt by (simp add: wake_sleepers_unfold [of t] due_def)
    have idle: "idle_thread (unlink_sleeper t ?prev s) = idle_thread s" using u(6) by (simp add: lists_frame_def)
    have "t \<notin> set (R q)" if "q < 3" for q using u(2) listed_ready [where R = R, OF that] by blast
    then have c1: "sched_core ?s1 ?R1 (ks @ rest) D W" using enqueue_core [OF u(1), of 0 t] u(3,4) u(5) idle by simp
    have due1: "due ?s1 = due s" using w by (simp add: woken_def lists_frame_def due_def fun_eq_iff)
    obtain s' where s': "wake_sleepers (hd (rest @ [0])) ?prev ?s1 = Some s'"
      "sched_core s' (?R1(0 := ?R1 0 @ filter (due s) rest)) (ks @ filter (\<lambda>t. \<not> due s t) rest) D W"
      "woken (set (filter (due s) rest)) ?s1 s'"
      using Cons.IH [OF c1] unfolding due1 by blast
    have "woken (set (filter (due s) (t # rest))) s s'" using woken_trans [OF w s'(3)] True by simp
    moreover have "?R1(0 := ?R1 0 @ filter (due s) rest) = R(0 := R 0 @ filter (due s) (t # rest))" using True by simp
    ultimately show ?thesis using s'(1,2) True unfolding step by (simp del: fun_upd_apply)
  qed
qed

lemma wake_sleepers_ok:
  assumes "sched_core s R S D W"
  obtains s' where "wake_sleepers (sleeping_thread_queue s) NULL s = Some s'"
    "sched_core s' (R(0 := R 0 @ filter (due s) S)) (filter (\<lambda>t. \<not> due s t) S) D W" "woken (set (filter (due s) S)) s s'"
proof -
  have "sleeping_thread_queue s = hd (S @ [0])" using sched_coreD(2) [OF assms] by (cases S) auto
  with wake_loop [of s R "[]" S D W] assms that show thesis by (auto simp add: NULL_def)
qed

lemma charge_eq:
  "charge s =
     (let c = current_thread s;
          s1 = upd_tcb c (\<lambda>b. b\<lparr>time_used := time_used b + 1\<rparr>) s;
          s2 = upd_tcb c (\<lambda>b. b\<lparr>remaining_time := remaining_time b - 1\<rparr>) s1
      in if sint (remaining_time (tcbs s2 c)) \<le> 0 then
           if priority (tcbs s2 c) \<ge> 1
           then upd_tcb c (\<lambda>b. b\<lparr>remaining_time := THIRD_LIMIT, priority := 2\<rparr>) s2
           else upd_tcb c (\<lambda>b. b\<lparr>remaining_time := SECOND_LIMIT, priority := priority b + 1\<rparr>) s2
         else s2)"
proof -
  have "priority b \<ge> 1 \<longleftrightarrow> priority b \<noteq> 0" for b :: thread_control_block
    by (metis word_le_0_iff word_less_1 linorder_not_le)
  then show ?thesis
    by (simp add: charge_def slice_over_def next_level_def level_slice_def upd_tcb_def Let_def)
qed

lemma on_tick_eq:
  "scheduler_on_tick s0 =
     Option.bind (wake_sleepers (sleeping_thread_queue s0) NULL s0) (\<lambda>s.
     if current_thread s = idle_thread s then
       let s1 = s\<lparr>counter := counter s + 1\<rparr>
       in if counter s1 \<ge> 100 then Option.bind (reset_queues s1) (\<lambda>s2. Some (locked_yield s2)) else Some s1
     else
       let s4 = (charge s)\<lparr>counter := counter s + 1\<rparr>
       in if counter s4 \<ge> 100 then
            Option.bind (reset_queues s4) (\<lambda>s5.
            Some (locked_yield (if current_thread s \<noteq> idle_thread s5
               then upd_tcb (current_thread s) (\<lambda>b. b\<lparr>priority := 0, remaining_time := FIRST_LIMIT\<rparr>) s5 else s5)))
          else Some (if slice_over s then locked_yield s4 else s4))"
proof -
  have e: "sint (remaining_time (tcbs (upd_tcb (current_thread s) (\<lambda>b. b\<lparr>remaining_time := remaining_time b - 1\<rparr>)
      (upd_tcb (current_thread s) (\<lambda>b. b\<lparr>time_used := time_used b + 1\<rparr>) s)) (current_thread s))) \<le> 0 \<longleftrightarrow> slice_over s" for s
    by (simp add: slice_over_def)
  have "scheduler_on_tick s0 =
     Option.bind (wake_sleepers (sleeping_thread_queue s0) NULL s0) (\<lambda>s.
     if current_thread s = idle_thread s then
       let s1 = s\<lparr>counter := counter s + 1\<rparr>
       in if counter s1 \<ge> 100 then Option.bind (reset_queues s1) (\<lambda>s2. Some (locked_yield s2)) else Some s1
     else
       let s4 = (charge s)\<lparr>counter := counter (charge s) + 1\<rparr>
       in if counter s4 \<ge> 100 then
            Option.bind (reset_queues s4) (\<lambda>s5.
            Some (locked_yield (if current_thread s \<noteq> idle_thread s5
               then upd_tcb (current_thread s) (\<lambda>b. b\<lparr>priority := 0, remaining_time := FIRST_LIMIT\<rparr>) s5 else s5)))
          else Some (if slice_over s then locked_yield s4 else s4))"
    by (simp only: scheduler_on_tick_def charge_eq get_current_thread_def get_idle_thread_def Let_def e)
  moreover have c: "counter (charge s) = counter s" for s by (simp add: charge_def)
  ultimately show ?thesis by (simp only: c)
qed

lemma woken_ok:
  assumes ok: "sched_ok s R S D W" and core: "sched_core s' R' S' D W" and w: "woken (set (filter (due s) S)) s s'"
  shows "sched_ok s' R' S' D W"
proof -
  note o = sched_okD [OF ok]
  have "current_thread s \<notin> set S" using o(5) by (simp add: listed_def)
  moreover have "idle_thread s \<notin> set S" using sched_coreD(7,10) [OF o(1)] by force
  ultimately show ?thesis using o(2-4,6,7) core w unfolding sched_ok_def by (auto simp add: woken_def lists_frame_def)
qed

lemma reset_ok:
  assumes ok: "sched_ok s R S D W"
  shows "\<exists>s'. reset_queues s = Some s' \<and> sched_ok s' (boost R) S D W \<and> boosted s R s'"
proof -
  note o = sched_okD [OF ok]
  obtain s' where s': "reset_queues s = Some s'" "sched_core s' (boost R) S D W" "lists_frame s s'" "counter s' = 0"
    "\<And>t. state (tcbs s' t) = state (tcbs s t)"
    "\<And>t. priority (tcbs s' t) = (if t \<in> set (R 1) \<union> set (R 2) then 0 else priority (tcbs s t))"
    "\<And>t. remaining_time (tcbs s' t) = (if t \<in> set (R 1) \<union> set (R 2) then FIRST_LIMIT else remaining_time (tcbs s t))"
    using reset_queues_ok [OF o(1)] by blast
  have "sched_ok s' (boost R) S D W" using o(2-4,6,7) s'(2,3,5,6) unfolding sched_ok_def by (auto simp add: lists_frame_def)
  with s' show ?thesis by (auto simp add: boosted_def)
qed

text \<open>Changing the running thread's level, slice or accounting.\<close>

lemma upd_current_ok:
  assumes ok: "sched_ok s R S D W" and f: "state (f (tcbs s (current_thread s))) = THREAD_RUNNING" "unat (priority (f (tcbs s (current_thread s)))) < 3"
  shows "sched_ok (upd_tcb (current_thread s) f s) R S D W"
proof -
  note o = sched_okD [OF ok]
  have "sched_core (upd_tcb (current_thread s) f s) R S D W" using o(1,5) f by (intro core_upd) auto
  then show ?thesis using o(2,6,7) f unfolding sched_ok_def by simp
qed

lemma charge_ok: "sched_ok s R S D W \<Longrightarrow> sched_ok (charge s) R S D W"
  unfolding charge_def using sched_okD(3,4) [of s R S D W]
  by (intro upd_current_ok) (auto simp add: next_level_def Let_def)

lemma counter_ok: "sched_ok s R S D W \<Longrightarrow> sched_ok (s\<lparr>counter := k\<rparr>) R S D W"
  unfolding sched_ok_def by (auto elim: core_same)

lemma counter_step: "(k :: u8) < 100 \<Longrightarrow> k + 1 \<ge> 100 \<longleftrightarrow> k \<ge> 99"
  by (simp add: word_le_nat_alt word_less_nat_alt unat_word_ariths)

lemma boost_idle:
  assumes ok: "sched_ok s R S D W" and p: "postpone_switches_counter s = 0" "IRQ_disable_counter s = 0"
    and k: "counter s < 100" "counter s \<ge> 99" and c: "current_thread s = idle_thread s"
  shows "\<exists>s'. after_wake s = Some s' \<and> sched_ok s' (snd (decide s R)) S D W \<and> decided s R s'"
proof -
  let ?s1 = "s\<lparr>counter := counter s + 1\<rparr>"
  obtain s2 where s2: "reset_queues ?s1 = Some s2" "sched_ok s2 (boost R) S D W" "boosted ?s1 R s2"
    using reset_ok [OF counter_ok [OF ok]] by blast
  have f: "current_thread s2 = idle_thread s2" "idle_thread s2 = idle_thread s" "postpone_switches_counter s2 = 0" "IRQ_disable_counter s2 = 0"
    using s2(3) c p by (simp_all add: boosted_def lists_frame_def)
  have d: "decide s R = pick (idle_thread s2) (requeue s2 (boost R))" using k(2) c f by (simp add: decide_def requeue_def Let_def)
  note y = locked_yield_ok [OF s2(2) f(3,4), folded d]
  have "decided s R (locked_yield s2)"
    using y(2,3,4) s2(3) c k(2) by (auto simp add: decided_def settled_def boosted_def lists_frame_def)
  moreover have "after_wake s = Some (locked_yield s2)" using s2(1) counter_step [OF k(1)] k(2) c by (simp add: after_wake_def Let_def)
  ultimately show ?thesis using y(1) by blast
qed

lemma boost_running:
  assumes ok: "sched_ok s R S D W" and p: "postpone_switches_counter s = 0" "IRQ_disable_counter s = 0"
    and k: "counter s < 100" "counter s \<ge> 99" and c: "current_thread s \<noteq> idle_thread s"
  shows "\<exists>s'. after_wake s = Some s' \<and> sched_ok s' (snd (decide s R)) S D W \<and> decided s R s'"
proof -
  let ?s1 = "(charge s)\<lparr>counter := counter s + 1\<rparr>" and ?f = "\<lambda>b. b\<lparr>priority := 0, remaining_time := FIRST_LIMIT\<rparr>"
  obtain s2 where s2: "reset_queues ?s1 = Some s2" "sched_ok s2 (boost R) S D W" "boosted ?s1 R s2"
    using reset_ok [OF counter_ok [OF charge_ok [OF ok]]] by blast
  define s3 where "s3 = upd_tcb (current_thread s2) ?f s2"
  have f2: "current_thread s2 = current_thread s" "idle_thread s2 = idle_thread s" using s2(3) by (simp_all add: boosted_def lists_frame_def charge_def)
  have f: "current_thread s3 = current_thread s" "idle_thread s3 = idle_thread s" "postpone_switches_counter s3 = 0" "IRQ_disable_counter s3 = 0"
    "priority (tcbs s3 (current_thread s)) = 0"
    using s2(3) c p f2 by (simp_all add: s3_def boosted_def lists_frame_def charge_def)
  have ok3: "sched_ok s3 (boost R) S D W"
    unfolding s3_def using sched_okD(3) [OF s2(2)] by (intro upd_current_ok [OF s2(2)]) simp_all
  have d: "decide s R = pick (idle_thread s3) (requeue s3 (boost R))"
    using k(2) c f sched_okD(3) [OF ok3] by (simp add: decide_def requeue_def Let_def)
  note y = locked_yield_ok [OF ok3 f(3,4), folded d]
  have b: "priority (tcbs s3 t) = (if t = current_thread s \<or> t \<in> set (R 1) \<union> set (R 2) then 0 else priority (tcbs s t))"
    "remaining_time (tcbs s3 t) = (if t = current_thread s \<or> t \<in> set (R 1) \<union> set (R 2) then FIRST_LIMIT else remaining_time (tcbs s t))"
    "stack_base (tcbs s3 t) = stack_base (tcbs s t)" "wake_time (tcbs s3 t) = wake_time (tcbs s t)"
    "saved_interrupt_state (tcbs s3 t) = saved_interrupt_state (tcbs s t)" for t
    using s2(3) f2 by (simp_all add: s3_def boosted_def lists_frame_def charge_def Let_def)
  have g: "counter s3 = 0" "postponed_yield_flag s3 = postponed_yield_flag s" "last_id s3 = last_id s" "system_ticks s3 = system_ticks s"
    using s2(3) by (simp_all add: s3_def boosted_def lists_frame_def charge_def)
  have "decided s R (locked_yield s3)"
    using y(2,3,4) b g f c k(2) by (auto simp add: decided_def settled_def)
  moreover have "after_wake s = Some (locked_yield s3)"
    using s2(1) counter_step [OF k(1)] k(2) c f2 by (simp add: after_wake_def Let_def s3_def)
  ultimately show ?thesis using y(1) by blast
qed

lemma no_boost:
  assumes ok: "sched_ok s R S D W" and p: "postpone_switches_counter s = 0" "IRQ_disable_counter s = 0"
    and k: "counter s < 100" "\<not> counter s \<ge> 99"
  shows "\<exists>s'. after_wake s = Some s' \<and> sched_ok s' (snd (decide s R)) S D W \<and> decided s R s'"
proof (cases "current_thread s = idle_thread s")
  case True
  then show ?thesis using ok p k counter_step [OF k(1)] counter_ok [OF ok, of "counter s + 1"]
    by (auto simp add: after_wake_def decide_def decided_def Let_def)
next
  case c: False
  let ?s4 = "(charge s)\<lparr>counter := counter s + 1\<rparr>"
  have ok4: "sched_ok ?s4 R S D W" by (rule counter_ok [OF charge_ok [OF ok]])
  have aw: "after_wake s = Some (if slice_over s then locked_yield ?s4 else ?s4)"
    using counter_step [OF k(1)] k(2) c by (simp add: after_wake_def Let_def)
  have f: "postpone_switches_counter ?s4 = 0" "IRQ_disable_counter ?s4 = 0" "idle_thread ?s4 = idle_thread s" "current_thread ?s4 = current_thread s"
    using p by (simp_all add: charge_def)
  show ?thesis
  proof (cases "slice_over s")
    case True
    have "decide s R = pick (idle_thread ?s4) (requeue ?s4 R)"
      using k(2) c True sched_okD(3) [OF ok] by (simp add: decide_def requeue_def charge_def Let_def)
    note y = locked_yield_ok [OF ok4 f(1,2), folded this]
    have "decided s R (locked_yield ?s4)"
      using y(2,3,4) f c k(2) True by (auto simp add: decided_def settled_def charge_def Let_def)
    then show ?thesis using aw True y(1) by auto
  next
    case False
    have "decided s R ?s4" "decide s R = (current_thread s, R)"
      using p c k(2) False by (auto simp add: decided_def decide_def charge_def Let_def)
    then show ?thesis using aw False ok4 by simp
  qed
qed

lemma on_tick_ok:
  assumes ok: "sched_ok s R S D W" and p: "postpone_switches_counter s = 0" "IRQ_disable_counter s = 0" and k: "counter s < 100"
  obtains s1 s' where "scheduler_on_tick s = Some s'" "woken (set (filter (due s) S)) s s1"
    "sched_ok s1 (wake_spec s R S) (filter (\<lambda>t. \<not> due s t) S) D W"
    "sched_ok s' (snd (decide s (wake_spec s R S))) (filter (\<lambda>t. \<not> due s t) S) D W" "decided s1 (wake_spec s R S) s'"
    "decide s1 (wake_spec s R S) = decide s (wake_spec s R S)"
proof -
  let ?R1 = "wake_spec s R S" and ?S1 = "filter (\<lambda>t. \<not> due s t) S"
  obtain s1 where s1: "wake_sleepers (sleeping_thread_queue s) NULL s = Some s1" "sched_core s1 ?R1 ?S1 D W" "woken (set (filter (due s) S)) s s1"
    using wake_sleepers_ok [OF sched_okD(1) [OF ok]] unfolding wake_spec_def by metis
  have ok1: "sched_ok s1 ?R1 ?S1 D W" by (rule woken_ok [OF ok s1(2,3)])
  have "postpone_switches_counter s1 = 0" "IRQ_disable_counter s1 = 0" "counter s1 < 100" using s1(3) p k by (simp_all add: woken_def lists_frame_def)
  then obtain s' where "after_wake s1 = Some s'" "sched_ok s' (snd (decide s1 ?R1)) ?S1 D W" "decided s1 ?R1 s'"
    using boost_idle [OF ok1] boost_running [OF ok1] no_boost [OF ok1] by blast
  moreover have "scheduler_on_tick s = after_wake s1" using s1(1) by (simp add: on_tick_eq after_wake_def)
  moreover have "current_thread s \<notin> set S" using sched_okD(5) [OF ok] by (simp add: listed_def)
  then have "decide s1 ?R1 = decide s ?R1" using s1(3) by (simp add: decide_def slice_over_def woken_def lists_frame_def Let_def)
  ultimately show thesis using that [of s' s1] s1(3) ok1 by simp
qed

end
