(* ===== verification/Sched_Events.thy ===== *)
theory Sched_Events
  imports Sched_Tick
begin

text \<open>
  A running system as a sequence of events: timer interrupts and calls of the running thread. One lemma shows
  that every event refines its specification on lists, others that no event loses a thread and that every
  event brings a ready thread closer to running, or does not delay it.
\<close>

section \<open>Specification vocabulary\<close>

text \<open>
  What happens to a running system, as a sequence of events: the timer interrupt, and the calls of the
  running thread. The idle thread only halts, so it makes no call. A thread that ends never returns
  from \<open>thread_exit\<close>; the thread resumed instead goes on with the unlock that follows the call of
  \<open>yield\<close> in which it was suspended, or with the one at the start of its entry function.
\<close>

abbreviation tick_entry :: "sched_state \<Rightarrow> sched_state" where
  "tick_entry s \<equiv> s\<lparr>system_ticks := system_ticks s + 1, io_trace := apic_write APIC_REGISTER_EOI 0 (io_trace s)\<rparr>"

datatype sched_event = Tick | Yield_Call | Sleep_Call u32 | Exit_Call

fun sched_event_step :: "sched_event \<Rightarrow> sched_state \<Rightarrow> sched_state option" where
  "sched_event_step Tick s = apic_timer_handler s"
| "sched_event_step Yield_Call s = Some (locked_yield s)"
| "sched_event_step (Sleep_Call r) s = thread_sleep r s"
| "sched_event_step Exit_Call s = Option.bind (thread_exit s) (\<lambda>s'. Some (unlock_scheduler s'))"

definition enabled :: "sched_event \<Rightarrow> sched_state \<Rightarrow> bool" where
  "enabled e s \<longleftrightarrow> e = Tick \<or> current_thread s \<noteq> idle_thread s"

text \<open>Between events the scheduler is unlocked, no switch is postponed, and the boost counter is below its limit.\<close>

definition quiet :: "sched_state \<Rightarrow> bool" where
  "quiet s \<longleftrightarrow> IRQ_disable_counter s = 0 \<and> postpone_switches_counter s = 0 \<and> counter s < 100"

definition threads :: "sched_state \<Rightarrow> (nat \<Rightarrow> u32 list) \<Rightarrow> u32 list \<Rightarrow> u32 list \<Rightarrow> (u32 \<rightharpoonup> u32) \<Rightarrow> u32 set" where
  "threads s R S D W = {current_thread s, idle_thread s} \<union> listed R S D W"

text \<open>The lists after an event.\<close>

fun event_spec :: "sched_event \<Rightarrow> sched_state \<Rightarrow> (nat \<Rightarrow> u32 list) \<Rightarrow> u32 list \<Rightarrow> u32 list \<Rightarrow> u32 \<times> (nat \<Rightarrow> u32 list) \<times> u32 list \<times> u32 list" where
  "event_spec Tick s R S D =
     (let s1 = tick_entry s; (n, R') = decide s1 (wake_spec s1 R S)
      in (n, R', filter (\<lambda>t. \<not> due s1 t) S, D))"
| "event_spec Yield_Call s R S D = (let (n, R') = pick (idle_thread s) (requeue s R) in (n, R', S, D))"
| "event_spec (Sleep_Call r) s R S D = (let (n, R') = pick (idle_thread s) R in (n, R', S @ [current_thread s], D))"
| "event_spec Exit_Call s R S D = (let (n, R') = pick (idle_thread s) R in (n, R', S, D @ [current_thread s]))"

text \<open>How an event changes slices, levels and the boost counter.\<close>

definition event_effect :: "sched_event \<Rightarrow> sched_state \<Rightarrow> (nat \<Rightarrow> u32 list) \<Rightarrow> u32 list \<Rightarrow> sched_state \<Rightarrow> bool" where
  "event_effect e s R S s' \<longleftrightarrow>
     (if e = Tick then let s0 = tick_entry s
        in \<exists>s1. woken (set (filter (due s0) S)) s0 s1 \<and> decided s1 (wake_spec s0 R S) s'
      else settled s s')"

text \<open>No event loses or invents a thread.\<close>

definition ready_set :: "(nat \<Rightarrow> u32 list) \<Rightarrow> u32 set" where
  "ready_set R = set (R 0) \<union> set (R 1) \<union> set (R 2)"

inductive sched_reaches :: "sched_state \<Rightarrow> sched_state \<Rightarrow> bool" for s0 where
  start: "sched_reaches s0 s0"
| event: "sched_reaches s0 s \<Longrightarrow> enabled e s \<Longrightarrow> sched_event_step e s = Some s' \<Longrightarrow> sched_reaches s0 s'"

text \<open>Every thread that takes part in scheduling has between 1 and 30 ticks left in its slice.\<close>

definition slices_ok :: "sched_state \<Rightarrow> (nat \<Rightarrow> u32 list) \<Rightarrow> u32 list \<Rightarrow> bool" where
  "slices_ok s R S \<longleftrightarrow> (\<forall>t \<in> insert (current_thread s) (ready_set R \<union> set S). t \<noteq> idle_thread s \<longrightarrow>
     1 \<le> unat (remaining_time (tcbs s t)) \<and> unat (remaining_time (tcbs s t)) \<le> 30)"

text \<open>The number of threads that take part in scheduling.\<close>

definition load :: "sched_state \<Rightarrow> (nat \<Rightarrow> u32 list) \<Rightarrow> u32 list \<Rightarrow> nat" where
  "load s R S = length (R 0) + length (R 1) + length (R 2) + length S + (if current_thread s = idle_thread s then 0 else 1)"

text \<open>
  How many ticks a ready thread waits at most. In the first queue each thread ahead of it can use one
  slice, of at most thirty ticks, and the running thread the rest of its own; the idle thread is replaced
  only by a boost. In a lower queue it may have to wait for the next boost and then for every other thread.
\<close>

definition waits :: "nat \<Rightarrow> sched_state \<Rightarrow> (nat \<Rightarrow> u32 list) \<Rightarrow> u32 \<Rightarrow> nat \<Rightarrow> bool" where
  "waits N s R t m \<longleftrightarrow>
     (\<exists>xs ys. R 0 = xs @ t # ys \<and> m = 30 * length xs + (if current_thread s = idle_thread s then 100 - unat (counter s)
         else unat (remaining_time (tcbs s (current_thread s)))))
     \<or> t \<in> set (R 1) \<union> set (R 2) \<and> m = 30 * N + (100 - unat (counter s))"

text \<open>The lists from which a tick chooses the next thread, when it chooses one.\<close>

definition tick_lists :: "sched_state \<Rightarrow> (nat \<Rightarrow> u32 list) \<Rightarrow> nat \<Rightarrow> u32 list" where
  "tick_lists s R =
     (let c = current_thread s in
      if counter s \<ge> 99 then (if c = idle_thread s then boost R else (boost R)(0 := boost R 0 @ [c]))
      else let p = unat (next_level (priority (tcbs s c))) in R(p := R p @ [c]))"

definition tick_switches :: "sched_state \<Rightarrow> bool" where
  "tick_switches s \<longleftrightarrow> counter s \<ge> 99 \<or> current_thread s \<noteq> idle_thread s \<and> slice_over s"

fun history :: "sched_event list \<Rightarrow> sched_state \<Rightarrow> sched_state list option" where
  "history [] s = Some [s]"
| "history (e # es) s =
     (if enabled e s then Option.bind (sched_event_step e s) (\<lambda>s'. Option.bind (history es s') (\<lambda>ss. Some (s # ss))) else None)"

section \<open>Lemmas\<close>

lemma counter_lt: "(k :: u8) < 100 \<Longrightarrow> \<not> 99 \<le> k \<Longrightarrow> k + 1 < 100"
  by (simp add: word_le_nat_alt word_less_nat_alt unat_word_ariths)

lemma apic_timer_handler_eq: "apic_timer_handler s = scheduler_on_tick (tick_entry s)"
  by (simp add: apic_timer_handler_def Let_def)

lemma ticks_ok: "sched_ok s R S D W \<Longrightarrow> sched_ok (tick_entry s) R S D W"
  unfolding sched_ok_def by (auto elim: core_same)

lemma event_refines:
  assumes ok: "sched_ok s R S D W" and q: "quiet s" and e: "enabled e s" and spec: "event_spec e s R S D = (n, R', S', D')"
  obtains s' where "sched_event_step e s = Some s'" "sched_ok s' R' S' D' W" "quiet s'" "current_thread s' = n" "idle_thread s' = idle_thread s"
    "event_effect e s R S s'"
proof (cases e)
  case Tick
  let ?s = "tick_entry s"
  have "postpone_switches_counter ?s = 0" "IRQ_disable_counter ?s = 0" "counter ?s < 100" using q by (simp_all add: quiet_def)
  then obtain s1 s' where t: "scheduler_on_tick ?s = Some s'" "woken (set (filter (due ?s) S)) ?s s1"
    "sched_ok s' (snd (decide ?s (wake_spec ?s R S))) (filter (\<lambda>t. \<not> due ?s t) S) D W" "decided s1 (wake_spec ?s R S) s'"
    "decide s1 (wake_spec ?s R S) = decide ?s (wake_spec ?s R S)"
    using on_tick_ok [OF ticks_ok [OF ok]] by blast
  have "quiet s'" using t(2,4) q by (auto simp add: quiet_def decided_def woken_def lists_frame_def counter_lt)
  moreover have "current_thread s' = n" "idle_thread s' = idle_thread s"
    using t(2,4,5) spec Tick by (auto simp add: decided_def woken_def lists_frame_def Let_def case_prod_beta)
  moreover have "event_effect e s R S s'" using t(2,4) Tick by (auto simp add: event_effect_def Let_def)
  ultimately show thesis using that [of s'] t(1,3) spec Tick by (auto simp add: apic_timer_handler_eq Let_def case_prod_beta)
next
  case Yield_Call
  then show thesis using that locked_yield_ok [OF ok] spec q by (auto simp add: quiet_def settled_def event_effect_def Let_def case_prod_beta)
next
  case (Sleep_Call r)
  then have c: "current_thread s \<noteq> idle_thread s" using e by (simp add: enabled_def)
  obtain s' where s': "thread_sleep r s = Some s'" "sched_ok s' (snd (pick (idle_thread s) R)) (S @ [current_thread s]) D W"
    "current_thread s' = fst (pick (idle_thread s) R)" "settled s s'"
    using sleep_ok [OF ok _ _ c] q by (metis quiet_def)
  then have "quiet s'" "idle_thread s' = idle_thread s" using q by (auto simp add: quiet_def settled_def)
  with s' show thesis using that [of s'] spec Sleep_Call by (auto simp add: event_effect_def Let_def case_prod_beta)
next
  case Exit_Call
  then have c: "current_thread s \<noteq> idle_thread s" using e by (simp add: enabled_def)
  obtain s' where s': "thread_exit s = Some s'" "sched_ok (unlock_scheduler s') (snd (pick (idle_thread s) R)) S (D @ [current_thread s]) W"
    "current_thread s' = fst (pick (idle_thread s) R)" "settled s (unlock_scheduler s')"
    using exit_ok [OF ok _ _ c] q by (metis quiet_def)
  then have "quiet (unlock_scheduler s')" "idle_thread s' = idle_thread s" using q by (auto simp add: quiet_def settled_def)
  with s' show thesis using that [of "unlock_scheduler s'"] spec Exit_Call by (auto simp add: event_effect_def Let_def case_prod_beta)
qed

lemma ready_set_simps:
  "ready_set (boost R) = ready_set R" "p < 3 \<Longrightarrow> ready_set (R(p := R p @ ts)) = set ts \<union> ready_set R"
  "listed R S D W = ready_set R \<union> set S \<union> set D \<union> dom W"
  by (auto simp add: ready_set_def boost_def listed_def dest!: less_3_cases)

lemma pick_threads: "insert (fst (pick i R)) (insert i (ready_set (snd (pick i R)))) = insert i (ready_set R)"
  by (cases "R 0"; cases "R 1"; cases "R 2") (auto simp add: pick_def ready_set_def)

lemma next_level_lt: "unat (next_level p) < 3"
  by (simp add: next_level_def)

lemma decide_threads: "{fst (decide s R), idle_thread s} \<union> ready_set (snd (decide s R)) = {current_thread s, idle_thread s} \<union> ready_set R"
proof -
  have b: "ready_set ((boost R)(0 := boost R 0 @ [c])) = insert c (ready_set R)" for c
    using ready_set_simps(2) [of 0 "boost R"] by (simp add: ready_set_simps)
  show ?thesis
    using pick_threads [of "idle_thread s" "(boost R)(0 := boost R 0 @ [current_thread s])"] pick_threads [of "idle_thread s" "boost R"]
      pick_threads [of "idle_thread s" "R(unat (next_level (priority (tcbs s (current_thread s)))) :=
        R (unat (next_level (priority (tcbs s (current_thread s))))) @ [current_thread s])"]
      b ready_set_simps(1) [of R] ready_set_simps(2) [OF next_level_lt, of R]
    by (auto simp add: decide_def Let_def simp del: fun_upd_apply)
qed

lemma requeue_threads:
  assumes "sched_ok s R S D W"
  shows "insert (idle_thread s) (ready_set (requeue s R)) = {current_thread s, idle_thread s} \<union> ready_set R"
  using sched_okD(3,4) [OF assms] ready_set_simps(2) [of "unat (priority (tcbs s (current_thread s)))" R "[current_thread s]"]
  by (auto simp add: requeue_def Let_def simp del: fun_upd_apply)

lemma event_threads:
  assumes ok: "sched_ok s R S D W" and spec: "event_spec e s R S D = (n, R', S', D')"
  shows "{n, idle_thread s} \<union> listed R' S' D' W = threads s R S D W"
proof (cases e)
  case Tick
  let ?s = "tick_entry s"
  have "ready_set (wake_spec ?s R S) = ready_set R \<union> set (filter (due ?s) S)"
    using ready_set_simps(2) [of 0 R] by (auto simp add: wake_spec_def simp del: fun_upd_apply)
  then show ?thesis using decide_threads [of ?s "wake_spec ?s R S"] spec Tick
    by (auto simp add: threads_def ready_set_simps(3) Let_def case_prod_beta)
next
  case Yield_Call
  then show ?thesis using pick_threads [of "idle_thread s" "requeue s R"] requeue_threads [OF ok] spec
    by (auto simp add: threads_def ready_set_simps(3) Let_def case_prod_beta)
next
  case (Sleep_Call r)
  then show ?thesis using pick_threads [of "idle_thread s" R] spec
    by (auto simp add: threads_def ready_set_simps(3) Let_def case_prod_beta)
next
  case Exit_Call
  then show ?thesis using pick_threads [of "idle_thread s" R] spec
    by (auto simp add: threads_def ready_set_simps(3) Let_def case_prod_beta)
qed

inductive_cases sched_reachesE: "sched_reaches s0 s"

lemma reaches_inv:
  assumes "sched_reaches s0 s" "sched_ok s0 R0 S0 D0 W" "quiet s0"
  shows "\<exists>R S D. sched_ok s R S D W \<and> quiet s \<and> threads s R S D W = threads s0 R0 S0 D0 W"
  using assms
proof (induction rule: sched_reaches.induct)
  case (event s e s')
  then obtain R S D where i: "sched_ok s R S D W" "quiet s" "threads s R S D W = threads s0 R0 S0 D0 W" by blast
  obtain n R' S' D' where spec: "event_spec e s R S D = (n, R', S', D')" by (cases "event_spec e s R S D") auto
  obtain s'' where "sched_event_step e s = Some s''" "sched_ok s'' R' S' D' W" "quiet s''" "current_thread s'' = n" "idle_thread s'' = idle_thread s"
    by (rule event_refines [OF i(1,2) event(2) spec])
  moreover have "threads s'' R' S' D' W = threads s R S D W"
    using event_threads [OF i(1) spec] calculation(4,5) by (simp add: threads_def)
  ultimately show ?case using event(3) i(3) by auto
qed blast

lemma slice_arith:
  assumes "1 \<le> unat (r :: u8)" "unat r \<le> 30"
  shows "sint (r - 1) \<le> 0 \<longleftrightarrow> unat r = 1" "unat (r - 1) = unat r - 1"
proof -
  have "r \<noteq> 0" using assms by auto
  then show u: "unat (r - 1) = unat r - 1" by (simp add: unat_minus_one)
  have "uint (r - 1) < 2 ^ 7" using assms(2) u unfolding uint_nat by simp
  then have "sint (r - 1) = int (unat (r - 1))" by (simp add: sint_uint signed_take_bit_int_eq_self [OF order_trans [of _ 0]])
  then have "sint (r - 1) = int (unat r - 1)" unfolding u .
  then show "sint (r - 1) \<le> 0 \<longleftrightarrow> unat r = 1" using assms by linarith
qed

lemma level_slice_bounds: "1 \<le> unat (level_slice p)" "unat (level_slice p) \<le> 30"
  by (simp_all add: level_slice_def)

lemma pick_lengths:
  assumes "i \<notin> ready_set R"
  shows "length (snd (pick i R) 0) + length (snd (pick i R) 1) + length (snd (pick i R) 2) + (if fst (pick i R) = i then 0 else 1)
    = length (R 0) + length (R 1) + length (R 2)"
  using assms by (cases "R 0"; cases "R 1"; cases "R 2") (auto simp add: pick_def ready_set_def)

lemma pick_first:
  assumes "R 0 = xs @ t # ys"
  shows "pick i R = (hd (xs @ [t]), R(0 := tl (xs @ t # ys)))"
  using assms by (cases xs) (auto simp add: pick_def)

lemma pick_lower:
  assumes "t \<in> set (R 1) \<union> set (R 2)"
  shows "fst (pick i R) = t \<or> t \<in> set (snd (pick i R) 1) \<union> set (snd (pick i R) 2)"
  using assms by (cases "R 0"; cases "R 1"; cases "R 2") (auto simp add: pick_def)

text \<open>Choosing the next thread from lists in which \<open>t\<close> is ready: it is chosen, or one thread ahead of it is.\<close>

lemma pick_waits:
  assumes idle: "idle_thread s' \<notin> ready_set R" and cur: "current_thread s' = fst (pick (idle_thread s') R)"
    and t: "R 0 = xs @ t # ys" and rem: "\<And>u. u \<in> ready_set R \<Longrightarrow> unat (remaining_time (tcbs s' u)) \<le> 30"
  shows "current_thread s' = t \<or> (\<exists>m'. waits N s' (snd (pick (idle_thread s') R)) t m' \<and> m' \<le> 30 * length xs)"
proof (cases xs)
  case Nil
  then show ?thesis using pick_first [of R "[]" t ys] t cur by simp
next
  case (Cons x xs')
  then have p: "pick (idle_thread s') R = (x, R(0 := xs' @ t # ys))" using pick_first [of R xs t ys] t by simp
  moreover have "x \<in> ready_set R" using t Cons by (simp add: ready_set_def)
  ultimately have "current_thread s' \<noteq> idle_thread s'" "unat (remaining_time (tcbs s' (current_thread s'))) \<le> 30"
    using idle cur rem by auto
  then have "waits N s' (snd (pick (idle_thread s') R)) t (30 * length xs' + unat (remaining_time (tcbs s' (current_thread s'))))"
    using p by (auto simp add: waits_def)
  with \<open>unat (remaining_time (tcbs s' (current_thread s'))) \<le> 30\<close> Cons show ?thesis by fastforce
qed

lemma pick_waits_lower:
  assumes cur: "current_thread s' = fst (pick (idle_thread s') R)" and t: "t \<in> set (R 1) \<union> set (R 2)"
  shows "current_thread s' = t \<or> waits N s' (snd (pick (idle_thread s') R)) t (30 * N + (100 - unat (counter s')))"
  using pick_lower [OF t, of "idle_thread s'"] cur by (auto simp add: waits_def)

lemma idle_not_ready: "sched_ok s R S D W \<Longrightarrow> idle_thread s \<notin> ready_set R"
  using sched_coreD(6) [of s R S D W 0] sched_coreD(6) [of s R S D W 1] sched_coreD(6) [of s R S D W 2]
  by (simp add: sched_ok_def ready_set_def)

text \<open>A call of the running thread.\<close>

lemma call_progress:
  assumes ok: "sched_ok s R S D W" and sl: "slices_ok s R S" and w: "waits N s R t m" and e: "e \<noteq> Tick" "enabled e s"
    and spec: "event_spec e s R S D = (n, R', S', D')" and eff: "event_effect e s R S s'" and cur: "current_thread s' = n"
  shows "slices_ok s' R' S'" "load s' R' S' \<le> load s R S" "n = t \<or> (\<exists>m' \<le> m. waits N s' R' t m')"
proof -
  note o = sched_okD [OF ok] and idle = idle_not_ready [OF ok]
  have c: "current_thread s \<noteq> idle_thread s" using e by (simp add: enabled_def)
  define Q where "Q = (case e of Yield_Call \<Rightarrow> requeue s R | _ \<Rightarrow> R)"
  have p: "unat (priority (tcbs s (current_thread s))) < 3" by (rule o(4))
  have Q0: "Q 0 = R 0 \<or> Q 0 = R 0 @ [current_thread s]" "set (R 1) \<union> set (R 2) \<subseteq> set (Q 1) \<union> set (Q 2)"
    "ready_set Q \<union> set S' = ready_set R \<union> set S \<union> (if e = Exit_Call then {} else {current_thread s})"
    "length (Q 0) + length (Q 1) + length (Q 2) + length S' \<le> load s R S"
    using e(1) c o(3) spec p by (cases e; auto simp add: Q_def requeue_def ready_set_def load_def Let_def case_prod_beta dest!: less_3_cases)+
  have nR: "(n, R') = pick (idle_thread s) Q" using spec e(1) by (cases e) (auto simp add: Q_def Let_def case_prod_beta)
  have s': "settled s s'" using eff e(1) by (simp add: event_effect_def)
  then have f: "idle_thread s' = idle_thread s" "counter s' = counter s" "remaining_time (tcbs s' u) = remaining_time (tcbs s u)" for u
    by (simp_all add: settled_def)
  have sub: "insert n (insert (idle_thread s) (ready_set R')) = insert (idle_thread s) (ready_set Q)"
    using pick_threads [of "idle_thread s" Q] nR by (metis fst_conv snd_conv)
  have rem: "1 \<le> unat (remaining_time (tcbs s' u)) \<and> unat (remaining_time (tcbs s' u)) \<le> 30"
    if "u \<in> ready_set Q \<union> set S'" "u \<noteq> idle_thread s" for u
    using sl that Q0(3) f unfolding slices_ok_def by (auto split: if_splits)
  have "u \<in> ready_set Q \<union> set S'" if "u \<in> insert (current_thread s') (ready_set R' \<union> set S')" "u \<noteq> idle_thread s" for u
    using that sub cur by blast
  then show "slices_ok s' R' S'" using rem unfolding slices_ok_def f(1) by metis
  have idleQ: "idle_thread s \<notin> ready_set Q"
    using idle c requeue_threads [OF ok] ready_set_simps(2) [OF p, of R "[current_thread s]"]
    by (auto simp add: Q_def requeue_def Let_def simp del: fun_upd_apply split: sched_event.splits)
  show "load s' R' S' \<le> load s R S"
    using pick_lengths [OF idleQ] nR [symmetric] Q0(4) cur f(1) by (simp add: load_def [of s'])
  have pk: "current_thread s' = fst (pick (idle_thread s') Q)" "snd (pick (idle_thread s') Q) = R'" using nR [symmetric] cur f(1) by simp_all
  show "n = t \<or> (\<exists>m' \<le> m. waits N s' R' t m')"
  proof (cases "t \<in> set (R 1) \<union> set (R 2) \<and> m = 30 * N + (100 - unat (counter s))")
    case True
    then show ?thesis using pick_waits_lower [OF pk(1), of t N] Q0(2) f(2) cur unfolding pk(2) by auto
  next
    case False
    then obtain xs ys where t: "R 0 = xs @ t # ys" "30 * length xs \<le> m" using w by (auto simp add: waits_def)
    then obtain zs where "Q 0 = xs @ t # zs" using Q0(1) by auto
    then show ?thesis using pick_waits [of s' Q xs t zs N] pk idleQ rem f(1) t(2) cur by (metis UnI1 order_trans)
  qed
qed

lemma slices_okD:
  assumes "slices_ok s R S" "t \<in> insert (current_thread s) (ready_set R \<union> set S)" "t \<noteq> idle_thread s"
  shows "1 \<le> unat (remaining_time (tcbs s t))" "unat (remaining_time (tcbs s t)) \<le> 30"
  using assms unfolding slices_ok_def by blast+

lemma decided_fields:
  assumes "decided s R s'"
  shows "idle_thread s' = idle_thread s" "current_thread s' = fst (decide s R)" "counter s' = (if counter s \<ge> 99 then 0 else counter s + 1)"
  using assms by (simp_all add: decided_def)

lemma decided_slice:
  assumes d: "decided s R s'" and r: "1 \<le> unat (remaining_time (tcbs s u))" "unat (remaining_time (tcbs s u)) \<le> 30"
  shows "1 \<le> unat (remaining_time (tcbs s' u))" "unat (remaining_time (tcbs s' u)) \<le> 30"
proof -
  have "remaining_time (tcbs s' u) \<in> {FIRST_LIMIT, level_slice (priority (tcbs s' u)), remaining_time (tcbs s u)}
      \<or> remaining_time (tcbs s' u) = remaining_time (tcbs s u) - 1 \<and> u = current_thread s \<and> \<not> slice_over s"
    using d unfolding decided_def by (smt (verit) insert_iff)
  then consider "remaining_time (tcbs s' u) = FIRST_LIMIT" | "remaining_time (tcbs s' u) = level_slice (priority (tcbs s' u))"
    | "remaining_time (tcbs s' u) = remaining_time (tcbs s u)"
    | "remaining_time (tcbs s' u) = remaining_time (tcbs s u) - 1" "u = current_thread s" "\<not> slice_over s" by blast
  then have "1 \<le> unat (remaining_time (tcbs s' u)) \<and> unat (remaining_time (tcbs s' u)) \<le> 30"
  proof cases
    case 2 then show ?thesis using level_slice_bounds by metis
  next
    case 4 then show ?thesis using slice_arith [OF r] r by (auto simp add: slice_over_def)
  qed (use r in simp_all)
  then show "1 \<le> unat (remaining_time (tcbs s' u))" "unat (remaining_time (tcbs s' u)) \<le> 30" by simp_all
qed

lemma decide_switch: "decide s R = (if tick_switches s then pick (idle_thread s) (tick_lists s R) else (current_thread s, R))"
  by (simp add: decide_def tick_switches_def tick_lists_def Let_def)

lemma tick_lists_set:
  assumes "tick_switches s"
  shows "ready_set (tick_lists s R) = ready_set R \<union> ({current_thread s} - {idle_thread s})"
    "length (tick_lists s R 0) + length (tick_lists s R 1) + length (tick_lists s R 2)
      = length (R 0) + length (R 1) + length (R 2) + (if current_thread s = idle_thread s then 0 else 1)"
  using assms by (auto simp add: tick_lists_def tick_switches_def boost_def ready_set_def next_level_def Let_def)

lemma decide_slices:
  assumes sl: "slices_ok s R S" and d: "decided s R s'"
  shows "slices_ok s' (snd (decide s R)) S"
  unfolding slices_ok_def
proof (intro ballI impI)
  fix u assume u: "u \<in> insert (current_thread s') (ready_set (snd (decide s R)) \<union> set S)" "u \<noteq> idle_thread s'"
  note f = decided_fields [OF d]
  have "u \<in> {fst (decide s R), idle_thread s} \<union> ready_set (snd (decide s R)) \<union> set S" using u(1) f(2) by auto
  then have "u \<in> insert (current_thread s) (ready_set R \<union> set S)" using u(2) f(1) unfolding decide_threads by auto
  then have "1 \<le> unat (remaining_time (tcbs s u))" "unat (remaining_time (tcbs s u)) \<le> 30" using slices_okD [OF sl] u(2) f(1) by simp_all
  then show "1 \<le> unat (remaining_time (tcbs s' u)) \<and> unat (remaining_time (tcbs s' u)) \<le> 30" using decided_slice [OF d] by blast
qed

lemma decide_load:
  assumes ok: "sched_ok s R S D W" and d: "decided s R s'"
  shows "load s' (snd (decide s R)) S = load s R S"
proof (cases "tick_switches s")
  case True
  note f = decided_fields [OF d] and t = tick_lists_set [OF True, of R]
  have "idle_thread s \<notin> ready_set (tick_lists s R)" using idle_not_ready [OF ok] t(1) by simp
  from pick_lengths [OF this] t(2) show ?thesis using f True by (simp add: load_def decide_switch)
next
  case False
  then show ?thesis using decided_fields [OF d] by (simp add: load_def decide_switch)
qed

lemma stay_progress:
  assumes ok: "sched_ok s R S D W" and sl: "slices_ok s R S" and w: "waits N s R t m" and d: "decided s R s'" and stay: "\<not> tick_switches s"
  shows "\<exists>m' < m. waits N s' (snd (decide s R)) t m'"
proof -
  let ?c = "current_thread s"
  note f = decided_fields [OF d]
  have k: "unat (counter s) < 99" "unat (counter s') = unat (counter s) + 1"
    using stay f(3) by (auto simp add: tick_switches_def word_le_nat_alt unat_word_ariths)
  have R: "snd (decide s R) = R" "current_thread s' = ?c" using stay f(2) by (simp_all add: decide_switch)
  have rem: "unat (remaining_time (tcbs s' ?c)) < unat (remaining_time (tcbs s ?c))" if "?c \<noteq> idle_thread s"
  proof -
    have "remaining_time (tcbs s' ?c) = remaining_time (tcbs s ?c) - 1" using d stay that by (simp add: decided_def tick_switches_def)
    moreover have "1 \<le> unat (remaining_time (tcbs s ?c))" "unat (remaining_time (tcbs s ?c)) \<le> 30" using sl that by (auto simp add: slices_ok_def)
    ultimately show ?thesis using slice_arith(2) by fastforce
  qed
  from w show ?thesis unfolding waits_def [of N s R t m]
  proof (elim disjE exE conjE)
    fix xs ys assume t: "R 0 = xs @ t # ys" "m = 30 * length xs + (if ?c = idle_thread s then 100 - unat (counter s) else unat (remaining_time (tcbs s ?c)))"
    let ?m = "30 * length xs + (if ?c = idle_thread s then 100 - unat (counter s') else unat (remaining_time (tcbs s' ?c)))"
    have "waits N s' R t ?m" unfolding waits_def R(2) f(1) using t(1) by blast
    moreover have "?m < m" using t(2) k rem by (cases "?c = idle_thread s"; simp; linarith)
    ultimately show "\<exists>m' < m. waits N s' (snd (decide s R)) t m'" unfolding R(1) by blast
  next
    assume "t \<in> set (R 1) \<union> set (R 2)" "m = 30 * N + (100 - unat (counter s))"
    moreover have "waits N s' R t (30 * N + (100 - unat (counter s')))" using calculation(1) by (simp add: waits_def)
    ultimately show "\<exists>m' < m. waits N s' (snd (decide s R)) t m'" unfolding R(1) using k by (intro exI) auto
  qed
qed

lemma switch_progress:
  assumes ok: "sched_ok s R S D W" and sl: "slices_ok s R S" and N: "load s R S \<le> N" and k: "counter s < 100"
    and w: "waits N s R t m" and d: "decided s R s'" and sw: "tick_switches s"
  shows "current_thread s' = t \<or> (\<exists>m' < m. waits N s' (snd (decide s R)) t m')"
proof -
  note f = decided_fields [OF d] and tl = tick_lists_set [OF sw, of R]
  let ?Q = "tick_lists s R" and ?c = "current_thread s"
  have pk: "current_thread s' = fst (pick (idle_thread s') ?Q)" "snd (decide s R) = snd (pick (idle_thread s') ?Q)"
    using f sw by (simp_all add: decide_switch)
  have idle: "idle_thread s' \<notin> ready_set ?Q" using idle_not_ready [OF ok] tl(1) f(1) by simp
  have rem: "unat (remaining_time (tcbs s' u)) \<le> 30" if "u \<in> ready_set ?Q" for u
    using that idle tl(1) f(1) by (intro decided_slice(2) [OF d] slices_okD [OF sl]) auto
  have k': "unat (counter s) < 100" using k by (simp add: word_less_nat_alt)
  have first: "current_thread s' = t \<or> (\<exists>m' < m. waits N s' (snd (decide s R)) t m')" if "?Q 0 = xs @ t # zs" "30 * length xs < m" for xs zs
    using pick_waits [OF idle pk(1) that(1) rem, of N] that(2) unfolding pk(2) by (meson order_le_less_trans)
  from w show ?thesis unfolding waits_def [of N s R t m]
  proof (elim disjE exE conjE)
    fix xs ys assume t: "R 0 = xs @ t # ys" "m = 30 * length xs + (if ?c = idle_thread s then 100 - unat (counter s) else unat (remaining_time (tcbs s ?c)))"
    have "30 * length xs < m" using t(2) k' sl by (auto simp add: slices_ok_def)
    moreover have "\<exists>us. ?Q 0 = R 0 @ us" by (simp add: tick_lists_def boost_def next_level_def Let_def)
    then obtain zs where "?Q 0 = xs @ t # zs" using t(1) by auto
    ultimately show ?thesis using first by blast
  next
    assume t: "t \<in> set (R 1) \<union> set (R 2)" "m = 30 * N + (100 - unat (counter s))"
    show ?thesis
    proof (cases "counter s \<ge> 99")
      case True
      then have "t \<in> set (?Q 0)" using t(1) by (auto simp add: tick_lists_def boost_def Let_def)
      then obtain xs zs where xs: "?Q 0 = xs @ t # zs" by (meson split_list)
      then have "length xs \<le> N" using tl(2) N by (simp add: load_def split: if_splits)
      then show ?thesis using first [OF xs] t(2) k' by simp
    next
      case False
      then have "t \<in> set (?Q 1) \<union> set (?Q 2)" using t(1) by (auto simp add: tick_lists_def next_level_def Let_def)
      moreover have "unat (counter s') = unat (counter s) + 1" using False f(3) by (auto simp add: word_le_nat_alt unat_word_ariths)
      ultimately show ?thesis using pick_waits_lower [OF pk(1), of t N] t(2) k' unfolding pk(2) by (metis add_strict_left_mono diff_less_mono2 less_add_one)
    qed
  qed
qed

lemma wake_keeps:
  fixes R :: "nat \<Rightarrow> u32 list"
  assumes w: "woken (set (filter (due s0) S)) s0 s1" and s0: "s0 = tick_entry s"
  defines "R1 \<equiv> wake_spec s0 R S" and "S1 \<equiv> filter (\<lambda>t. \<not> due s0 t) S"
  shows "slices_ok s R S \<Longrightarrow> slices_ok s1 R1 S1" "load s1 R1 S1 = load s R S" "waits N s R t m \<Longrightarrow> waits N s1 R1 t m"
    "counter s1 = counter s"
proof -
  have f: "current_thread s1 = current_thread s" "idle_thread s1 = idle_thread s" "counter s1 = counter s"
    "remaining_time (tcbs s1 u) = remaining_time (tcbs s u)" for u
    using w s0 by (simp_all add: woken_def lists_frame_def)
  have "ready_set R1 \<union> set S1 = ready_set R \<union> set S"
    by (auto simp add: ready_set_def R1_def S1_def wake_spec_def)
  then show "slices_ok s R S \<Longrightarrow> slices_ok s1 R1 S1" by (simp add: slices_ok_def f)
  show "load s1 R1 S1 = load s R S"
    using sum_length_filter_compl [of "due s0" S] by (simp add: load_def f R1_def S1_def wake_spec_def)
  show "counter s1 = counter s" by (rule f(3))
  have R1: "R1 0 = R 0 @ filter (due s0) S" "R1 1 = R 1" "R1 2 = R 2" by (simp_all add: R1_def wake_spec_def)
  assume "waits N s R t m"
  then show "waits N s1 R1 t m" unfolding waits_def f R1 by (elim disjE exE conjE) (metis append_assoc append_Cons, blast)
qed

lemma waits_pos:
  assumes "waits N s R t m" "slices_ok s R S" "quiet s"
  shows "0 < m"
  using assms slices_okD(1) [OF assms(2), of "current_thread s"]
  by (auto simp add: waits_def quiet_def word_less_nat_alt split: if_splits)

text \<open>Every event lets a waiting thread run or keeps its waiting time, and a tick shortens it.\<close>

lemma event_progress:
  assumes ok: "sched_ok s R S D W" and q: "quiet s" and sl: "slices_ok s R S" and N: "load s R S \<le> N" and w: "waits N s R t m"
    and e: "enabled e s" and step: "sched_event_step e s = Some s'"
  obtains R' S' D' m' where "sched_ok s' R' S' D' W" "quiet s'" "slices_ok s' R' S'" "load s' R' S' \<le> N"
    "current_thread s' = t \<or> waits N s' R' t m' \<and> m' \<le> m \<and> (e = Tick \<longrightarrow> m' < m)"
proof -
  obtain n R' S' D' where spec: "event_spec e s R S D = (n, R', S', D')" by (cases "event_spec e s R S D") auto
  obtain s'' where "sched_event_step e s = Some s''" "sched_ok s'' R' S' D' W" "quiet s''" "current_thread s'' = n" "event_effect e s R S s''"
    by (rule event_refines [OF ok q e spec])
  then have s': "sched_ok s' R' S' D' W" "quiet s'" "current_thread s' = n" "event_effect e s R S s'" using step by simp_all
  have "slices_ok s' R' S' \<and> load s' R' S' \<le> N
    \<and> (\<exists>m'. current_thread s' = t \<or> waits N s' R' t m' \<and> m' \<le> m \<and> (e = Tick \<longrightarrow> m' < m))"
  proof (cases "e = Tick")
    case False
    then show ?thesis using call_progress [OF ok sl w False e spec s'(4,3)] N s'(3) by auto
  next
    case True
    let ?s0 = "tick_entry s" and ?R1 = "wake_spec (tick_entry s) R S"
    have t: "postpone_switches_counter ?s0 = 0" "IRQ_disable_counter ?s0 = 0" "counter ?s0 < 100" using q by (simp_all add: quiet_def)
    obtain s1 u where u: "scheduler_on_tick ?s0 = Some u" "woken (set (filter (due ?s0) S)) ?s0 s1"
      "sched_ok s1 ?R1 (filter (\<lambda>t. \<not> due ?s0 t) S) D W" "decided s1 ?R1 u" "decide s1 ?R1 = decide ?s0 ?R1"
      by (rule on_tick_ok [OF ticks_ok [OF ok] t])
    then have "u = s'" using step True by (simp add: apic_timer_handler_eq)
    note s1 = u(2,3) u(4) [unfolded this] u(5)
    have R': "R' = snd (decide s1 ?R1)" "S' = filter (\<lambda>t. \<not> due ?s0 t) S" using spec True s1(4) by (auto simp add: Let_def case_prod_beta)
    note k = wake_keeps(1-3) [OF s1(1) refl, where R = R] wake_keeps(4) [OF s1(1) refl]
    have "load s1 ?R1 S' \<le> N" "counter s1 < 100" using k(2,4) N t(3) R'(2) by simp_all
    then have "current_thread s' = t \<or> (\<exists>m' < m. waits N s' R' t m')"
      using stay_progress [OF s1(2) k(1) [OF sl] k(3) [OF w] s1(3)] switch_progress [OF s1(2) k(1) [OF sl] _ _ k(3) [OF w] s1(3)] R' by blast
    moreover have "slices_ok s' R' S'" using decide_slices [OF k(1) [OF sl] s1(3)] R' by simp
    moreover have "load s' R' S' \<le> N" using decide_load [OF s1(2,3)] k(2) N R' by simp
    ultimately show ?thesis using less_imp_le by blast
  qed
  with s'(1,2) that show thesis by blast
qed

lemma history_reaches:
  assumes "sched_ok s R S D W" "quiet s" "slices_ok s R S" "load s R S \<le> N" "waits N s R t m" "history es s = Some ss" "m \<le> count_list es Tick"
  shows "t \<in> current_thread ` set ss"
  using assms
proof (induction es arbitrary: s R S D m ss)
  case Nil
  then show ?case using waits_pos [OF Nil.prems(5,3,2)] by simp
next
  case (Cons e es)
  then have en: "enabled e s" by (simp split: if_splits)
  then obtain s' ss' where h: "sched_event_step e s = Some s'" "history es s' = Some ss'" "ss = s # ss'"
    using Cons.prems(6) by (auto simp add: Option.bind_eq_Some_conv)
  obtain R' S' D' m' where n: "sched_ok s' R' S' D' W" "quiet s'" "slices_ok s' R' S'" "load s' R' S' \<le> N"
    "current_thread s' = t \<or> waits N s' R' t m' \<and> m' \<le> m \<and> (e = Tick \<longrightarrow> m' < m)"
    by (rule event_progress [OF Cons.prems(1-5) en h(1)])
  show ?case
  proof (cases "current_thread s' = t")
    case True
    have "s' \<in> set ss'" using h(2) by (cases es) (auto simp add: Option.bind_eq_Some_conv split: if_splits)
    then show ?thesis using True h(3) by auto
  next
    case False
    then have "m' \<le> count_list es Tick" using n(5) Cons.prems(7) by (cases "e = Tick") auto
    then have "t \<in> current_thread ` set ss'" using Cons.IH [OF n(1-4) _ h(2)] n(5) False by blast
    then show ?thesis using h(3) by simp
  qed
qed

lemma waits_bound:
  assumes ok: "sched_ok s R S D W" and q: "quiet s" and sl: "slices_ok s R S" and t: "t \<in> ready_set R"
  obtains m where "waits (load s R S) s R t m" "m \<le> 30 * load s R S + 100"
proof (cases "t \<in> set (R 0)")
  case True
  then obtain xs ys where x: "R 0 = xs @ t # ys" by (meson split_list)
  let ?c = "current_thread s"
  let ?m = "30 * length xs + (if ?c = idle_thread s then 100 - unat (counter s) else unat (remaining_time (tcbs s ?c)))"
  have "waits (load s R S) s R t ?m" using x by (auto simp add: waits_def)
  moreover have "?m \<le> 30 * load s R S + 100" using x slices_okD(2) [OF sl, of ?c] by (auto simp add: load_def)
  ultimately show thesis by (rule that)
next
  case False
  then have "waits (load s R S) s R t (30 * load s R S + (100 - unat (counter s)))" using t by (auto simp add: waits_def ready_set_def)
  then show thesis by (rule that) simp
qed

end
