(* ===== verification/Sync_Queues.thy ===== *)
theory Sync_Queues
  imports Threads Sched_Events
begin

text \<open>
  Queues of waiting threads. Both kinds of objects keep one, linked by the \<open>next\<close> fields of the control blocks; they are a second
  instance of the queue interface. The relation \<open>sync_ok k R S D X Q\<close> extends the scheduler's invariant: the threads blocked in
  the scheduler's sense are exactly those in the queues \<open>Q\<close> of the objects \<open>X\<close>, no thread waits for two objects, and
  threads wait only for exhausted objects.
\<close>

section \<open>Specification vocabulary\<close>

datatype waitq = Sem u32 | Mtx u32

fun wq_head :: "waitq \<Rightarrow> kernel_state \<Rightarrow> u32" where
  "wq_head (Sem x) k = sem_first_waiting_thread (semaphores k x)"
| "wq_head (Mtx x) k = mtx_first_waiting_thread (mutexes k x)"

fun wq_tail :: "waitq \<Rightarrow> kernel_state \<Rightarrow> u32" where
  "wq_tail (Sem x) k = sem_last_waiting_thread (semaphores k x)"
| "wq_tail (Mtx x) k = mtx_last_waiting_thread (mutexes k x)"

fun wq_append :: "waitq \<Rightarrow> u32 \<Rightarrow> kernel_state \<Rightarrow> kernel_state" where
  "wq_append (Sem x) t k = sem_append x t k"
| "wq_append (Mtx x) t k = mtx_append x t k"

definition blocked :: "waitq set \<Rightarrow> (waitq \<Rightarrow> u32 list) \<Rightarrow> u32 set" where
  "blocked X Q = (\<Union>w \<in> X. set (Q w))"

definition waiting :: "waitq set \<Rightarrow> (waitq \<Rightarrow> u32 list) \<Rightarrow> sched_state \<Rightarrow> u32 \<rightharpoonup> u32" where
  "waiting X Q s t = (if t \<in> blocked X Q then Some (nx s t) else None)"

definition wait_lists :: "kernel_state \<Rightarrow> waitq set \<Rightarrow> (waitq \<Rightarrow> u32 list) \<Rightarrow> bool" where
  "wait_lists k X Q \<longleftrightarrow>
     (\<forall>w \<in> X. path (nx (sched k)) (wq_head w k) (Q w) \<and> (Q w \<noteq> [] \<longrightarrow> wq_tail w k = last (Q w)))
     \<and> (\<forall>w \<in> X. \<forall>v \<in> X. w \<noteq> v \<longrightarrow> set (Q w) \<inter> set (Q v) = {})"

definition counts_ok :: "kernel_state \<Rightarrow> waitq set \<Rightarrow> (waitq \<Rightarrow> u32 list) \<Rightarrow> bool" where
  "counts_ok k X Q \<longleftrightarrow>
     (\<forall>x. Sem x \<in> X \<longrightarrow> current_count (semaphores k x) \<le> max_count (semaphores k x)
        \<and> (Q (Sem x) \<noteq> [] \<longrightarrow> current_count (semaphores k x) = max_count (semaphores k x)))
     \<and> (\<forall>x. Mtx x \<in> X \<longrightarrow> Q (Mtx x) \<noteq> [] \<longrightarrow> owner_thread (mutexes k x) \<noteq> 0)"

definition sync_ok :: "kernel_state \<Rightarrow> (nat \<Rightarrow> u32 list) \<Rightarrow> u32 list \<Rightarrow> u32 list \<Rightarrow> waitq set \<Rightarrow> (waitq \<Rightarrow> u32 list) \<Rightarrow> bool" where
  "sync_ok k R S D X Q \<longleftrightarrow> sched_ok (sched k) R S D (waiting X Q (sched k)) \<and> wait_lists k X Q \<and> counts_ok k X Q"

definition calm :: "sched_state \<Rightarrow> bool" where
  "calm s \<longleftrightarrow> quiet s \<and> postponed_yield_flag s = 0"

text \<open>What appending to a queue of waiting threads leaves of the scheduler's state: only \<open>next\<close> pointers change.\<close>

definition relinked :: "sched_state \<Rightarrow> sched_state \<Rightarrow> bool" where
  "relinked s s' \<longleftrightarrow> (\<exists>N. s' = s\<lparr>tcbs := (\<lambda>t. (tcbs s t)\<lparr>next_thread := N t\<rparr>)\<rparr>)"

text \<open>The state in which a thread that has to wait calls \<open>yield\<close>.\<close>

definition waiter :: "waitq \<Rightarrow> kernel_state \<Rightarrow> kernel_state" where
  "waiter w k = (let k1 = on_sched lock_atomic k; t = current_thread (sched k1)
     in on_sched (upd_tcb t (\<lambda>c. c\<lparr>state := THREAD_BLOCKED\<rparr>)) (wq_append w t k1))"

definition unpostponed :: "sched_state \<Rightarrow> sched_state" where
  "unpostponed s = s\<lparr>postpone_switches_counter := 0, postponed_yield_flag := 0\<rparr>"

section \<open>Lemmas\<close>

lemma on_sched_simps [simp]:
  "sched (on_sched f k) = f (sched k)" "semaphores (on_sched f k) = semaphores k" "mutexes (on_sched f k) = mutexes k"
  "kheap (on_sched f k) = kheap k"
  by (simp_all add: on_sched_def)

lemma upd_sync_simps [simp]:
  "sched (upd_sem x f k) = sched k" "semaphores (upd_sem x f k) = (semaphores k)(x := f (semaphores k x))"
  "mutexes (upd_sem x f k) = mutexes k" "kheap (upd_sem x f k) = kheap k"
  "sched (upd_mtx x g k) = sched k" "mutexes (upd_mtx x g k) = (mutexes k)(x := g (mutexes k x))"
  "semaphores (upd_mtx x g k) = semaphores k" "kheap (upd_mtx x g k) = kheap k"
  by (simp_all add: upd_sem_def upd_mtx_def)

interpretation wq: fifo "wq_head w" "wq_tail w" "\<lambda>k. nx (sched k)" "wq_append w" for w
  by (unfold_locales; cases w) (auto simp add: sem_append_def mtx_append_def NULL_def Let_def fun_eq_iff)

lemma wq_append_frame:
  "v \<noteq> w \<Longrightarrow> wq_head v (wq_append w t k) = wq_head v k" "v \<noteq> w \<Longrightarrow> wq_tail v (wq_append w t k) = wq_tail v k"
  by (cases v; cases w; auto simp add: sem_append_def mtx_append_def Let_def)+

lemma wq_append_counts:
  "current_count (semaphores (wq_append w t k) x) = current_count (semaphores k x)"
  "max_count (semaphores (wq_append w t k) x) = max_count (semaphores k x)"
  "owner_thread (mutexes (wq_append w t k) x) = owner_thread (mutexes k x)"
  by (cases w; simp add: sem_append_def mtx_append_def Let_def)+

lemma relinked_upd: "relinked s (upd_tcb t (\<lambda>c. c\<lparr>next_thread := n\<rparr>) s)"
  unfolding relinked_def upd_tcb_def
  by (intro exI [of _ "(nx s)(t := n)"] arg_cong2 [where f = "\<lambda>v s. s\<lparr>tcbs := v\<rparr>"]) (auto simp add: fun_eq_iff)

lemma relinked_trans: "relinked s s' \<Longrightarrow> relinked s' s'' \<Longrightarrow> relinked s s''"
  unfolding relinked_def by auto

lemma wq_append_relinked: "relinked (sched k) (sched (wq_append w t k))"
  by (cases w) (auto simp add: sem_append_def mtx_append_def Let_def intro: relinked_upd relinked_trans)

lemma dom_waiting [simp]: "dom (waiting X Q s) = blocked X Q"
  by (auto simp add: waiting_def dom_def)

lemma core_split:
  "sched_core s R S D W \<longleftrightarrow> sched_core s R S D Map.empty \<and> 0 \<notin> dom W
     \<and> (\<forall>t \<in> dom W. state (tcbs s t) = THREAD_BLOCKED \<and> W t = Some (nx s t) \<and> unat (priority (tcbs s t)) < 3)"
  unfolding sched_core_def by auto

text \<open>A state whose lists are well formed for the waiting threads of another state has the same \<open>next\<close> pointers there.\<close>

lemma waiting_same:
  assumes "sched_core s' R S D (waiting X Q s)"
  shows "waiting X Q s' = waiting X Q s" "t \<in> blocked X Q \<Longrightarrow> nx s' t = nx s t"
proof -
  have n: "nx s' t = nx s t" if "t \<in> blocked X Q" for t
    using sched_coreD(13) [OF assms, of t] that by (simp add: waiting_def)
  then show "waiting X Q s' = waiting X Q s" "t \<in> blocked X Q \<Longrightarrow> nx s' t = nx s t" by (auto simp add: waiting_def fun_eq_iff)
qed

lemma blocked_I: "w \<in> X \<Longrightarrow> t \<in> set (Q w) \<Longrightarrow> t \<in> blocked X Q"
  by (auto simp add: blocked_def)

lemma wait_lists_cong:
  assumes "wait_lists k X Q" "\<And>w. w \<in> X \<Longrightarrow> wq_head w k' = wq_head w k" "\<And>w. w \<in> X \<Longrightarrow> wq_tail w k' = wq_tail w k"
    "\<And>t. t \<in> blocked X Q \<Longrightarrow> nx (sched k') t = nx (sched k) t"
  shows "wait_lists k' X Q"
proof -
  have "path (nx (sched k')) p (Q w) = path (nx (sched k)) p (Q w)" if "w \<in> X" for w p
    using assms(4) blocked_I [where Q = Q, OF that] by (intro path_cong) blast
  with assms(1-3) show ?thesis unfolding wait_lists_def by simp
qed

lemma wait_lists_updI:
  assumes old: "wait_lists k X Q" and w: "path (nx (sched k')) (wq_head w k') ts" "ts \<noteq> [] \<Longrightarrow> wq_tail w k' = last ts"
    and others: "\<And>v. v \<in> X \<Longrightarrow> v \<noteq> w \<Longrightarrow> path (nx (sched k')) (wq_head v k') (Q v)"
      "\<And>v. v \<in> X \<Longrightarrow> v \<noteq> w \<Longrightarrow> Q v \<noteq> [] \<Longrightarrow> wq_tail v k' = last (Q v)"
    and dis: "\<And>v. v \<in> X \<Longrightarrow> v \<noteq> w \<Longrightarrow> set ts \<inter> set (Q v) = {}"
  shows "wait_lists k' X (Q(w := ts))"
proof -
  have "path (nx (sched k')) (wq_head v k') ((Q(w := ts)) v) \<and> ((Q(w := ts)) v \<noteq> [] \<longrightarrow> wq_tail v k' = last ((Q(w := ts)) v))"
    if "v \<in> X" for v
  proof (cases "v = w")
    case True
    show ?thesis unfolding True fun_upd_same using w by blast
  next
    case False
    show ?thesis unfolding fun_upd_other [OF False] using others [OF that False] by blast
  qed
  moreover have "set ((Q(w := ts)) u) \<inter> set ((Q(w := ts)) v) = {}" if "u \<in> X" "v \<in> X" "u \<noteq> v" for u v
  proof -
    have "set (Q u) \<inter> set (Q v) = {}" using old that by (simp add: wait_lists_def)
    then show ?thesis using dis [OF that(1)] dis [OF that(2)] that(3) by auto
  qed
  ultimately show ?thesis unfolding wait_lists_def by blast
qed

lemma sync_transfer:
  assumes "sync_ok k R S D X Q" "sched_ok (sched k') R' S' D' (waiting X Q (sched k))" "counts_ok k' X Q"
    "\<And>w. w \<in> X \<Longrightarrow> wq_head w k' = wq_head w k" "\<And>w. w \<in> X \<Longrightarrow> wq_tail w k' = wq_tail w k"
  shows "sync_ok k' R' S' D' X Q"
proof -
  note w = waiting_same [OF sched_okD(1) [OF assms(2)]]
  have "wait_lists k X Q" using assms(1) by (simp add: sync_ok_def)
  then have "wait_lists k' X Q" by (rule wait_lists_cong) (use assms(4,5) w(2) in blast)+
  then show ?thesis using assms(2,3) w(1) by (simp add: sync_ok_def)
qed

lemma lock_atomic_fields [simp]:
  "tcbs (lock_atomic s) = tcbs (lock_scheduler s)" "current_thread (lock_atomic s) = current_thread s" "idle_thread (lock_atomic s) = idle_thread s"
  "postpone_switches_counter (lock_atomic s) = postpone_switches_counter s + 1" "IRQ_disable_counter (lock_atomic s) = IRQ_disable_counter s + 1"
  "cpu (lock_atomic s) = cpu (lock_scheduler s)" "postponed_yield_flag (lock_atomic s) = postponed_yield_flag s"
  "first_ready_to_run_thread_list (lock_atomic s) = first_ready_to_run_thread_list s"
  "last_ready_to_run_thread_list (lock_atomic s) = last_ready_to_run_thread_list s"
  "sleeping_thread_queue (lock_atomic s) = sleeping_thread_queue s" "terminated_thread_queue (lock_atomic s) = terminated_thread_queue s"
  "counter (lock_atomic s) = counter s" "last_id (lock_atomic s) = last_id s" "system_ticks (lock_atomic s) = system_ticks s"
  by (simp_all add: lock_atomic_def Let_def)

lemma lock_atomic_core: "sched_core s R S D W \<Longrightarrow> sched_core (lock_atomic s) R S D W"
  by (erule core_same) auto

lemma atomic_pair:
  assumes ok: "sched_ok s R S D W" and c: "calm s"
  shows "sched_ok (unlock_atomic (lock_atomic s)) R S D W" "settled s (unlock_atomic (lock_atomic s))"
    "current_thread (unlock_atomic (lock_atomic s)) = current_thread s" "calm (unlock_atomic (lock_atomic s))"
proof -
  have e: "unlock_atomic (lock_atomic s) = unlock_scheduler ((lock_atomic s)\<lparr>postpone_switches_counter := 0\<rparr>)"
    using c by (simp add: unlock_atomic_def calm_def quiet_def Let_def)
  note o = sched_okD [OF ok]
  have "sched_core ((lock_atomic s)\<lparr>postpone_switches_counter := 0\<rparr>) R S D W"
    by (rule core_same [OF lock_atomic_core [OF o(1)]]) simp_all
  moreover have f: "state (tcbs ((lock_atomic s)\<lparr>postpone_switches_counter := 0\<rparr>) t) = state (tcbs s t)"
    "priority (tcbs ((lock_atomic s)\<lparr>postpone_switches_counter := 0\<rparr>) t) = priority (tcbs s t)"
    "current_thread ((lock_atomic s)\<lparr>postpone_switches_counter := 0\<rparr>) = current_thread s"
    "idle_thread ((lock_atomic s)\<lparr>postpone_switches_counter := 0\<rparr>) = idle_thread s" for t by simp_all
  ultimately have "sched_ok ((lock_atomic s)\<lparr>postpone_switches_counter := 0\<rparr>) R S D W"
    unfolding sched_ok_def f using o(2-4,6,7) by blast
  then show "sched_ok (unlock_atomic (lock_atomic s)) R S D W" unfolding e by (rule unlock_ok)
  show "settled s (unlock_atomic (lock_atomic s))" "current_thread (unlock_atomic (lock_atomic s)) = current_thread s"
    "calm (unlock_atomic (lock_atomic s))"
    unfolding e using c by (simp_all add: settled_def calm_def quiet_def unlock_cpu)
qed

lemma relinked_fields:
  assumes "relinked s s'"
  shows "current_thread s' = current_thread s" "idle_thread s' = idle_thread s" "cpu s' = cpu s"
    "first_ready_to_run_thread_list s' = first_ready_to_run_thread_list s" "last_ready_to_run_thread_list s' = last_ready_to_run_thread_list s"
    "sleeping_thread_queue s' = sleeping_thread_queue s" "terminated_thread_queue s' = terminated_thread_queue s"
    "IRQ_disable_counter s' = IRQ_disable_counter s" "postpone_switches_counter s' = postpone_switches_counter s"
    "postponed_yield_flag s' = postponed_yield_flag s" "counter s' = counter s" "last_id s' = last_id s" "system_ticks s' = system_ticks s"
    "state (tcbs s' t) = state (tcbs s t)" "priority (tcbs s' t) = priority (tcbs s t)" "remaining_time (tcbs s' t) = remaining_time (tcbs s t)"
    "stack_base (tcbs s' t) = stack_base (tcbs s t)" "time_used (tcbs s' t) = time_used (tcbs s t)"
    "saved_interrupt_state (tcbs s' t) = saved_interrupt_state (tcbs s t)" "wake_time (tcbs s' t) = wake_time (tcbs s t)"
  using assms unfolding relinked_def by auto

lemma unpostponed_fields [simp]:
  "tcbs (unpostponed s) = tcbs s" "current_thread (unpostponed s) = current_thread s" "idle_thread (unpostponed s) = idle_thread s"
  "cpu (unpostponed s) = cpu s" "first_ready_to_run_thread_list (unpostponed s) = first_ready_to_run_thread_list s"
  "last_ready_to_run_thread_list (unpostponed s) = last_ready_to_run_thread_list s"
  "sleeping_thread_queue (unpostponed s) = sleeping_thread_queue s" "terminated_thread_queue (unpostponed s) = terminated_thread_queue s"
  "IRQ_disable_counter (unpostponed s) = IRQ_disable_counter s" "counter (unpostponed s) = counter s" "last_id (unpostponed s) = last_id s"
  "system_ticks (unpostponed s) = system_ticks s" "postpone_switches_counter (unpostponed s) = 0" "postponed_yield_flag (unpostponed s) = 0"
  by (simp_all add: unpostponed_def)

lemma unlock_atomic_yield:
  assumes "postpone_switches_counter s = 1"
  shows "unlock_atomic (yield s) = unlock_scheduler (yield (unpostponed s))"
  using assms by (simp add: yield_def [of s] unlock_atomic_def unpostponed_def Let_def)

lemma waiter_nx:
  assumes ok: "sync_ok k R S D X Q" and w: "w \<in> X" and u: "u \<noteq> current_thread (sched k)" "u \<notin> set (Q w)"
  shows "nx (sched (waiter w k)) u = nx (sched k) u"
proof -
  let ?k = "on_sched lock_atomic k"
  have nx1: "nx (sched ?k) = nx (sched k)" by (auto simp add: fun_eq_iff)
  have h: "wq_head w ?k = wq_head w k" "wq_tail w ?k = wq_tail w k" by (cases w; simp)+
  have "path (nx (sched k)) (wq_head w k) (Q w)" "Q w \<noteq> [] \<longrightarrow> wq_tail w k = last (Q w)"
    using ok w by (simp_all add: sync_ok_def wait_lists_def)
  then have "nx (sched (wq_append w (current_thread (sched k)) ?k)) u = nx (sched ?k) u"
    using u by (intro wq.put_frame [of ?k w "Q w"]) (simp_all only: nx1 h not_False_eq_True)
  then show ?thesis using u(1) by (simp add: waiter_def Let_def fun_cong [OF nx1])
qed

lemma sync_okD:
  assumes "sync_ok k R S D X Q"
  shows "sched_ok (sched k) R S D (waiting X Q (sched k))" "wait_lists k X Q" "counts_ok k X Q"
    "sched_core (sched k) R S D (waiting X Q (sched k))" "current_thread (sched k) \<notin> blocked X Q"
    "w \<in> X \<Longrightarrow> path (nx (sched k)) (wq_head w k) (Q w)" "w \<in> X \<Longrightarrow> Q w \<noteq> [] \<Longrightarrow> wq_tail w k = last (Q w)"
    "w \<in> X \<Longrightarrow> v \<in> X \<Longrightarrow> w \<noteq> v \<Longrightarrow> t \<in> set (Q w) \<Longrightarrow> t \<notin> set (Q v)"
proof -
  show *: "sched_ok (sched k) R S D (waiting X Q (sched k))" "wait_lists k X Q" "counts_ok k X Q"
    using assms by (simp_all add: sync_ok_def)
  show "sched_core (sched k) R S D (waiting X Q (sched k))" by (rule sched_okD(1) [OF *(1)])
  show "current_thread (sched k) \<notin> blocked X Q" using sched_okD(5) [OF *(1)] by (simp add: listed_def)
  show "w \<in> X \<Longrightarrow> path (nx (sched k)) (wq_head w k) (Q w)" "w \<in> X \<Longrightarrow> Q w \<noteq> [] \<Longrightarrow> wq_tail w k = last (Q w)"
    "w \<in> X \<Longrightarrow> v \<in> X \<Longrightarrow> w \<noteq> v \<Longrightarrow> t \<in> set (Q w) \<Longrightarrow> t \<notin> set (Q v)"
    using *(2) unfolding wait_lists_def by blast+
qed

lemma blocked_not_listed: "sync_ok k R S D X Q \<Longrightarrow> t \<in> listed R S D Map.empty \<Longrightarrow> t \<notin> blocked X Q"
proof
  assume ok: "sync_ok k R S D X Q" and t: "t \<in> listed R S D Map.empty" "t \<in> blocked X Q"
  note c = sched_coreD [OF sync_okD(4) [OF ok]]
  have "state (tcbs (sched k) t) = THREAD_BLOCKED" using c(12) [of t] t(2) by simp
  then show False using t(1) c(8) [of 0 t] c(8) [of 1 t] c(8) [of 2 t] c(10,11) [of t] by (auto simp add: listed_def)
qed

lemma blocked_upd: "w \<in> X \<Longrightarrow> blocked X (Q(w := Q w @ ts)) = blocked X Q \<union> set ts"
  by (auto simp add: blocked_def split: if_splits)

lemma waiter_fields:
  assumes "calm (sched k)"
  shows "left_running (sched k) THREAD_BLOCKED (unpostponed (sched (waiter w k)))" "postpone_switches_counter (sched (waiter w k)) = 1"
proof -
  let ?k = "on_sched lock_atomic k"
  note r = relinked_fields [OF wq_append_relinked [of ?k w "current_thread (sched k)"]]
  show "left_running (sched k) THREAD_BLOCKED (unpostponed (sched (waiter w k)))" "postpone_switches_counter (sched (waiter w k)) = 1"
    using assms by (auto simp add: left_running_def waiter_def r calm_def quiet_def Let_def)
qed

lemma waiter_core:
  assumes ok: "sync_ok k R S D X Q" and c: "calm (sched k)" and w: "w \<in> X" and idle: "current_thread (sched k) \<noteq> idle_thread (sched k)"
  defines "Q' \<equiv> Q(w := Q w @ [current_thread (sched k)])" and "s' \<equiv> unpostponed (sched (waiter w k))"
  shows "sched_core s' R S D (waiting X Q' s')"
proof -
  note o = sched_okD [OF sync_okD(1) [OF ok]] and k = sched_coreD [OF sync_okD(4) [OF ok]]
  let ?c = "current_thread (sched k)"
  have l: "left_running (sched k) THREAD_BLOCKED s'" unfolding s'_def by (rule waiter_fields(1) [OF c])
  then have st: "state (tcbs s' t) = (if t = ?c then THREAD_BLOCKED else state (tcbs (sched k) t))" "priority (tcbs s' t) = priority (tcbs (sched k) t)"
    "idle_thread s' = idle_thread (sched k)" for t by (simp_all add: left_running_def)
  note r = relinked_fields [OF wq_append_relinked [of "on_sched lock_atomic k" w ?c]]
  have e: "sched_core (sched k) R S D Map.empty" using sync_okD(4) [OF ok] core_split by blast
  have "sched_core s' R S D Map.empty"
  proof (rule core_cong [OF e])
    show "state (tcbs s' (idle_thread (sched k))) \<in> {THREAD_READY, THREAD_RUNNING}" using k(7) idle by (simp add: st)
    fix t assume t: "t \<in> listed R S D Map.empty"
    then have "t \<notin> set (Q w)" "t \<noteq> ?c" using blocked_not_listed [OF ok t] w o(5) by (auto simp add: blocked_def listed_def)
    then show "nx s' t = nx (sched k) t \<and> state (tcbs s' t) = state (tcbs (sched k) t) \<and> priority (tcbs s' t) = priority (tcbs (sched k) t)"
      using waiter_nx [OF ok w, of t] st(1,2) [of t] by (simp add: s'_def)
  qed (simp_all add: s'_def waiter_def r Let_def)
  moreover have "0 \<notin> blocked X Q'" using k(5) o(2) blocked_upd [OF w] by (simp add: Q'_def)
  moreover have "state (tcbs s' t) = THREAD_BLOCKED \<and> unat (priority (tcbs s' t)) < 3" if "t \<in> blocked X Q'" for t
    using that blocked_upd [OF w, of Q "[?c]"] k(12,14) [of t] o(4) by (auto simp add: st Q'_def)
  ultimately show ?thesis by (subst core_split) (auto simp add: waiting_def)
qed

lemma waiter_wait_lists:
  assumes ok: "sync_ok k R S D X Q" and c: "calm (sched k)" and w: "w \<in> X"
  shows "wait_lists (waiter w k) X (Q(w := Q w @ [current_thread (sched k)]))"
proof -
  let ?c = "current_thread (sched k)" and ?k = "on_sched lock_atomic k"
  note s = sync_okD [OF ok]
  have cw: "?c \<notin> set (Q v)" if "v \<in> X" for v using s(5) blocked_I [where Q = Q, OF that] by blast
  have nx1: "nx (sched ?k) = nx (sched k)" by (auto simp add: fun_eq_iff)
  have h: "wq_head v ?k = wq_head v k" "wq_tail v ?k = wq_tail v k" for v by (cases v; simp)+
  have p: "path (nx (sched ?k)) (wq_head w ?k) (Q w)" "Q w \<noteq> [] \<longrightarrow> wq_tail w ?k = last (Q w)"
    unfolding nx1 h using s(6,7) [OF w] by blast+
  have wh: "wq_head v (waiter w k) = wq_head v (wq_append w ?c ?k)" "wq_tail v (waiter w k) = wq_tail v (wq_append w ?c ?k)" for v
    by (cases v; simp add: waiter_def Let_def)+
  have nx2: "nx (sched (waiter w k)) = nx (sched (wq_append w ?c ?k))" by (auto simp add: waiter_def Let_def fun_eq_iff)
  note put = wq.put_queue [OF p cw [OF w] sched_okD(2) [OF s(1)]]
  have nxv: "nx (sched (waiter w k)) t = nx (sched k) t" if "v \<in> X" "v \<noteq> w" "t \<in> set (Q v)" for v t
    using waiter_nx [OF ok w] cw [OF that(1)] s(8) [OF that(1) w that(2,3)] that(3) by metis
  show ?thesis
  proof (rule wait_lists_updI [OF s(2)])
    show "path (nx (sched (waiter w k))) (wq_head w (waiter w k)) (Q w @ [?c])" "wq_tail w (waiter w k) = last (Q w @ [?c])"
      using put by (simp_all only: wh nx2)
    fix v assume v: "v \<in> X" "v \<noteq> w"
    have "path (nx (sched (waiter w k))) q (Q v) = path (nx (sched k)) q (Q v)" for q using nxv [OF v] by (intro path_cong)
    then show "path (nx (sched (waiter w k))) (wq_head v (waiter w k)) (Q v)"
      using s(6) [OF v(1)] wq_append_frame(1) [OF v(2), of ?c ?k] by (simp add: wh h)
    show "Q v \<noteq> [] \<Longrightarrow> wq_tail v (waiter w k) = last (Q v)"
      using s(7) [OF v(1)] wq_append_frame(2) [OF v(2), of ?c ?k] by (simp add: wh h)
    show "set (Q w @ [?c]) \<inter> set (Q v) = {}" using s(8) [OF w v(1)] v(2) cw [OF v(1)] by auto
  qed
qed

end
