(* ===== verification/Sync_Ops.thy ===== *)
theory Sync_Ops
  imports Sync_Queues
begin

text \<open>
  What acquire and release do to the lists and keep of the invariant, for semaphores and mutexes at once: each operation is first
  shown equal to a short form with the common structure.
\<close>

section \<open>Specification vocabulary\<close>

fun acquire :: "waitq \<Rightarrow> kernel_state \<Rightarrow> kernel_state" where
  "acquire (Sem x) k = acquire_semaphore x k"
| "acquire (Mtx x) k = acquire_mutex x k"

fun release :: "waitq \<Rightarrow> kernel_state \<Rightarrow> kernel_state" where
  "release (Sem x) k = release_semaphore x k"
| "release (Mtx x) k = release_mutex x k"

text \<open>Whether a semaphore has a token left, or a mutex has no owner.\<close>

fun available :: "waitq \<Rightarrow> kernel_state \<Rightarrow> bool" where
  "available (Sem x) k \<longleftrightarrow> current_count (semaphores k x) < max_count (semaphores k x)"
| "available (Mtx x) k \<longleftrightarrow> owner_thread (mutexes k x) = 0"

text \<open>Taking a token or the ownership, and giving it back when nobody waits.\<close>

fun take_token :: "waitq \<Rightarrow> u32 \<Rightarrow> kernel_state \<Rightarrow> kernel_state" where
  "take_token (Sem x) t k = upd_sem x (\<lambda>m. m\<lparr>current_count := current_count m + 1\<rparr>) k"
| "take_token (Mtx x) t k = upd_mtx x (\<lambda>m. m\<lparr>owner_thread := t\<rparr>) k"

fun give_token :: "waitq \<Rightarrow> kernel_state \<Rightarrow> kernel_state" where
  "give_token (Sem x) k = (if current_count (semaphores k x) > 0 then upd_sem x (\<lambda>m. m\<lparr>current_count := current_count m - 1\<rparr>) k else k)"
| "give_token (Mtx x) k = upd_mtx x (\<lambda>m. m\<lparr>owner_thread := 0\<rparr>) k"

text \<open>The state in which the thread that releases calls \<open>yield\<close>, after handing over to the first waiter.\<close>

definition ready_again :: "u32 \<Rightarrow> sched_state \<Rightarrow> sched_state" where
  "ready_again t s = (let s1 = upd_tcb t (\<lambda>c. c\<lparr>state := THREAD_READY\<rparr>) (lock_atomic s)
     in enqueue_thread t (priority (tcbs s1 t)) s1)"

fun hand_over :: "waitq \<Rightarrow> kernel_state \<Rightarrow> kernel_state" where
  "hand_over (Sem x) k = (let t = sem_first_waiting_thread (semaphores k x)
     in on_sched (ready_again t) (upd_sem x (\<lambda>m. m\<lparr>sem_first_waiting_thread := nx (sched k) t\<rparr>) k))"
| "hand_over (Mtx x) k = (let t = mtx_first_waiting_thread (mutexes k x)
     in on_sched (ready_again t) (upd_mtx x (\<lambda>m. m\<lparr>mtx_first_waiting_thread := nx (sched k) t, owner_thread := t\<rparr>) k))"

text \<open>The ready queues after a release that wakes \<open>t\<close>: the woken thread goes to the back of the queue of its
  level, then the releasing thread to the back of the queue of its own.\<close>

definition release_lists :: "sched_state \<Rightarrow> u32 \<Rightarrow> (nat \<Rightarrow> u32 list) \<Rightarrow> nat \<Rightarrow> u32 list" where
  "release_lists s t R = (let p = unat (priority (tcbs s t)) in requeue s (R(p := R p @ [t])))"

section \<open>Lemmas\<close>

lemma kernel_eqI:
  "sched k = sched k' \<Longrightarrow> semaphores k = semaphores k' \<Longrightarrow> mutexes k = mutexes k' \<Longrightarrow> kheap k = kheap k' \<Longrightarrow> (k :: kernel_state) = k'"
  by simp

lemma acquire_eq:
  "acquire w k = (if available w k then on_sched (\<lambda>s. unlock_atomic (lock_atomic s)) (take_token w (current_thread (sched k)) k)
     else on_sched (\<lambda>s. unlock_atomic (yield s)) (waiter w k))"
  by (cases w) (auto simp add: acquire_semaphore_def acquire_mutex_def waiter_def Let_def NULL_def intro!: kernel_eqI)

lemma release_eq:
  "release w k = (if wq_head w k = 0 then on_sched (\<lambda>s. unlock_atomic (lock_atomic s)) (give_token w k)
     else on_sched (\<lambda>s. unlock_atomic (yield s)) (hand_over w k))"
  by (cases w) (auto simp add: release_semaphore_def release_mutex_def ready_again_def Let_def NULL_def intro!: kernel_eqI)

lemma calm_settled: "calm s \<Longrightarrow> settled s s' \<Longrightarrow> calm s'"
  by (simp add: calm_def quiet_def settled_def)

lemma take_token_fields:
  "sched (take_token w t k) = sched k" "wq_head v (take_token w t k) = wq_head v k" "wq_tail v (take_token w t k) = wq_tail v k"
  "sched (give_token w k) = sched k" "wq_head v (give_token w k) = wq_head v k" "wq_tail v (give_token w k) = wq_tail v k"
  by (cases w; cases v; simp)+

lemma wq_on_sched [simp]: "wq_head v (on_sched f k) = wq_head v k" "wq_tail v (on_sched f k) = wq_tail v k"
  by (cases v; simp)+

lemma counts_on_sched [simp]: "counts_ok (on_sched f k) X Q = counts_ok k X Q"
  by (simp add: counts_ok_def)

lemma take_counts:
  assumes "counts_ok k X Q" "available w k" "w \<in> X" "t \<noteq> 0"
  shows "counts_ok (take_token w t k) X Q" "Q w = []"
proof -
  show e: "Q w = []" using assms(1-3) by (cases w) (auto simp add: counts_ok_def)
  show "counts_ok (take_token w t k) X Q"
  proof (cases w)
    case (Sem x)
    then have "current_count (semaphores k x) < max_count (semaphores k x)" using assms(2) by simp
    then have "current_count (semaphores k x) + 1 \<le> max_count (semaphores k x)" by (rule word_succ_le)
    then show ?thesis using assms(1) e Sem by (auto simp add: counts_ok_def)
  next
    case (Mtx x)
    then show ?thesis using assms(1,4) by (auto simp add: counts_ok_def)
  qed
qed

lemma give_counts:
  assumes "counts_ok k X Q" "Q w = []"
  shows "counts_ok (give_token w k) X Q"
proof (cases w)
  case (Sem x)
  have "current_count (semaphores k x) - 1 \<le> current_count (semaphores k x)" if "current_count (semaphores k x) > 0"
    using that by (simp add: word_le_nat_alt unat_minus_one word_gt_0)
  then show ?thesis using assms Sem by (fastforce simp add: counts_ok_def)
next
  case (Mtx x)
  then show ?thesis using assms by (auto simp add: counts_ok_def)
qed

lemma waiter_counts:
  assumes "counts_ok k X Q" "\<not> available w k" "w \<in> X"
  shows "counts_ok (waiter w k) X (Q(w := Q w @ [t]))"
  using assms wq_append_counts [of w "current_thread (sched k)" "on_sched lock_atomic k"]
  by (cases w) (auto simp add: counts_ok_def waiter_def Let_def)

lemma acquire_free_ok:
  assumes ok: "sync_ok k R S D X Q" and c: "calm (sched k)" and w: "w \<in> X" and a: "available w k"
  shows "sync_ok (acquire w k) R S D X Q" "calm (sched (acquire w k))" "settled (sched k) (sched (acquire w k))"
    "current_thread (sched (acquire w k)) = current_thread (sched k)"
proof -
  note p = atomic_pair [OF sync_okD(1) [OF ok] c]
  have s: "sched (acquire w k) = unlock_atomic (lock_atomic (sched k))" using a by (simp add: acquire_eq take_token_fields)
  have k: "counts_ok (acquire w k) X Q" using take_counts(1) [OF sync_okD(3) [OF ok] a w] sched_okD(2) [OF sync_okD(1) [OF ok]] a by (simp add: acquire_eq)
  show "sync_ok (acquire w k) R S D X Q"
    using a by (intro sync_transfer [OF ok _ k]) (simp_all add: s p(1), simp_all add: acquire_eq take_token_fields)
  show "calm (sched (acquire w k))" "settled (sched k) (sched (acquire w k))"
    "current_thread (sched (acquire w k)) = current_thread (sched k)" by (simp_all add: s p)
qed

lemma acquire_wait_ok:
  assumes ok: "sync_ok k R S D X Q" and c: "calm (sched k)" and w: "w \<in> X" and a: "\<not> available w k"
    and idle: "current_thread (sched k) \<noteq> idle_thread (sched k)"
  defines "Q' \<equiv> Q(w := Q w @ [current_thread (sched k)])"
  shows "sync_ok (acquire w k) (snd (pick (idle_thread (sched k)) R)) S D X Q'" "calm (sched (acquire w k))"
    "settled (sched k) (sched (acquire w k))" "current_thread (sched (acquire w k)) = fst (pick (idle_thread (sched k)) R)"
proof -
  let ?s0 = "unpostponed (sched (waiter w k))"
  note f = waiter_fields [OF c, of w] and core = waiter_core [OF ok c w idle, folded Q'_def]
  have s: "sched (acquire w k) = unlock_scheduler (yield ?s0)" using a f(2) by (simp add: acquire_eq unlock_atomic_yield)
  note y = leave_ok [OF sync_okD(1) [OF ok] f(1) _ _ idle core, simplified, folded s]
  note same = waiting_same [OF sched_okD(1) [OF y(1)]]
  have h: "wq_head v (acquire w k) = wq_head v (waiter w k)" "wq_tail v (acquire w k) = wq_tail v (waiter w k)" for v
    using a by (simp_all add: acquire_eq)
  have "nx (sched (acquire w k)) t = nx (sched (waiter w k)) t" if "t \<in> blocked X Q'" for t using same(2) [OF that] by simp
  then have "wait_lists (acquire w k) X Q'" by (intro wait_lists_cong [OF waiter_wait_lists [OF ok c w, folded Q'_def] h])
  moreover have "counts_ok (acquire w k) X Q'" using waiter_counts [OF sync_okD(3) [OF ok] a w] a by (simp add: acquire_eq Q'_def)
  ultimately show "sync_ok (acquire w k) (snd (pick (idle_thread (sched k)) R)) S D X Q'"
    using y(1) same(1) by (simp add: sync_ok_def)
  show "settled (sched k) (sched (acquire w k))" by (rule y(3))
  then show "calm (sched (acquire w k))" using c by (rule calm_settled [rotated])
  show "current_thread (sched (acquire w k)) = fst (pick (idle_thread (sched k)) R)" using y(2) s by simp
qed

lemma release_idle_ok:
  assumes ok: "sync_ok k R S D X Q" and c: "calm (sched k)" and w: "w \<in> X" and e: "Q w = []"
  shows "sync_ok (release w k) R S D X Q" "calm (sched (release w k))" "settled (sched k) (sched (release w k))"
    "current_thread (sched (release w k)) = current_thread (sched k)"
proof -
  have h: "wq_head w k = 0" using sync_okD(6) [OF ok w] e by simp
  note p = atomic_pair [OF sync_okD(1) [OF ok] c]
  have s: "sched (release w k) = unlock_atomic (lock_atomic (sched k))" using h by (simp add: release_eq take_token_fields)
  have k: "counts_ok (release w k) X Q" using give_counts [where w = w, OF sync_okD(3) [OF ok] e] h by (simp add: release_eq)
  show "sync_ok (release w k) R S D X Q"
    using h by (intro sync_transfer [OF ok _ k]) (simp_all add: s p(1), simp_all add: release_eq take_token_fields)
  show "calm (sched (release w k))" "settled (sched k) (sched (release w k))"
    "current_thread (sched (release w k)) = current_thread (sched k)" by (simp_all add: s p)
qed

lemma hand_over_fields:
  "sched (hand_over w k) = ready_again (wq_head w k) (sched k)" "wq_tail v (hand_over w k) = wq_tail v k"
  "wq_head v (hand_over w k) = (if v = w then nx (sched k) (wq_head w k) else wq_head v k)"
  by (cases w; cases v; auto simp add: Let_def)+

lemma hand_over_counts:
  assumes "counts_ok k X Q" "w \<in> X" "Q w = t # ts" "t \<noteq> 0" "wq_head w k = t"
  shows "counts_ok (hand_over w k) X (Q(w := ts))"
  using assms by (cases w) (auto simp add: counts_ok_def Let_def)

text \<open>Making a waiting thread ready: it joins the queue of its level and no other list changes.\<close>

lemma ready_again_fields:
  "current_thread (ready_again t s) = current_thread s" "idle_thread (ready_again t s) = idle_thread s" "cpu (ready_again t s) = cpu (lock_scheduler s)"
  "IRQ_disable_counter (ready_again t s) = IRQ_disable_counter s + 1" "counter (ready_again t s) = counter s"
  "postpone_switches_counter (ready_again t s) = postpone_switches_counter s + 1" "last_id (ready_again t s) = last_id s"
  "system_ticks (ready_again t s) = system_ticks s" "postponed_yield_flag (ready_again t s) = postponed_yield_flag s"
  "state (tcbs (ready_again t s) u) = (if u = t then THREAD_READY else state (tcbs s u))"
  "priority (tcbs (ready_again t s) u) = priority (tcbs s u)" "remaining_time (tcbs (ready_again t s) u) = remaining_time (tcbs s u)"
  "wake_time (tcbs (ready_again t s) u) = wake_time (tcbs s u)" "stack_base (tcbs (ready_again t s) u) = stack_base (tcbs s u)"
  "time_used (tcbs (ready_again t s) u) = time_used (tcbs s u)"
  "saved_interrupt_state (tcbs (ready_again t s) u) = saved_interrupt_state (tcbs (lock_scheduler s) u)"
  by (simp_all add: ready_again_def Let_def enqueue_tcbs)

lemma ready_again_core:
  assumes core: "sched_core s R S D Map.empty" and t: "t \<notin> listed R S D Map.empty" "t \<noteq> 0" "t \<noteq> idle_thread s"
    and p: "unat (priority (tcbs s t)) < 3"
  shows "sched_core (ready_again t s) (R(unat (priority (tcbs s t)) := R (unat (priority (tcbs s t))) @ [t])) S D Map.empty"
    "\<And>u. u \<noteq> t \<Longrightarrow> u \<notin> listed R S D Map.empty \<Longrightarrow> nx (ready_again t s) u = nx s u"
proof -
  let ?s1 = "upd_tcb t (\<lambda>c. c\<lparr>state := THREAD_READY\<rparr>) (lock_atomic s)"
  have c1: "sched_core ?s1 R S D Map.empty" using t by (intro core_upd [OF lock_atomic_core [OF core]]) auto
  have p1: "priority (tcbs ?s1 t) = priority (tcbs s t)" "nx ?s1 = nx s" by (auto simp add: fun_eq_iff)
  have "t \<notin> set (R q)" if "q < 3" for q using t(1) listed_ready [where R = R, OF that] by blast
  moreover have r: "ready_again t s = enqueue_thread t (priority (tcbs s t)) ?s1" unfolding ready_again_def Let_def p1(1) ..
  ultimately show "sched_core (ready_again t s) (R(unat (priority (tcbs s t)) := R (unat (priority (tcbs s t))) @ [t])) S D Map.empty"
    unfolding r using p t(2,3) by (intro enqueue_core [OF c1]) simp_all
  fix u assume u: "u \<noteq> t" "u \<notin> listed R S D Map.empty"
  have "queue_ok ?s1 (unat (priority (tcbs s t))) (R (unat (priority (tcbs s t))))" by (rule sched_coreD(1) [OF c1 p])
  moreover have "u \<notin> set (R (unat (priority (tcbs s t))))" using u(2) listed_ready [where R = R, OF p] by blast
  ultimately have "nx (enqueue_thread t (priority (tcbs s t)) ?s1) u = nx ?s1 u"
    using u(1) by (intro rq.put_frame) (auto simp add: queue_ok_def)
  then show "nx (ready_again t s) u = nx s u" unfolding r by (simp only: fun_cong [OF p1(2)])
qed

lemma blocked_pop:
  assumes "sync_ok k R S D X Q" "w \<in> X" "Q w = t # ts"
  shows "blocked X (Q(w := ts)) = blocked X Q - {t}"
proof -
  have "distinct (Q w)" using path_distinct [OF sync_okD(6) [OF assms(1,2)]] .
  moreover have "t \<notin> set (Q v)" if "v \<in> X" "v \<noteq> w" for v using sync_okD(8) [OF assms(1,2) that(1)] that(2) assms(3) by auto
  ultimately show ?thesis using assms(2,3) by (auto simp add: blocked_def split: if_splits) (metis set_ConsD)
qed

lemma hand_over_core:
  assumes ok: "sync_ok k R S D X Q" and w: "w \<in> X" and Q: "Q w = t # ts"
  defines "p \<equiv> unat (priority (tcbs (sched k) t))" and "s' \<equiv> ready_again t (sched k)"
  shows "sched_core s' (R(p := R p @ [t])) S D (waiting X (Q(w := ts)) s')" "wait_lists (hand_over w k) X (Q(w := ts))"
    "wq_head w k = t" "t \<noteq> 0" "t \<noteq> current_thread (sched k)" "p < 3"
proof -
  note s = sync_okD [OF ok] and c = sched_coreD [OF sync_okD(4) [OF ok]]
  have tb: "t \<in> blocked X Q" using w Q by (intro blocked_I [of w]) simp_all
  have pt: "path (nx (sched k)) (wq_head w k) (t # ts)" using s(6) [OF w] Q by simp
  then show t: "wq_head w k = t" "t \<noteq> 0" by simp_all
  show "t \<noteq> current_thread (sched k)" using tb s(5) by blast
  have st: "state (tcbs (sched k) t) = THREAD_BLOCKED" "unat (priority (tcbs (sched k) t)) < 3" using c(12,14) [of t] tb by simp_all
  then show "p < 3" by (simp add: p_def)
  have e: "sched_core (sched k) R S D Map.empty" using s(4) core_split by blast
  have nl: "t \<notin> listed R S D Map.empty" using blocked_not_listed [OF ok] tb by blast
  have ti: "t \<noteq> idle_thread (sched k)" using c(7) st(1) by auto
  note r = ready_again_core [OF e nl t(2) ti st(2), folded s'_def p_def]
  note bp = blocked_pop [OF ok w Q]
  have nx: "nx s' u = nx (sched k) u" if "u \<in> blocked X (Q(w := ts))" for u
    using that bp blocked_not_listed [OF ok] by (intro r(2)) auto
  have "state (tcbs s' u) = THREAD_BLOCKED \<and> unat (priority (tcbs s' u)) < 3" if "u \<in> blocked X (Q(w := ts))" for u
    using that bp c(12,14) [of u] by (simp add: s'_def ready_again_fields)
  moreover have "0 \<notin> blocked X (Q(w := ts))" using c(5) bp by simp
  ultimately show "sched_core s' (R(p := R p @ [t])) S D (waiting X (Q(w := ts)) s')"
    using r(1) by (subst core_split) (auto simp add: waiting_def)
  have path: "path (nx s') h (Q v) = path (nx (sched k)) h (Q v)" if "v \<in> X" "v \<noteq> w" for h v
    using that nx blocked_I [of v X _ "Q(w := ts)"] by (intro path_cong) auto
  have "path (nx s') (nx (sched k) t) ts = path (nx (sched k)) (nx (sched k) t) ts"
    using nx blocked_I [of w X _ "Q(w := ts)"] w by (intro path_cong) auto
  then have "path (nx s') (nx (sched k) t) ts" using pt by simp
  have head: "wq_head v (hand_over w k) = (if v = w then nx (sched k) t else wq_head v k)" for v using t(1) by (simp add: hand_over_fields)
  have sch: "sched (hand_over w k) = s'" using t(1) by (simp add: hand_over_fields s'_def)
  show "wait_lists (hand_over w k) X (Q(w := ts))"
  proof (rule wait_lists_updI [OF s(2)], unfold sch head hand_over_fields(2))
    show "path (nx s') (if w = w then nx (sched k) t else wq_head w k) ts" using \<open>path (nx s') (nx (sched k) t) ts\<close> by simp
    show "ts \<noteq> [] \<Longrightarrow> wq_tail w k = last ts" using s(7) [OF w] Q by simp
    fix v assume v: "v \<in> X" "v \<noteq> w"
    show "path (nx s') (if v = w then nx (sched k) t else wq_head v k) (Q v)" using path [OF v] s(6) [OF v(1)] v(2) by simp
    show "Q v \<noteq> [] \<Longrightarrow> wq_tail v k = last (Q v)" by (rule s(7) [OF v(1)])
    show "set ts \<inter> set (Q v) = {}" using s(8) [OF w v(1)] v(2) Q by auto
  qed
qed

lemma release_wake_ok:
  assumes ok: "sync_ok k R S D X Q" and c: "calm (sched k)" and w: "w \<in> X" and Q: "Q w = t # ts"
  defines "P \<equiv> pick (idle_thread (sched k)) (release_lists (sched k) t R)"
  shows "sync_ok (release w k) (snd P) S D X (Q(w := ts))" "calm (sched (release w k))"
    "settled (sched k) (sched (release w k))" "current_thread (sched (release w k)) = fst P"
proof -
  let ?s0 = "unpostponed (ready_again t (sched k))" and ?p = "unat (priority (tcbs (sched k) t))"
  note h = hand_over_core [OF ok w Q] and o = sched_okD [OF sync_okD(1) [OF ok]]
  have s: "sched (release w k) = unlock_scheduler (yield ?s0)"
    using h(3,4) c by (simp add: release_eq hand_over_fields unlock_atomic_yield ready_again_fields calm_def quiet_def)
  have core: "sched_core ?s0 (R(?p := R ?p @ [t])) S D (waiting X (Q(w := ts)) ?s0)"
  proof -
    have "waiting X (Q(w := ts)) ?s0 = waiting X (Q(w := ts)) (ready_again t (sched k))" by (simp add: waiting_def fun_eq_iff)
    with h(1) show ?thesis by (simp only:) (rule core_same [OF h(1)], simp_all)
  qed
  have st: "state (tcbs ?s0 u) = (if u = t then THREAD_READY else state (tcbs (sched k) u))" "priority (tcbs ?s0 u) = priority (tcbs (sched k) u)"
    "current_thread ?s0 = current_thread (sched k)" "idle_thread ?s0 = idle_thread (sched k)" for u by (simp_all add: ready_again_fields)
  have "leaving_ok ?s0" using o(2-4,6,7) h(5) unfolding leaving_ok_def st by auto
  moreover have rq: "requeue ?s0 (R(?p := R ?p @ [t])) = release_lists (sched k) t R"
    using h(5) unfolding release_lists_def requeue_def st by (simp add: Let_def)
  moreover have irq: "IRQ_disable_counter ?s0 = 1" using c by (simp add: ready_again_fields calm_def quiet_def)
  ultimately have y: "sched_ok (sched (release w k)) (snd P) S D (waiting X (Q(w := ts)) ?s0)" "current_thread (sched (release w k)) = fst P"
    "IRQ_disable_counter (sched (release w k)) = 0" "eflags (cpu (sched (release w k))) = saved_interrupt_state (tcbs ?s0 (fst P))"
    "sched_frame ?s0 (yield ?s0)"
    using yield_unlock [OF core] unfolding s P_def st(4) by simp_all
  note same = waiting_same [OF sched_okD(1) [OF y(1)]]
  have hd: "wq_head v (release w k) = wq_head v (hand_over w k)" "wq_tail v (release w k) = wq_tail v (hand_over w k)" for v
    using h(3,4) by (simp_all add: release_eq)
  have "nx (sched (release w k)) u = nx (sched (hand_over w k)) u" if "u \<in> blocked X (Q(w := ts))" for u
    using same(2) [OF that] h(3) by (simp add: hand_over_fields)
  then have "wait_lists (release w k) X (Q(w := ts))" by (intro wait_lists_cong [OF h(2) hd])
  moreover have "counts_ok (release w k) X (Q(w := ts))"
    using hand_over_counts [OF sync_okD(3) [OF ok] w Q h(4,3)] h(3,4) by (simp add: release_eq)
  ultimately show "sync_ok (release w k) (snd P) S D X (Q(w := ts))" using y(1) same(1) by (simp add: sync_ok_def)
  show "current_thread (sched (release w k)) = fst P" by (rule y(2))
  show "settled (sched k) (sched (release w k))"
    using y(2-5) c unfolding settled_def s sched_frame_def by (auto simp add: ready_again_fields calm_def quiet_def)
  then show "calm (sched (release w k))" by (rule calm_settled [OF c])
qed

lemma sched_event_sync:
  assumes ok: "sync_ok k R S D X Q" and c: "calm (sched k)" and e: "enabled e (sched k)" and st: "sched_event_step e (sched k) = Some s'"
  shows "\<exists>R' S' D'. sync_ok (k\<lparr>sched := s'\<rparr>) R' S' D' X Q \<and> calm s'"
proof -
  obtain n R' S' D' where spec: "event_spec e (sched k) R S D = (n, R', S', D')" by (cases "event_spec e (sched k) R S D") auto
  have q: "quiet (sched k)" using c by (simp add: calm_def)
  obtain s'' where s'': "sched_event_step e (sched k) = Some s''" "sched_ok s'' R' S' D' (waiting X Q (sched k))" "quiet s''" "event_effect e (sched k) R S s''"
    by (rule event_refines [OF sync_okD(1) [OF ok] q e spec])
  then have [simp]: "s'' = s'" using st by simp
  have "sync_ok (k\<lparr>sched := s'\<rparr>) R' S' D' X Q"
  proof (rule sync_transfer [OF ok])
    show "counts_ok (k\<lparr>sched := s'\<rparr>) X Q" using sync_okD(3) [OF ok] by (simp add: counts_ok_def)
    show "wq_head w (k\<lparr>sched := s'\<rparr>) = wq_head w k" "wq_tail w (k\<lparr>sched := s'\<rparr>) = wq_tail w k" for w by (cases w; simp)+
  qed (use s''(2) in simp)
  moreover have "postponed_yield_flag s' = postponed_yield_flag (sched k)"
    using s''(4) by (auto simp add: event_effect_def settled_def decided_def woken_def lists_frame_def Let_def split: if_splits)
  ultimately show ?thesis using s''(3) c by (auto simp add: calm_def)
qed

lemma acquire_ok:
  assumes "sync_ok k R S D X Q" "calm (sched k)" "w \<in> X" "current_thread (sched k) \<noteq> idle_thread (sched k)"
  shows "\<exists>R'. sync_ok (acquire w k) R' S D X (if available w k then Q else Q(w := Q w @ [current_thread (sched k)])) \<and> calm (sched (acquire w k))"
  using acquire_free_ok [OF assms(1-3)] acquire_wait_ok [OF assms(1-3) _ assms(4)] by (cases "available w k") auto

lemma release_ok:
  assumes "sync_ok k R S D X Q" "calm (sched k)" "w \<in> X"
  shows "\<exists>R'. sync_ok (release w k) R' S D X (Q(w := tl (Q w))) \<and> calm (sched (release w k))"
proof (cases "Q w")
  case Nil
  then have "Q(w := tl (Q w)) = Q" by (simp add: fun_upd_idem)
  then show ?thesis using release_idle_ok [OF assms Nil] by auto
next
  case (Cons t ts)
  then show ?thesis using release_wake_ok [OF assms Cons] by auto
qed

end
