(* ===== verification/Sync_History.thy ===== *)
theory Sync_History
  imports Sync_Ops
begin

text \<open>
  Histories of a system with semaphores and mutexes: the invariant holds in every reachable state, and the threads that
  have called acquire and not yet release are those waiting and those that hold a token or own the mutex.
\<close>

section \<open>Specification vocabulary\<close>

text \<open>
  A running system with semaphores and mutexes: scheduler events, and calls of acquire and release by the
  running thread on the objects in \<open>X\<close>.
\<close>

inductive sync_reaches :: "waitq set \<Rightarrow> kernel_state \<Rightarrow> kernel_state \<Rightarrow> bool" for X k0 where
  sync_start: "sync_reaches X k0 k0"
| sync_event: "sync_reaches X k0 k \<Longrightarrow> enabled e (sched k) \<Longrightarrow> sched_event_step e (sched k) = Some s' \<Longrightarrow>
    sync_reaches X k0 (k\<lparr>sched := s'\<rparr>)"
| sync_acquire: "sync_reaches X k0 k \<Longrightarrow> w \<in> X \<Longrightarrow> current_thread (sched k) \<noteq> idle_thread (sched k) \<Longrightarrow> sync_reaches X k0 (acquire w k)"
| sync_release: "sync_reaches X k0 k \<Longrightarrow> w \<in> X \<Longrightarrow> sync_reaches X k0 (release w k)"

text \<open>
  The same, recording in \<open>H w\<close> the threads that have called acquire on \<open>w\<close> and not yet release, and used
  with discipline: a thread acquires an object it does not hold and releases one it does.
\<close>

inductive holds_reaches :: "waitq set \<Rightarrow> kernel_state \<Rightarrow> kernel_state \<Rightarrow> (waitq \<Rightarrow> u32 set) \<Rightarrow> bool" for X k0 where
  holds_start: "holds_reaches X k0 k0 (\<lambda>_. {})"
| holds_event: "holds_reaches X k0 k H \<Longrightarrow> enabled e (sched k) \<Longrightarrow> sched_event_step e (sched k) = Some s' \<Longrightarrow>
    holds_reaches X k0 (k\<lparr>sched := s'\<rparr>) H"
| holds_acquire: "holds_reaches X k0 k H \<Longrightarrow> w \<in> X \<Longrightarrow> current_thread (sched k) \<noteq> idle_thread (sched k) \<Longrightarrow>
    current_thread (sched k) \<notin> H w \<Longrightarrow> holds_reaches X k0 (acquire w k) (H(w := insert (current_thread (sched k)) (H w)))"
| holds_release: "holds_reaches X k0 k H \<Longrightarrow> w \<in> X \<Longrightarrow> current_thread (sched k) \<in> H w \<Longrightarrow>
    holds_reaches X k0 (release w k) (H(w := H w - {current_thread (sched k)}))"

text \<open>Those that called acquire are the waiting threads and those that hold a token, or own the mutex.\<close>

fun holders_ok :: "kernel_state \<Rightarrow> (waitq \<Rightarrow> u32 list) \<Rightarrow> (waitq \<Rightarrow> u32 set) \<Rightarrow> waitq \<Rightarrow> bool" where
  "holders_ok k Q H (Sem x) \<longleftrightarrow> set (Q (Sem x)) \<subseteq> H (Sem x) \<and> finite (H (Sem x))
     \<and> card (H (Sem x) - set (Q (Sem x))) = unat (current_count (semaphores k x))"
| "holders_ok k Q H (Mtx x) \<longleftrightarrow> set (Q (Mtx x)) \<subseteq> H (Mtx x)
     \<and> H (Mtx x) - set (Q (Mtx x)) = (if owner_thread (mutexes k x) = 0 then {} else {owner_thread (mutexes k x)})"

fun capacity :: "waitq \<Rightarrow> kernel_state \<Rightarrow> nat" where
  "capacity (Sem x) k = unat (max_count (semaphores k x))"
| "capacity (Mtx x) k = 1"

text \<open>An object nobody has used yet.\<close>

fun unused :: "waitq \<Rightarrow> kernel_state \<Rightarrow> bool" where
  "unused (Sem x) k \<longleftrightarrow> current_count (semaphores k x) = 0"
| "unused (Mtx x) k \<longleftrightarrow> owner_thread (mutexes k x) = 0"

text \<open>The threads that wait for \<open>w\<close> and those inside the section it protects.\<close>

definition queued :: "kernel_state \<Rightarrow> waitq \<Rightarrow> u32 list \<Rightarrow> bool" where
  "queued k w ts \<longleftrightarrow> path (nx (sched k)) (wq_head w k) ts"

section \<open>Lemmas\<close>

lemma holders_cong:
  assumes "holders_ok k Q H v" "semaphores k' = semaphores k" "mutexes k' = mutexes k"
  shows "holders_ok k' Q H v"
  using assms by (cases v) simp_all

lemma token_frame:
  "v \<noteq> w \<Longrightarrow> holders_ok (take_token w t k) Q H v = holders_ok k Q H v" "v \<noteq> w \<Longrightarrow> holders_ok (give_token w k) Q H v = holders_ok k Q H v"
  "v \<noteq> w \<Longrightarrow> holders_ok (hand_over w k) Q H v = holders_ok k Q H v"
  "holders_ok (on_sched f k) Q H v = holders_ok k Q H v" "holders_ok (waiter w k) Q H v = holders_ok k Q H v"
  using wq_append_counts [of w "current_thread (sched k)" "on_sched lock_atomic k"]
  by (cases v; cases w; simp add: Let_def waiter_def)+

lemma holders_upd: "v \<noteq> w \<Longrightarrow> holders_ok k (Q(w := ts)) (H(w := A)) v = holders_ok k Q H v"
  by (cases v) simp_all

lemma holders_take:
  assumes h: "holders_ok k Q H w" and a: "available w k" and e: "Q w = []" and c: "c \<notin> H w" "c \<noteq> 0"
  shows "holders_ok (take_token w c k) Q (H(w := insert c (H w))) w"
proof (cases w)
  case (Sem x)
  then have "unat (current_count (semaphores k x) + 1) = Suc (unat (current_count (semaphores k x)))" using a by (simp add: unat_succ)
  then show ?thesis using Sem h e c by simp
next
  case (Mtx x)
  then show ?thesis using h a e c by (auto split: if_splits)
qed

lemma holders_give:
  assumes h: "holders_ok k Q H w" and e: "Q w = []" and c: "c \<in> H w"
  shows "holders_ok (give_token w k) Q (H(w := H w - {c})) w"
proof (cases w)
  case (Sem x)
  let ?n = "current_count (semaphores k x)"
  have f: "finite (H w)" "card (H w) = unat ?n" using h e Sem by simp_all
  then have "?n \<noteq> 0" using c card_gt_0_iff [of "H w"] by auto
  then have "unat (?n - 1) = card (H w) - 1" using f by (simp add: unat_minus_one)
  then show ?thesis using Sem e f c \<open>?n \<noteq> 0\<close> by (simp add: word_gt_0)
next
  case (Mtx x)
  then show ?thesis using h e c by (auto split: if_splits)
qed

lemma holders_hand:
  assumes h: "holders_ok k Q H w" and Q: "Q w = t # ts" "wq_head w k = t" "t \<noteq> 0" "t \<notin> set ts" and c: "c \<in> H w" "c \<notin> set (Q w)"
  shows "holders_ok (hand_over w k) (Q(w := ts)) (H(w := H w - {c})) w"
proof (cases w)
  case (Sem x)
  let ?I = "H w - set (Q w)"
  have f: "finite ?I" "c \<in> ?I" "t \<in> H w" "t \<noteq> c" "card ?I = unat (current_count (semaphores k x))" "set ts \<subseteq> H w"
    using h Q c Sem by auto
  have "H w - {c} - set ts = insert t (?I - {c})" using Q f by auto
  then have "card (H w - {c} - set ts) = Suc (card (?I - {c}))" using f Q by simp
  also have "\<dots> = card ?I" using f(1,2) by (rule card_Suc_Diff1)
  finally show ?thesis using f Sem h Q c by (auto simp add: Let_def)
next
  case (Mtx x)
  have i: "H w - set (Q w) = (if owner_thread (mutexes k x) = 0 then {} else {owner_thread (mutexes k x)})" using h Mtx by simp
  have "c \<in> H w - set (Q w)" using c by simp
  then have "owner_thread (mutexes k x) = c" unfolding i by (simp split: if_splits)
  then have "H w = insert c (set (t # ts))" "c \<noteq> t" "c \<notin> set ts" using h Q c Mtx by (auto split: if_splits)
  then show ?thesis using Mtx Q by (auto simp add: Let_def)
qed

lemma sync_preserved:
  assumes "sync_reaches X k0 k" and "sync_ok k0 R S D X Q" and "calm (sched k0)"
  shows "\<exists>R S D Q. sync_ok k R S D X Q \<and> calm (sched k)"
  using assms(1)
proof (induction rule: sync_reaches.induct)
  case sync_start
  then show ?case using assms(2,3) by blast
next
  case (sync_event k e s')
  then show ?case using sched_event_sync by fastforce
next
  case (sync_acquire k w)
  then show ?case using acquire_ok by meson
next
  case (sync_release k w)
  then show ?case using release_ok by meson
qed

lemma holders_acquire:
  assumes ok: "sync_ok k R S D X Q" and c: "calm (sched k)" and w: "w \<in> X" and h: "holders_ok k Q H v"
    and n: "v = w \<Longrightarrow> current_thread (sched k) \<notin> H w"
  defines "Q' \<equiv> if available w k then Q else Q(w := Q w @ [current_thread (sched k)])"
  shows "holders_ok (acquire w k) Q' (H(w := insert (current_thread (sched k)) (H w))) v"
proof (cases "v = w")
  case False
  then have "holders_ok k Q' (H(w := insert (current_thread (sched k)) (H w))) v"
    using h holders_upd [OF False, of k Q "Q' w"] by (cases "available w k") (simp_all add: Q'_def holders_upd)
  then show ?thesis using False by (simp add: acquire_eq token_frame)
next
  case True
  have z: "current_thread (sched k) \<noteq> 0" using sched_okD(2) [OF sync_okD(1) [OF ok]] by simp
  show ?thesis
  proof (cases "available w k")
    case a: True
    have "Q w = []" using take_counts(2) [OF sync_okD(3) [OF ok] a w z] .
    then show ?thesis using holders_take [OF h [unfolded True] a _ n [OF True] z] a True by (simp add: acquire_eq token_frame Q'_def)
  next
    case False
    have "holders_ok k Q' (H(w := insert (current_thread (sched k)) (H w))) w"
      using h [unfolded True] False n [OF True] by (cases w) (auto simp add: Q'_def insert_Diff_if)
    then show ?thesis using True False by (simp add: acquire_eq token_frame)
  qed
qed

lemma holders_release:
  assumes ok: "sync_ok k R S D X Q" and w: "w \<in> X" and h: "holders_ok k Q H v"
    and c: "v = w \<Longrightarrow> current_thread (sched k) \<in> H w"
  shows "holders_ok (release w k) (Q(w := tl (Q w))) (H(w := H w - {current_thread (sched k)})) v"
proof (cases "v = w")
  case False
  then have "holders_ok k (Q(w := tl (Q w))) (H(w := H w - {current_thread (sched k)})) v" using h by (simp add: holders_upd)
  then show ?thesis using False by (simp add: release_eq token_frame)
next
  case True
  have b: "current_thread (sched k) \<notin> set (Q w)" using sync_okD(5) [OF ok] blocked_I [OF w] by blast
  have p: "path (nx (sched k)) (wq_head w k) (Q w)" by (rule sync_okD(6) [OF ok w])
  show ?thesis
  proof (cases "Q w")
    case Nil
    then have "Q(w := tl (Q w)) = Q" by (simp add: fun_upd_idem)
    then show ?thesis using holders_give [OF h [unfolded True] Nil c [OF True]] True p Nil by (simp add: release_eq token_frame)
  next
    case (Cons t ts)
    have "distinct (t # ts)" "t \<noteq> 0" "wq_head w k = t" using path_distinct [OF p] p Cons by simp_all
    then show ?thesis using holders_hand [OF h [unfolded True] Cons _ _ _ c [OF True] b] True Cons by (simp add: release_eq token_frame)
  qed
qed

lemma holders_preserved:
  assumes "holds_reaches X k0 k H" and "sync_ok k0 R S D X (\<lambda>_. [])" and "calm (sched k0)" and "\<And>w. w \<in> X \<Longrightarrow> unused w k0"
  shows "\<exists>R S D Q. sync_ok k R S D X Q \<and> calm (sched k) \<and> (\<forall>w \<in> X. holders_ok k Q H w)"
  using assms(1)
proof (induction rule: holds_reaches.induct)
  case holds_start
  have "holders_ok k0 (\<lambda>_. []) (\<lambda>_. {}) w" if "w \<in> X" for w using assms(4) [OF that] by (cases w) simp_all
  then show ?case using assms(2,3) by blast
next
  case (holds_event k H e s')
  then obtain R S D Q where k: "sync_ok k R S D X Q" "calm (sched k)" "\<And>w. w \<in> X \<Longrightarrow> holders_ok k Q H w" by blast
  have "holders_ok (k\<lparr>sched := s'\<rparr>) Q H w" if "w \<in> X" for w by (rule holders_cong [OF k(3) [OF that]]) simp_all
  moreover obtain R' S' D' where "sync_ok (k\<lparr>sched := s'\<rparr>) R' S' D' X Q" "calm s'"
    using sched_event_sync [OF k(1,2) holds_event.hyps(2,3)] by blast
  moreover have "calm (sched (k\<lparr>sched := s'\<rparr>))" using \<open>calm s'\<close> by simp
  ultimately show ?case by blast
next
  case (holds_acquire k H w)
  then obtain R S D Q where k: "sync_ok k R S D X Q" "calm (sched k)" "\<And>w. w \<in> X \<Longrightarrow> holders_ok k Q H w" by blast
  show ?case using acquire_ok [OF k(1,2) holds_acquire.hyps(2,3)] holders_acquire [OF k(1,2) holds_acquire.hyps(2) k(3) holds_acquire.hyps(4)] by blast
next
  case (holds_release k H w)
  then obtain R S D Q where k: "sync_ok k R S D X Q" "calm (sched k)" "\<And>w. w \<in> X \<Longrightarrow> holders_ok k Q H w" by blast
  show ?case using release_ok [OF k(1,2) holds_release.hyps(2)] holders_release [OF k(1) holds_release.hyps(2) k(3) holds_release.hyps(3)] by blast
qed

lemma holders_capacity:
  assumes "holders_ok k Q H w" "counts_ok k X Q" "w \<in> X"
  shows "set (Q w) \<subseteq> H w" "finite (H w - set (Q w))" "card (H w - set (Q w)) \<le> capacity w k"
    "Q w \<noteq> [] \<Longrightarrow> card (H w - set (Q w)) = capacity w k"
  using assms by (cases w; auto simp add: counts_ok_def word_le_nat_alt split: if_splits)+

end
