(* ===== verification/Sched_Props.thy ===== *)
theory Sched_Props
  imports Sched_Events
begin

text \<open>
  The properties of the scheduler, with a small concrete system on which they are applied.
\<close>

section \<open>A sample system\<close>

text \<open>A small system for the examples: an idle thread, a running thread, three ready ones and a sleeper.\<close>

definition sample_tcb :: "thread_state \<Rightarrow> u32 \<Rightarrow> u8 \<Rightarrow> u64 \<Rightarrow> thread_control_block" where
  "sample_tcb st nxt p w = \<lparr>esp = 0x9000, esp0 = 0, tcb_cr3 = 0, next_thread = nxt, state = st, stack_base = 0x8000, time_used = 0,
     wake_time = w, thread_id = 1, saved_interrupt_state = 0x202, priority = p, remaining_time = 10\<rparr>"

definition sample_sched :: sched_state where
  "sample_sched = \<lparr>tcbs = (\<lambda>t. if t = 0x10 then sample_tcb THREAD_READY 0 2 0
        else if t = 0x20 then sample_tcb THREAD_RUNNING 0 0 0
        else if t = 0x30 then sample_tcb THREAD_READY 0x40 0 0
        else if t = 0x40 then sample_tcb THREAD_READY 0 0 0
        else if t = 0x50 then sample_tcb THREAD_READY 0 2 0
        else sample_tcb THREAD_SLEEPING 0 0 8),
     mem = (\<lambda>_. 0), cpu = \<lparr>r_esp = 0x7000, r_ebp = 1, r_ebx = 2, r_esi = 3, r_edi = 4, eflags = 0x202, r_eip = 5\<rparr>,
     first_ready_to_run_thread_list = (\<lambda>q. if q = 0 then 0x30 else if q = 2 then 0x50 else 0),
     last_ready_to_run_thread_list = (\<lambda>q. if q = 0 then 0x40 else if q = 2 then 0x50 else 0),
     sleeping_thread_queue = 0x60, terminated_thread_queue = 0, IRQ_disable_counter = 0, counter = 7,
     postponed_yield_flag = 0, postpone_switches_counter = 0, current_thread = 0x20, idle_thread = 0x10, last_id = 4,
     system_ticks = 7, io_trace = []\<rparr>"

definition sample_ready :: "nat \<Rightarrow> u32 list" where
  "sample_ready = (\<lambda>q. if q = 0 then [0x30, 0x40] else if q = 2 then [0x50] else [])"

section \<open>Lemmas\<close>

lemma sample_sched_ok: "sched_ok sample_sched sample_ready [0x60] [] Map.empty"
proof -
  have "sched_core sample_sched sample_ready [0x60] [] Map.empty"
    by (rule sched_coreI) (auto simp add: sample_sched_def sample_ready_def sample_tcb_def queue_ok_def dest!: less_3_cases)
  then show ?thesis by (simp add: sched_ok_def sample_sched_def sample_tcb_def)
qed

lemma sample_quiet: "quiet sample_sched"
  by (simp add: quiet_def sample_sched_def)

lemma sample_slices: "slices_ok sample_sched sample_ready [0x60]"
  by (auto simp add: slices_ok_def sample_sched_def sample_tcb_def)

lemma sample_enabled: "enabled e sample_sched"
  by (simp add: enabled_def sample_sched_def)

text \<open>
  C7: A thread that calls \<open>lock_scheduler(); yield(); unlock_scheduler();\<close> goes to the back of the ready
  queue of its level, and the thread that runs next is the head of the first non-empty queue, or the idle
  thread when all three are empty. All lists stay well formed, no other thread's level or slice changes,
  interrupts are unlocked again, and the processor flags are those the now running thread had when it
  took the lock.
\<close>

theorem yield_picks_highest_level:
  assumes "sched_ok s R S D W" "quiet s"
  shows "sched_ok (locked_yield s) (snd (pick (idle_thread s) (requeue s R))) S D W
    \<and> current_thread (locked_yield s) = fst (pick (idle_thread s) (requeue s R)) \<and> settled s (locked_yield s)"
  using locked_yield_ok [OF assms(1)] assms(2) by (simp add: quiet_def)

theorem yield_picks_highest_level_witness:
  "current_thread (locked_yield sample_sched) = 0x30 \<and> settled sample_sched (locked_yield sample_sched)"
  using yield_picks_highest_level [OF sample_sched_ok sample_quiet]
  by (simp add: pick_def requeue_def sample_ready_def sample_sched_def sample_tcb_def)

text \<open>
  C6: The timer interrupt always returns, and does to the lists exactly what the specification of a tick
  says: sleepers whose time has come join the first queue in the order in which they slept, every
  hundredth tick moves all ready threads and the running one back to the first queue with a fresh
  slice, a running thread whose slice is over drops one level and is replaced, and otherwise nothing
  is switched.
\<close>

theorem timer_tick_refines:
  assumes "sched_ok s R S D W" "quiet s"
  defines "R1 \<equiv> wake_spec (tick_entry s) R S"
  shows "\<exists>s1 s'. apic_timer_handler s = Some s' \<and> quiet s'
    \<and> sched_ok s' (snd (decide (tick_entry s) R1)) (filter (\<lambda>t. \<not> due (tick_entry s) t) S) D W
    \<and> current_thread s' = fst (decide (tick_entry s) R1)
    \<and> woken (set (filter (due (tick_entry s)) S)) (tick_entry s) s1 \<and> decided s1 R1 s'"
proof -
  have e: "enabled Tick s" by (simp add: enabled_def)
  obtain n R' where d: "decide (tick_entry s) R1 = (n, R')" by (cases "decide (tick_entry s) R1")
  then have spec: "event_spec Tick s R S D = (n, R', filter (\<lambda>t. \<not> due (tick_entry s) t) S, D)"
    by (simp add: Let_def R1_def)
  obtain s' where "sched_event_step Tick s = Some s'" "sched_ok s' R' (filter (\<lambda>t. \<not> due (tick_entry s) t) S) D W" "quiet s'"
    "current_thread s' = n" "event_effect Tick s R S s'"
    by (rule event_refines [OF assms(1,2) e spec])
  then show ?thesis unfolding event_effect_def d by (auto simp add: Let_def R1_def)
qed

theorem timer_tick_refines_witness:
  "\<exists>s'. apic_timer_handler sample_sched = Some s' \<and> current_thread s' = 0x20
    \<and> sched_ok s' (sample_ready(0 := [0x30, 0x40, 0x60])) [] [] Map.empty"
proof -
  have "decide (tick_entry sample_sched) (wake_spec (tick_entry sample_sched) sample_ready [0x60]) = (0x20, sample_ready(0 := [0x30, 0x40, 0x60]))"
    by (simp add: decide_def wake_spec_def due_def slice_over_def sample_sched_def sample_tcb_def sample_ready_def)
  moreover have "due (tick_entry sample_sched) 0x60" by (simp add: due_def sample_sched_def sample_tcb_def)
  ultimately show ?thesis using timer_tick_refines [OF sample_sched_ok sample_quiet] by auto
qed

text \<open>
  \<open>thread_sleep\<close> returns, puts the calling thread at the end of the list of sleeping threads with the
  wake-up time the current tick count plus the requested time, and lets the head of the first non-empty
  ready queue run, or the idle thread.
\<close>

theorem thread_sleep_refines:
  assumes "sched_ok s R S D W" "quiet s" "current_thread s \<noteq> idle_thread s"
  shows "\<exists>s'. thread_sleep r s = Some s' \<and> sched_ok s' (snd (pick (idle_thread s) R)) (S @ [current_thread s]) D W
    \<and> current_thread s' = fst (pick (idle_thread s) R) \<and> settled s s'
    \<and> wake_time (tcbs s' (current_thread s)) = system_ticks s + ucast r"
  using sleep_ok [OF assms(1) _ _ assms(3)] assms(2) unfolding quiet_def by metis

theorem thread_sleep_refines_witness:
  "\<exists>s'. thread_sleep 5 sample_sched = Some s' \<and> current_thread s' = 0x30 \<and> wake_time (tcbs s' 0x20) = 12"
proof -
  have "current_thread sample_sched \<noteq> idle_thread sample_sched" by (simp add: sample_sched_def)
  from thread_sleep_refines [OF sample_sched_ok sample_quiet this, of 5] show ?thesis
    by (auto simp add: pick_def sample_ready_def sample_sched_def)
qed

text \<open>
  \<open>thread_exit\<close> puts the calling thread at the end of the list of terminated threads and hands the
  processor over, with the scheduler still locked once; the thread that goes on unlocks it and then runs
  with its own saved flags.
\<close>

theorem thread_exit_refines:
  assumes "sched_ok s R S D W" "quiet s" "current_thread s \<noteq> idle_thread s"
  shows "\<exists>s'. thread_exit s = Some s' \<and> current_thread s' = fst (pick (idle_thread s) R) \<and> IRQ_disable_counter s' = 1
    \<and> sched_ok (unlock_scheduler s') (snd (pick (idle_thread s) R)) S (D @ [current_thread s]) W \<and> settled s (unlock_scheduler s')"
  using exit_ok [OF assms(1) _ _ assms(3)] assms(2) unfolding quiet_def by metis

theorem thread_exit_refines_witness:
  "\<exists>s'. thread_exit sample_sched = Some s' \<and> current_thread s' = 0x30
    \<and> (\<exists>R. sched_ok (unlock_scheduler s') R [0x60] [0x20] Map.empty)"
proof -
  have "current_thread sample_sched \<noteq> idle_thread sample_sched" by (simp add: sample_sched_def)
  from thread_exit_refines [OF sample_sched_ok sample_quiet this] show ?thesis
    by (auto simp add: pick_def sample_ready_def sample_sched_def)
qed

text \<open>
  C4: In every state that timer interrupts and calls of yield, sleep and exit can reach, the lists are well
  formed, the scheduler is unlocked, no thread has been lost or invented, the current thread is the only
  one marked as running, and every possible next event completes.
\<close>

theorem scheduler_safe:
  assumes "sched_reaches s0 s" "sched_ok s0 R0 S0 D0 W" "quiet s0"
  shows "\<exists>R S D. sched_ok s R S D W \<and> quiet s \<and> threads s R S D W = threads s0 R0 S0 D0 W
    \<and> (\<forall>t \<in> threads s R S D W. state (tcbs s t) = THREAD_RUNNING \<longleftrightarrow> t = current_thread s)
    \<and> (\<forall>e. enabled e s \<longrightarrow> (\<exists>s'. sched_event_step e s = Some s'))"
proof -
  obtain R S D where i: "sched_ok s R S D W" "quiet s" "threads s R S D W = threads s0 R0 S0 D0 W"
    using reaches_inv [OF assms] by blast
  note o = sched_okD [OF i(1)]
  have "state (tcbs s t) = THREAD_RUNNING \<longleftrightarrow> t = current_thread s" if "t \<in> threads s R S D W" for t
  proof
    assume r: "state (tcbs s t) = THREAD_RUNNING"
    then have "t = current_thread s \<or> t = idle_thread s" using that running_not_listed [OF o(1) r] by (simp add: threads_def)
    then show "t = current_thread s" using r o(6) by auto
  qed (simp add: o(3))
  moreover have "\<exists>s'. sched_event_step e s = Some s'" if "enabled e s" for e
  proof -
    obtain n R' S' D' where "event_spec e s R S D = (n, R', S', D')" by (cases "event_spec e s R S D") auto
    from event_refines [OF i(1,2) that this] show ?thesis by blast
  qed
  ultimately show ?thesis using i by blast
qed

theorem scheduler_safe_witness:
  "\<exists>R S D. sched_ok (locked_yield sample_sched) R S D Map.empty \<and> quiet (locked_yield sample_sched)
    \<and> (\<exists>s'. sched_event_step Tick (locked_yield sample_sched) = Some s')"
proof -
  have "sched_reaches sample_sched (locked_yield sample_sched)"
    by (rule sched_reaches.event [OF sched_reaches.start, of Yield_Call]) (simp_all add: sample_enabled)
  from scheduler_safe [OF this sample_sched_ok sample_quiet] show ?thesis by (auto simp add: enabled_def)
qed

text \<open>
  C5: No ready thread starves. However timer ticks and the calls of the other threads interleave, a thread
  that is ready runs before \<open>30 N + 100\<close> ticks have passed, where \<open>N\<close> is the number of threads that are
  ready, asleep or running.
\<close>

theorem ready_thread_runs:
  assumes "sched_ok s R S D W" "quiet s" "slices_ok s R S" "t \<in> ready_set R" "history es s = Some ss"
    "30 * load s R S + 100 \<le> count_list es Tick"
  shows "t \<in> current_thread ` set ss"
proof -
  obtain m where m: "waits (load s R S) s R t m" "m \<le> 30 * load s R S + 100"
    by (rule waits_bound [OF assms(1-4)])
  have "m \<le> count_list es Tick" using m(2) assms(6) by linarith
  then show ?thesis using history_reaches [OF assms(1-3) _ m(1) assms(5)] by simp
qed

lemma count_ticks [simp]: "count_list (replicate n Tick) Tick = n"
  by (induction n) auto

lemma history_ticks:
  assumes "sched_ok s R S D W" "quiet s"
  shows "\<exists>ss. history (replicate n Tick) s = Some ss"
  using assms
proof (induction n arbitrary: s R S D)
  case (Suc n)
  have e: "enabled Tick s" by (simp add: enabled_def)
  obtain m R' S' D' where spec: "event_spec Tick s R S D = (m, R', S', D')" by (cases "event_spec Tick s R S D") auto
  obtain s' where s': "sched_event_step Tick s = Some s'" "sched_ok s' R' S' D' W" "quiet s'"
    by (rule event_refines [OF Suc.prems e spec])
  obtain ss where "history (replicate n Tick) s' = Some ss" using Suc.IH [OF s'(2,3)] by blast
  then show ?case using s'(1) e by simp
qed simp

theorem ready_thread_runs_witness:
  "\<exists>ss. history (replicate 250 Tick) sample_sched = Some ss \<and> 0x50 \<in> current_thread ` set ss"
proof -
  obtain ss where h: "history (replicate 250 Tick) sample_sched = Some ss" using history_ticks [OF sample_sched_ok sample_quiet] by blast
  have "0x50 \<in> ready_set sample_ready" by (simp add: ready_set_def sample_ready_def)
  moreover have "30 * load sample_sched sample_ready [0x60] + 100 \<le> count_list (replicate 250 Tick) Tick"
    by (simp add: load_def sample_ready_def sample_sched_def)
  ultimately have "0x50 \<in> current_thread ` set ss"
    using ready_thread_runs [OF sample_sched_ok sample_quiet sample_slices _ h] by blast
  with h show ?thesis by blast
qed

text \<open>
  A context switch saves and restores a thread. When \<open>switch_to_task\<close> leaves thread \<open>a\<close>, and later
  switches back to it from any state in which the stack words it saved are untouched and the stack then
  in use lies elsewhere, the thread goes on at the return address of the call, with the stack pointer
  above it and with the registers and flags it had.
\<close>

theorem context_switch_roundtrip:
  assumes "sp = r_esp (cpu s)" "s1 = switch_to_task a n s" "esp (tcbs s2 a) = esp (tcbs s1 a)"
    "\<forall>k \<in> {0, 4, 8, 12, 16, 20}. mem s2 (sp - 20 + k) = mem s1 (sp - 20 + k)"
    "\<forall>k \<in> {0, 4, 8, 12, 16, 20}. \<forall>j \<in> {4, 8, 12, 16, 20}. r_esp (cpu s2) - j \<noteq> sp - 20 + k"
  shows "cpu (switch_to_task b (esp (tcbs s2 a)) s2) = (cpu s)\<lparr>r_esp := sp + 4, r_eip := mem s sp\<rparr>"
proof -
  have e: "esp (tcbs s2 a) = sp - 20" using assms(1-3) by simp
  have m1: "mem s1 = (mem s)(sp - 4 := eflags (cpu s), sp - 8 := r_ebp (cpu s), sp - 12 := r_ebx (cpu s),
      sp - 16 := r_esi (cpu s), sp - 20 := r_edi (cpu s))" using assms(1,2) by (simp add: switch_to_task_def Let_def)
  have m2: "mem (switch_to_task b x s2) (sp - 20 + k) = mem s2 (sp - 20 + k)" if "k \<in> {0, 4, 8, 12, 16, 20}" for k x
  proof -
    have "r_esp (cpu s2) - j \<noteq> sp - 20 + k" if "j \<in> {4, 8, 12, 16, 20}" for j using assms(5) \<open>k \<in> {0, 4, 8, 12, 16, 20}\<close> that by blast
    then show ?thesis unfolding switch_to_task_def Let_def by (simp add: eq_commute [of "sp - 20 + k"])
  qed
  have add: "sp - 20 + 4 = sp - 16" "sp - 20 + 8 = sp - 12" "sp - 20 + 12 = sp - 8" "sp - 20 + 16 = sp - 4" "sp - 20 + 20 = sp"
    "sp - 20 + 24 = sp + 4" by (simp_all add: algebra_simps)
  have m: "mem (switch_to_task b x s2) (sp - 20 + k) = mem s1 (sp - 20 + k)" if "k \<in> {0, 4, 8, 12, 16, 20}" for k x
    unfolding m2 [OF that] using assms(4) that by blast
  have v: "mem (switch_to_task b x s2) (sp - 20) = r_edi (cpu s)" "mem (switch_to_task b x s2) (sp - 16) = r_esi (cpu s)"
    "mem (switch_to_task b x s2) (sp - 12) = r_ebx (cpu s)" "mem (switch_to_task b x s2) (sp - 8) = r_ebp (cpu s)"
    "mem (switch_to_task b x s2) (sp - 4) = eflags (cpu s)" "mem (switch_to_task b x s2) sp = mem s sp" for x
    using m [of 0 x] m [of 4 x] m [of 8 x] m [of 12 x] m [of 16 x] m [of 20 x] unfolding add m1 by simp_all
  have "cpu (switch_to_task b (sp - 20) s2) = \<lparr>r_esp = sp - 20 + 24, r_ebp = mem (switch_to_task b (sp - 20) s2) (sp - 20 + 12),
      r_ebx = mem (switch_to_task b (sp - 20) s2) (sp - 20 + 8), r_esi = mem (switch_to_task b (sp - 20) s2) (sp - 20 + 4),
      r_edi = mem (switch_to_task b (sp - 20) s2) (sp - 20), eflags = mem (switch_to_task b (sp - 20) s2) (sp - 20 + 16),
      r_eip = mem (switch_to_task b (sp - 20) s2) (sp - 20 + 20)\<rparr>"
    by (simp add: switch_to_task_def Let_def)
  then show ?thesis unfolding e add v by simp
qed

theorem context_switch_roundtrip_witness:
  "cpu (switch_to_task 0x30 (esp (tcbs (switch_to_task 0x20 0x9000 sample_sched) 0x20)) (switch_to_task 0x20 0x9000 sample_sched))
     = \<lparr>r_esp = 0x7004, r_ebp = 1, r_ebx = 2, r_esi = 3, r_edi = 4, eflags = 0x202, r_eip = 0\<rparr>"
  using context_switch_roundtrip [of "0x7000" sample_sched "switch_to_task 0x20 0x9000 sample_sched" "0x20" "0x9000"
      "switch_to_task 0x20 0x9000 sample_sched" "0x30"]
  by (simp add: sample_sched_def switch_to_task_def Let_def)

lemma small_u8_nonzero: "0 < n \<Longrightarrow> n < 256 \<Longrightarrow> (of_nat n :: u8) \<noteq> 0"
  by (simp add: word_of_nat_eq_0_iff nat_dvd_not_less)

lemma lock_power:
  assumes "IRQ_disable_counter s = 0" "0 < n" "n < 256"
  shows "IRQ_disable_counter ((lock_scheduler ^^ n) s) = of_nat n \<and> current_thread ((lock_scheduler ^^ n) s) = current_thread s
    \<and> saved_interrupt_state (tcbs ((lock_scheduler ^^ n) s) (current_thread s)) = eflags (cpu s)
    \<and> eflags (cpu ((lock_scheduler ^^ n) s)) AND EFLAGS_IF = 0"
  using assms(2,3)
proof (induction n)
  case (Suc n)
  have mask: "(x AND NOT EFLAGS_IF) AND EFLAGS_IF = 0" for x :: u32 by (simp add: word_bw_assocs)
  show ?case
  proof (cases "n = 0")
    case True
    then show ?thesis using assms(1) mask by simp
  next
    case False
    moreover have "(of_nat n :: u8) \<noteq> 0" using False Suc.prems by (intro small_u8_nonzero) simp_all
    ultimately show ?thesis using Suc mask by simp
  qed
qed simp

lemma unlock_power:
  assumes "IRQ_disable_counter s = of_nat n" "0 < n" "n < 256"
  shows "IRQ_disable_counter ((unlock_scheduler ^^ n) s) = 0
    \<and> eflags (cpu ((unlock_scheduler ^^ n) s)) = saved_interrupt_state (tcbs s (current_thread s))"
  using assms
proof (induction n arbitrary: s)
  case (Suc n)
  have ne: "(of_nat (Suc n) :: u8) \<noteq> 0" using Suc.prems(3) by (intro small_u8_nonzero) simp_all
  show ?case
  proof (cases "n = 0")
    case True
    then show ?thesis using Suc.prems by (simp add: unlock_cpu)
  next
    case False
    have "IRQ_disable_counter (unlock_scheduler s) = of_nat n" using ne Suc.prems(1) by simp
    then show ?thesis using Suc.IH [of "unlock_scheduler s"] False Suc.prems(3) by (simp add: funpow_swap1)
  qed
qed simp

text \<open>
  The scheduler lock nests. After any number of nested calls up to 255 interrupts are disabled and the
  counter holds the depth, and as many calls of \<open>unlock_scheduler\<close> bring back the processor flags of the
  outermost caller.
\<close>

theorem scheduler_lock_nests:
  assumes "IRQ_disable_counter s = 0" "0 < n" "n < 256"
  shows "IRQ_disable_counter ((lock_scheduler ^^ n) s) = of_nat n \<and> eflags (cpu ((lock_scheduler ^^ n) s)) AND EFLAGS_IF = 0
    \<and> IRQ_disable_counter ((unlock_scheduler ^^ n) ((lock_scheduler ^^ n) s)) = 0
    \<and> eflags (cpu ((unlock_scheduler ^^ n) ((lock_scheduler ^^ n) s))) = eflags (cpu s)"
  using lock_power [OF assms] unlock_power [OF _ assms(2,3), of "(lock_scheduler ^^ n) s"] by simp

theorem scheduler_lock_nests_witness:
  "eflags (cpu ((unlock_scheduler ^^ 255) ((lock_scheduler ^^ 255) sample_sched))) = 0x202"
  using scheduler_lock_nests [of sample_sched 255] by (simp add: sample_sched_def)

text \<open>
  Inside an atomic section a switch is postponed. Any number of calls of \<open>yield\<close> between \<open>lock_atomic\<close>
  and \<open>unlock_atomic\<close> switches no thread before the end of the section, and there they have exactly the
  effect of one locked \<open>yield\<close>.
\<close>

theorem atomic_section_postpones_yield:
  assumes "postpone_switches_counter s = 0" "postponed_yield_flag s = 0" "0 < n"
  shows "(yield ^^ n) (lock_atomic s) = (lock_atomic s)\<lparr>postponed_yield_flag := 1\<rparr>
    \<and> unlock_atomic ((yield ^^ n) (lock_atomic s)) = locked_yield s"
proof -
  have p: "postpone_switches_counter (lock_atomic s) = 1" using assms(1) by (simp add: lock_atomic_def Let_def)
  have y: "(yield ^^ k) (lock_atomic s) = (if k = 0 then lock_atomic s else (lock_atomic s)\<lparr>postponed_yield_flag := 1\<rparr>)" for k
    using p by (induction k) (simp_all add: yield_def)
  have "(lock_atomic s)\<lparr>postpone_switches_counter := 0, postponed_yield_flag := 0\<rparr> = lock_scheduler s"
    using assms(1,2) by (simp add: lock_atomic_def Let_def)
  then have "unlock_atomic ((lock_atomic s)\<lparr>postponed_yield_flag := 1\<rparr>) = locked_yield s"
    using p by (simp add: unlock_atomic_def locked_yield_def Let_def)
  then show ?thesis using y assms(3) by simp
qed

theorem atomic_section_postpones_yield_witness:
  "unlock_atomic (yield (yield (lock_atomic sample_sched))) = locked_yield sample_sched"
proof -
  have "postpone_switches_counter sample_sched = 0" "postponed_yield_flag sample_sched = 0" by (simp_all add: sample_sched_def)
  from atomic_section_postpones_yield [OF this zero_less_numeral, of "num.Bit0 num.One"] have "unlock_atomic ((yield ^^ 2) (lock_atomic sample_sched)) = locked_yield sample_sched" by blast
  then show ?thesis by (simp add: numeral_2_eq_2)
qed

end
