(* ===== verification/Heap_Blocks.thy ===== *)
theory Heap_Blocks
  imports Kmalloc
begin

text \<open>
  The heap seen as a list of blocks (size, free or not) that tile it from its base to the watermark,
  and how the header words of memory represent such a list together with the chain of the free
  ones. The five ways the allocator changes the list (putting a block into the free list, taking
  one out, cutting one, merging two, adding blocks at the end) are shown to keep the representation
  for the words that it writes.
\<close>

section \<open>Specification vocabulary\<close>

type_synonym block = "nat \<times> bool"

definition blocks_size :: "block list \<Rightarrow> nat" where
  "blocks_size bs = sum_list (map fst bs)"

fun fblocks :: "nat \<Rightarrow> block list \<Rightarrow> (nat \<times> nat) list" where
  "fblocks a [] = []"
| "fblocks a ((n, f) # bs) = (if f then (a, n) # fblocks (a + n) bs else fblocks (a + n) bs)"

definition header :: "block \<Rightarrow> u32" where
  "header b = of_nat (fst b) + (if snd b then 1 else 0)"

fun tiled :: "(nat \<Rightarrow> u32) \<Rightarrow> nat \<Rightarrow> block list \<Rightarrow> bool" where
  "tiled v a [] \<longleftrightarrow> True"
| "tiled v a (b # bs) \<longleftrightarrow> v a = header b \<and> tiled v (a + fst b) bs"

fun lseg :: "(nat \<Rightarrow> u32) \<Rightarrow> u32 \<Rightarrow> nat list \<Rightarrow> u32 \<Rightarrow> bool" where
  "lseg v p [] q \<longleftrightarrow> p = q"
| "lseg v p (a # as) q \<longleftrightarrow> p = of_nat a \<and> lseg v (v (a + 4)) as q"

definition wf_blocks :: "block list \<Rightarrow> bool" where
  "wf_blocks bs \<longleftrightarrow> (\<forall>(n, f) \<in> set bs. 16 dvd n \<and> 0 < n)"

definition free_addrs :: "nat \<Rightarrow> block list \<Rightarrow> nat list" where
  "free_addrs a bs = map fst (fblocks a bs)"

definition list_ok :: "nat \<Rightarrow> block list \<Rightarrow> u32 \<Rightarrow> (nat \<Rightarrow> u32) \<Rightarrow> bool" where
  "list_ok base bs p v \<longleftrightarrow> 16 dvd base \<and> 0 < base \<and> wf_blocks bs \<and> tiled v base bs \<and> lseg v p (free_addrs base bs) 0"

fun live :: "nat \<Rightarrow> block list \<Rightarrow> nat set" where
  "live a [] = {}"
| "live a ((n, f) # bs) = (if f then {} else {a + 8..<a + n}) \<union> live (a + n) bs"

definition relink_head :: "nat list \<Rightarrow> u32 \<Rightarrow> u32 \<Rightarrow> u32" where
  "relink_head as b p = (if as = [] then b else p)"

definition relink_val :: "nat list \<Rightarrow> u32 \<Rightarrow> (nat \<Rightarrow> u32) \<Rightarrow> (nat \<Rightarrow> u32)" where
  "relink_val as b v = (if as = [] then v else v(last as + 4 := b))"

definition prev_ptr :: "nat list \<Rightarrow> u32" where
  "prev_ptr as = (if as = [] then 0 else of_nat (last as))"

definition agree :: "(nat \<Rightarrow> u32) \<Rightarrow> (nat \<Rightarrow> u32) \<Rightarrow> nat \<Rightarrow> nat \<Rightarrow> bool" where
  "agree v w a b \<longleftrightarrow> (\<forall>x. 16 dvd x \<and> a \<le> x \<and> x < b \<longrightarrow> w x = v x \<and> w (x + 4) = v (x + 4))"

section \<open>Lemmas\<close>

lemma blocks_size_simps [simp]: "blocks_size [] = 0" "blocks_size (b # bs) = fst b + blocks_size bs" "blocks_size (xs @ ys) = blocks_size xs + blocks_size ys"
  by (simp_all add: blocks_size_def)

lemma wf_simps [simp]:
  "wf_blocks []" "wf_blocks (b # bs) \<longleftrightarrow> 16 dvd fst b \<and> 0 < fst b \<and> wf_blocks bs"
  "wf_blocks (xs @ ys) \<longleftrightarrow> wf_blocks xs \<and> wf_blocks ys"
  by (auto simp add: wf_blocks_def)

lemma wf_size: "wf_blocks bs \<Longrightarrow> 16 dvd blocks_size bs"
  by (induction bs) auto

lemma fblocks_append: "fblocks a (xs @ ys) = fblocks a xs @ fblocks (a + blocks_size xs) ys"
  by (induction a xs rule: fblocks.induct) (auto simp add: add.assoc)

lemma free_addrs_simps [simp]:
  "free_addrs a [] = []" "free_addrs a ((n, f) # bs) = (if f then a # free_addrs (a + n) bs else free_addrs (a + n) bs)"
  "free_addrs a (xs @ ys) = free_addrs a xs @ free_addrs (a + blocks_size xs) ys"
  by (simp_all add: free_addrs_def fblocks_append)

lemma free_addrs_range:
  "wf_blocks bs \<Longrightarrow> 16 dvd a \<Longrightarrow> x \<in> set (free_addrs a bs) \<Longrightarrow> 16 dvd x \<and> a \<le> x \<and> x + 16 \<le> a + blocks_size bs"
proof (induction bs arbitrary: a)
  case (Cons b bs)
  obtain n f where b: "b = (n, f)" by (cases b)
  with Cons.prems have n: "16 dvd n" "0 < n" "wf_blocks bs" by simp_all
  then have "16 \<le> n" by (auto elim!: dvdE)
  then show ?case
    using Cons.IH [of "a + n"] Cons.prems b n by (auto split: if_splits)
qed simp

lemma free_addrs_sorted: "wf_blocks bs \<Longrightarrow> 16 dvd a \<Longrightarrow> sorted_wrt (<) (free_addrs a bs)"
proof (induction bs arbitrary: a)
  case (Cons b bs)
  obtain n f where b: "b = (n, f)" by (cases b)
  with Cons.prems have n: "16 dvd n" "0 < n" "wf_blocks bs" by simp_all
  have "a < x" if "x \<in> set (free_addrs (a + n) bs)" for x
    using free_addrs_range [OF n(3) _ that] n(1,2) Cons.prems(2) by simp
  then show ?case using Cons.IH [of "a + n"] Cons.prems b n by simp
qed simp

lemma free_addrs_distinct: "wf_blocks bs \<Longrightarrow> 16 dvd a \<Longrightarrow> distinct (free_addrs a bs)"
  using free_addrs_sorted strict_sorted_iff by blast

lemma tiled_append [simp]: "tiled v a (xs @ ys) \<longleftrightarrow> tiled v a xs \<and> tiled v (a + blocks_size xs) ys"
  by (induction xs arbitrary: a) (auto simp add: add.assoc)

lemma tiled_cong:
  assumes "\<And>x. 16 dvd x \<Longrightarrow> a \<le> x \<Longrightarrow> x < a + blocks_size bs \<Longrightarrow> v' x = v x" "wf_blocks bs" "16 dvd a"
  shows "tiled v' a bs = tiled v a bs"
  using assms
proof (induction bs arbitrary: a)
  case (Cons b bs)
  then have "v' a = v a" by simp
  moreover have "tiled v' (a + fst b) bs = tiled v (a + fst b) bs"
    using Cons.prems by (intro Cons.IH) auto
  ultimately show ?case by simp
qed simp

lemma lseg_append [simp]: "lseg v p (as @ bs) q \<longleftrightarrow> (\<exists>r. lseg v p as r \<and> lseg v r bs q)"
  by (induction as arbitrary: p) auto

lemma lseg_cong: "(\<And>x. x \<in> set as \<Longrightarrow> v' (x + 4) = v (x + 4)) \<Longrightarrow> lseg v' p as q = lseg v p as q"
  by (induction as arbitrary: p) auto

lemma lseg_relink:
  assumes "lseg v p as r" "distinct as"
  shows "lseg (relink_val as b v) (relink_head as b p) as b"
proof (cases as rule: rev_cases)
  case (snoc as' a)
  then have "lseg (v(a + 4 := b)) p as' (of_nat a) = lseg v p as' (of_nat a)"
    using assms by (intro lseg_cong) auto
  with snoc assms show ?thesis by (simp add: relink_val_def relink_head_def)
qed (simp add: relink_val_def relink_head_def)

lemma relink_val_other [simp]: "as = [] \<or> x \<noteq> last as + 4 \<Longrightarrow> relink_val as b v x = v x"
  by (auto simp add: relink_val_def)

lemma header_word:
  assumes "16 dvd n" "n < 2 ^ 32"
  shows "header (n, f) AND NOT 1 = of_nat n" "header (n, False) OR 1 = header (n, True)"
    "header (n, True) AND NOT 1 = header (n, False)" "header (n, f) AND 1 = (if f then 1 else 0)"
    "(of_nat n :: u32) AND NOT 1 = of_nat n" "(of_nat n :: u32) OR 1 = of_nat n + 1"
proof -
  let ?w = "of_nat n :: u32"
  obtain k where k: "n = 16 * k" using assms(1) by blast
  then have n: "n + 1 < 2 ^ 32" using assms(2) by simp
  have u: "unat ?w = n" "unat (?w + 1) = n + 1"
    using assms n by (simp_all add: unat_of_nat unat_word_ariths)
  have div: "n div 2 * 2 = n" "(n + 1) div 2 * 2 = n" using k by simp_all
  have "?w = 2 * of_nat (8 * k)" using k by (simp add: mult.assoc [symmetric])
  then have ev: "even ?w" by simp
  have one: "(1 :: u32) = mask 1" by (simp add: mask_eq_decr_exp)
  have 0: "?w AND NOT 1 = ?w" "(?w + 1) AND NOT 1 = ?w"
    unfolding one using unat_and_not_mask [of ?w 1] unat_and_not_mask [of "?w + 1" 1] u div
    by (simp_all add: word_unat_eq_iff one [symmetric])
  show "?w AND NOT 1 = ?w" by (rule 0)
  show "?w OR 1 = ?w + 1" using ev by (simp add: or_one_eq)
  then show "header (n, False) OR 1 = header (n, True)" by (simp add: header_def)
  show "header (n, f) AND NOT 1 = ?w" "header (n, True) AND NOT 1 = header (n, False)"
    using 0 by (auto simp add: header_def)
  show "header (n, f) AND 1 = (if f then 1 else 0)"
    using ev by (auto simp add: header_def and_one_eq mod_2_eq_odd)
qed

lemma dvd_16_cases: "16 dvd x \<Longrightarrow> 16 dvd y \<Longrightarrow> x + 4 \<noteq> y \<and> x + 4 \<noteq> (y::nat) + 8 \<and> x \<noteq> y + 4"
  by (auto elim!: dvdE) presburger+

lemma seg_frame:
  assumes "wf_blocks bs" "16 dvd a" "agree v w a (a + blocks_size bs)"
  shows "tiled w a bs = tiled v a bs" "lseg w p (free_addrs a bs) q = lseg v p (free_addrs a bs) q"
proof -
  show "tiled w a bs = tiled v a bs" using assms by (intro tiled_cong) (auto simp add: agree_def)
  show "lseg w p (free_addrs a bs) q = lseg v p (free_addrs a bs) q"
  proof (rule lseg_cong)
    fix x assume "x \<in> set (free_addrs a bs)"
    from free_addrs_range [OF assms(1,2) this] show "w (x + 4) = v (x + 4)" using assms(3) by (simp add: agree_def)
  qed
qed

lemma relink_below:
  assumes "wf_blocks xs" "16 dvd a"
  shows "a + blocks_size xs \<le> x \<Longrightarrow> relink_val (free_addrs a xs) b w x = w x"
    and "16 dvd x \<Longrightarrow> relink_val (free_addrs a xs) b w x = w x"
proof -
  have l: "16 dvd last (free_addrs a xs) \<and> last (free_addrs a xs) + 16 \<le> a + blocks_size xs" if "free_addrs a xs \<noteq> []"
    using free_addrs_range [OF assms, of "last (free_addrs a xs)"] that by simp
  show "relink_val (free_addrs a xs) b w x = w x" if "a + blocks_size xs \<le> x"
    using that l by (intro relink_val_other) auto
  show "relink_val (free_addrs a xs) b w x = w x" if "16 dvd x"
    using that l dvd_16_cases [OF that] by (intro relink_val_other) metis
qed

lemma relink_frame:
  assumes "wf_blocks xs" "16 dvd a" "agree v w a (a + blocks_size xs)" "tiled v a xs" "lseg v p (free_addrs a xs) q"
  shows "tiled (relink_val (free_addrs a xs) b w) a xs"
    "lseg (relink_val (free_addrs a xs) b w) (relink_head (free_addrs a xs) b p) (free_addrs a xs) b"
proof -
  have w: "tiled w a xs" "lseg w p (free_addrs a xs) q" using seg_frame [OF assms(1-3)] assms(4,5) by simp_all
  show "tiled (relink_val (free_addrs a xs) b w) a xs"
    using w(1) relink_below(2) [OF assms(1,2)] tiled_cong [OF _ assms(1,2), of "relink_val (free_addrs a xs) b w" w] by auto
  show "lseg (relink_val (free_addrs a xs) b w) (relink_head (free_addrs a xs) b p) (free_addrs a xs) b"
    by (rule lseg_relink [OF w(2) free_addrs_distinct [OF assms(1,2)]])
qed

lemma relink_agree:
  assumes "wf_blocks xs" "16 dvd a" "a + blocks_size xs \<le> c" "agree v w c d"
  shows "agree v (relink_val (free_addrs a xs) b w) c d"
  using assms relink_below(1) [OF assms(1,2)] by (auto simp add: agree_def)

lemma list_ok_split:
  "list_ok base (xs @ ys) p v \<longleftrightarrow> 16 dvd base \<and> 0 < base \<and> wf_blocks xs \<and> wf_blocks ys \<and> tiled v base xs
     \<and> tiled v (base + blocks_size xs) ys
     \<and> (\<exists>q. lseg v p (free_addrs base xs) q \<and> lseg v q (free_addrs (base + blocks_size xs) ys) 0)"
  by (auto simp add: list_ok_def)

lemma list_ok_dvd: "list_ok base (xs @ ys) p v \<Longrightarrow> 16 dvd base + blocks_size xs"
  by (auto simp add: list_ok_split dest: wf_size)

lemma agree_upd:
  "agree v w a b \<Longrightarrow> \<forall>x. 16 dvd x \<and> a \<le> x \<and> x < b \<longrightarrow> x \<noteq> y \<and> x + 4 \<noteq> y \<Longrightarrow> agree v (w(y := z)) a b"
  by (auto simp add: agree_def)

lemma agree_refl [simp]: "agree v v a b" by (simp add: agree_def)

lemma list_ok_joinI:
  assumes "16 dvd base" "0 < base" "wf_blocks xs" "wf_blocks ms" "wf_blocks ys"
    "c = base + blocks_size xs" "d = c + blocks_size ms"
    "tiled v base xs" "tiled v c ms" "tiled v d ys"
    "lseg v p (free_addrs base xs) b" "lseg v b (free_addrs c ms) q" "lseg v q (free_addrs d ys) 0"
  shows "list_ok base (xs @ ms @ ys) p v"
  using assms by (auto simp add: list_ok_def add.assoc)

text \<open>Replacing some blocks in the middle of the heap by others of the same size together.\<close>

lemma list_ok_replace:
  assumes ok: "list_ok base (xs @ ms @ ys) p v" and c: "c = base + blocks_size xs" and d: "d = c + blocks_size ms"
    and ms': "blocks_size ms' = blocks_size ms" "wf_blocks ms'"
    and ag: "agree v w base c" "agree v w d (d + blocks_size ys)"
    and q: "lseg v q (free_addrs d ys) 0"
    and mid: "tiled w c ms'" "lseg w b (free_addrs c ms') q"
  shows "list_ok base (xs @ ms' @ ys) (relink_head (free_addrs base xs) b p) (relink_val (free_addrs base xs) b w)"
    and "lseg v p (free_addrs base xs) b \<Longrightarrow> list_ok base (xs @ ms' @ ys) p w"
proof -
  let ?r = "relink_val (free_addrs base xs) b w"
  obtain q' where l: "16 dvd base" "0 < base" "wf_blocks xs" "wf_blocks ms" "wf_blocks ys" "tiled v base xs" "tiled v d ys"
    "lseg v p (free_addrs base xs) q'"
    using ok by (auto simp add: list_ok_split c d add.assoc)
  have dc: "16 dvd c" using list_ok_dvd [OF ok] c by simp
  have dd: "16 dvd d" using dc wf_size [OF l(4)] d by simp
  have dm: "d = c + blocks_size ms'" using d ms'(1) by simp
  note rx = relink_frame [OF l(3,1) ag(1) [unfolded c] l(6,8), of b]
  have "agree w ?r c (c + blocks_size ms')" by (rule relink_agree [OF l(3,1)]) (simp_all add: c)
  note rm = seg_frame [OF ms'(2) dc this]
  have "agree v ?r d (d + blocks_size ys)" by (rule relink_agree [OF l(3,1) _ ag(2)]) (simp add: c d)
  note ry = seg_frame [OF l(5) dd this]
  show "list_ok base (xs @ ms' @ ys) (relink_head (free_addrs base xs) b p) ?r"
    using l(1-3,5,7) ms' rx mid q by (intro list_ok_joinI [OF _ _ _ _ _ c dm, where b = b and q = q]) (simp_all add: rm ry)
  assume b: "lseg v p (free_addrs base xs) b"
  note wx = seg_frame [OF l(3,1) ag(1) [unfolded c]] and wy = seg_frame [OF l(5) dd ag(2)]
  show "list_ok base (xs @ ms' @ ys) p w"
    using l(1-3,5-7) ms' mid q b by (intro list_ok_joinI [OF _ _ _ _ _ c dm, where b = b and q = q]) (simp_all add: wx wy)
qed

lemma agree_outside:
  assumes "16 dvd y" "16 dvd a" "b \<le> y \<or> y + 16 \<le> a" "z = y \<or> z = y + 4" "agree v w a b"
  shows "agree v (w(z := x)) a b"
  using assms dvd_16_cases by (fastforce intro!: agree_upd)

lemma list_ok_ptrs:
  assumes "list_ok base (xs @ ms @ ys) p v" "c = base + blocks_size xs" "d = c + blocks_size ms"
  obtains b q where "lseg v p (free_addrs base xs) b" "lseg v b (free_addrs c ms) q" "lseg v q (free_addrs d ys) 0"
  using assms by (auto simp add: list_ok_def add.assoc)

lemma list_ok_wf:
  assumes "list_ok base (xs @ ms @ ys) p v" "c = base + blocks_size xs" "d = c + blocks_size ms"
  shows "16 dvd base" "0 < base" "wf_blocks xs" "wf_blocks ms" "wf_blocks ys" "tiled v c ms" "16 dvd c" "16 dvd d"
  using assms list_ok_dvd [OF assms(1)] wf_size [of ms] by (auto simp add: list_ok_def)

text \<open>A block put into the free list between the free blocks before it and behind it.\<close>

lemma list_ok_insert:
  assumes ok: "list_ok base (xs @ [(n, False)] @ ys) p v" and c: "c = base + blocks_size xs"
    and q: "lseg v p (free_addrs base xs) q" "lseg v q (free_addrs (c + n) ys) 0"
  shows "list_ok base (xs @ [(n, True)] @ ys) (relink_head (free_addrs base xs) (of_nat c) p)
    (relink_val (free_addrs base xs) (of_nat c) (v(c := header (n, True), c + 4 := q)))"
proof (rule list_ok_replace(1) [OF ok c refl])
  note w = list_ok_wf [OF ok c refl]
  then have n: "16 \<le> n" by (auto elim!: dvdE)
  show "agree v (v(c := header (n, True), c + 4 := q)) base c"
    using w by (intro agree_outside [of c]) auto
  show "agree v (v(c := header (n, True), c + 4 := q)) (c + blocks_size [(n, False)]) (c + blocks_size [(n, False)] + blocks_size ys)"
    using w n by (intro agree_outside [of c]) auto
  show "lseg v q (free_addrs (c + blocks_size [(n, False)]) ys) 0" using q by simp
qed (use list_ok_wf [OF ok c refl] in auto)

text \<open>A block taken out of the free list.\<close>

lemma list_ok_remove:
  assumes ok: "list_ok base (xs @ [(n, True)] @ ys) p v" and c: "c = base + blocks_size xs"
  shows "list_ok base (xs @ [(n, False)] @ ys) (relink_head (free_addrs base xs) (v (c + 4)) p)
    (relink_val (free_addrs base xs) (v (c + 4)) (v(c := header (n, False))))"
proof (rule list_ok_replace(1) [OF ok c refl])
  note w = list_ok_wf [OF ok c refl]
  then have n: "16 \<le> n" by (auto elim!: dvdE)
  show "agree v (v(c := header (n, False))) base c" using w by (intro agree_outside [of c]) auto
  show "agree v (v(c := header (n, False))) (c + blocks_size [(n, True)]) (c + blocks_size [(n, True)] + blocks_size ys)"
    using w n by (intro agree_outside [of c]) auto
  show "lseg v (v (c + 4)) (free_addrs (c + blocks_size [(n, True)]) ys) 0"
    by (rule list_ok_ptrs [OF ok c refl]) simp
qed (use list_ok_wf [OF ok c refl] in auto)

text \<open>A free block cut in two, the first part taken.\<close>

lemma list_ok_cut:
  assumes ok: "list_ok base (xs @ [(k, True)] @ ys) p v" and c: "c = base + blocks_size xs"
    and r: "16 dvd r" "0 < r" "r < k" 
    and w: "w = v(c + r := header (k - r, True), c := header (r, False), c + r + 4 := v (c + 4))"
  shows "list_ok base (xs @ [(r, False), (k - r, True)] @ ys) (relink_head (free_addrs base xs) (of_nat (c + r)) p)
    (relink_val (free_addrs base xs) (of_nat (c + r)) w)"
proof (rule list_ok_replace(1) [OF ok c refl])
  note l = list_ok_wf [OF ok c refl]
  have k: "16 dvd k - r" "16 \<le> k - r" "16 \<le> r"
    using l r by (auto elim!: dvdE)
  show "agree v w base c" unfolding w using l r by (intro agree_outside [of "c + r"] agree_outside [of c]) auto
  show "agree v w (c + blocks_size [(k, True)]) (c + blocks_size [(k, True)] + blocks_size ys)"
    unfolding w using l r k by (intro agree_outside [of "c + r"] agree_outside [of c]) auto
  show "lseg v (v (c + 4)) (free_addrs (c + blocks_size [(k, True)]) ys) 0"
    by (rule list_ok_ptrs [OF ok c refl]) simp
  have ne: "c + r \<noteq> c + r + 4" "c \<noteq> c + r + 4" "c + r \<noteq> c" "c + 4 \<noteq> c + r" using r k by auto
  show "tiled w c [(r, False), (k - r, True)]" using ne by (simp add: w)
  show "lseg w (of_nat (c + r)) (free_addrs c [(r, False), (k - r, True)]) (v (c + 4))" using ne by (simp add: w)
  show "blocks_size [(r, False), (k - r, True)] = blocks_size [(k, True)]" "wf_blocks [(r, False), (k - r, True)]"
    using r k by auto
qed

text \<open>A free block merged with the free block behind it.\<close>

lemma list_ok_absorb:
  assumes ok: "list_ok base (xs @ [(n, True), (k, True)] @ ys) p v" and c: "c = base + blocks_size xs"
    and w: "w = v(c := v c + of_nat k, c + 4 := v (c + n + 4))"
  shows "list_ok base (xs @ [(n + k, True)] @ ys) p w"
proof (rule list_ok_replace(2) [OF ok c refl])
  note l = list_ok_wf [OF ok c refl]
  then have n: "16 \<le> n" by (auto elim!: dvdE)
  show "agree v w base c" unfolding w using l by (intro agree_outside [of c]) auto
  show "agree v w (c + blocks_size [(n, True), (k, True)]) (c + blocks_size [(n, True), (k, True)] + blocks_size ys)"
    unfolding w using l n by (intro agree_outside [of c]) auto
  show "lseg v (v (c + n + 4)) (free_addrs (c + blocks_size [(n, True), (k, True)]) ys) 0"
    "lseg v p (free_addrs base xs) (of_nat c)"
    by (rule list_ok_ptrs [OF ok c refl]; simp)+
  show "tiled w c [(n + k, True)]" using l by (simp add: w header_def)
  show "lseg w (of_nat c) (free_addrs c [(n + k, True)]) (v (c + n + 4))" by (simp add: w)
qed (use list_ok_wf [OF ok c refl] in auto)

end
