(* ===== verification/Heap_Runs.thy ===== *)
theory Heap_Runs
  imports Heap_Blocks
begin

text \<open>
  What the pieces of \<open>kmalloc\<close> and \<open>kfree\<close> compute on memory whose heap part holds given words: they do
  not fault, and the words afterwards are those before with the stores applied. \<open>runs\<close> is the total
  correctness of a fallible computation, with one rule per access.
\<close>

section \<open>Specification vocabulary\<close>

definition heap_at :: "nat \<Rightarrow> nat \<Rightarrow> u32 \<Rightarrow> u32 \<Rightarrow> nat \<Rightarrow> (nat \<Rightarrow> u32) \<Rightarrow> heap_state \<Rightarrow> bool" where
  "heap_at lo hi p wm res v h \<longleftrightarrow> heap_mem lo hi v (hvm h) \<and> free_list_head h = p \<and> heap_watermark h = wm
     \<and> card (free_frames (pmm (hvm h))) = res"

definition heap_inv :: "nat \<Rightarrow> block list \<Rightarrow> (nat \<Rightarrow> u32) \<Rightarrow> heap_state \<Rightarrow> bool" where
  "heap_inv base bs v h \<longleftrightarrow> heap_mem base (base + blocks_size bs) v (hvm h)
     \<and> heap_watermark h = of_nat (base + blocks_size bs) \<and> list_ok base bs (free_list_head h) v"

definition heap_reserve :: "heap_state \<Rightarrow> nat" where
  "heap_reserve h = card (free_frames (pmm (hvm h)))"

definition runs :: "panic + 'a \<Rightarrow> ('a \<Rightarrow> bool) \<Rightarrow> bool" where
  "runs r P \<longleftrightarrow> (\<exists>a. r = Inr a \<and> P a)"

section \<open>Lemmas\<close>

lemma heap_at_load:
  "heap_at lo hi p wm res v h \<Longrightarrow> lo \<le> x \<Longrightarrow> x < hi \<Longrightarrow> hload (of_nat x) h = Inr (v x)"
  unfolding heap_at_def hload_def by (blast intro: heap.load_ok)

lemma heap_at_store:
  assumes "heap_at lo hi p wm res v h" "lo \<le> x" "x < hi"
  shows "\<exists>h'. hstore (of_nat x) w h = Inr h' \<and> heap_at lo hi p wm res (v(x := w)) h'"
proof -
  obtain m where "vwrite (of_nat x) w (hvm h) = Inr m" "heap_mem lo hi (v(x := w)) m"
    "card (free_frames (pmm m)) = card (free_frames (pmm (hvm h)))"
    using heap.store_ok [of lo hi v "hvm h" x w] assms by (auto simp add: heap_at_def)
  with assms(1) show ?thesis by (auto simp add: heap_at_def hstore_def)
qed

lemma heap_at_modify:
  assumes "heap_at lo hi p wm res v h" "lo \<le> x" "x < hi"
  shows "\<exists>h'. hmodify (of_nat x) g h = Inr h' \<and> heap_at lo hi p wm res (v(x := g (v x))) h'"
  using heap_at_store [OF assms] heap_at_load [OF assms] by (simp add: hmodify_def)

lemma heap_at_relink:
  assumes "heap_at lo hi p wm res v h" and "\<And>x. x \<in> set as \<Longrightarrow> 0 < x \<and> lo \<le> x \<and> x + 4 < hi"
  shows "\<exists>h'. relink (prev_ptr as) b h = Inr h' \<and> heap_at lo hi (relink_head as b p) wm res (relink_val as b v) h'"
proof (cases "as = []")
  case True
  then show ?thesis using assms by (simp add: relink_def prev_ptr_def relink_head_def relink_val_def heap_at_def)
next
  case False
  then have l: "0 < last as" "lo \<le> last as + 4" "last as + 4 < hi" using assms(2) [of "last as"] by auto
  moreover have "hi \<le> HEAP_LIMIT" using assms(1) heap_memD(3) by (auto simp add: heap_at_def)
  ultimately have "of_nat (last as) \<noteq> (0 :: u32)" using heap_nat [of "last as"] by auto
  moreover have "next_free_slot (of_nat (last as)) = of_nat (last as + 4)" by (simp add: next_free_slot_def)
  ultimately show ?thesis using heap_at_store [OF assms(1) l(2,3), of b] False
    by (simp add: relink_def prev_ptr_def relink_head_def relink_val_def)
qed

lemma heap_at_nat: "heap_at lo hi p wm res v h \<Longrightarrow> x < hi \<Longrightarrow> unat (of_nat x :: u32) = x"
  unfolding heap_at_def by (auto dest!: heap_memD(3) intro: heap_nat)

lemma heap_nat_0: "heap_at lo hi p wm res v h \<Longrightarrow> x < hi \<Longrightarrow> (of_nat x = (0 :: u32)) = (x = 0)"
  using heap_at_nat [of lo hi p wm res v h x] by (simp add: word_unat_eq_iff)

lemma heap_nat_le: "heap_at lo hi p wm res v h \<Longrightarrow> x < hi \<Longrightarrow> y < hi \<Longrightarrow> (of_nat x < (of_nat y :: u32)) = (x < y)"
  using heap_at_nat [of lo hi p wm res v h x] heap_at_nat [of lo hi p wm res v h y] by (simp add: word_less_nat_alt)

lemma fblocks_tiled:
  "tiled v a bs \<Longrightarrow> wf_blocks bs \<Longrightarrow> (x, n) \<in> set (fblocks a bs) \<Longrightarrow>
    v x = header (n, True) \<and> a \<le> x \<and> x + n \<le> a + blocks_size bs \<and> 16 dvd n \<and> 16 \<le> n"
proof (induction bs arbitrary: a)
  case (Cons b bs)
  obtain k f where b: "b = (k, f)" by (cases b)
  with Cons.prems have k: "16 dvd k" "0 < k" by simp_all
  then have "16 \<le> k" by (auto elim!: dvdE)
  then show ?case using Cons.IH [of "a + k"] Cons.prems b k by (auto split: if_splits)
qed simp

lemma find_fit_skip:
  assumes h: "heap_at lo hi p wm res v h" and r: "r < 2 ^ 32"
    and us: "\<And>a n. (a, n) \<in> set us \<Longrightarrow> 0 < a \<and> lo \<le> a \<and> a + n \<le> hi \<and> v a = header (n, True) \<and> 16 dvd n \<and> 16 \<le> n \<and> n < r"
    and s: "lseg v cur (map fst us) s"
  shows "find_fit (of_nat r) cur q h = find_fit (of_nat r) s (if us = [] then q else prev_ptr (map fst us)) h"
  using us s
proof (induction us arbitrary: cur q)
  case (Cons u us)
  obtain a n where u: "u = (a, n)" by (cases u)
  have f: "0 < a" "lo \<le> a" "a + n \<le> hi" "v a = header (n, True)" "16 dvd n" "16 \<le> n" "n < r"
    using Cons.prems(1) [of a n] u by auto
  have n32: "n < 2 ^ 32" using f(7) r by simp
  have nz: "(of_nat a :: u32) \<noteq> 0" using heap_nat_0 [OF h, of a] f by simp
  have "\<not> (of_nat r :: u32) \<le> of_nat n" using f(7) r by (simp add: word_le_nat_alt unat_of_nat)
  moreover have "hload (size_and_flags (of_nat a)) h = Inr (header (n, True))"
    using heap_at_load [OF h f(2)] f by (simp add: size_and_flags_def)
  moreover have "hload (next_free_slot (of_nat a)) h = Inr (v (a + 4))"
    using heap_at_load [OF h, of "a + 4"] f by (simp add: next_free_slot_def)
  ultimately have "find_fit (of_nat r) (of_nat a) q h = find_fit (of_nat r) (v (a + 4)) (of_nat a) h"
    using nz header_word(1) [OF f(5) n32, of True] by (subst find_fit.simps) simp
  moreover have "cur = of_nat a" "lseg v (v (a + 4)) (map fst us) s" using Cons.prems(2) u by simp_all
  moreover have "find_fit (of_nat r) (v (a + 4)) (of_nat a) h
    = find_fit (of_nat r) s (if us = [] then of_nat a else prev_ptr (map fst us)) h"
    using Cons.prems calculation(3) by (intro Cons.IH) auto
  ultimately show ?case using u by (auto simp add: prev_ptr_def last_map)
qed simp

lemma find_slot_skip:
  assumes h: "heap_at lo hi p wm res v h" and c: "c < hi"
    and as: "\<And>a. a \<in> set as \<Longrightarrow> 0 < a \<and> lo \<le> a \<and> a < c \<and> a + 4 < hi"
    and s: "lseg v cur as s"
  shows "find_slot (of_nat c) cur q h = find_slot (of_nat c) s (if as = [] then q else prev_ptr as) h"
  using as s
proof (induction as arbitrary: cur q)
  case (Cons a as)
  have f: "0 < a" "lo \<le> a" "a < c" "a + 4 < hi" using Cons.prems(1) [of a] by auto
  have nz: "(of_nat a :: u32) \<noteq> 0" "of_nat a < (of_nat c :: u32)"
    using heap_nat_0 [OF h, of a] heap_nat_le [OF h, of a c] f c by auto
  have "hload (next_free_slot (of_nat a)) h = Inr (v (a + 4))"
    using heap_at_load [OF h, of "a + 4"] f by (simp add: next_free_slot_def)
  then have "find_slot (of_nat c) (of_nat a) q h = find_slot (of_nat c) (v (a + 4)) (of_nat a) h"
    using nz by (subst find_slot.simps) simp
  moreover have l: "cur = of_nat a" "lseg v (v (a + 4)) as s" using Cons.prems(2) by simp_all
  moreover have "find_slot (of_nat c) (v (a + 4)) (of_nat a) h
    = find_slot (of_nat c) s (if as = [] then of_nat a else prev_ptr as) h"
    using Cons.prems l by (intro Cons.IH) auto
  ultimately show ?case by (auto simp add: prev_ptr_def)
qed simp

lemma andthen_assoc: "andthen (andthen r f) g = andthen r (\<lambda>x. andthen (f x) g)"
  by (cases r) simp_all

lemma heap_inv_at:
  "heap_inv base bs v h \<longleftrightarrow>
    heap_at base (base + blocks_size bs) (free_list_head h) (of_nat (base + blocks_size bs)) (heap_reserve h) v h
    \<and> list_ok base bs (free_list_head h) v"
  by (auto simp add: heap_inv_def heap_at_def heap_reserve_def)

lemma heap_inv_atI:
  "heap_at base (base + blocks_size bs) p (of_nat (base + blocks_size bs)) res v h \<Longrightarrow> list_ok base bs p v \<Longrightarrow>
    heap_inv base bs v h \<and> heap_reserve h = res"
  by (auto simp add: heap_inv_def heap_at_def heap_reserve_def)

lemma heap_inv_size: "heap_inv base bs v h \<Longrightarrow> base + blocks_size bs \<le> HEAP_LIMIT"
  by (auto simp add: heap_inv_def dest: heap_memD(3))

lemma field_nat [simp]:
  "size_and_flags (of_nat a) = of_nat a" "next_free_slot (of_nat a) = of_nat (a + 4)"
  "of_nat a + SIZEOF_HEADER = of_nat (a + 8)"
  by (simp_all add: size_and_flags_def next_free_slot_def SIZEOF_HEADER_def)

lemma field_nat_add: "(of_nat a :: u32) + of_nat b = of_nat (a + b)"
  by simp

lemma free_addrs_fit:
  assumes "heap_inv base (xs @ ys) v h" "x \<in> set (free_addrs base xs)"
  shows "0 < x \<and> base \<le> x \<and> x + 4 < base + blocks_size (xs @ ys)"
  using assms free_addrs_range [of xs base x] by (auto simp add: heap_inv_def list_ok_def)

lemma of_nat_diff_word: "r \<le> k \<Longrightarrow> (of_nat k :: u32) - of_nat r = of_nat (k - r)"
  by (simp add: of_nat_diff)

lemma remaining_iff:
  assumes "16 dvd k" "16 dvd r" "r \<le> k" "k < 2 ^ 32"
  shows "SIZEOF_HEADER + 4 \<le> (of_nat (k - r) :: u32) \<longleftrightarrow> r < k"
proof -
  have "16 dvd k - r" using assms by (simp add: dvd_diff_nat)
  then have "0 < k - r \<Longrightarrow> 16 \<le> k - r" by (rule dvd_imp_le)
  then have "12 \<le> k - r \<longleftrightarrow> 0 < k - r" by linarith
  moreover have "unat (of_nat (k - r) :: u32) = k - r" 
    using assms(4) unat_of_nat [of "k - r", where 'a = 32] by (simp del: of_nat_diff)
  ultimately show ?thesis unfolding word_le_nat_alt by (simp add: SIZEOF_HEADER_def del: of_nat_diff)
qed

lemma runs_Inr: "P a \<Longrightarrow> runs (Inr a) P" by (simp add: runs_def)

lemma runs_load:
  "heap_at lo hi p wm res v h \<Longrightarrow> lo \<le> x \<and> x < hi \<Longrightarrow> runs (f (v x)) P \<Longrightarrow> runs (andthen (hload (of_nat x) h) f) P"
  using heap_at_load by fastforce

lemma runs_store:
  assumes "heap_at lo hi p wm res v h" "lo \<le> x \<and> x < hi" "\<And>h'. heap_at lo hi p wm res (v(x := w)) h' \<Longrightarrow> runs (f h') P"
  shows "runs (andthen (hstore (of_nat x) w h) f) P"
  using heap_at_store [OF assms(1), of x w] assms(2,3) by auto

lemma runs_modify:
  assumes "heap_at lo hi p wm res v h" "lo \<le> x \<and> x < hi" "\<And>h'. heap_at lo hi p wm res (v(x := g (v x))) h' \<Longrightarrow> runs (f h') P"
  shows "runs (andthen (hmodify (of_nat x) g h) f) P"
  using heap_at_modify [OF assms(1), of x g] assms(2,3) by auto

lemma runs_relink:
  assumes "heap_at lo hi p wm res v h" "\<forall>x \<in> set as. 0 < x \<and> lo \<le> x \<and> x + 4 < hi"
    "\<And>h'. heap_at lo hi (relink_head as b p) wm res (relink_val as b v) h' \<Longrightarrow> runs (f h') P"
  shows "runs (andthen (relink (prev_ptr as) b h) f) P"
  using heap_at_relink [OF assms(1), of as b] assms(2,3) by auto

lemma runs_store_last:
  assumes "heap_at lo hi p wm res v h" "lo \<le> x \<and> x < hi" "\<And>h'. heap_at lo hi p wm res (v(x := w)) h' \<Longrightarrow> P h'"
  shows "runs (hstore (of_nat x) w h) P"
  using heap_at_store [OF assms(1), of x w] assms(2,3) by (auto simp add: runs_def)

lemma runs_append:
  assumes "heap_at lo hi p wm res v h" "\<forall>x \<in> set as. 0 < x \<and> lo \<le> x \<and> x + 4 < hi" "p = 0 \<longleftrightarrow> as = []"
    "\<And>h'. heap_at lo hi (relink_head as b p) wm res (relink_val as b v) h' \<Longrightarrow> runs (f h') P"
  shows "runs (andthen (if free_list_head h = 0 then Inr (h\<lparr>free_list_head := b\<rparr>)
    else hstore (next_free_slot (prev_ptr as)) b h) f) P"
proof -
  have "prev_ptr as = 0 \<longleftrightarrow> as = []"
  proof (cases "as = []")
    case False
    then have "0 < last as" "last as < hi" using assms(2) by (auto dest!: bspec [of _ _ "last as"])
    then show ?thesis using False heap_nat_0 [OF assms(1), of "last as"] by (simp add: prev_ptr_def)
  qed (simp add: prev_ptr_def)
  moreover have "free_list_head h = p" using assms(1) by (simp add: heap_at_def)
  ultimately show ?thesis using runs_relink [OF assms(1,2,4)] assms(3) by (simp add: relink_def)
qed

lemmas run_rules = runs_load runs_store runs_modify runs_relink

lemma take_block_cut_run:
  assumes at: "heap_at base hi p wm res v h" and c: "base \<le> c" "0 < r" "16 \<le> r" "16 \<le> k - r" "c + k \<le> hi"
    and vc: "(v c AND NOT 1) - of_nat r = of_nat (k - r)" "SIZEOF_HEADER + 4 \<le> (of_nat (k - r) :: u32)"
    and as: "\<forall>x \<in> set as. 0 < x \<and> base \<le> x \<and> x + 4 < hi"
  shows "runs (take_block (of_nat r) (of_nat c) (prev_ptr as) h) (\<lambda>(a, h'). a = of_nat (c + 8)
    \<and> heap_at base hi (relink_head as (of_nat (c + r)) p) wm res
        (relink_val as (of_nat (c + r)) (v(c + r := of_nat (k - r) OR 1, c := of_nat r AND NOT 1, c + r + 4 := v (c + 4)))) h')"
proof -
  have rg: "base \<le> c \<and> c < hi" "base \<le> c + r \<and> c + r < hi" "base \<le> c + 4 \<and> c + 4 < hi" "base \<le> c + r + 4 \<and> c + r + 4 < hi"
    and ne: "r \<noteq> 4" using c by auto
  show ?thesis
    unfolding take_block_def field_nat
    by (rule runs_load [OF at rg(1)], simp only: Let_def vc if_True andthen_assoc field_nat field_nat_add,
        rule runs_store [OF at rg(2)], (rule run_rules, assumption, rule rg)+, rule runs_relink, assumption, rule as,
        simp add: runs_Inr ne)
qed

lemma take_block_keep_run:
  assumes at: "heap_at base hi p wm res v h" and c: "base \<le> c" "c + 4 < hi"
    and vc: "\<not> SIZEOF_HEADER + 4 \<le> (v c AND NOT 1) - of_nat r"
    and as: "\<forall>x \<in> set as. 0 < x \<and> base \<le> x \<and> x + 4 < hi"
  shows "runs (take_block (of_nat r) (of_nat c) (prev_ptr as) h) (\<lambda>(a, h'). a = of_nat (c + 8)
    \<and> heap_at base hi (relink_head as (v (c + 4)) p) wm res (relink_val as (v (c + 4)) (v(c := v c AND NOT 1))) h')"
proof -
  have rg: "base \<le> c \<and> c < hi" "base \<le> c + 4 \<and> c + 4 < hi" and ne: "c + 4 \<noteq> c" using c by auto
  show ?thesis
    unfolding take_block_def field_nat
    by (rule runs_load [OF at rg(1)], simp only: Let_def vc if_False andthen_assoc field_nat,
        rule runs_modify [OF at rg(1)], (rule run_rules, assumption, rule rg)+, rule runs_relink, assumption, rule as,
        simp add: runs_Inr ne)
qed

lemma absorb_run:
  assumes at: "heap_at base hi p wm res v h" and c: "base \<le> c" "c + 16 \<le> d" "d + 4 < hi"
  shows "runs (andthen (hload (of_nat d) h) (\<lambda>hw. andthen (hmodify (of_nat c) (\<lambda>x. x + (hw AND NOT 1)) h) (\<lambda>h1.
       andthen (hload (of_nat (d + 4)) h1) (\<lambda>nxt. hstore (of_nat (c + 4)) nxt h1))))
     (heap_at base hi p wm res (v(c := v c + (v d AND NOT 1), c + 4 := v (d + 4))))"
proof -
  have rg: "base \<le> c \<and> c < hi" "base \<le> d \<and> d < hi" "base \<le> c + 4 \<and> c + 4 < hi" "base \<le> d + 4 \<and> d + 4 < hi"
    and ne: "d + 4 \<noteq> c" using c by auto
  show ?thesis
    by (rule runs_load [OF at rg(2)], rule runs_modify [OF at rg(1)], rule runs_load, assumption, rule rg,
        rule runs_store_last, assumption, rule rg, simp add: ne)
qed

lemma heap_grow_iter:
  "heap_grow n h = andthen (grow_pages (\<lambda>a. alloc_page a (PTE_PRESENT OR PTE_RW)) n (heap_watermark h) (hvm h))
     (\<lambda>m. Inr (h\<lparr>hvm := m, heap_watermark := heap_watermark h + of_nat n * 4096\<rparr>))"
proof (induction n arbitrary: h)
  case (Suc n)
  show ?case by (cases "alloc_page (heap_watermark h) (PTE_PRESENT OR PTE_RW) (hvm h)")
    (simp_all add: Suc algebra_simps)
qed simp

lemma heap_grow_run:
  assumes at: "heap_at base hi p (of_nat hi) res v h" and room: "hi + 4096 * n \<le> HEAP_LIMIT" "2 * n \<le> res"
  shows "runs (heap_grow n h) (\<lambda>h'. \<exists>v' res'. heap_at base (hi + 4096 * n) p (of_nat (hi + 4096 * n)) res' v' h'
    \<and> (\<forall>x<hi. v' x = v x) \<and> res \<le> res' + 2 * n)"
proof -
  obtain m v' where "grow_pages (\<lambda>a. alloc_page a (PTE_PRESENT OR PTE_RW)) n (of_nat hi) (hvm h) = Inr m"
    "heap_mem base (hi + 4096 * n) v' m" "\<forall>x<hi. v' x = v x" "res \<le> card (free_frames (pmm m)) + 2 * n"
    using heap.grow_pages_ok [of base hi v "hvm h" n] at room by (auto simp add: heap_at_def)
  then show ?thesis using at unfolding heap_grow_iter runs_def
    by (auto simp add: heap_at_def intro!: exI [of _ v'] exI [of _ "card (free_frames (pmm m))"])
qed

lemma heap_grow_then:
  assumes "heap_at base hi p (of_nat hi) res v h" "hi + 4096 * n \<le> HEAP_LIMIT" "2 * n \<le> res"
    "\<And>h' v' res'. heap_at base (hi + 4096 * n) p (of_nat (hi + 4096 * n)) res' v' h' \<Longrightarrow> \<forall>x<hi. v' x = v x \<Longrightarrow>
      res \<le> res' + 2 * n \<Longrightarrow> runs (f h') P"
  shows "runs (andthen (heap_grow n h) f) P"
  using heap_grow_run [OF assms(1-3)] assms(4) unfolding runs_def by (metis andthen_simps(2))

lemma expand_cut_run:
  assumes at: "heap_at base hi p (of_nat hi) res v h" and room: "hi + 4096 * n \<le> HEAP_LIMIT" "2 * n \<le> res"
    and r: "16 \<le> r" "r + 16 \<le> 4096 * n" "(of_nat r + 4095) div 4096 = (of_nat n :: u32)" "base \<le> hi"
    and rem: "SIZEOF_HEADER + 4 \<le> (of_nat n * 4096 - of_nat r :: u32)"
    and as: "\<forall>x \<in> set as. 0 < x \<and> base \<le> x \<and> x + 4 < hi" "p = 0 \<longleftrightarrow> as = []"
  shows "runs (expand_heap (of_nat r) (prev_ptr as) h) (\<lambda>(a, h'). a = of_nat (hi + 8) \<and> (\<exists>v' res'.
    heap_at base (hi + 4096 * n) (relink_head as (of_nat (hi + r)) p) (of_nat (hi + 4096 * n)) res'
      (relink_val as (of_nat (hi + r)) (v'(hi + r := of_nat n * 4096 - of_nat r OR 1, hi + r + 4 := 0, hi := of_nat r AND NOT 1))) h'
    \<and> (\<forall>x<hi. v' x = v x) \<and> res \<le> res' + 2 * n))"
proof -
  have rg: "base \<le> hi \<and> hi < hi + 4096 * n" "base \<le> hi + r \<and> hi + r < hi + 4096 * n" "base \<le> hi + r + 4 \<and> hi + r + 4 < hi + 4096 * n"
    using r by auto
  have as': "\<forall>x \<in> set as. 0 < x \<and> base \<le> x \<and> x + 4 < hi + 4096 * n" using as(1) by auto
  have wm: "heap_watermark h = of_nat hi" using at by (simp add: heap_at_def)
  have un: "unat (of_nat n :: u32) = n" using room(1) by (simp add: unat_of_nat HEAP_LIMIT_def)
  show ?thesis
    unfolding expand_heap_def Let_def r(3) un wm
  proof (rule heap_grow_then [OF at room], goal_cases)
    case (1 h' v' res')
    show ?case
      apply (simp only: rem if_True andthen_assoc field_nat field_nat_add)
      apply (rule runs_store [OF 1(1) rg(2)], (rule run_rules, assumption, rule rg)+, rule runs_append, assumption, rule as', rule as(2),
        rule runs_Inr)
      using 1(2,3) r by auto
  qed
qed

lemma expand_exact_run:
  assumes at: "heap_at base hi p (of_nat hi) res v h" and room: "hi + 4096 * n \<le> HEAP_LIMIT" "2 * n \<le> res"
    and r: "0 < n" "(of_nat r + 4095) div 4096 = (of_nat n :: u32)" "base \<le> hi"
    and rem: "\<not> SIZEOF_HEADER + 4 \<le> (of_nat n * 4096 - of_nat r :: u32)"
  shows "runs (expand_heap (of_nat r) q h) (\<lambda>(a, h'). a = of_nat (hi + 8) \<and> (\<exists>v' res'.
    heap_at base (hi + 4096 * n) p (of_nat (hi + 4096 * n)) res' (v'(hi := (of_nat n * 4096) AND NOT 1)) h'
    \<and> (\<forall>x<hi. v' x = v x) \<and> res \<le> res' + 2 * n))"
proof -
  have rg: "base \<le> hi \<and> hi < hi + 4096 * n" using r by auto
  have wm: "heap_watermark h = of_nat hi" using at by (simp add: heap_at_def)
  have un: "unat (of_nat n :: u32) = n" using room(1) by (simp add: unat_of_nat HEAP_LIMIT_def)
  show ?thesis
    unfolding expand_heap_def Let_def r(2) un wm
  proof (rule heap_grow_then [OF at room], goal_cases)
    case (1 h' v' res')
    show ?case
      by (simp only: rem if_False field_nat, rule runs_store [OF 1(1) rg], rule runs_Inr) (use 1(2,3) in auto)
  qed
qed

end
