(* ===== verification/Heap_Ops.thy ===== *)
theory Heap_Ops
  imports Heap_Runs
begin

text \<open>
  The allocator against its specification on block lists: first fit with growth for \<open>kmalloc\<close>, and
  freeing with the merging of neighbours for \<open>kfree\<close>.
\<close>

section \<open>Specification vocabulary\<close>

fun coalesced :: "block list \<Rightarrow> bool" where
  "coalesced (a # b # bs) \<longleftrightarrow> \<not> (snd a \<and> snd b) \<and> coalesced (b # bs)"
| "coalesced bs \<longleftrightarrow> True"

fun coalesce :: "block list \<Rightarrow> block list" where
  "coalesce (a # b # bs) = (if snd a \<and> snd b then coalesce ((fst a + fst b, True) # bs) else a # coalesce (b # bs))"
| "coalesce bs = bs"

fun fit :: "nat \<Rightarrow> block list \<Rightarrow> (block list \<times> nat \<times> block list) option" where
  "fit r [] = None"
| "fit r ((k, f) # bs) =
     (if f \<and> r \<le> k then Some ([], k, bs)
      else map_option (\<lambda>(xs, n, ys). ((k, f) # xs, n, ys)) (fit r bs))"

definition real_size_of :: "nat \<Rightarrow> nat" where
  "real_size_of bytes = (bytes + 23) div 16 * 16"

definition pages_for :: "nat \<Rightarrow> nat" where
  "pages_for r = (r + 4095) div 4096"

definition malloc_spec :: "nat \<Rightarrow> block list \<Rightarrow> nat \<times> block list" where
  "malloc_spec r bs =
     (case fit r bs of
        Some (xs, k, ys) \<Rightarrow> (blocks_size xs, xs @ (if r < k then [(r, False), (k - r, True)] else [(k, False)]) @ ys)
      | None \<Rightarrow> (blocks_size bs, bs @ (r, False) # (if r < 4096 * pages_for r then [(4096 * pages_for r - r, True)] else [])))"

fun merge_right :: "nat \<Rightarrow> block list \<Rightarrow> block list" where
  "merge_right n ((k, True) # ys) = (n + k, True) # ys"
| "merge_right n ys = (n, True) # ys"

definition merge_left :: "block list \<Rightarrow> block list \<Rightarrow> block list" where
  "merge_left xs ys = (if xs \<noteq> [] \<and> snd (last xs) then butlast xs @ (fst (last xs) + fst (hd ys), True) # tl ys else xs @ ys)"

section \<open>Lemmas\<close>

lemma fit_Some:
  "fit r bs = Some (xs, k, ys) \<Longrightarrow> bs = xs @ [(k, True)] @ ys \<and> r \<le> k \<and> (\<forall>n. (n, True) \<in> set xs \<longrightarrow> n < r)"
  by (induction bs arbitrary: xs) (auto split: if_splits)

lemma fit_None: "fit r bs = None \<Longrightarrow> \<forall>n. (n, True) \<in> set bs \<longrightarrow> n < r"
  by (induction bs) (auto split: if_splits)

lemma live_append: "live a (xs @ ys) = live a xs \<union> live (a + blocks_size xs) ys"
  by (induction a xs rule: live.induct) (auto simp add: add.assoc)

lemma live_range: "x \<in> live a xs \<Longrightarrow> a + 8 \<le> x \<and> x < a + blocks_size xs"
  by (induction a xs rule: live.induct) (fastforce split: if_splits)+

lemma free_addrs_ge: "y \<in> set (free_addrs a bs) \<Longrightarrow> a \<le> y"
  by (induction a bs rule: fblocks.induct) (auto split: if_splits)

lemma live_not_link:
  "wf_blocks xs \<Longrightarrow> x \<in> live a xs \<Longrightarrow> y \<in> set (free_addrs a xs) \<Longrightarrow> x < y \<or> y + 8 \<le> x"
proof (induction a xs rule: live.induct)
  case (2 a n f bs)
  then have n: "16 \<le> n" by (auto elim!: dvdE)
  show ?case
  proof (cases f)
    case True
    then show ?thesis using 2 n live_range [of x "a + n" bs] by auto
  next
    case False
    then show ?thesis using 2 free_addrs_ge [of y "a + n" bs] by auto
  qed
qed simp

lemma relink_live: "wf_blocks xs \<Longrightarrow> x \<in> live a xs \<Longrightarrow> relink_val (free_addrs a xs) b w x = w x"
  using live_not_link [of xs x a "last (free_addrs a xs)"] by (intro relink_val_other) fastforce

lemma real_size_word:
  assumes "bytes + 23 < 2 ^ 32"
  shows "(of_nat bytes + SIZEOF_HEADER + 15 :: u32) AND NOT 0xF = of_nat (real_size_of bytes)"
proof -
  have "unat (of_nat bytes + SIZEOF_HEADER + 15 :: u32) = bytes + 23"
    using assms by (simp add: SIZEOF_HEADER_def unat_word_ariths unat_of_nat)
  then have "unat ((of_nat bytes + SIZEOF_HEADER + 15 :: u32) AND NOT 0xF) = real_size_of bytes"
    using unat_and_not_mask [of "of_nat bytes + SIZEOF_HEADER + 15 :: u32" 4]
    by (simp add: numeral_mask_4 [symmetric] real_size_of_def)
  then show ?thesis by (metis of_nat_unat ucast_id)
qed

lemma real_size_props: "0 < bytes \<Longrightarrow> 16 dvd real_size_of bytes \<and> bytes + 8 \<le> real_size_of bytes \<and> 16 \<le> real_size_of bytes"
  unfolding real_size_of_def by (intro conjI) (simp, presburger, presburger)

lemma fblocks_src: "(a, n) \<in> set (fblocks base bs) \<Longrightarrow> (n, True) \<in> set bs"
  by (induction base bs rule: fblocks.induct) (auto split: if_splits)

lemma find_fit_past:
  assumes inv: "heap_inv base (xs @ ys) v h" and r: "r < 2 ^ 32" and small: "\<forall>n. (n, True) \<in> set xs \<longrightarrow> n < r"
    and s: "lseg v (free_list_head h) (free_addrs base xs) s"
  shows "find_fit (of_nat r) (free_list_head h) 0 h = find_fit (of_nat r) s (prev_ptr (free_addrs base xs)) h"
proof -
  have at: "heap_at base (base + blocks_size (xs @ ys)) (free_list_head h) (of_nat (base + blocks_size (xs @ ys))) (heap_reserve h) v h"
    using inv by (simp add: heap_inv_at)
  have l: "tiled v base xs" "wf_blocks xs" "0 < base" using inv by (simp_all add: heap_inv_def list_ok_def)
  have "find_fit (of_nat r) (free_list_head h) 0 h
      = find_fit (of_nat r) s (if fblocks base xs = [] then 0 else prev_ptr (map fst (fblocks base xs))) h"
  proof (rule find_fit_skip [OF at r _ s [unfolded free_addrs_def]])
    fix a n assume a: "(a, n) \<in> set (fblocks base xs)"
    show "0 < a \<and> base \<le> a \<and> a + n \<le> base + blocks_size (xs @ ys) \<and> v a = header (n, True) \<and> 16 dvd n \<and> 16 \<le> n \<and> n < r"
      using fblocks_tiled [OF l(1,2) a] fblocks_src [OF a] small l(3) by auto
  qed
  then show ?thesis by (simp add: free_addrs_def prev_ptr_def)
qed

lemma find_fit_hit:
  assumes inv: "heap_inv base (xs @ [(k, True)] @ ys) v h" and r: "r < 2 ^ 32" "r \<le> k"
    and small: "\<forall>n. (n, True) \<in> set xs \<longrightarrow> n < r" and c: "c = base + blocks_size xs"
  shows "find_fit (of_nat r) (free_list_head h) 0 h = Some (Inr (of_nat c, prev_ptr (free_addrs base xs)))"
    and "(of_nat c :: u32) \<noteq> 0"
proof -
  have ok: "list_ok base (xs @ [(k, True)] @ ys) (free_list_head h) v" using inv by (simp add: heap_inv_def)
  note l = list_ok_wf [OF ok c refl]
  have at: "heap_at base (base + blocks_size (xs @ [(k, True)] @ ys)) (free_list_head h)
      (of_nat (base + blocks_size (xs @ [(k, True)] @ ys))) (heap_reserve h) v h"
    using inv by (simp add: heap_inv_at)
  have s: "lseg v (free_list_head h) (free_addrs base xs) (of_nat c)"
    by (rule list_ok_ptrs [OF ok c refl]) simp
  have k: "16 dvd k" "0 < k" "v c = header (k, True)" using l by auto
  have k32: "k < 2 ^ 32" using heap_inv_size [OF inv] by (simp add: HEAP_LIMIT_def)
  show nz: "(of_nat c :: u32) \<noteq> 0" using heap_nat_0 [OF at, of c] k l(2) c by simp
  have "hload (of_nat c) h = Inr (header (k, True))" using heap_at_load [OF at, of c] k c by simp
  moreover have "(of_nat r :: u32) \<le> of_nat k" using r k32 by (simp add: word_le_nat_alt unat_of_nat)
  ultimately have "find_fit (of_nat r) (of_nat c) (prev_ptr (free_addrs base xs)) h = Some (Inr (of_nat c, prev_ptr (free_addrs base xs)))"
    using nz by (subst find_fit.simps) (simp only: field_nat if_False sum.case header_word(1) [OF k(1) k32] if_True)
  then show "find_fit (of_nat r) (free_list_head h) 0 h = Some (Inr (of_nat c, prev_ptr (free_addrs base xs)))"
    unfolding find_fit_past [OF inv r(1) small s] .
qed

lemma live_outside:
  assumes ok: "list_ok base (xs @ ms @ ys) p v" and c: "c = base + blocks_size xs" and ms: "\<forall>b \<in> set ms. snd b"
    and x: "x \<in> live base (xs @ ms @ ys)"
  shows "x < c \<or> c + blocks_size ms \<le> x" "relink_val (free_addrs base xs) b w x = w x"
proof -
  note l = list_ok_wf [OF ok c refl]
  have "live a ms = {}" for a using ms by (induction ms arbitrary: a) auto
  then have lv: "x \<in> live base xs \<or> c + blocks_size ms \<le> x"
    using x live_range [of x "c + blocks_size ms" ys] by (auto simp add: live_append c)
  then show "x < c \<or> c + blocks_size ms \<le> x" using live_range [of x base xs] c by auto
  show "relink_val (free_addrs base xs) b w x = w x"
    using lv relink_live [OF l(3)] relink_below(1) [OF l(3,1)] c by auto
qed

lemma take_block_cut:
  assumes inv: "heap_inv base (xs @ [(k, True)] @ ys) v h" and r: "16 dvd r" "0 < r" "r < k" and c: "c = base + blocks_size xs"
  shows "\<exists>h' v'. take_block (of_nat r) (of_nat c) (prev_ptr (free_addrs base xs)) h = Inr (of_nat (c + 8), h')
    \<and> heap_inv base (xs @ [(r, False), (k - r, True)] @ ys) v' h'
    \<and> heap_reserve h' = heap_reserve h \<and> (\<forall>x \<in> live base (xs @ [(k, True)] @ ys). v' x = v x)"
proof -
  define hi where "hi = base + blocks_size (xs @ [(k, True)] @ ys)"
  have at: "heap_at base hi (free_list_head h) (of_nat hi) (heap_reserve h) v h"
    and ok: "list_ok base (xs @ [(k, True)] @ ys) (free_list_head h) v"
    using inv by (auto simp add: heap_inv_at hi_def)
  note l = list_ok_wf [OF ok c refl]
  have k: "16 dvd k" "k < 2 ^ 32" "16 dvd k - r" "k - r < 2 ^ 32" "r < 2 ^ 32" "v c = header (k, True)" "16 \<le> r" "base \<le> c" "c + k \<le> hi"
    and k16: "16 \<le> k - r"
    using l r heap_inv_size [OF inv] by (auto simp add: HEAP_LIMIT_def hi_def c intro: dvd_imp_le)
  have as: "\<forall>x \<in> set (free_addrs base xs). 0 < x \<and> base \<le> x \<and> x + 4 < hi"
    using free_addrs_fit [OF inv] by (simp add: hi_def)
  have rem: "(v c AND NOT 1) - of_nat r = of_nat (k - r)"
    unfolding k(6) header_word(1) [OF k(1,2)] by (rule of_nat_diff_word) (use r in simp)
  have sz: "hi = base + blocks_size (xs @ [(r, False), (k - r, True)] @ ys)" using r by (simp add: hi_def)
  have rc: "SIZEOF_HEADER + 4 \<le> (of_nat (k - r) :: u32)" using remaining_iff [OF k(1) r(1) _ k(2)] r by auto
  have hw: "of_nat r AND NOT 1 = header (r, False)" "of_nat (k - r) OR 1 = header (k - r, True)"
    using header_word(5) [OF r(1) k(5)] header_word(6) [OF k(3,4)] by (simp_all add: header_def)
  define w where "w = v(c + r := header (k - r, True), c := header (r, False), c + r + 4 := v (c + 4))"
  define w' where "w' = relink_val (free_addrs base xs) (of_nat (c + r)) w"
  obtain h' where run: "take_block (of_nat r) (of_nat c) (prev_ptr (free_addrs base xs)) h = Inr (of_nat (c + 8), h')"
    "heap_at base hi (relink_head (free_addrs base xs) (of_nat (c + r)) (free_list_head h)) (of_nat hi) (heap_reserve h) w' h'"
    using take_block_cut_run [OF at k(8) r(2) k(7) k16 k(9) rem rc as, unfolded hw, folded w_def w'_def] by (auto simp add: runs_def)
  have "heap_inv base (xs @ [(r, False), (k - r, True)] @ ys) w' h' \<and> heap_reserve h' = heap_reserve h"
    using list_ok_cut [OF ok c r w_def] run(2) unfolding sz w'_def by (intro heap_inv_atI)
  moreover have "\<forall>x \<in> live base (xs @ [(k, True)] @ ys). w' x = v x"
  proof
    fix x assume x: "x \<in> live base (xs @ [(k, True)] @ ys)"
    note o = live_outside [OF ok c _ x]
    from o(1) have "w x = v x" using k16 r(3) by (auto simp add: w_def)
    then show "w' x = v x" unfolding w'_def using o(2) by simp
  qed
  ultimately show ?thesis using run(1) by blast
qed

lemma take_block_whole:
  assumes inv: "heap_inv base (xs @ [(k, True)] @ ys) v h" and c: "c = base + blocks_size xs"
  shows "\<exists>h' v'. take_block (of_nat k) (of_nat c) (prev_ptr (free_addrs base xs)) h = Inr (of_nat (c + 8), h')
    \<and> heap_inv base (xs @ [(k, False)] @ ys) v' h'
    \<and> heap_reserve h' = heap_reserve h \<and> (\<forall>x \<in> live base (xs @ [(k, True)] @ ys). v' x = v x)"
proof -
  define hi where "hi = base + blocks_size (xs @ [(k, True)] @ ys)"
  have at: "heap_at base hi (free_list_head h) (of_nat hi) (heap_reserve h) v h"
    and ok: "list_ok base (xs @ [(k, True)] @ ys) (free_list_head h) v"
    using inv by (auto simp add: heap_inv_at hi_def)
  note l = list_ok_wf [OF ok c refl]
  have k: "16 dvd k" "k < 2 ^ 32" "v c = header (k, True)" "16 \<le> k" "base \<le> c" "c + k \<le> hi"
    using l heap_inv_size [OF inv] by (auto simp add: HEAP_LIMIT_def hi_def c intro: dvd_imp_le)
  have as: "\<forall>x \<in> set (free_addrs base xs). 0 < x \<and> base \<le> x \<and> x + 4 < hi"
    using free_addrs_fit [OF inv] by (simp add: hi_def)
  have rc: "\<not> SIZEOF_HEADER + 4 \<le> (v c AND NOT 1) - of_nat k"
    unfolding k(3) header_word(1) [OF k(1,2)] by (simp add: SIZEOF_HEADER_def)
  have sz: "hi = base + blocks_size (xs @ [(k, False)] @ ys)" by (simp add: hi_def)
  have c4: "c + 4 < hi" using k by simp
  define w where "w = v(c := header (k, False))"
  define w' where "w' = relink_val (free_addrs base xs) (v (c + 4)) w"
  obtain h' where run: "take_block (of_nat k) (of_nat c) (prev_ptr (free_addrs base xs)) h = Inr (of_nat (c + 8), h')"
    "heap_at base hi (relink_head (free_addrs base xs) (v (c + 4)) (free_list_head h)) (of_nat hi) (heap_reserve h) w' h'"
    using take_block_keep_run [OF at k(5) c4 rc as, unfolded k(3) header_word(3) [OF k(1,2)], folded w_def] by (auto simp add: runs_def w'_def)
  have "heap_inv base (xs @ [(k, False)] @ ys) w' h' \<and> heap_reserve h' = heap_reserve h"
    using list_ok_remove [OF ok c] run(2) unfolding sz w'_def w_def by (intro heap_inv_atI)
  moreover have "\<forall>x \<in> live base (xs @ [(k, True)] @ ys). w' x = v x"
  proof
    fix x assume x: "x \<in> live base (xs @ [(k, True)] @ ys)"
    note o = live_outside [OF ok c _ x]
    from o(1) have "w x = v x" using k(4) by (auto simp add: w_def)
    then show "w' x = v x" unfolding w'_def using o(2) by simp
  qed
  ultimately show ?thesis using run(1) by blast
qed

lemma list_ok_append:
  assumes ok: "list_ok base bs p v" and hi: "hi = base + blocks_size bs" and ag: "agree v w base hi"
    and ms: "wf_blocks ms" "tiled w hi ms"
  shows "lseg w b (free_addrs hi ms) 0 \<Longrightarrow>
      list_ok base (bs @ ms) (relink_head (free_addrs base bs) b p) (relink_val (free_addrs base bs) b w)"
    and "free_addrs hi ms = [] \<Longrightarrow> list_ok base (bs @ ms) p w"
proof -
  let ?r = "relink_val (free_addrs base bs) b w"
  have l: "16 dvd base" "0 < base" "wf_blocks bs" "tiled v base bs" "lseg v p (free_addrs base bs) 0"
    using ok by (simp_all add: list_ok_def)
  have d: "16 dvd hi" using l wf_size [OF l(3)] hi by simp
  note rx = relink_frame [OF l(3,1) ag [unfolded hi] l(4,5), of b]
  have "agree w ?r hi (hi + blocks_size ms)" by (rule relink_agree [OF l(3,1)]) (simp_all add: hi)
  note rm = seg_frame [OF ms(1) d this]
  show "list_ok base (bs @ ms) (relink_head (free_addrs base bs) b p) ?r" if "lseg w b (free_addrs hi ms) 0"
    using l(1-3) ms rx rm that by (auto simp add: list_ok_def hi [symmetric])
  show "list_ok base (bs @ ms) p w" if "free_addrs hi ms = []"
    using l ms that seg_frame [OF l(3,1) ag [unfolded hi]] by (auto simp add: list_ok_def hi [symmetric])
qed

lemma find_fit_miss:
  assumes inv: "heap_inv base bs v h" and r: "r < 2 ^ 32" and small: "\<forall>n. (n, True) \<in> set bs \<longrightarrow> n < r"
  shows "find_fit (of_nat r) (free_list_head h) 0 h = Some (Inr (0, prev_ptr (free_addrs base bs)))"
proof -
  have "lseg v (free_list_head h) (free_addrs base bs) 0" using inv by (simp add: heap_inv_def list_ok_def)
  from find_fit_past [of base bs "[]", OF _ r small this] inv
  show ?thesis by simp (subst find_fit.simps, simp)
qed

lemma free_head_0:
  assumes "heap_inv base bs v h"
  shows "free_list_head h = 0 \<longleftrightarrow> free_addrs base bs = []"
proof (cases "free_addrs base bs")
  case (Cons a as)
  then have "a \<in> set (free_addrs base bs)" "free_list_head h = of_nat a"
    using assms by (simp_all add: heap_inv_def list_ok_def)
  moreover have "0 < a" "a + 4 < base + blocks_size bs"
    using free_addrs_fit [of base bs "[]" v h a] assms calculation(1) by simp_all
  moreover have "heap_at base (base + blocks_size bs) (free_list_head h) (of_nat (base + blocks_size bs)) (heap_reserve h) v h"
    using assms by (simp add: heap_inv_at)
  ultimately show ?thesis using heap_nat_0 Cons by fastforce
qed (use assms in \<open>simp add: heap_inv_def list_ok_def\<close>)

lemma pages_words:
  assumes "4096 * pages_for r \<le> HEAP_LIMIT"
  shows "(of_nat r + 4095 :: u32) div 4096 = of_nat (pages_for r)"
    "of_nat (pages_for r) * 4096 - of_nat r = (of_nat (4096 * pages_for r - r) :: u32)"
    "r \<le> 4096 * pages_for r"
proof -
  show le: "r \<le> 4096 * pages_for r" 
    using div_mult_mod_eq [of "r + 4095" 4096] mod_less_divisor [of 4096 "r + 4095"] unfolding pages_for_def by linarith
  with assms have "r \<le> 0xFEE00000" unfolding HEAP_LIMIT_def by linarith
  then have "unat (of_nat r + 4095 :: u32) = r + 4095" by (simp add: unat_word_ariths unat_of_nat)
  then have "unat ((of_nat r + 4095 :: u32) div 4096) = pages_for r" by (simp add: unat_div pages_for_def)
  then show "(of_nat r + 4095 :: u32) div 4096 = of_nat (pages_for r)" by (metis of_nat_unat ucast_id)
  show "of_nat (pages_for r) * 4096 - of_nat r = (of_nat (4096 * pages_for r - r) :: u32)"
    unfolding of_nat_diff_word [OF le, symmetric] by simp
qed

lemma dvd_16_gap: "16 dvd x \<Longrightarrow> 16 dvd y \<Longrightarrow> x < y \<Longrightarrow> x + 16 \<le> (y :: nat)"
  by (auto elim!: dvdE)

lemma agree_above:
  assumes "16 dvd hi" "\<forall>x<hi. w x = v x"
  shows "agree v w base hi"
  using assms dvd_16_gap [of _ hi] unfolding agree_def by fastforce

lemma expand_setup:
  assumes inv: "heap_inv base bs v h" and hi: "hi = base + blocks_size bs"
  shows "heap_at base hi (free_list_head h) (of_nat hi) (heap_reserve h) v h" "list_ok base bs (free_list_head h) v"
    "16 dvd hi" "base \<le> hi" "\<forall>x \<in> set (free_addrs base bs). 0 < x \<and> base \<le> x \<and> x + 4 < hi"
    "\<And>x b w. x \<in> live base bs \<Longrightarrow> relink_val (free_addrs base bs) b w x = w x \<and> x < hi"
proof -
  show "heap_at base hi (free_list_head h) (of_nat hi) (heap_reserve h) v h" "list_ok base bs (free_list_head h) v"
    using inv by (auto simp add: heap_inv_at hi)
  then have l: "16 dvd base" "wf_blocks bs" by (simp_all add: list_ok_def)
  show "16 dvd hi" "base \<le> hi" using l wf_size [OF l(2)] by (simp_all add: hi)
  show "\<forall>x \<in> set (free_addrs base bs). 0 < x \<and> base \<le> x \<and> x + 4 < hi"
    using free_addrs_fit [of base bs "[]" v h] inv by (simp add: hi)
  show "relink_val (free_addrs base bs) b w x = w x \<and> x < hi" if "x \<in> live base bs" for x b w
    using relink_live [OF l(2) that] live_range [OF that] by (simp add: hi)
qed

lemma expand_heap_cut:
  assumes inv: "heap_inv base bs v h" and r: "16 dvd r" "16 \<le> r" "r < 4096 * n" and n: "n = pages_for r"
    and hi: "hi = base + blocks_size bs" and room: "hi + 4096 * n \<le> HEAP_LIMIT" "2 * n \<le> heap_reserve h"
  shows "\<exists>h' v'. expand_heap (of_nat r) (prev_ptr (free_addrs base bs)) h = Inr (of_nat (hi + 8), h')
    \<and> heap_inv base (bs @ [(r, False), (4096 * n - r, True)]) v' h'
    \<and> heap_reserve h \<le> heap_reserve h' + 2 * n \<and> (\<forall>x \<in> live base bs. v' x = v x)"
proof -
  note s = expand_setup [OF inv hi]
  have big: "4096 * n \<le> HEAP_LIMIT" using room by simp
  note pg = pages_words [of r, folded n, OF big]
  have k: "16 dvd 4096 * n - r" "4096 * n - r < 2 ^ 32" "r < 2 ^ 32" "16 dvd 4096 * n" "4096 * n < 2 ^ 32"
    using r big by (auto simp add: HEAP_LIMIT_def intro: dvd_diff_nat)
  then have k16: "16 \<le> 4096 * n - r" using r(3) by (intro dvd_imp_le) auto
  then have r16: "r + 16 \<le> 4096 * n" by simp
  have rc: "SIZEOF_HEADER + 4 \<le> (of_nat n * 4096 - of_nat r :: u32)"
    unfolding pg(2) using remaining_iff [OF k(4) r(1) pg(3) k(5)] r(3) by blast
  have hw: "of_nat r AND NOT 1 = header (r, False)" "of_nat n * 4096 - of_nat r OR 1 = header (4096 * n - r, True)"
    unfolding pg(2) using header_word(5) [OF r(1) k(3)] header_word(6) [OF k(1,2)] by (simp_all add: header_def)
  let ?fa = "free_addrs base bs"
  obtain h' u res' where run: "expand_heap (of_nat r) (prev_ptr ?fa) h = Inr (of_nat (hi + 8), h')"
    "heap_at base (hi + 4096 * n) (relink_head ?fa (of_nat (hi + r)) (free_list_head h)) (of_nat (hi + 4096 * n)) res'
      (relink_val ?fa (of_nat (hi + r)) (u(hi + r := header (4096 * n - r, True), hi + r + 4 := 0, hi := header (r, False)))) h'"
    "\<forall>x<hi. u x = v x" "heap_reserve h \<le> res' + 2 * n"
    using expand_cut_run [OF s(1) room r(2) r16 pg(1) s(4) rc s(5) free_head_0 [OF inv]] unfolding hw
    by (auto simp add: runs_def)
  define w where "w = u(hi + r := header (4096 * n - r, True), hi + r + 4 := 0, hi := header (r, False))"
  have wv: "\<forall>x<hi. w x = v x" using run(3) by (simp add: w_def)
  have sz: "hi + 4096 * n = base + blocks_size (bs @ [(r, False), (4096 * n - r, True)])" using r by (simp add: hi)
  have "list_ok base (bs @ [(r, False), (4096 * n - r, True)])
      (relink_head ?fa (of_nat (hi + r)) (free_list_head h)) (relink_val ?fa (of_nat (hi + r)) w)"
    using r k16 k(1) by (intro list_ok_append(1) [OF s(2) hi agree_above [OF s(3) wv]]) (auto simp add: w_def)
  then have "heap_inv base (bs @ [(r, False), (4096 * n - r, True)]) (relink_val ?fa (of_nat (hi + r)) w) h' \<and> heap_reserve h' = res'"
    using run(2) unfolding sz w_def by (intro heap_inv_atI)
  with run(1,4) s(6) wv show ?thesis by (metis (no_types))
qed

lemma expand_heap_exact:
  assumes inv: "heap_inv base bs v h" and r: "16 dvd r" "16 \<le> r" "r = 4096 * n" and n: "n = pages_for r"
    and hi: "hi = base + blocks_size bs" and room: "hi + 4096 * n \<le> HEAP_LIMIT" "2 * n \<le> heap_reserve h"
  shows "\<exists>h' v'. expand_heap (of_nat r) q h = Inr (of_nat (hi + 8), h')
    \<and> heap_inv base (bs @ [(r, False)]) v' h'
    \<and> heap_reserve h \<le> heap_reserve h' + 2 * n \<and> (\<forall>x \<in> live base bs. v' x = v x)"
proof -
  note s = expand_setup [OF inv hi]
  have big: "4096 * n \<le> HEAP_LIMIT" using room by simp
  note pg = pages_words [of r, folded n, OF big]
  have "4096 * n - r = 0" using r(3) by simp
  then have rc: "\<not> SIZEOF_HEADER + 4 \<le> (of_nat n * 4096 - of_nat r :: u32)"
    unfolding pg(2) by (simp add: SIZEOF_HEADER_def)
  have n0: "0 < n" using r by simp
  have "r < 2 ^ 32" using r(3) big by (simp add: HEAP_LIMIT_def)
  then have hw: "(of_nat n * 4096) AND NOT 1 = header (r, False)"
    using header_word(5) [OF r(1)] r(3) by (simp add: header_def mult.commute)
  obtain h' u res' where run: "expand_heap (of_nat r) q h = Inr (of_nat (hi + 8), h')"
    "heap_at base (hi + 4096 * n) (free_list_head h) (of_nat (hi + 4096 * n)) res' (u(hi := header (r, False))) h'"
    "\<forall>x<hi. u x = v x" "heap_reserve h \<le> res' + 2 * n"
    using expand_exact_run [OF s(1) room n0 pg(1) s(4) rc, of q] unfolding hw by (auto simp add: runs_def)
  define w where "w = u(hi := header (r, False))"
  have wv: "\<forall>x<hi. w x = v x" using run(3) by (simp add: w_def)
  have sz: "hi + 4096 * n = base + blocks_size (bs @ [(r, False)])" using r by (simp add: hi)
  have "list_ok base (bs @ [(r, False)]) (free_list_head h) w"
    using r by (intro list_ok_append(2) [OF s(2) hi agree_above [OF s(3) wv]]) (auto simp add: w_def)
  then have "heap_inv base (bs @ [(r, False)]) w h' \<and> heap_reserve h' = res'"
    using run(2) unfolding sz w_def by (intro heap_inv_atI)
  with run(1,4) s(6) wv show ?thesis by (metis (no_types))
qed

lemma kmalloc_fit:
  assumes inv: "heap_inv base bs v h" and bytes: "0 < bytes" "bytes + 23 < 2 ^ 32"
    and fit: "fit (real_size_of bytes) bs = Some (xs, k, ys)"
  shows "\<exists>h' v'. kmalloc (of_nat bytes) h = Some (Inr (of_nat (base + blocks_size xs + 8), h'))
    \<and> heap_inv base (snd (malloc_spec (real_size_of bytes) bs)) v' h'
    \<and> heap_reserve h' = heap_reserve h \<and> (\<forall>x \<in> live base bs. v' x = v x)"
proof -
  define r where "r = real_size_of bytes"
  have r: "16 dvd r" "16 \<le> r" using real_size_props [OF bytes(1)] by (simp_all add: r_def)
  have bs: "bs = xs @ [(k, True)] @ ys" "r \<le> k" and small: "\<forall>n. (n, True) \<in> set xs \<longrightarrow> n < r"
    using fit_Some [OF fit] by (simp_all add: r_def)
  note inv' = inv [unfolded bs(1)]
  have r32: "r < 2 ^ 32" using bs(2) heap_inv_size [OF inv'] by (simp add: HEAP_LIMIT_def)
  note hit = find_fit_hit [OF inv' r32 bs(2) small refl]
  have "\<not> (of_nat bytes :: u32) \<le> 0" using bytes by (simp add: word_le_nat_alt unat_of_nat)
  then have km: "kmalloc (of_nat bytes) h = Some (take_block (of_nat r) (of_nat (base + blocks_size xs)) (prev_ptr (free_addrs base xs)) h)"
    using hit by (simp only: kmalloc_def if_False Let_def real_size_word [OF bytes(2)] r_def [symmetric] option.case andthen_simps prod.case) simp
  show ?thesis
  proof (cases "r < k")
    case True
    from take_block_cut [OF inv' r(1) _ True refl] r(2) show ?thesis
      using True fit unfolding km malloc_spec_def r_def [symmetric] bs(1) by simp
  next
    case False
    with bs(2) have "r = k" by simp
    with take_block_whole [OF inv' refl] show ?thesis
      using fit unfolding km malloc_spec_def r_def [symmetric] bs(1) by simp
  qed
qed

lemma kmalloc_grow:
  assumes inv: "heap_inv base bs v h" and bytes: "0 < bytes" "bytes + 23 < 2 ^ 32"
    and fit: "fit (real_size_of bytes) bs = None" and n: "n = pages_for (real_size_of bytes)"
    and room: "base + blocks_size bs + 4096 * n \<le> HEAP_LIMIT" "2 * n \<le> heap_reserve h"
  shows "\<exists>h' v'. kmalloc (of_nat bytes) h = Some (Inr (of_nat (base + blocks_size bs + 8), h'))
    \<and> heap_inv base (snd (malloc_spec (real_size_of bytes) bs)) v' h'
    \<and> heap_reserve h \<le> heap_reserve h' + 2 * n \<and> (\<forall>x \<in> live base bs. v' x = v x)"
proof -
  define r where "r = real_size_of bytes"
  have r: "16 dvd r" "16 \<le> r" using real_size_props [OF bytes(1)] by (simp_all add: r_def)
  have big: "4096 * n \<le> HEAP_LIMIT" using room by simp
  have rn: "r \<le> 4096 * n" using pages_words(3) [of r, folded r_def] big n by (simp add: r_def)
  have r32: "r < 2 ^ 32" using rn big by (simp add: HEAP_LIMIT_def)
  note miss = find_fit_miss [OF inv r32 fit_None [OF fit, folded r_def]]
  have "\<not> (of_nat bytes :: u32) \<le> 0" using bytes by (simp add: word_le_nat_alt unat_of_nat)
  then have km: "kmalloc (of_nat bytes) h = Some (expand_heap (of_nat r) (prev_ptr (free_addrs base bs)) h)"
    using miss by (simp only: kmalloc_def if_False Let_def real_size_word [OF bytes(2)] r_def [symmetric] option.case andthen_simps prod.case) simp
  show ?thesis
  proof (cases "r < 4096 * n")
    case True
    from expand_heap_cut [OF inv r True n [folded r_def] refl room] show ?thesis
      using True fit unfolding km malloc_spec_def r_def [symmetric] n [folded r_def, symmetric] by simp
  next
    case False
    with rn have "r = 4096 * n" by simp
    from expand_heap_exact [OF inv r this n [folded r_def] refl room] show ?thesis
      using False fit unfolding km malloc_spec_def r_def [symmetric] n [folded r_def, symmetric] by simp
  qed
qed

lemma merge_right_other: "\<not> (\<exists>k ys'. ys = (k, True) # ys') \<Longrightarrow> merge_right n ys = (n, True) # ys"
  by (induction n ys rule: merge_right.induct) auto

lemma heap_inv_frame:
  assumes "heap_inv base bs v h" "hi = base + blocks_size bs"
  shows "heap_at base hi (free_list_head h) (of_nat hi) (heap_reserve h) v h" "list_ok base bs (free_list_head h) v" "hi < 2 ^ 32"
  using assms heap_inv_size [OF assms(1)] by (auto simp add: heap_inv_at HEAP_LIMIT_def)

lemma absorb_ok:
  assumes inv: "heap_inv base (xs @ [(n, True), (k, True)] @ ys) v h" and c: "c = base + blocks_size xs"
  shows "\<exists>h' v'. andthen (hload (of_nat (c + n)) h) (\<lambda>hw. andthen (hmodify (of_nat c) (\<lambda>x. x + (hw AND NOT 1)) h) (\<lambda>h1.
       andthen (hload (of_nat (c + n + 4)) h1) (\<lambda>nxt. hstore (of_nat (c + 4)) nxt h1))) = Inr h'
    \<and> heap_inv base (xs @ [(n + k, True)] @ ys) v' h' \<and> heap_reserve h' = heap_reserve h
    \<and> (\<forall>x \<in> live base (xs @ [(n, True), (k, True)] @ ys). v' x = v x) \<and> v' (c + n) = v (c + n)"
proof -
  define hi where "hi = base + blocks_size (xs @ [(n, True), (k, True)] @ ys)"
  note f = heap_inv_frame [OF inv hi_def]
  note l = list_ok_wf [OF f(2) c refl]
  have k: "16 dvd n" "16 dvd k" "16 \<le> n" "16 \<le> k" "v (c + n) = header (k, True)" "k < 2 ^ 32"
    using l f(3) by (auto intro: dvd_imp_le simp add: hi_def)
  have rg: "base \<le> c" "c + 16 \<le> c + n" "c + n + 4 < hi" using k by (simp_all add: hi_def c)
  define w where "w = v(c := v c + of_nat k, c + 4 := v (c + n + 4))"
  have sz: "hi = base + blocks_size (xs @ [(n + k, True)] @ ys)" by (simp add: hi_def)
  note run = absorb_run [OF f(1) rg, unfolded k(5) header_word(1) [OF k(2,6)], folded w_def]
  moreover have "\<forall>x \<in> live base (xs @ [(n, True), (k, True)] @ ys). w x = v x"
  proof
    fix x assume "x \<in> live base (xs @ [(n, True), (k, True)] @ ys)"
    from live_outside(1) [OF f(2) c _ this] show "w x = v x" using k(3) by (auto simp add: w_def)
  qed
  moreover have "w (c + n) = v (c + n)" using k(3) by (simp add: w_def)
  moreover have "heap_inv base (xs @ [(n + k, True)] @ ys) w h' \<and> heap_reserve h' = heap_reserve h"
    if "heap_at base hi (free_list_head h) (of_nat hi) (heap_reserve h) w h'" for h'
    using list_ok_absorb [OF f(2) c w_def] that unfolding sz by (intro heap_inv_atI)
  ultimately show ?thesis unfolding runs_def by blast
qed

lemma free_ptr:
  assumes "lseg v q (free_addrs d ys) 0" "wf_blocks ys" "16 dvd d" "0 < d" "d + blocks_size ys < 2 ^ 32"
  shows "(q \<noteq> 0 \<and> q = of_nat d) \<longleftrightarrow> (\<exists>k ys'. ys = (k, True) # ys')" "\<not> (q \<noteq> 0 \<and> q < of_nat d)"
proof -
  have d: "unat (of_nat d :: u32) = d" using assms(5) by (simp add: unat_of_nat)
  show "(q \<noteq> 0 \<and> q = of_nat d) \<longleftrightarrow> (\<exists>k ys'. ys = (k, True) # ys')"
  proof (cases "free_addrs d ys")
    case Nil
    then show ?thesis using assms(1) by auto
  next
    case (Cons a as)
    then have q: "q = of_nat a" using assms(1) by simp
    have a: "d \<le> a" "a + 16 \<le> d + blocks_size ys"
      using free_addrs_range [OF assms(2,3), of a] Cons by auto
    then have ua: "unat (of_nat a :: u32) = a" using assms(5) by (simp add: unat_of_nat)
    have "q = of_nat d \<longleftrightarrow> a = d" using ua d q by metis
    moreover have "q \<noteq> 0" using ua a assms(4) q by (metis unat_0 not_less_zero le_zero_eq neq0_conv)
    moreover have "a = d \<longleftrightarrow> (\<exists>k ys'. ys = (k, True) # ys')"
    proof (cases ys)
      case c: (Cons b bs)
      obtain n f where b: "b = (n, f)" by (cases b)
      show ?thesis
      proof (cases f)
        case False
        then have "a \<in> set (free_addrs (d + n) bs)" using Cons c b by simp
        then have "d + n \<le> a" by (rule free_addrs_ge)
        moreover have "0 < n" using assms(2) c b by simp
        ultimately show ?thesis using c b False by simp
      qed (use Cons c b in simp)
    qed (use Cons in simp)
    ultimately show ?thesis by blast
  qed
  show "\<not> (q \<noteq> 0 \<and> q < of_nat d)"
  proof (cases "free_addrs d ys")
    case (Cons a as)
    then have q: "q = of_nat a" using assms(1) by simp
    have a: "d \<le> a" "a + 16 \<le> d + blocks_size ys"
      using free_addrs_range [OF assms(2,3), of a] Cons by auto
    then have ua: "unat (of_nat a :: u32) = a" using assms(5) by (simp add: unat_of_nat)
    then show ?thesis using a q d by (simp add: word_less_nat_alt)
  qed (use assms(1) in simp)
qed

lemma merge_next_ok:
  assumes inv: "heap_inv base (xs @ [(n, True)] @ ys) v h" and c: "c = base + blocks_size xs"
    and q: "lseg v q (free_addrs (c + n) ys) 0"
  shows "\<exists>h' v'. merge_next (of_nat c) q h = Inr h' \<and> heap_inv base (xs @ merge_right n ys) v' h' \<and> heap_reserve h' = heap_reserve h
    \<and> (\<forall>x \<in> live base (xs @ [(n, True)] @ ys). v' x = v x)"
proof -
  define hi where "hi = base + blocks_size (xs @ [(n, True)] @ ys)"
  note f = heap_inv_frame [OF inv hi_def]
  note l = list_ok_wf [OF f(2) c refl]
  have k: "16 dvd n" "0 < n" "v c = header (n, True)" "n < 2 ^ 32" "16 dvd c + n" "c + n + blocks_size ys < 2 ^ 32" "0 < c + n" "base \<le> c" "c < hi"
    using l f(3) by (auto simp add: hi_def c)
  note fp = free_ptr [OF q l(5) k(5,7,6)]
  have ld: "hload (of_nat c) h = Inr (header (n, True))" using heap_at_load [OF f(1) k(8,9)] k(3) by simp
  have nw: "header (n, True) AND NOT 1 = of_nat n" by (rule header_word(1) [OF k(1,4)])
  show ?thesis
  proof (cases "\<exists>m ys'. ys = (m, True) # ys'")
    case True
    then obtain m ys' where ys: "ys = (m, True) # ys'" by blast
    have qc: "q = of_nat (c + n)" "q \<noteq> 0" using fp(1) True by auto
    have "merge_next (of_nat c) q h = andthen (hload (of_nat (c + n)) h) (\<lambda>hw. andthen (hmodify (of_nat c) (\<lambda>x. x + (hw AND NOT 1)) h) (\<lambda>h1.
       andthen (hload (of_nat (c + n + 4)) h1) (\<lambda>nxt. hstore (of_nat (c + 4)) nxt h1)))"
      using qc unfolding merge_next_def by (simp only: field_nat ld andthen_simps Let_def nw field_nat_add simp_thms if_True)
    moreover have "xs @ [(n, True)] @ ys = xs @ [(n, True), (m, True)] @ ys'" using ys by simp
    ultimately show ?thesis using absorb_ok [of base xs n m ys' v h, OF _ c] inv ys by auto
  next
    case False
    have "\<not> (q \<noteq> 0 \<and> of_nat c + of_nat n = q)" using fp(1) False by auto
    then have "merge_next (of_nat c) q h = Inr h"
      unfolding merge_next_def by (simp only: field_nat ld andthen_simps Let_def nw if_False)
    moreover have "merge_right n ys = (n, True) # ys" using False by (rule merge_right_other)
    ultimately show ?thesis using inv by auto
  qed
qed

lemma last_free:
  assumes "\<exists>b \<in> set xs. snd b"
  obtains us j ws where "xs = us @ [(j, True)] @ ws" "\<forall>b \<in> set ws. \<not> snd b" "last (free_addrs base xs) = base + blocks_size us"
    "free_addrs base xs \<noteq> []"
proof -
  obtain us b ws where s: "xs = us @ b # ws" "snd b" "\<forall>z \<in> set ws. \<not> snd z"
    using split_list_last_prop [OF assms] by blast
  obtain j where b: "b = (j, True)" using s(2) by (cases b) auto
  have "free_addrs a ws = []" for a using s(3) by (induction ws arbitrary: a) auto
  then show ?thesis using that [of us j ws] s b by simp
qed

lemma no_free_addrs: "\<not> (\<exists>b \<in> set xs. snd b) \<Longrightarrow> free_addrs a xs = []"
  by (induction xs arbitrary: a) auto

lemma merge_prev_ok:
  assumes inv: "heap_inv base (xs @ [(n, True)] @ ys) v h" and c: "c = base + blocks_size xs"
  shows "\<exists>h' v'. merge_prev (of_nat c) (prev_ptr (free_addrs base xs)) h = Inr h'
    \<and> heap_inv base (merge_left xs ((n, True) # ys)) v' h' \<and> heap_reserve h' = heap_reserve h
    \<and> (\<forall>x \<in> live base (xs @ [(n, True)] @ ys). v' x = v x) \<and> v' c = v c"
proof (cases "\<exists>b \<in> set xs. snd b")
  case True
  define hi where "hi = base + blocks_size (xs @ [(n, True)] @ ys)"
  note f = heap_inv_frame [OF inv hi_def]
  note l = list_ok_wf [OF f(2) c refl]
  obtain us j ws where s: "xs = us @ [(j, True)] @ ws" "\<forall>b \<in> set ws. \<not> snd b" "last (free_addrs base xs) = base + blocks_size us"
    "free_addrs base xs \<noteq> []" by (rule last_free [OF True])
  define p where "p = base + blocks_size us"
  have tl: "tiled v base xs" using f(2) by (simp add: list_ok_split)
  have k: "v p = header (j, True)" "16 dvd j" "j < 2 ^ 32" "base \<le> p" "p < hi" "c = p + j + blocks_size ws" "c < hi" "0 < p"
    using tl l f(3) s(1) by (auto simp add: p_def hi_def c)
  have pp: "prev_ptr (free_addrs base xs) = of_nat p" using s(3,4) by (simp add: prev_ptr_def p_def)
  have nz: "(of_nat p :: u32) \<noteq> 0" using heap_nat_0 [OF f(1) k(5)] k(8) by simp
  have ld: "hload (of_nat p) h = Inr (header (j, True))" using heap_at_load [OF f(1) k(4,5)] k(1) by simp
  have nw: "header (j, True) AND NOT 1 = of_nat j" by (rule header_word(1) [OF k(2,3)])
  have eq: "(of_nat (p + j) :: u32) = of_nat c \<longleftrightarrow> p + j = c"
    using heap_at_nat [OF f(1), of "p + j"] heap_at_nat [OF f(1) k(7)] k(6,7) by (metis le_add1 le_less_trans)
  show ?thesis
  proof (cases "ws = []")
    case True
    then have pc: "p + j = c" using k(6) by simp
    have "merge_prev (of_nat c) (of_nat p) h = andthen (hload (of_nat (p + j)) h) (\<lambda>hw. andthen (hmodify (of_nat p) (\<lambda>x. x + (hw AND NOT 1)) h) (\<lambda>h1.
       andthen (hload (of_nat (p + j + 4)) h1) (\<lambda>nxt. hstore (of_nat (p + 4)) nxt h1)))"
      using nz unfolding merge_prev_def by (simp only: field_nat ld andthen_simps Let_def nw field_nat_add pc simp_thms if_True)
    moreover have "xs @ [(n, True)] @ ys = us @ [(j, True), (n, True)] @ ys" using s True by simp
    moreover have "merge_left xs ((n, True) # ys) = us @ [(j + n, True)] @ ys"
      using s True by (simp add: merge_left_def butlast_append)
    ultimately show ?thesis using absorb_ok [of base us j n ys v h, OF _ p_def] inv pc unfolding pp by auto
  next
    case False
    then have "0 < blocks_size ws" using l(3) s(1) by (cases ws) auto
    then have "\<not> (of_nat p + of_nat j = (of_nat c :: u32))" unfolding field_nat_add eq using k(6) by simp
    then have "merge_prev (of_nat c) (of_nat p) h = Inr h"
      using nz unfolding merge_prev_def by (simp only: field_nat ld andthen_simps Let_def nw if_False if_True simp_thms)
    moreover have "merge_left xs ((n, True) # ys) = xs @ [(n, True)] @ ys"
      using s False by (simp add: merge_left_def)
    ultimately show ?thesis using inv unfolding pp by auto
  qed
next
  case False
  then have "\<not> (xs \<noteq> [] \<and> snd (last xs))" by auto
  then have "merge_left xs ((n, True) # ys) = xs @ [(n, True)] @ ys" by (simp only: merge_left_def) simp
  moreover have "prev_ptr (free_addrs base xs) = 0" using no_free_addrs [OF False] by (simp add: prev_ptr_def)
  ultimately show ?thesis using inv by (auto simp add: merge_prev_def)
qed

lemma find_slot_here:
  assumes at: "heap_at base hi p wm res v h" and s: "lseg v p as q"
    and as: "\<And>a. a \<in> set as \<Longrightarrow> 16 dvd a \<and> 0 < a \<and> base \<le> a \<and> a + 16 \<le> c"
    and q: "\<not> (q \<noteq> 0 \<and> q < of_nat (c + n))" and c: "c < hi" "c + n < 2 ^ 32"
  shows "find_slot (of_nat c) (free_list_head h) 0 h = Some (Inr (q, prev_ptr as))"
proof -
  have "(of_nat c :: u32) \<le> of_nat (c + n)" using c(2) unfolding word_le_nat_alt by (simp add: unat_of_nat del: of_nat_add)
  then have "\<not> (q \<noteq> 0 \<and> q < of_nat c)" using q by (meson less_le_trans)
  then have "find_slot (of_nat c) q z h = Some (Inr (q, z))" for z by (subst find_slot.simps) auto
  moreover have "find_slot (of_nat c) p 0 h = find_slot (of_nat c) q (if as = [] then 0 else prev_ptr as) h"
    using as c(1) by (intro find_slot_skip [OF at _ _ s]) fastforce+
  moreover have "free_list_head h = p" using at by (simp add: heap_at_def)
  ultimately show ?thesis by (simp add: prev_ptr_def)
qed

lemma kfree_link:
  assumes inv: "heap_inv base (xs @ [(n, False)] @ ys) v h" and c: "c = base + blocks_size xs"
    and q: "lseg v (free_list_head h) (free_addrs base xs) q" "lseg v q (free_addrs (c + n) ys) 0"
  shows "\<exists>h1 h2 h3 v'. hload (of_nat c) h = Inr (header (n, False)) \<and> hmodify (of_nat c) (\<lambda>x. x OR 1) h = Inr h1
    \<and> find_slot (of_nat c) (free_list_head h1) 0 h1 = Some (Inr (q, prev_ptr (free_addrs base xs)))
    \<and> hstore (of_nat (c + 4)) q h1 = Inr h2 \<and> relink (prev_ptr (free_addrs base xs)) (of_nat c) h2 = Inr h3
    \<and> heap_inv base (xs @ [(n, True)] @ ys) v' h3 \<and> heap_reserve h3 = heap_reserve h
    \<and> (\<forall>x \<in> live base (xs @ [(n, True)] @ ys). v' x = v x) \<and> lseg v' q (free_addrs (c + n) ys) 0"
proof -
  define hi where "hi = base + blocks_size (xs @ [(n, False)] @ ys)"
  let ?as = "free_addrs base xs" let ?p = "free_list_head h"
  note f = heap_inv_frame [OF inv hi_def]
  note l = list_ok_wf [OF f(2) c refl]
  have k: "16 dvd n" "16 \<le> n" "v c = header (n, False)" "n < 2 ^ 32" "16 dvd c + n" "0 < c + n" "c + n + blocks_size ys < 2 ^ 32"
    using l f(3) by (auto simp add: hi_def c intro: dvd_imp_le)
  have rg: "base \<le> c" "c < hi" "base \<le> c + 4" "c + 4 < hi" using k by (auto simp add: hi_def c)
  have ld: "hload (of_nat c) h = Inr (header (n, False))" using heap_at_load [OF f(1) rg(1,2)] k(3) by simp
  obtain h1 where h1: "hmodify (of_nat c) (\<lambda>x. x OR 1) h = Inr h1"
    "heap_at base hi ?p (of_nat hi) (heap_reserve h) (v(c := header (n, True))) h1"
    using heap_at_modify [OF f(1) rg(1,2)] header_word(2) [OF k(1,4)] k(3) by metis
  have fa: "16 dvd a \<and> 0 < a \<and> base \<le> a \<and> a + 16 \<le> c" if "a \<in> set ?as" for a
    using free_addrs_range [OF l(3,1) that] l(2) c by simp
  have "lseg (v(c := header (n, True))) ?p ?as q" using q(1) fa by (subst lseg_cong [of ?as _ v]) fastforce+
  then have slot: "find_slot (of_nat c) (free_list_head h1) 0 h1 = Some (Inr (q, prev_ptr ?as))"
    using find_slot_here [OF h1(2) _ fa free_ptr(2) [OF q(2) l(5) k(5,6,7)] rg(2)] k(7) by simp
  obtain h2 where h2: "hstore (of_nat (c + 4)) q h1 = Inr h2"
    "heap_at base hi ?p (of_nat hi) (heap_reserve h) (v(c := header (n, True), c + 4 := q)) h2"
    using heap_at_store [OF h1(2) rg(3,4)] by blast
  define w where "w = relink_val ?as (of_nat c) (v(c := header (n, True), c + 4 := q))"
  obtain h3 where h3: "relink (prev_ptr ?as) (of_nat c) h2 = Inr h3"
    "heap_at base hi (relink_head ?as (of_nat c) ?p) (of_nat hi) (heap_reserve h) w h3"
    using heap_at_relink [OF h2(2), of ?as "of_nat c"] fa rg unfolding w_def by fastforce
  have sz: "hi = base + blocks_size (xs @ [(n, True)] @ ys)" by (simp add: hi_def)
  have ok: "list_ok base (xs @ [(n, True)] @ ys) (relink_head ?as (of_nat c) ?p) w"
    using list_ok_insert [OF f(2) c q] by (simp add: w_def)
  have inv3: "heap_inv base (xs @ [(n, True)] @ ys) w h3 \<and> heap_reserve h3 = heap_reserve h"
    using ok h3(2) unfolding sz by (intro heap_inv_atI)
  have "w x = v x" if x: "x \<in> live base (xs @ [(n, True)] @ ys)" for x
    using live_outside [OF ok c _ x] k(2) by (auto simp add: w_def)
  moreover have "w (c + 4) = q" using relink_below(1) [OF l(3,1)] c by (simp add: w_def)
  moreover have "lseg w (w (c + 4)) (free_addrs (c + n) ys) 0" by (rule list_ok_ptrs [OF ok c refl]) simp
  ultimately show ?thesis using ld h1(1) slot h2(1) h3(1) inv3 by blast
qed

lemma coalesce_id: "coalesced bs \<Longrightarrow> coalesce bs = bs"
  by (induction bs rule: coalesced.induct) auto

lemma coalesce_head: "coalesced ys \<Longrightarrow> coalesce ((n, True) # ys) = merge_right n ys"
proof (cases "\<exists>k zs. ys = (k, True) # zs")
  case True
  assume "coalesced ys"
  with True obtain k zs where ys: "ys = (k, True) # zs" and zs: "coalesced ((k, True) # zs)" by blast
  have "coalesce ((n + k, True) # zs) = (n + k, True) # zs"
    using zs by (intro coalesce_id) (cases zs, auto)
  then show ?thesis using ys by simp
next
  case False
  assume c: "coalesced ys"
  have "coalesce ((n, True) # ys) = (n, True) # ys" using False c by (intro coalesce_id) (cases ys; auto)
  then show ?thesis using merge_right_other [OF False] by simp
qed

lemma coalesced_append:
  "coalesced (xs @ [b] @ ys) \<Longrightarrow> coalesced (xs @ [b]) \<and> coalesced (b # ys)"
  by (induction xs rule: coalesced.induct) auto

lemma coalesce_free:
  assumes "coalesced (xs @ [(n, False)] @ ys)"
  shows "coalesce (xs @ [(n, True)] @ ys) = merge_left xs (merge_right n ys)"
  using assms
proof (induction xs rule: coalesced.induct [case_names more none one])
  case (more a b xs)
  have "merge_left (a # b # xs) zs = a # merge_left (b # xs) zs" for zs by (simp add: merge_left_def)
  with more show ?case by auto
next
  case none
  then have "coalesced ys" using coalesced_append [of "[]" _ ys] by (cases ys) auto
  then show ?case by (simp add: coalesce_head merge_left_def)
next
  case (one a)
  then have ys: "coalesced ys" using coalesced_append [of "[a]" _ ys] by (cases ys) auto
  show ?case
  proof (cases "snd a")
    case True
    have "merge_right (fst a + n) ys = (fst a + fst (hd (merge_right n ys)), True) # tl (merge_right n ys)"
      by (cases "(n, ys)" rule: merge_right.cases) auto
    with True show ?thesis by (simp add: coalesce_head [OF ys] merge_left_def)
  next
    case False
    then show ?thesis by (simp add: coalesce_head [OF ys] merge_left_def)
  qed
qed

lemma coalesce_hd: "\<exists>m zs. coalesce (a # bs) = (m, snd a) # zs"
proof (induction bs arbitrary: a)
  case Nil
  show ?case by (cases a) simp
next
  case (Cons b bs)
  then show ?case using Cons [of "(fst a + fst b, True)"] by (cases a) auto
qed

lemma coalesced_coalesce: "coalesced (coalesce bs)"
proof (induction bs rule: coalesce.induct)
  case (1 a b bs)
  obtain m zs where "coalesce (b # bs) = (m, snd b) # zs" using coalesce_hd by blast
  with 1 show ?case by auto
qed auto

lemma live_merge_right: "live a (merge_right n ys) = live a ((n, True) # ys)"
  by (cases "(n, ys)" rule: merge_right.cases) (auto simp add: add.assoc)

lemma merge_right_size: "blocks_size (merge_right n ys) = n + blocks_size ys"
  by (cases "(n, ys)" rule: merge_right.cases) auto

lemma merge_left_size: "blocks_size (merge_left xs ((m, True) # zs)) = blocks_size xs + m + blocks_size zs"
proof (cases "xs = []")
  case False
  then have "blocks_size xs = blocks_size (butlast xs) + fst (last xs)"
    by (metis append_butlast_last_id blocks_size_simps add_0_right)
  then show ?thesis by (simp add: merge_left_def)
qed (simp add: merge_left_def)

lemma merge_right_hd: "\<exists>m zs. merge_right n ys = (m, True) # zs"
  by (cases "(n, ys)" rule: merge_right.cases) auto

lemma kfree_merges:
  assumes inv: "heap_inv base (xs @ [(n, False)] @ ys) v h" and c: "c = base + blocks_size xs"
  shows "\<exists>h' v'. kfree (of_nat (c + 8)) h = Some (Inr h')
    \<and> heap_inv base (merge_left xs (merge_right n ys)) v' h' \<and> heap_reserve h' = heap_reserve h
    \<and> (\<forall>x \<in> live base (xs @ [(n, True)] @ ys). v' x = v x) \<and> v' c AND 1 \<noteq> 0
    \<and> base \<le> c \<and> c < base + blocks_size (merge_left xs (merge_right n ys))"
proof -
  have ok: "list_ok base (xs @ [(n, False)] @ ys) (free_list_head h) v" using inv by (simp add: heap_inv_def)
  obtain q where q: "lseg v (free_list_head h) (free_addrs base xs) q" "lseg v q (free_addrs (c + n) ys) 0"
    by (rule list_ok_ptrs [OF ok c refl]) auto
  obtain h1 h2 h3 v3 where 1: "hload (of_nat c) h = Inr (header (n, False))" "hmodify (of_nat c) (\<lambda>x. x OR 1) h = Inr h1"
    "find_slot (of_nat c) (free_list_head h1) 0 h1 = Some (Inr (q, prev_ptr (free_addrs base xs)))"
    "hstore (of_nat (c + 4)) q h1 = Inr h2" "relink (prev_ptr (free_addrs base xs)) (of_nat c) h2 = Inr h3"
    "heap_inv base (xs @ [(n, True)] @ ys) v3 h3" "heap_reserve h3 = heap_reserve h"
    "\<forall>x \<in> live base (xs @ [(n, True)] @ ys). v3 x = v x" "lseg v3 q (free_addrs (c + n) ys) 0"
    using kfree_link [OF inv c q] by blast
  obtain h4 v4 where 2: "merge_next (of_nat c) q h3 = Inr h4" "heap_inv base (xs @ merge_right n ys) v4 h4"
    "heap_reserve h4 = heap_reserve h" "\<forall>x \<in> live base (xs @ [(n, True)] @ ys). v4 x = v3 x"
    using merge_next_ok [OF 1(6) c 1(9)] 1(7) by auto
  obtain m zs where mr: "merge_right n ys = (m, True) # zs" using merge_right_hd by blast
  obtain h5 v5 where 3: "merge_prev (of_nat c) (prev_ptr (free_addrs base xs)) h4 = Inr h5"
    "heap_inv base (merge_left xs (merge_right n ys)) v5 h5" "heap_reserve h5 = heap_reserve h"
    "\<forall>x \<in> live base (xs @ merge_right n ys). v5 x = v4 x" "v5 c = v4 c"
    using merge_prev_ok [of base xs m zs v4 h4 c] 2 c unfolding mr by auto
  have sub: "(of_nat (c + 8) :: u32) - SIZEOF_HEADER = of_nat c" by (simp add: SIZEOF_HEADER_def)
  have n: "16 dvd n" "n < 2 ^ 32" "0 < n" using list_ok_wf [OF ok c refl] heap_inv_size [OF inv] by (simp_all add: HEAP_LIMIT_def)
  have used: "\<not> header (n, False) AND 1 \<noteq> 0" using header_word(4) [OF n(1,2), of False] by simp
  have "kfree (of_nat (c + 8)) h = Some (Inr h5)"
    unfolding kfree_def Let_def sub
    by (simp only: field_nat 1(1-5) 2(1) 3(1) sum.case used if_False option.case andthen_simps prod.case)
  moreover have "live base (xs @ merge_right n ys) = live base (xs @ [(n, True)] @ ys)"
    by (simp add: live_append live_merge_right)
  moreover have "v5 c AND 1 \<noteq> 0"
  proof -
    have ok4: "list_ok base (xs @ [(m, True)] @ zs) (free_list_head h4) v4" using 2(2) mr by (simp add: heap_inv_def)
    have m: "16 dvd m" "m < 2 ^ 32" "v4 c = header (m, True)"
      using list_ok_wf [OF ok4 c refl] heap_inv_size [OF 2(2)] mr by (auto simp add: HEAP_LIMIT_def)
    then show ?thesis using header_word(4) [OF m(1,2), of True] 3(5) by simp
  qed
  moreover have "c < base + blocks_size (merge_left xs (merge_right n ys))"
    using merge_left_size [of xs m zs] n(3) merge_right_size [of n ys] by (simp add: mr c)
  ultimately show ?thesis using 1(8) 2(4) 3 c by auto
qed

end
