(* ===== verification/Allocator.thy ===== *)
theory Allocator
  imports KPrelude
begin

text \<open>
  The interface of the kernel heap that the rest of the kernel relies on: from a state in which the
  pointers \<open>L\<close> are handed out, a request that can be served returns a fresh pointer, and every
  pointer handed out can be given back. \<open>Kmalloc_Props\<close> interprets it on \<open>kmalloc\<close> and \<open>kfree\<close>;
  the thread code takes a stack and a control block from it and the cleaner gives both back.
\<close>

locale allocator =
  fixes ok :: "'h \<Rightarrow> u32 set \<Rightarrow> bool"
    and alloc :: "u32 \<Rightarrow> 'h \<Rightarrow> (panic + u32 \<times> 'h) option"
    and release :: "u32 \<Rightarrow> 'h \<Rightarrow> (panic + 'h) option"
    and servable :: "u32 \<Rightarrow> 'h \<Rightarrow> bool"
  assumes alloc_ok: "ok h L \<Longrightarrow> servable n h \<Longrightarrow>
      \<exists>a h'. alloc n h = Some (Inr (a, h')) \<and> ok h' (insert a L) \<and> a \<noteq> 0 \<and> a \<notin> L"
    and release_ok: "ok h L \<Longrightarrow> a \<in> L \<Longrightarrow> \<exists>h'. release a h = Some (Inr h') \<and> ok h' (L - {a})"
begin

lemma alloc_pair:
  assumes "ok h L" "servable m h" "\<And>a h'. alloc m h = Some (Inr (a, h')) \<Longrightarrow> servable n h'"
  shows "\<exists>a h1 b h2. alloc m h = Some (Inr (a, h1)) \<and> alloc n h1 = Some (Inr (b, h2))
    \<and> a \<noteq> b \<and> a \<notin> L \<and> b \<notin> L \<and> a \<noteq> 0 \<and> b \<noteq> 0 \<and> ok h2 (insert b (insert a L))"
proof -
  obtain a h1 where 1: "alloc m h = Some (Inr (a, h1))" "ok h1 (insert a L)" "a \<noteq> 0" "a \<notin> L"
    using alloc_ok [OF assms(1,2)] by blast
  obtain b h2 where "alloc n h1 = Some (Inr (b, h2))" "ok h2 (insert b (insert a L))" "b \<noteq> 0" "b \<notin> insert a L"
    using alloc_ok [OF 1(2) assms(3) [OF 1(1)]] by blast
  with 1 show ?thesis by blast
qed

lemma release_pair:
  assumes "ok h L" "a \<in> L" "b \<in> L" "a \<noteq> b"
  shows "\<exists>h1 h2. release a h = Some (Inr h1) \<and> release b h1 = Some (Inr h2) \<and> ok h2 (L - {a, b})"
proof -
  obtain h1 where 1: "release a h = Some (Inr h1)" "ok h1 (L - {a})" using release_ok [OF assms(1,2)] by blast
  moreover obtain h2 where "release b h1 = Some (Inr h2)" "ok h2 (L - {a} - {b})"
    using release_ok [OF 1(2), of b] assms(3,4) by blast
  moreover have "L - {a} - {b} = L - {a, b}" by auto
  ultimately show ?thesis by auto
qed

lemma alloc_release:
  assumes "ok h L" "servable n h"
  shows "\<exists>a h1 h2. alloc n h = Some (Inr (a, h1)) \<and> release a h1 = Some (Inr h2) \<and> ok h2 L"
proof -
  obtain a h1 where 1: "alloc n h = Some (Inr (a, h1))" "ok h1 (insert a L)" "a \<notin> L"
    using alloc_ok [OF assms] by blast
  with release_ok [OF 1(2), of a] show ?thesis by auto
qed

end

text \<open>
  The same interface with a budget, so that a client that makes several requests can tell beforehand that all
  of them will be served: \<open>room m h\<close> says that \<open>h\<close> can still supply \<open>m\<close> units, and a request of \<open>n\<close> bytes uses at
  most \<open>cost n\<close> of them.
\<close>

locale budget_allocator = allocator ok alloc release servable
  for ok :: "'h \<Rightarrow> u32 set \<Rightarrow> bool" and alloc :: "u32 \<Rightarrow> 'h \<Rightarrow> (panic + u32 \<times> 'h) option"
    and release :: "u32 \<Rightarrow> 'h \<Rightarrow> (panic + 'h) option" and servable :: "u32 \<Rightarrow> 'h \<Rightarrow> bool" +
  fixes fits :: "u32 \<Rightarrow> bool"
    and cost :: "u32 \<Rightarrow> nat"
    and room :: "nat \<Rightarrow> 'h \<Rightarrow> bool"
  assumes room_servable: "fits n \<Longrightarrow> room (cost n + m) h \<Longrightarrow> servable n h"
    and alloc_room: "ok h L \<Longrightarrow> fits n \<Longrightarrow> room (cost n + m) h \<Longrightarrow> alloc n h = Some (Inr (a, h')) \<Longrightarrow> room m h'"
    and release_room: "ok h L \<Longrightarrow> a \<in> L \<Longrightarrow> release a h = Some (Inr h') \<Longrightarrow> room m h \<Longrightarrow> room m h'"
begin

lemma alloc_within:
  assumes "ok h L" "fits n" "room (cost n + m) h"
  obtains a h' where "alloc n h = Some (Inr (a, h'))" "ok h' (insert a L)" "a \<noteq> 0" "a \<notin> L" "room m h'"
  using alloc_ok [OF assms(1) room_servable [OF assms(2,3)]] alloc_room [OF assms(1-3)] by blast

lemma alloc_pair_within:
  assumes "ok h L" "fits i" "fits j" "room (cost i + (cost j + m)) h"
  obtains a h1 b h2 where "alloc i h = Some (Inr (a, h1))" "alloc j h1 = Some (Inr (b, h2))" "ok h2 (insert b (insert a L))"
    "a \<noteq> 0" "b \<noteq> 0" "a \<notin> L" "b \<notin> L" "a \<noteq> b" "room m h2"
proof -
  obtain a h1 where 1: "alloc i h = Some (Inr (a, h1))" "ok h1 (insert a L)" "a \<noteq> 0" "a \<notin> L" "room (cost j + m) h1"
    by (rule alloc_within [OF assms(1,2,4)])
  obtain b h2 where 2: "alloc j h1 = Some (Inr (b, h2))" "ok h2 (insert b (insert a L))" "b \<noteq> 0" "b \<notin> insert a L" "room m h2"
    by (rule alloc_within [OF 1(2) assms(3) 1(5)])
  show thesis using that [OF 1(1) 2(1,2) 1(3) 2(3) 1(4)] 2(4,5) by blast
qed

end

end
