(* ===== verification/Kmalloc_Props.thy ===== *)
theory Kmalloc_Props
  imports Heap_Ops Allocator
begin

text \<open>
  The properties of the kernel heap: refinement of first fit and of coalescing, disjointness of the
  blocks in use, safety of every history of allocations and frees, and what happens when memory or
  the 32-bit size runs out.
\<close>

section \<open>Specification vocabulary\<close>

definition can_serve :: "nat \<Rightarrow> nat \<Rightarrow> block list \<Rightarrow> heap_state \<Rightarrow> bool" where
  "can_serve bytes base bs h \<longleftrightarrow> 0 < bytes \<and> bytes + 23 < 2 ^ 32 \<and>
     (fit (real_size_of bytes) bs = None \<longrightarrow>
        base + blocks_size bs + 4096 * pages_for (real_size_of bytes) \<le> HEAP_LIMIT
        \<and> 2 * pages_for (real_size_of bytes) \<le> heap_reserve h)"

definition sample_heap :: heap_state where
  "sample_heap = \<lparr>free_list_head = 0, heap_watermark = 0xD0000000, hvm = sample_mm\<rparr>"

fun used_addrs :: "nat \<Rightarrow> block list \<Rightarrow> nat set" where
  "used_addrs a [] = {}"
| "used_addrs a ((n, f) # bs) = (if f then {} else {a}) \<union> used_addrs (a + n) bs"

definition safe_request :: "u32 \<Rightarrow> heap_state \<Rightarrow> bool" where
  "safe_request n h \<longleftrightarrow> 0 < n \<and> n \<le> 0xFFFFFFE8
     \<and> unat (heap_watermark h) + 4096 * pages_for (real_size_of (unat n)) \<le> HEAP_LIMIT
     \<and> 2 * pages_for (real_size_of (unat n)) \<le> heap_reserve h"

inductive heap_reach :: "heap_state \<Rightarrow> heap_state \<Rightarrow> u32 set \<Rightarrow> bool" for h0 :: heap_state where
  start: "heap_reach h0 h0 {}"
| malloc: "heap_reach h0 h L \<Longrightarrow> safe_request n h \<Longrightarrow> kmalloc n h = Some (Inr (a, h')) \<Longrightarrow> heap_reach h0 h' (insert a L)"
| free: "heap_reach h0 h L \<Longrightarrow> a \<in> L \<Longrightarrow> kfree a h = Some (Inr h') \<Longrightarrow> heap_reach h0 h' (L - {a})"

definition heap_state_ok :: "nat \<Rightarrow> heap_state \<Rightarrow> u32 set \<Rightarrow> bool" where
  "heap_state_ok base h L \<longleftrightarrow>
     (\<exists>bs v. heap_inv base bs v h \<and> coalesced bs \<and> L = (\<lambda>c. of_nat (c + 8)) ` used_addrs base bs)"

section \<open>Lemmas\<close>

lemma coalesced_split: "coalesced (xs @ ys) \<longleftrightarrow> coalesced xs \<and> coalesced ys \<and> \<not> (xs \<noteq> [] \<and> ys \<noteq> [] \<and> snd (last xs) \<and> snd (hd ys))"
proof (induction xs rule: coalesced.induct [case_names more none one])
  case (one a)
  then show ?case by (cases ys) auto
qed auto

lemma coalesced_malloc:
  assumes "coalesced bs"
  shows "coalesced (snd (malloc_spec r bs))"
proof (cases "fit r bs")
  case None
  then show ?thesis using assms by (auto simp add: malloc_spec_def coalesced_split)
next
  case (Some z)
  obtain xs k ys where z: "z = (xs, k, ys)" by (cases z)
  then have "bs = xs @ [(k, True)] @ ys" using fit_Some Some by blast
  with assms have "coalesced xs" "coalesced ys" "\<not> (ys \<noteq> [] \<and> snd (hd ys))"
    by (auto simp add: coalesced_split [of xs] coalesced_split [of "[(k, True)]" ys, simplified])
  then show ?thesis using Some z
    by (cases ys) (auto simp add: malloc_spec_def coalesced_split [of xs])
qed

lemma kmalloc_ok:
  assumes "heap_inv base bs v h" "can_serve bytes base bs h"
  shows "\<exists>h' v'. kmalloc (of_nat bytes) h = Some (Inr (of_nat (base + fst (malloc_spec (real_size_of bytes) bs) + 8), h'))
    \<and> heap_inv base (snd (malloc_spec (real_size_of bytes) bs)) v' h' \<and> (\<forall>x \<in> live base bs. v' x = v x)"
proof (cases "fit (real_size_of bytes) bs")
  case None
  then show ?thesis using kmalloc_grow [OF assms(1) _ _ None refl] assms(2) by (auto simp add: can_serve_def malloc_spec_def)
next
  case (Some a)
  obtain xs k ys where a: "a = (xs, k, ys)" by (cases a)
  with Some show ?thesis using kmalloc_fit [OF assms(1), of bytes xs k ys] assms(2) by (auto simp add: can_serve_def malloc_spec_def)
qed

lemma used_addrs_append: "used_addrs a (xs @ ys) = used_addrs a xs \<union> used_addrs (a + blocks_size xs) ys"
  by (induction a xs rule: used_addrs.induct) (auto simp add: add.assoc)

lemma malloc_block:
  assumes "16 \<le> r"
  shows "\<exists>xs n ys. snd (malloc_spec r bs) = xs @ [(n, False)] @ ys \<and> r \<le> n \<and> fst (malloc_spec r bs) = blocks_size xs
    \<and> live base bs \<inter> {base + blocks_size xs ..< base + blocks_size xs + n} = {}
    \<and> used_addrs base (snd (malloc_spec r bs)) = insert (base + blocks_size xs) (used_addrs base bs)
    \<and> live base (snd (malloc_spec r bs)) = live base bs \<union> {base + blocks_size xs + 8 ..< base + blocks_size xs + n}"
proof (cases "fit r bs")
  case None
  have "live base bs \<inter> {base + blocks_size bs ..< base + blocks_size bs + r} = {}"
    using live_range [of _ base bs] by fastforce
  then show ?thesis using None
    by (intro exI [of _ bs] exI [of _ r] exI [of _ "if r < 4096 * pages_for r then [(4096 * pages_for r - r, True)] else []"])
      (auto simp add: malloc_spec_def used_addrs_append live_append)
next
  case (Some z)
  obtain xs k ys where z: "z = (xs, k, ys)" by (cases z)
  then have bs: "bs = xs @ [(k, True)] @ ys" "r \<le> k" using fit_Some Some by blast+
  let ?c = "base + blocks_size xs"
  have dis: "live base bs \<inter> {?c ..< ?c + k} = {}"
    using live_range [of _ base xs] live_range [of _ "?c + k" ys] unfolding bs(1) live_append by fastforce
  show ?thesis
  proof (cases "r < k")
    case True
    then have "snd (malloc_spec r bs) = xs @ [(r, False)] @ ((k - r, True) # ys)" "fst (malloc_spec r bs) = blocks_size xs"
      using Some z by (simp_all add: malloc_spec_def)
    moreover have "live base bs \<inter> {?c ..< ?c + r} = {}" using dis True by fastforce
    ultimately show ?thesis using True by (intro exI [of _ xs] exI [of _ r] exI [of _ "(k - r, True) # ys"]) (auto simp add: used_addrs_append live_append bs add.assoc)
  next
    case False
    with bs(2) have "snd (malloc_spec r bs) = xs @ [(k, False)] @ ys" "fst (malloc_spec r bs) = blocks_size xs"
      using Some z by (simp_all add: malloc_spec_def)
    with dis bs(2) show ?thesis by (intro exI [of _ xs] exI [of _ k] exI [of _ ys]) (auto simp add: used_addrs_append live_append bs add.assoc)
  qed
qed

lemma used_addrs_coalesce: "used_addrs a (coalesce bs) = used_addrs a bs"
proof (induction bs arbitrary: a rule: coalesce.induct)
  case (1 x y bs)
  then show ?case by (cases x; cases y) (auto simp add: add.assoc)
qed auto

lemma used_addrs_range: "wf_blocks bs \<Longrightarrow> x \<in> used_addrs a bs \<Longrightarrow> a \<le> x \<and> x < a + blocks_size bs"
  by (induction a bs rule: used_addrs.induct) (fastforce split: if_splits)+

lemma used_live: "wf_blocks bs \<Longrightarrow> c \<in> used_addrs a bs \<Longrightarrow> c + 8 \<in> live a bs"
proof (induction a bs rule: used_addrs.induct)
  case (2 a n f bs)
  then have "16 \<le> n" by (auto intro: dvd_imp_le)
  with 2 show ?case by (auto split: if_splits)
qed simp

lemma used_addrs_split: "c \<in> used_addrs a bs \<Longrightarrow> \<exists>xs n ys. bs = xs @ [(n, False)] @ ys \<and> c = a + blocks_size xs"
proof (induction a bs rule: used_addrs.induct)
  case (2 a n f bs)
  show ?case
  proof (cases "\<not> f \<and> c = a")
    case True
    then show ?thesis by (intro exI [of _ "[]"] exI) auto
  next
    case False
    then have "c \<in> used_addrs (a + n) bs" using 2(2) by (auto split: if_splits)
    then obtain xs m ys where "bs = xs @ [(m, False)] @ ys" "c = a + n + blocks_size xs" using 2(1) by blast
    then show ?thesis by (intro exI [of _ "(n, f) # xs"] exI) auto
  qed
qed simp

lemma used_addrs_free:
  assumes "wf_blocks (xs @ [(n, False)] @ ys)"
  shows "used_addrs a (xs @ [(n, True)] @ ys) = used_addrs a (xs @ [(n, False)] @ ys) - {a + blocks_size xs}"
  using assms used_addrs_range [of xs _ a] used_addrs_range [of ys _ "a + blocks_size xs + n"]
  by (fastforce simp add: used_addrs_append)

lemma safe_request_serves:
  assumes "heap_inv base bs v h" "safe_request n h"
  shows "can_serve (unat n) base bs h"
proof -
  have "unat n \<le> 0xFFFFFFE8" "0 < unat n" using assms(2) by (simp_all add: safe_request_def word_le_nat_alt word_less_nat_alt)
  moreover have "unat (heap_watermark h) = base + blocks_size bs"
    using assms(1) heap_inv_size [OF assms(1)] by (simp add: heap_inv_def HEAP_LIMIT_def unat_of_nat del: of_nat_add)
  ultimately show ?thesis using assms(2) by (simp add: can_serve_def safe_request_def)
qed

lemma heap_ptr_inj:
  assumes "heap_inv base bs v h" "c \<in> used_addrs base bs" "d \<in> used_addrs base bs"
  shows "of_nat (c + 8) = (of_nat (d + 8) :: u32) \<longleftrightarrow> c = d"
proof -
  have wf: "wf_blocks bs" using assms(1) by (simp add: heap_inv_def list_ok_def)
  have "c < 0xFEE00000" "d < 0xFEE00000"
    using used_addrs_range [OF wf assms(2)] used_addrs_range [OF wf assms(3)] heap_inv_size [OF assms(1)]
    by (simp_all add: HEAP_LIMIT_def)
  then have "unat (of_nat (c + 8) :: u32) = c + 8" "unat (of_nat (d + 8) :: u32) = d + 8"
    by (simp_all add: unat_of_nat del: of_nat_add)
  then show ?thesis by (metis add_right_cancel)
qed

lemma kmalloc_keeps:
  assumes "heap_state_ok base h L" "safe_request n h"
  shows "\<exists>a h'. kmalloc n h = Some (Inr (a, h')) \<and> heap_state_ok base h' (insert a L) \<and> a \<noteq> 0 \<and> a \<notin> L"
proof -
  obtain bs v where bs: "heap_inv base bs v h" "coalesced bs" "L = (\<lambda>c. of_nat (c + 8)) ` used_addrs base bs"
    using assms(1) by (auto simp add: heap_state_ok_def)
  define r where "r = real_size_of (unat n)"
  have serve: "can_serve (unat n) base bs h" by (rule safe_request_serves [OF bs(1) assms(2)])
  then have r16: "16 \<le> r" using real_size_props by (simp add: r_def can_serve_def)
  obtain h' v' where h': "kmalloc n h = Some (Inr (of_nat (base + fst (malloc_spec r bs) + 8), h'))"
    "heap_inv base (snd (malloc_spec r bs)) v' h'"
    using kmalloc_ok [OF bs(1) serve] by (auto simp add: r_def)
  obtain xs m ys where ms: "snd (malloc_spec r bs) = xs @ [(m, False)] @ ys" "fst (malloc_spec r bs) = blocks_size xs" "r \<le> m"
    "used_addrs base (snd (malloc_spec r bs)) = insert (base + blocks_size xs) (used_addrs base bs)"
    "live base bs \<inter> {base + blocks_size xs ..< base + blocks_size xs + m} = {}"
    using malloc_block [OF r16, of bs base] by blast
  let ?c = "base + blocks_size xs"
  have wf: "wf_blocks bs" using bs(1) by (simp add: heap_inv_def list_ok_def)
  have new: "?c \<notin> used_addrs base bs" using used_live [OF wf, of ?c base] ms(3,5) r16 by auto
  have "of_nat (?c + 8) \<notin> L"
    using bs(3) heap_ptr_inj [OF h'(2), of ?c] new by (fastforce simp add: ms(4))
  moreover have "(of_nat (?c + 8) :: u32) \<noteq> 0"
    using heap_inv_size [OF h'(2)] ms(1) by (simp add: HEAP_LIMIT_def word_unat_eq_iff unat_of_nat del: of_nat_add)
  moreover have "heap_state_ok base h' (insert (of_nat (?c + 8)) L)"
    unfolding heap_state_ok_def using h'(2) coalesced_malloc [OF bs(2)] bs(3) ms(4)
    by (intro exI [of _ "snd (malloc_spec r bs)"] exI [of _ v']) simp
  ultimately show ?thesis using h'(1) ms(2) by auto
qed

lemma kfree_ok:
  assumes "heap_inv base (xs @ [(n, False)] @ ys) v h" "coalesced (xs @ [(n, False)] @ ys)"
  shows "\<exists>h' v'. kfree (of_nat (base + blocks_size xs + 8)) h = Some (Inr h')
    \<and> heap_inv base (coalesce (xs @ [(n, True)] @ ys)) v' h'
    \<and> (\<forall>x \<in> live base (xs @ [(n, True)] @ ys). v' x = v x)
    \<and> kfree (of_nat (base + blocks_size xs + 8)) h' = Some (Inl UseAfterFree)"
proof -
  let ?c = "base + blocks_size xs"
  let ?bs = "merge_left xs (merge_right n ys)"
  obtain h' v' where h': "kfree (of_nat (?c + 8)) h = Some (Inr h')" "heap_inv base ?bs v' h'"
    "\<forall>x \<in> live base (xs @ [(n, True)] @ ys). v' x = v x" "v' ?c AND 1 \<noteq> 0" "base \<le> ?c" "?c < base + blocks_size ?bs"
    using kfree_merges [OF assms(1) refl] by auto
  have "hload (of_nat ?c) h' = Inr (v' ?c)"
    using heap_at_load [OF heap_inv_frame(1) [OF h'(2) refl] h'(5,6)] .
  moreover have "(of_nat (?c + 8) :: u32) - SIZEOF_HEADER = of_nat ?c" by (simp add: SIZEOF_HEADER_def)
  ultimately have "kfree (of_nat (?c + 8)) h' = Some (Inl UseAfterFree)"
    using h'(4) unfolding kfree_def Let_def by (simp only: field_nat sum.case if_True simp_thms)
  with h' show ?thesis unfolding coalesce_free [OF assms(2)] by blast
qed

lemma kfree_keeps:
  assumes "heap_state_ok base h L" "a \<in> L"
  shows "\<exists>h'. kfree a h = Some (Inr h') \<and> heap_state_ok base h' (L - {a})"
proof -
  obtain bs v where bs: "heap_inv base bs v h" "coalesced bs" "L = (\<lambda>c. of_nat (c + 8)) ` used_addrs base bs"
    using assms(1) by (auto simp add: heap_state_ok_def)
  then obtain c where c: "c \<in> used_addrs base bs" "a = of_nat (c + 8)" using assms(2) by auto
  then obtain xs n ys where xs: "bs = xs @ [(n, False)] @ ys" "c = base + blocks_size xs"
    using used_addrs_split by blast
  obtain h' v' where h': "kfree a h = Some (Inr h')" "heap_inv base (coalesce (xs @ [(n, True)] @ ys)) v' h'"
    using kfree_ok [of base xs n ys v h] bs c xs by auto
  have wf: "wf_blocks (xs @ [(n, False)] @ ys)" using bs(1) xs(1) by (simp add: heap_inv_def list_ok_def)
  have "used_addrs base (coalesce (xs @ [(n, True)] @ ys)) = used_addrs base bs - {c}"
    unfolding used_addrs_coalesce used_addrs_free [OF wf] xs ..
  moreover have "(\<lambda>c. of_nat (c + 8)) ` (used_addrs base bs - {c}) = L - {a}"
    unfolding bs(3) c(2) using heap_ptr_inj [OF bs(1) _ c(1)] by fastforce
  ultimately have "heap_state_ok base h' (L - {a})"
    unfolding heap_state_ok_def using h'(2) coalesced_coalesce by metis
  with h'(1) show ?thesis by blast
qed

lemma heap_reach_ok:
  assumes "heap_reach h0 h L" "heap_state_ok base h0 {}"
  shows "heap_state_ok base h L"
  using assms
proof (induction rule: heap_reach.induct)
  case (malloc h L n a h')
  then show ?case using kmalloc_keeps [of base h L n] by auto
next
  case (free h L a h')
  then show ?case using kfree_keeps [of base h L a] by auto
qed

lemma kmalloc_init_inv:
  assumes "vm_inv (hvm h)" "free_list_head h = 0" "unat kernel_end + 0x400FFF < 2 ^ 32"
    and base: "base = (unat kernel_end + 0x400FFF) div 4096 * 4096" "base \<le> HEAP_LIMIT"
    and unmapped: "\<forall>a \<in> region base HEAP_LIMIT. mmu (hvm h) a = None"
  shows "heap_inv base [] (\<lambda>_. 0) (kmalloc_init kernel_end h)"
proof -
  have "unat (kernel_end + 0x400000 + 0xFFF) = unat kernel_end + 0x400FFF"
    using assms(3) by (simp add: unat_word_ariths)
  then have "unat ((kernel_end + 0x400000 + 0xFFF) AND NOT 0xFFF) = base"
    using unat_and_not_mask [of "kernel_end + 0x400000 + 0xFFF" 12] base(1) by (simp add: numeral_mask_12 [symmetric])
  then have wm: "(kernel_end + 0x400000 + 0xFFF) AND NOT 0xFFF = of_nat base" by (metis of_nat_unat ucast_id)
  have pos: "0 < base" "16 dvd base" using base(1) by (simp_all add: dvd_mult)
  show ?thesis
    using assms(1,2) base unmapped pos wm
    by (auto simp add: heap_inv_def heap_mem_def kmalloc_init_def Let_def list_ok_def mapped_region_def region_def)
qed

lemma kmalloc_init_ok:
  assumes "vm_inv (hvm h)" "free_list_head h = 0" "unat kernel_end + 0x400FFF < 2 ^ 32"
    and "base = (unat kernel_end + 0x400FFF) div 4096 * 4096" "base \<le> HEAP_LIMIT" "\<forall>a \<in> region base HEAP_LIMIT. mmu (hvm h) a = None"
  shows "heap_state_ok base (kmalloc_init kernel_end h) {}"
  unfolding heap_state_ok_def using kmalloc_init_inv [OF assms] by (intro exI [of _ "[]"] exI) auto

interpretation kheap: allocator "heap_state_ok base" kmalloc kfree safe_request for base
proof unfold_locales
  fix h L n assume "heap_state_ok base h L" "safe_request n h"
  then show "\<exists>a h'. kmalloc n h = Some (Inr (a, h')) \<and> heap_state_ok base h' (insert a L) \<and> a \<noteq> 0 \<and> a \<notin> L"
    by (rule kmalloc_keeps)
next
  fix h L a assume "heap_state_ok base h L" "a \<in> L"
  then show "\<exists>h'. kfree a h = Some (Inr h') \<and> heap_state_ok base h' (L - {a})"
    by (rule kfree_keeps)
qed

lemma sample_unmapped: "dir_of a \<noteq> 1023 \<Longrightarrow> mmu sample_mm a = None"
  using sample_pde [of "dir_of a"] by (simp add: mmu_None_iff)

lemma sample_heap_inv: "heap_inv 0xD0000000 [] (\<lambda>_. 0) sample_heap"
proof -
  have "\<forall>a \<in> region 0xD0000000 HEAP_LIMIT. mmu sample_mm a = None"
    using region_dir [OF _ order_refl] sample_unmapped by blast
  then show ?thesis
    using sample_vm_inv
    by (auto simp add: heap_inv_def heap_mem_def list_ok_def sample_heap_def mapped_region_def region_def HEAP_LIMIT_def)
qed

lemma sample_heap_ok: "heap_state_ok 0xD0000000 sample_heap {}"
  unfolding heap_state_ok_def using sample_heap_inv by (intro exI [of _ "[]"] exI) auto

lemma sample_heap_serves: "can_serve 100 0xD0000000 [] sample_heap"
  using sample_reserve by (simp add: can_serve_def sample_heap_def heap_reserve_def HEAP_LIMIT_def pages_for_def real_size_of_def)

text \<open>
  C1: \<open>kmalloc\<close> refines first fit on the list of blocks that tile the heap: it takes the first free block
  that is large enough (cutting off the rest when there is any), and when there is none it maps
  whole pages at the watermark and makes their rest a free block at the end. It terminates and
  succeeds whenever a block fits or there are frames for the pages, keeps the heap well formed and
  coalesced, and changes no word of a block in use.
\<close>

theorem kmalloc_first_fit:
  assumes "heap_inv base bs v h" "coalesced bs" "can_serve bytes base bs h"
    and "malloc_spec (real_size_of bytes) bs = (off, bs')"
  shows "\<exists>h' v'. kmalloc (of_nat bytes) h = Some (Inr (of_nat (base + off + 8), h'))
    \<and> heap_inv base bs' v' h' \<and> coalesced bs' \<and> (\<forall>x \<in> live base bs. v' x = v x)"
  using kmalloc_ok [OF assms(1,3)] coalesced_malloc [OF assms(2), of "real_size_of bytes"] assms(4) by simp

theorem kmalloc_first_fit_witness:
  "\<exists>h' v'. kmalloc (of_nat 100) sample_heap = Some (Inr (of_nat (0xD0000000 + 0 + 8), h'))
    \<and> heap_inv 0xD0000000 [(112, False), (3984, True)] v' h'"
  using kmalloc_first_fit [OF sample_heap_inv _ sample_heap_serves, of 0 "[(112, False), (3984, True)]"]
  by (auto simp add: malloc_spec_def real_size_of_def pages_for_def)

text \<open>
  C30: the memory \<open>kmalloc\<close> returns is at least as large as requested, lies inside the heap and overlaps
  no block in use; and its address is 8 modulo 16. (The comment in \<open>kmalloc.h\<close> promises 16-byte
  alignment; what the code gives is alignment of the block header.)
\<close>

theorem kmalloc_disjoint_and_alignment:
  assumes "heap_inv base bs v h" "can_serve bytes base bs h" "kmalloc (of_nat bytes) h = Some (Inr (a, h'))"
  shows "\<exists>bs' v'. heap_inv base bs' v' h' \<and> {unat a ..< unat a + bytes} \<subseteq> live base bs'
    \<and> {unat a ..< unat a + bytes} \<inter> live base bs = {} \<and> live base bs \<subseteq> live base bs' \<and> unat a mod 16 = 8"
proof -
  define r where "r = real_size_of bytes"
  have pos: "0 < bytes" using assms(2) by (simp add: can_serve_def)
  then have r: "16 \<le> r" "bytes + 8 \<le> r" using real_size_props by (simp_all add: r_def)
  obtain xs n ys where b: "snd (malloc_spec r bs) = xs @ [(n, False)] @ ys" "r \<le> n" "fst (malloc_spec r bs) = blocks_size xs"
    "live base bs \<inter> {base + blocks_size xs ..< base + blocks_size xs + n} = {}"
    "live base (snd (malloc_spec r bs)) = live base bs \<union> {base + blocks_size xs + 8 ..< base + blocks_size xs + n}"
    using malloc_block [OF r(1), of bs base] by blast
  obtain v' where k: "a = of_nat (base + blocks_size xs + 8)" "heap_inv base (snd (malloc_spec r bs)) v' h'"
    using kmalloc_ok [OF assms(1,2)] assms(3) b(3) by (auto simp add: r_def [symmetric])
  have lim: "base + blocks_size xs + 8 < 2 ^ 32"
    using heap_inv_size [OF k(2)] b(1,2) r(1) by (simp add: HEAP_LIMIT_def)
  then have ua: "unat a = base + blocks_size xs + 8" unfolding k(1) by (simp add: unat_of_nat del: of_nat_add)
  have "16 dvd base + blocks_size xs" using k(2) b(1) by (intro list_ok_dvd) (auto simp add: heap_inv_def)
  then have "unat a mod 16 = 8" unfolding ua by (auto elim!: dvdE)
  moreover have "{unat a ..< unat a + bytes} \<subseteq> live base (snd (malloc_spec r bs))"
    unfolding b(5) ua using b(2) r(2) by auto
  moreover have "{unat a ..< unat a + bytes} \<inter> live base bs = {}" unfolding ua using b(2,4) r(2) by fastforce
  ultimately show ?thesis using k(2) b(5) by blast
qed

theorem kmalloc_disjoint_and_alignment_witness:
  "\<exists>a h' bs'. kmalloc (of_nat 100) sample_heap = Some (Inr (a, h'))
    \<and> {unat a ..< unat a + 100} \<subseteq> live 0xD0000000 bs' \<and> unat a mod 16 = 8"
proof -
  obtain a h' where "kmalloc (of_nat 100) sample_heap = Some (Inr (a, h'))"
    using kmalloc_ok [OF sample_heap_inv sample_heap_serves] by blast
  with kmalloc_disjoint_and_alignment [OF sample_heap_inv sample_heap_serves this] show ?thesis by blast
qed

text \<open>
  C2: \<open>kfree\<close> refines: mark the block free, then merge every run of adjacent free blocks. The code only
  looks at the two neighbours of the freed block, which is enough because the heap was coalesced
  before. No word of another block in use changes, and freeing the same pointer again panics with
  ``USE AFTER FREE'' even when the block was merged into its predecessor.
\<close>

theorem kfree_coalesces:
  assumes "heap_inv base (xs @ [(n, False)] @ ys) v h" "coalesced (xs @ [(n, False)] @ ys)"
    and "p = of_nat (base + blocks_size xs + 8)"
  shows "\<exists>h' v'. kfree p h = Some (Inr h') \<and> heap_inv base (coalesce (xs @ [(n, True)] @ ys)) v' h'
    \<and> coalesced (coalesce (xs @ [(n, True)] @ ys))
    \<and> (\<forall>x \<in> live base (xs @ [(n, True)] @ ys). v' x = v x)
    \<and> kfree p h' = Some (Inl UseAfterFree)"
  using kfree_ok [OF assms(1,2)] coalesced_coalesce unfolding assms(3) by blast

theorem kfree_coalesces_witness:
  "\<exists>h h' v'. kmalloc (of_nat 100) sample_heap = Some (Inr (of_nat (0xD0000000 + 8), h))
    \<and> kfree (of_nat (0xD0000000 + 8)) h = Some (Inr h') \<and> heap_inv 0xD0000000 [(4096, True)] v' h'"
proof -
  obtain h v where h: "kmalloc (of_nat 100) sample_heap = Some (Inr (of_nat (0xD0000000 + 8), h))"
    "heap_inv 0xD0000000 ([] @ [(112, False)] @ [(3984, True)]) v h"
    using kmalloc_ok [OF sample_heap_inv sample_heap_serves]
    by (auto simp add: malloc_spec_def real_size_of_def pages_for_def)
  from kfree_coalesces [OF h(2), of "of_nat (0xD0000000 + 8)"] h(1) show ?thesis by auto
qed



text \<open>
  When no free block fits and not a single frame is left, \<open>kmalloc\<close> does not return a null pointer
  but panics with the ``out of RAM'' of \<open>alloc_page\<close>.
\<close>

theorem kmalloc_out_of_frames:
  assumes "heap_inv base bs v h" "0 < bytes" "bytes + 23 < 2 ^ 32" "fit (real_size_of bytes) bs = None"
    and "base + blocks_size bs + 4096 \<le> HEAP_LIMIT" "heap_reserve h = 0" "real_size_of bytes + 4095 < 2 ^ 32"
  shows "kmalloc (of_nat bytes) h = Some (Inl OutOfRAM)"
proof -
  define r where "r = real_size_of bytes"
  have r32: "r < 2 ^ 32" using assms(7) by (simp add: r_def)
  note miss = find_fit_miss [OF assms(1) r32 fit_None [OF assms(4), folded r_def]]
  have "\<not> (of_nat bytes :: u32) \<le> 0" using assms(2,3) by (simp add: word_le_nat_alt unat_of_nat)
  then have km: "kmalloc (of_nat bytes) h = Some (expand_heap (of_nat r) (prev_ptr (free_addrs base bs)) h)"
    using miss by (simp only: kmalloc_def if_False Let_def real_size_word [OF assms(3)] r_def [symmetric] option.case andthen_simps prod.case) simp
  have "unat (of_nat r + 4095 :: u32) = r + 4095" using assms(7) by (simp add: r_def unat_word_ariths unat_of_nat)
  then have "unat ((of_nat r + 4095 :: u32) div 4096) = pages_for r" by (simp add: unat_div pages_for_def)
  moreover have "0 < pages_for r" using real_size_props [OF assms(2)] by (simp add: r_def pages_for_def div_greater_zero_iff)
  ultimately obtain n where n: "unat ((of_nat r + 4095 :: u32) div 4096) = Suc n" by (metis gr0_conv_Suc)
  have "alloc_page (heap_watermark h) (PTE_PRESENT OR PTE_RW) (hvm h) = Inl OutOfRAM"
    using heap.grow_out [of base "base + blocks_size bs" v "hvm h"] assms(1,5,6) by (simp add: heap_inv_def heap_reserve_def)
  then show ?thesis unfolding km expand_heap_def Let_def n by simp
qed

theorem kmalloc_out_of_frames_witness:
  "kmalloc (of_nat 100) (sample_heap\<lparr>hvm := sample_mm\<lparr>pmm := sample_pmm\<lparr>max_blocks := 0, used_blocks := 0\<rparr>\<rparr>\<rparr>) = Some (Inl OutOfRAM)"
proof -
  let ?pm = "sample_pmm\<lparr>max_blocks := 0, used_blocks := 0\<rparr>" let ?h = "sample_heap\<lparr>hvm := sample_mm\<lparr>pmm := ?pm\<rparr>\<rparr>"
  have fr: "free_frames ?pm = {}" "used_frames ?pm = {}" by (simp_all add: free_frames_def used_frames_def)
  then have "pmm_inv ?pm" by (simp add: pmm_inv_def n_words_def) (simp add: sample_pmm_def low_pmm_def)
  with fr have "vm_inv (sample_mm\<lparr>pmm := ?pm\<rparr>)" by (intro sample_vm_inv_pool) simp_all
  moreover have "\<forall>a \<in> region 0xD0000000 HEAP_LIMIT. mmu sample_mm a = None"
    using region_dir [OF _ order_refl] sample_unmapped by blast
  ultimately have "heap_inv 0xD0000000 [] (\<lambda>_. 0) ?h"
    by (auto simp add: heap_inv_def heap_mem_def list_ok_def sample_heap_def mapped_region_def region_def HEAP_LIMIT_def)
  then show ?thesis
    using fr by (intro kmalloc_out_of_frames [where base = "0xD0000000" and bs = "[]"]) (simp_all add: heap_reserve_def real_size_of_def HEAP_LIMIT_def)
qed

text \<open>
  C31: the size computation of \<open>kmalloc\<close> wraps: a request of \<open>0xFFFFFFE9\<close> to \<open>0xFFFFFFF8\<close> bytes becomes a
  request for 0 bytes, which the first free block satisfies. The call reports success, and the block's
  header then says that it has size 0.
\<close>

theorem kmalloc_size_wraps:
  assumes "heap_inv base (xs @ [(k, True)] @ ys) v h" "\<forall>b \<in> set xs. \<not> snd b" "0xFFFFFFE9 \<le> n" "n \<le> 0xFFFFFFF8"
  shows "\<exists>h'. kmalloc n h = Some (Inr (of_nat (base + blocks_size xs + 8), h'))
    \<and> hload (of_nat (base + blocks_size xs)) h' = Inr 0"
proof -
  define hi where "hi = base + blocks_size (xs @ [(k, True)] @ ys)" define c where "c = base + blocks_size xs"
  note f = heap_inv_frame [OF assms(1) hi_def] and l = list_ok_wf [OF heap_inv_frame(2) [OF assms(1) hi_def] c_def refl]
  have k: "16 dvd k" "k < 2 ^ 32" "16 \<le> k" "v c = header (k, True)" using l f(3) by (auto simp add: hi_def intro: dvd_imp_le)
  have rg: "base \<le> c \<and> c < hi" "base \<le> c + 4 \<and> c + 4 < hi" using k by (simp_all add: c_def hi_def)
  have u: "unat n \<ge> 0xFFFFFFE9" "unat n \<le> 0xFFFFFFF8" using assms(3,4) by (simp_all add: word_le_nat_alt)
  then have "unat (n + SIZEOF_HEADER + 15) = (unat n + 23) mod 2 ^ 32" by (simp add: SIZEOF_HEADER_def unat_word_ariths mod_simps add.assoc)
  also have "\<dots> = unat n + 23 - 2 ^ 32" using u by (subst mod_if) simp
  finally have "unat ((n + SIZEOF_HEADER + 15) AND NOT 0xF) = 0"
    using unat_and_not_mask [of "n + SIZEOF_HEADER + 15" 4] u by (simp add: numeral_mask_4 [symmetric])
  then have rs: "(n + SIZEOF_HEADER + 15) AND NOT 0xF = of_nat 0" by (simp add: word_unat_eq_iff)
  have as: "free_addrs base xs = []" by (rule no_free_addrs) (use assms(2) in auto)
  have small: "\<forall>m. (m, True) \<in> set xs \<longrightarrow> m < 0" using assms(2) by auto
  note hit = find_fit_hit [OF assms(1) _ _ small c_def]
  have "\<not> n \<le> 0" using u by (simp add: word_le_nat_alt)
  then have km: "kmalloc n h = Some (take_block (of_nat 0) (of_nat c) (prev_ptr []) h)"
    using hit as by (simp only: kmalloc_def if_False Let_def rs option.case andthen_simps prod.case) simp
  have vc: "(v c AND NOT 1) - of_nat 0 = of_nat k" using header_word(1) [OF k(1,2), of True] k(4) by simp
  have rc: "SIZEOF_HEADER + 4 \<le> (of_nat k :: u32)" using k by (simp add: SIZEOF_HEADER_def word_le_nat_alt unat_of_nat)
  have "runs (take_block (of_nat 0) (of_nat c) (prev_ptr []) h) (\<lambda>(a, h'). a = of_nat (c + 8) \<and> hload (of_nat c) h' = Inr 0)"
    unfolding take_block_def field_nat
    by (rule runs_load [OF f(1) rg(1)], simp only: Let_def vc rc if_True andthen_assoc field_nat field_nat_add add_0_right,
        rule runs_store [OF f(1) rg(1)], (rule run_rules, assumption, rule rg)+, rule runs_relink, assumption, simp,
        rule runs_Inr) (use heap_at_load rg in \<open>fastforce simp add: relink_val_def\<close>)
  then show ?thesis unfolding km runs_def c_def by auto
qed

theorem kmalloc_size_wraps_witness:
  "\<exists>h h'. kmalloc 0xFFFFFFF0 h = Some (Inr (of_nat (0xD0000070 + 8), h'))"
proof -
  obtain h v where h: "heap_inv 0xD0000000 ([(112, False)] @ [(3984, True)] @ []) v h"
    using kmalloc_ok [OF sample_heap_inv sample_heap_serves]
    by (auto simp add: malloc_spec_def real_size_of_def pages_for_def)
  from kmalloc_size_wraps [OF h, of "0xFFFFFFF0"] show ?thesis by auto
qed

end
