(* ===== verification/Sync_Props.thy ===== *)
theory Sync_Props
  imports Sync_History Sched_Props Kmalloc_Props
begin

text \<open>
  The properties of semaphores and mutexes, with a small concrete system on which they are applied.
\<close>

section \<open>Specification vocabulary\<close>

definition sample_sync :: "waitq set" where
  "sample_sync = {Mtx 0x100, Sem 0x200}"

text \<open>The sample system with a mutex and a semaphore of one token, first unused, then with the mutex held by the
  running thread and one thread waiting for it.\<close>

definition sample_kernel :: kernel_state where
  "sample_kernel = \<lparr>sched = sample_sched,
     semaphores = (\<lambda>_. \<lparr>max_count = 1, current_count = 0, sem_first_waiting_thread = 0, sem_last_waiting_thread = 0\<rparr>),
     mutexes = (\<lambda>_. \<lparr>owner_thread = 0, mtx_first_waiting_thread = 0, mtx_last_waiting_thread = 0\<rparr>), kheap = sample_heap\<rparr>"

definition sample_busy :: kernel_state where
  "sample_busy = sample_kernel\<lparr>sched := sample_sched\<lparr>tcbs := (tcbs sample_sched)(0x70 := sample_tcb THREAD_BLOCKED 0 1 0)\<rparr>,
     mutexes := (mutexes sample_kernel)(0x100 := \<lparr>owner_thread = 0x20, mtx_first_waiting_thread = 0x70, mtx_last_waiting_thread = 0x70\<rparr>)\<rparr>"

section \<open>Lemmas\<close>

lemma sample_kernel_ok: "sync_ok sample_kernel sample_ready [0x60] [] sample_sync (\<lambda>_. [])"
proof -
  have "waiting sample_sync (\<lambda>_. []) sample_sched = Map.empty" by (simp add: waiting_def blocked_def fun_eq_iff)
  then show ?thesis using sample_sched_ok
    by (auto simp add: sync_ok_def wait_lists_def counts_ok_def sample_sync_def sample_kernel_def)
qed

lemma sample_calm_kernel: "calm (sched sample_kernel)" "calm (sched sample_busy)"
  using sample_quiet by (simp_all add: calm_def quiet_def sample_sched_def sample_kernel_def sample_busy_def)

lemma sample_unused: "w \<in> sample_sync \<Longrightarrow> unused w sample_kernel"
  by (auto simp add: sample_sync_def sample_kernel_def)

lemma sample_busy_ok: "sync_ok sample_busy sample_ready [0x60] [] sample_sync ((\<lambda>_. [])(Mtx 0x100 := [0x70]))"
proof -
  let ?Q = "(\<lambda>_. [])(Mtx 0x100 := [0x70])" and ?s = "sched sample_busy"
  have b: "blocked sample_sync ?Q = {0x70}" by (auto simp add: blocked_def sample_sync_def)
  have e: "sched_core sample_sched sample_ready [0x60] [] Map.empty" using sample_sched_ok by (simp add: sched_ok_def)
  have "sched_core ?s sample_ready [0x60] [] Map.empty"
    by (rule sched_coreI) (auto simp add: sample_busy_def sample_kernel_def sample_sched_def sample_ready_def sample_tcb_def queue_ok_def dest!: less_3_cases)
  then have "sched_core ?s sample_ready [0x60] [] (waiting sample_sync ?Q ?s)"
    by (subst core_split) (auto simp add: waiting_def b sample_busy_def sample_tcb_def)
  then have "sched_ok ?s sample_ready [0x60] [] (waiting sample_sync ?Q ?s)"
    by (simp add: sched_ok_def b sample_busy_def sample_kernel_def sample_sched_def sample_tcb_def)
  moreover have "wait_lists sample_busy sample_sync ?Q"
    by (auto simp add: wait_lists_def sample_sync_def sample_busy_def sample_kernel_def sample_tcb_def)
  moreover have "counts_ok sample_busy sample_sync ?Q"
    by (auto simp add: counts_ok_def sample_sync_def sample_busy_def sample_kernel_def)
  ultimately show ?thesis by (simp add: sync_ok_def)
qed

text \<open>
  C11: Acquiring a semaphore or a mutex. While a token is left, or the mutex has no owner, the call takes it and
  the calling thread goes on; nothing else changes. Otherwise the calling thread joins the back of
  the object's queue, count and owner stay, and the head of the first non-empty ready queue runs,
  or the idle thread. Both ways all lists stay well formed and interrupts are unlocked again.
\<close>

theorem acquire_contract:
  assumes "sync_ok k R S D X Q" "calm (sched k)" "w \<in> X" "current_thread (sched k) \<noteq> idle_thread (sched k)"
  defines "c \<equiv> current_thread (sched k)" and "P \<equiv> pick (idle_thread (sched k)) R"
  shows "settled (sched k) (sched (acquire w k)) \<and> calm (sched (acquire w k))
    \<and> (if available w k
       then sync_ok (acquire w k) R S D X Q \<and> current_thread (sched (acquire w k)) = c
         \<and> semaphores (acquire w k) = semaphores (take_token w c k) \<and> mutexes (acquire w k) = mutexes (take_token w c k)
       else sync_ok (acquire w k) (snd P) S D X (Q(w := Q w @ [c])) \<and> current_thread (sched (acquire w k)) = fst P
         \<and> (\<forall>x. current_count (semaphores (acquire w k) x) = current_count (semaphores k x)
              \<and> owner_thread (mutexes (acquire w k) x) = owner_thread (mutexes k x)))"
proof (cases "available w k")
  case True
  then show ?thesis using acquire_free_ok [OF assms(1-3) True] unfolding c_def by (simp add: acquire_eq)
next
  case False
  have "current_count (semaphores (acquire w k) x) = current_count (semaphores k x)" "owner_thread (mutexes (acquire w k) x) = owner_thread (mutexes k x)" for x
    using False by (simp_all add: acquire_eq waiter_def Let_def wq_append_counts)
  then show ?thesis using acquire_wait_ok [OF assms(1-3) False assms(4)] False unfolding c_def P_def by simp
qed

theorem acquire_contract_witness:
  "current_thread (sched (acquire (Mtx 0x100) sample_busy)) = 0x30
    \<and> sync_ok (acquire (Mtx 0x100) sample_busy) (sample_ready(0 := [0x40])) [0x60] [] sample_sync ((\<lambda>_. [])(Mtx 0x100 := [0x70, 0x20]))"
proof -
  have "pick (idle_thread (sched sample_busy)) sample_ready = (0x30, sample_ready(0 := [0x40]))"
    by (simp add: pick_def sample_ready_def)
  then show ?thesis using acquire_contract [OF sample_busy_ok sample_calm_kernel(2), of "Mtx 0x100"]
    by (simp add: sample_sync_def sample_busy_def sample_kernel_def sample_sched_def)
qed

text \<open>
  C10: Releasing a semaphore or a mutex. With nobody waiting the token or the ownership goes back and the calling
  thread goes on. With threads waiting it is handed to the one that has waited longest: that thread leaves
  the queue and becomes ready at its own level, a mutex is owned by it at once and a semaphore's count does
  not change, so that no third thread can take it in between; then the scheduler picks the next thread.
\<close>

theorem release_contract:
  assumes "sync_ok k R S D X Q" "calm (sched k)" "w \<in> X"
  shows "settled (sched k) (sched (release w k)) \<and> calm (sched (release w k))
    \<and> (case Q w of
         [] \<Rightarrow> sync_ok (release w k) R S D X Q \<and> current_thread (sched (release w k)) = current_thread (sched k)
           \<and> semaphores (release w k) = semaphores (give_token w k) \<and> mutexes (release w k) = mutexes (give_token w k)
       | t # ts \<Rightarrow>
           let P = pick (idle_thread (sched k)) (release_lists (sched k) t R)
           in sync_ok (release w k) (snd P) S D X (Q(w := ts)) \<and> current_thread (sched (release w k)) = fst P
             \<and> (\<forall>x. current_count (semaphores (release w k) x) = current_count (semaphores k x)
                  \<and> owner_thread (mutexes (release w k) x) = (if w = Mtx x then t else owner_thread (mutexes k x))))"
proof (cases "Q w")
  case Nil
  then have "wq_head w k = 0" using sync_okD(6) [OF assms(1,3)] by simp
  then show ?thesis using release_idle_ok [OF assms Nil] Nil by (simp add: release_eq)
next
  case (Cons t ts)
  then have h: "wq_head w k = t" "t \<noteq> 0" using sync_okD(6) [OF assms(1,3)] by simp_all
  have "current_count (semaphores (release w k) x) = current_count (semaphores k x)"
    "owner_thread (mutexes (release w k) x) = (if w = Mtx x then t else owner_thread (mutexes k x))" for x
    using h by (cases w; simp add: release_eq Let_def)+
  then show ?thesis using release_wake_ok [OF assms Cons] Cons by (simp add: Let_def)
qed

theorem release_contract_witness:
  "owner_thread (mutexes (release (Mtx 0x100) sample_busy) 0x100) = 0x70 \<and> current_thread (sched (release (Mtx 0x100) sample_busy)) = 0x30
    \<and> sync_ok (release (Mtx 0x100) sample_busy) (sample_ready(0 := [0x40, 0x20], 1 := [0x70])) [0x60] [] sample_sync (\<lambda>_. [])"
proof -
  have "pick (idle_thread (sched sample_busy)) (release_lists (sched sample_busy) 0x70 sample_ready) = (0x30, sample_ready(0 := [0x40, 0x20], 1 := [0x70]))"
    by (auto simp add: pick_def requeue_def release_lists_def sample_ready_def sample_busy_def sample_kernel_def sample_sched_def sample_tcb_def fun_eq_iff)
  moreover have "((\<lambda>_. [])(Mtx 0x100 := [0x70]))(Mtx 0x100 := []) = (\<lambda>_. [] :: u32 list)" by auto
  ultimately show ?thesis using release_contract [OF sample_busy_ok sample_calm_kernel(2), of "Mtx 0x100"]
    by (simp add: sample_sync_def)
qed



text \<open>
  C8: Mutual exclusion. Starting from unused objects, and as long as threads acquire an object they do not hold and
  release one they hold, the threads that are past their acquire of a semaphore and not yet at their release
  are never more than its limit, and of a mutex exactly its owner. The others that
  called acquire are the queue of waiting threads; a queue only exists while the object is exhausted,
  and the running thread is never in one.
\<close>

theorem mutual_exclusion:
  assumes "sync_ok k0 R S D X (\<lambda>_. [])" "calm (sched k0)" "\<And>w. w \<in> X \<Longrightarrow> unused w k0"
    and "holds_reaches X k0 k H" "w \<in> X"
  shows "\<exists>ts. queued k w ts \<and> set ts \<subseteq> H w \<and> current_thread (sched k) \<notin> set ts
    \<and> finite (H w - set ts) \<and> card (H w - set ts) \<le> capacity w k \<and> (ts = [] \<or> card (H w - set ts) = capacity w k)
    \<and> (\<forall>x. w = Mtx x \<longrightarrow> H w - set ts = (if owner_thread (mutexes k x) = 0 then {} else {owner_thread (mutexes k x)}))"
proof -
  obtain R S D Q where k: "sync_ok k R S D X Q" "\<forall>w \<in> X. holders_ok k Q H w"
    using holders_preserved [OF assms(4,1,2,3)] by blast
  note h = bspec [OF k(2) assms(5)]
  note c = holders_capacity [OF h sync_okD(3) [OF k(1)] assms(5)]
  have "queued k w (Q w)" using sync_okD(6) [OF k(1) assms(5)] by (simp add: queued_def)
  moreover have "current_thread (sched k) \<notin> set (Q w)" using sync_okD(5) [OF k(1)] blocked_I [OF assms(5)] by blast
  moreover have "\<forall>x. w = Mtx x \<longrightarrow> H w - set (Q w) = (if owner_thread (mutexes k x) = 0 then {} else {owner_thread (mutexes k x)})"
    using h by auto
  ultimately show ?thesis using c by blast
qed

theorem mutual_exclusion_witness:
  "\<exists>ts. queued (acquire (Mtx 0x100) sample_kernel) (Mtx 0x100) ts \<and> {0x20} - set ts = {0x20}"
proof -
  have "holds_reaches sample_sync sample_kernel (acquire (Mtx 0x100) sample_kernel)
    ((\<lambda>_. {})(Mtx 0x100 := insert (current_thread (sched sample_kernel)) {}))"
    by (rule holds_acquire [OF holds_start]) (simp_all add: sample_sync_def sample_kernel_def sample_sched_def)
  from mutual_exclusion [OF sample_kernel_ok sample_calm_kernel(1) sample_unused this, of "Mtx 0x100"]
  obtain ts where "queued (acquire (Mtx 0x100) sample_kernel) (Mtx 0x100) ts" "set ts \<subseteq> {0x20}"
     "current_thread (sched (acquire (Mtx 0x100) sample_kernel)) \<notin> set ts"
    by (auto simp add: sample_sync_def sample_kernel_def sample_sched_def)
  moreover have "current_thread (sched (acquire (Mtx 0x100) sample_kernel)) = 0x20"
    using acquire_free_ok(4) [OF sample_kernel_ok sample_calm_kernel(1), of "Mtx 0x100"]
    by (simp add: sample_sync_def sample_kernel_def sample_sched_def)
  ultimately show ?thesis by auto
qed

end
