(* ===== verification/Heap_Budget.thy ===== *)
theory Heap_Budget
  imports Kmalloc_Props
begin

text \<open>
  How far the heap can still grow, and that every request and every free keeps account of it: the heap is an instance of the
  allocator interface with a budget.
\<close>

section \<open>Specification vocabulary\<close>

text \<open>
  How many more pages of heap a state can supply: each page of growth may cost two frames, one for the page and one for a page table.
\<close>

definition heap_room :: "nat \<Rightarrow> heap_state \<Rightarrow> bool" where
  "heap_room m h \<longleftrightarrow> unat (heap_watermark h) + 4096 * m \<le> HEAP_LIMIT \<and> 2 * m \<le> heap_reserve h"

definition heap_cost :: "u32 \<Rightarrow> nat" where
  "heap_cost n = pages_for (real_size_of (unat n))"

definition heap_size :: "u32 \<Rightarrow> bool" where
  "heap_size n \<longleftrightarrow> 0 < n \<and> n \<le> 0xFFFFFFE8"

section \<open>Lemmas\<close>

lemma heap_room_mono: "heap_room m h \<Longrightarrow> k \<le> m \<Longrightarrow> heap_room k h"
  by (auto simp add: heap_room_def)

lemma room_serves: "heap_size n \<Longrightarrow> heap_room (heap_cost n + m) h \<Longrightarrow> safe_request n h"
  by (simp add: heap_size_def heap_room_def heap_cost_def safe_request_def)

lemma watermark_nat: "heap_inv base bs v h \<Longrightarrow> unat (heap_watermark h) = base + blocks_size bs"
  using heap_inv_size [of base bs v h] by (simp add: heap_inv_def HEAP_LIMIT_def unat_of_nat del: of_nat_add)

lemma malloc_spec_size:
  assumes "0 < n"
  shows "blocks_size (snd (malloc_spec (real_size_of n) bs)) = blocks_size bs + (if fit (real_size_of n) bs = None then 4096 * pages_for (real_size_of n) else 0)"
proof (cases "fit (real_size_of n) bs")
  case None
  have "real_size_of n \<le> 4096 * pages_for (real_size_of n)" by (simp add: pages_for_def)
  then show ?thesis using None by (simp add: malloc_spec_def)
next
  case (Some z)
  obtain xs k ys where z: "z = (xs, k, ys)" by (cases z)
  then show ?thesis using fit_Some [of "real_size_of n" bs xs k ys] Some by (auto simp add: malloc_spec_def)
qed

lemma kmalloc_room:
  assumes inv: "heap_inv base bs v h" and n: "heap_size n" and room: "heap_room (heap_cost n + m) h" and r: "kmalloc n h = Some (Inr (a, h'))"
  shows "heap_room m h'"
proof -
  have b: "0 < unat n" "unat n + 23 < 2 ^ 32" using n by (simp_all add: heap_size_def word_le_nat_alt word_less_nat_alt)
  let ?r = "real_size_of (unat n)"
  note w = watermark_nat [OF inv]
  show ?thesis
  proof (cases "fit ?r bs")
    case None
    have "base + blocks_size bs + 4096 * pages_for ?r \<le> HEAP_LIMIT" "2 * pages_for ?r \<le> heap_reserve h"
      using room w by (simp_all add: heap_room_def heap_cost_def)
    from kmalloc_grow [OF inv b None refl this] obtain v' where "heap_inv base (snd (malloc_spec ?r bs)) v' h'" "heap_reserve h \<le> heap_reserve h' + 2 * pages_for ?r"
      using r by auto
    then show ?thesis using room w None watermark_nat [of base "snd (malloc_spec ?r bs)" v' h'] malloc_spec_size [OF b(1), of bs]
      by (simp add: heap_room_def heap_cost_def)
  next
    case (Some z)
    obtain xs k ys where z: "z = (xs, k, ys)" by (cases z)
    from kmalloc_fit [OF inv b, of xs k ys] obtain v' where "heap_inv base (snd (malloc_spec ?r bs)) v' h'" "heap_reserve h' = heap_reserve h"
      using r Some z by auto
    then show ?thesis using room w Some watermark_nat [of base "snd (malloc_spec ?r bs)" v' h'] malloc_spec_size [OF b(1), of bs]
      by (simp add: heap_room_def heap_cost_def)
  qed
qed

lemma kfree_room:
  assumes "heap_state_ok base h L" "a \<in> L" "kfree a h = Some (Inr h')" "heap_room m h"
  shows "heap_room m h'"
proof -
  obtain bs v where bs: "heap_inv base bs v h" "L = (\<lambda>c. of_nat (c + 8)) ` used_addrs base bs"
    using assms(1) by (auto simp add: heap_state_ok_def)
  then obtain xs n ys where xs: "bs = xs @ [(n, False)] @ ys" "a = of_nat (base + blocks_size xs + 8)"
    using assms(2) used_addrs_split by blast
  obtain v' where v': "heap_inv base (merge_left xs (merge_right n ys)) v' h'" "heap_reserve h' = heap_reserve h"
    using kfree_merges [of base xs n ys v h] bs(1) xs assms(3) by auto
  have "blocks_size (merge_left xs (merge_right n ys)) = blocks_size bs"
    using merge_right_hd [of n ys] merge_left_size merge_right_size [of n ys] by (auto simp add: xs)
  then show ?thesis using watermark_nat [OF v'(1)] watermark_nat [OF bs(1)] v'(2) assms(4) by (simp add: heap_room_def)
qed

interpretation kheap_room: budget_allocator "heap_state_ok base" kmalloc kfree safe_request heap_size heap_cost heap_room for base
proof unfold_locales
  fix n m h assume "heap_size n" "heap_room (heap_cost n + m) h"
  then show "safe_request n h" by (rule room_serves)
next
  fix h L n m a h' assume "heap_state_ok base h L" "heap_size n" "heap_room (heap_cost n + m) h" "kmalloc n h = Some (Inr (a, h'))"
  then show "heap_room m h'" using kmalloc_room by (auto simp add: heap_state_ok_def)
next
  fix h L a h' m assume "heap_state_ok base h L" "a \<in> L" "kfree a h = Some (Inr h')" "heap_room m h"
  then show "heap_room m h'" by (rule kfree_room)
qed

end
