(* ===== verification/Thread_Ops.thy ===== *)
theory Thread_Ops
  imports Sync_Props Heap_Budget
begin

text \<open>
  What thread creation and the cleaner do: the frame a new thread starts from, the queue it joins, and the memory that
  is taken from and given back to the heap.
\<close>

section \<open>Specification vocabulary\<close>

text \<open>A thread that is suspended: its stack holds the registers a switch to it will load.\<close>

definition parked :: "u32 \<Rightarrow> cpu_state \<Rightarrow> sched_state \<Rightarrow> bool" where
  "parked t c s \<longleftrightarrow> (let p = esp (tcbs s t) in r_esp c = p + 24 \<and> mem s p = r_edi c \<and> mem s (p + 4) = r_esi c \<and> mem s (p + 8) = r_ebx c
     \<and> mem s (p + 12) = r_ebp c \<and> mem s (p + 16) = eflags c \<and> mem s (p + 20) = r_eip c)"

text \<open>The five words a switch pushes do not overlap the frame of thread \<open>t\<close>.\<close>

definition frame_apart :: "u32 \<Rightarrow> sched_state \<Rightarrow> bool" where
  "frame_apart t s \<longleftrightarrow> (\<forall>i \<in> {4, 8, 12, 16, 20}. \<forall>j \<in> {0, 4, 8, 12, 16, 20}. r_esp (cpu s) - i \<noteq> esp (tcbs s t) + j)"

text \<open>The registers with which a new thread starts.\<close>

definition start_cpu :: "u32 \<Rightarrow> u32 \<Rightarrow> cpu_state" where
  "start_cpu base entry = \<lparr>r_esp = base + 4096, r_ebp = 0, r_ebx = 0, r_esi = 0, r_edi = 0, eflags = 0x202, r_eip = entry\<rparr>"

text \<open>The scheduler after \<open>create_kernel_thread\<close> has got the addresses \<open>t\<close> and \<open>b\<close> from the heap.\<close>

definition with_thread :: "code_addresses \<Rightarrow> u32 \<Rightarrow> u32 \<Rightarrow> u32 \<Rightarrow> sched_state \<Rightarrow> sched_state" where
  "with_thread code entry_point t b s =
     (let s2 = (push_initial_frame (b + 4096 - 24) entry_point (addr_thread_exit code) s)\<lparr>last_id := last_id s + 1\<rparr>
      in enqueue_thread t 0 (upd_tcb t (\<lambda>c. c\<lparr>esp := b + 4096 - 24, stack_base := b, state := THREAD_READY, time_used := 0,
           priority := 0, thread_id := last_id s + 1, remaining_time := FIRST_LIMIT, saved_interrupt_state := 0x202\<rparr>) s2))"

text \<open>What the cleaner gives back for the terminated threads \<open>D\<close>: for each its stack, then its control block.\<close>

definition owned :: "sched_state \<Rightarrow> u32 list \<Rightarrow> u32 list" where
  "owned s D = concat (map (\<lambda>t. [stack_base (tcbs s t), t]) D)"

text \<open>The scheduler's variables before \<open>initialize_multitasking\<close>, as the loader cleared them.\<close>

definition booted :: "sched_state \<Rightarrow> bool" where
  "booted s \<longleftrightarrow> (\<forall>q. first_ready_to_run_thread_list s q = 0) \<and> (\<forall>q. last_ready_to_run_thread_list s q = 0)
     \<and> sleeping_thread_queue s = 0 \<and> terminated_thread_queue s = 0"

section \<open>Lemmas\<close>

lemma kbind_simps [simp]: "kbind None f = None" "kbind (Some (Inl e)) f = Some (Inl e)" "kbind (Some (Inr a)) f = f a"
  by (simp_all add: kbind_def)

lemma switch_unparks:
  assumes p: "parked t c s" and a: "frame_apart t s"
  shows "cpu (switch_to_task prev (esp (tcbs s t)) s) = c"
proof -
  have n: "r_esp (cpu s) - i \<noteq> esp (tcbs s t) + j" if "i \<in> {4, 8, 12, 16, 20}" "j \<in> {0, 4, 8, 12, 16, 20}" for i j
    using a that unfolding frame_apart_def by blast
  have "mem (switch_to_task prev x s) (esp (tcbs s t) + j) = mem s (esp (tcbs s t) + j)" if "j \<in> {0, 4, 8, 12, 16, 20}" for x j
    using n [of 4 j] n [of 8 j] n [of 12 j] n [of 16 j] n [of 20 j] that unfolding switch_to_task_def Let_def
    by (simp add: eq_commute [of "esp (tcbs s t) + j"])
  from this [of 0] this [of 4] this [of 8] this [of 12] this [of 16] this [of 20] p
  show ?thesis by (simp add: switch_to_task_def Let_def parked_def)
qed

lemma push_frame_fields [simp]:
  "tcbs (push_initial_frame a e x s) = tcbs s" "last_id (push_initial_frame a e x s) = last_id s"
  "current_thread (push_initial_frame a e x s) = current_thread s" "idle_thread (push_initial_frame a e x s) = idle_thread s"
  "cpu (push_initial_frame a e x s) = cpu s" "IRQ_disable_counter (push_initial_frame a e x s) = IRQ_disable_counter s"
  "first_ready_to_run_thread_list (push_initial_frame a e x s) = first_ready_to_run_thread_list s"
  "last_ready_to_run_thread_list (push_initial_frame a e x s) = last_ready_to_run_thread_list s"
  "sleeping_thread_queue (push_initial_frame a e x s) = sleeping_thread_queue s"
  "terminated_thread_queue (push_initial_frame a e x s) = terminated_thread_queue s"
  "postpone_switches_counter (push_initial_frame a e x s) = postpone_switches_counter s" "counter (push_initial_frame a e x s) = counter s"
  "postponed_yield_flag (push_initial_frame a e x s) = postponed_yield_flag s" "system_ticks (push_initial_frame a e x s) = system_ticks s"
  by (simp_all add: push_initial_frame_def)

lemma push_frame_mem:
  "mem (push_initial_frame a e x s) a = 0" "mem (push_initial_frame a e x s) (a + 4) = 0" "mem (push_initial_frame a e x s) (a + 8) = 0"
  "mem (push_initial_frame a e x s) (a + 12) = 0" "mem (push_initial_frame a e x s) (a + 16) = 0x202"
  "mem (push_initial_frame a e x s) (a + 20) = e" "mem (push_initial_frame a e x s) (a + 24) = x"
  "y \<notin> {a, a + 4, a + 8, a + 12, a + 16, a + 20, a + 24} \<Longrightarrow> mem (push_initial_frame a e x s) y = mem s y"
  by (simp_all add: push_initial_frame_def)

lemma with_thread_fields:
  "current_thread (with_thread code e t b s) = current_thread s" "idle_thread (with_thread code e t b s) = idle_thread s"
  "cpu (with_thread code e t b s) = cpu s" "IRQ_disable_counter (with_thread code e t b s) = IRQ_disable_counter s"
  "postpone_switches_counter (with_thread code e t b s) = postpone_switches_counter s" "counter (with_thread code e t b s) = counter s"
  "postponed_yield_flag (with_thread code e t b s) = postponed_yield_flag s" "system_ticks (with_thread code e t b s) = system_ticks s"
  "last_id (with_thread code e t b s) = last_id s + 1"
  "mem (with_thread code e t b s) = mem (push_initial_frame (b + 4096 - 24) e (addr_thread_exit code) s)"
  by (simp_all add: with_thread_def Let_def)

lemma enqueue_others: "u \<noteq> t \<Longrightarrow> (tcbs (enqueue_thread t p s) u)\<lparr>next_thread := 0\<rparr> = (tcbs s u)\<lparr>next_thread := 0\<rparr>"
  "(tcbs (enqueue_thread t p s) t)\<lparr>next_thread := 0\<rparr> = (tcbs s t)\<lparr>next_thread := 0, priority := p\<rparr>"
  by (auto simp add: enqueue_thread_def Let_def)

lemma tcb_eq_fields:
  assumes "c\<lparr>next_thread := 0\<rparr> = d\<lparr>next_thread := 0\<rparr>"
  shows "esp c = esp d" "state c = state d" "priority c = priority d" "stack_base c = stack_base d" "remaining_time c = remaining_time d"
    "thread_id c = thread_id d" "saved_interrupt_state c = saved_interrupt_state d" "time_used c = time_used d" "wake_time c = wake_time d"
  using assms by (metis thread_control_block.select_convs thread_control_block.surjective thread_control_block.update_convs(4))+

lemma with_thread_other: "u \<noteq> t \<Longrightarrow> (tcbs (with_thread code e t b s) u)\<lparr>next_thread := 0\<rparr> = (tcbs s u)\<lparr>next_thread := 0\<rparr>"
  by (simp add: with_thread_def Let_def enqueue_others)

lemma with_thread_new:
  shows "esp (tcbs (with_thread code e t b s) t) = b + 4072" "state (tcbs (with_thread code e t b s) t) = THREAD_READY"
    "priority (tcbs (with_thread code e t b s) t) = 0" "stack_base (tcbs (with_thread code e t b s) t) = b"
    "remaining_time (tcbs (with_thread code e t b s) t) = FIRST_LIMIT" "thread_id (tcbs (with_thread code e t b s) t) = last_id s + 1"
    "saved_interrupt_state (tcbs (with_thread code e t b s) t) = 0x202" "time_used (tcbs (with_thread code e t b s) t) = 0"
proof -
  let ?s = "upd_tcb t (\<lambda>c. c\<lparr>esp := b + 4096 - 24, stack_base := b, state := THREAD_READY, time_used := 0,
           priority := 0, thread_id := last_id s + 1, remaining_time := FIRST_LIMIT, saved_interrupt_state := 0x202\<rparr>)
             ((push_initial_frame (b + 4096 - 24) e (addr_thread_exit code) s)\<lparr>last_id := last_id s + 1\<rparr>)"
  have "(tcbs (with_thread code e t b s) t)\<lparr>next_thread := 0\<rparr> = ((tcbs ?s t)\<lparr>priority := 0\<rparr>)\<lparr>next_thread := 0\<rparr>"
    unfolding with_thread_def Let_def enqueue_others by simp
  from tcb_eq_fields [OF this]
  show "esp (tcbs (with_thread code e t b s) t) = b + 4072" "state (tcbs (with_thread code e t b s) t) = THREAD_READY"
    "priority (tcbs (with_thread code e t b s) t) = 0" "stack_base (tcbs (with_thread code e t b s) t) = b"
    "remaining_time (tcbs (with_thread code e t b s) t) = FIRST_LIMIT" "thread_id (tcbs (with_thread code e t b s) t) = last_id s + 1"
    "saved_interrupt_state (tcbs (with_thread code e t b s) t) = 0x202" "time_used (tcbs (with_thread code e t b s) t) = 0"
    by simp_all
qed

lemma with_thread_parked: "parked t (start_cpu b e) (with_thread code e t b s)"
  "mem (with_thread code e t b s) (b + 4096) = addr_thread_exit code"
proof -
  have a: "b + 4072 = b + 4096 - 24" by simp
  show "parked t (start_cpu b e) (with_thread code e t b s)"
    unfolding parked_def with_thread_new(1) with_thread_fields a Let_def push_frame_mem by (simp add: start_cpu_def)
  show "mem (with_thread code e t b s) (b + 4096) = addr_thread_exit code"
    using push_frame_mem(7) [of "b + 4096 - 24"] unfolding with_thread_fields diff_add_cancel .
qed

lemma with_thread_ok:
  assumes ok: "sched_ok s R S D W" and t: "t \<notin> threads s R S D W" "t \<noteq> 0"
  shows "sched_ok (with_thread code e t b s) (R(0 := R 0 @ [t])) S D W"
proof -
  let ?f = "\<lambda>c. c\<lparr>esp := b + 4096 - 24, stack_base := b, state := THREAD_READY, time_used := 0,
           priority := 0, thread_id := last_id s + 1, remaining_time := FIRST_LIMIT, saved_interrupt_state := 0x202\<rparr>"
  let ?s2 = "(push_initial_frame (b + 4096 - 24) e (addr_thread_exit code) s)\<lparr>last_id := last_id s + 1\<rparr>"
  note o = sched_okD [OF ok]
  have n: "t \<noteq> current_thread s" "t \<noteq> idle_thread s" "t \<notin> listed R S D W" using t(1) by (simp_all add: threads_def)
  have "sched_core ?s2 R S D W" by (rule core_same [OF o(1)]) simp_all
  then have "sched_core (upd_tcb t ?f ?s2) R S D W" by (rule core_upd) (use n in simp_all)
  then have "sched_core (with_thread code e t b s) (R(unat (0 :: u8) := R (unat (0 :: u8)) @ [t])) S D W"
    unfolding with_thread_def Let_def using n t(2) listed_ready [where R = R] by (intro enqueue_core) auto
  moreover note tcb_eq_fields [OF with_thread_other [OF n(1) [symmetric]]] tcb_eq_fields [OF with_thread_other [OF n(2) [symmetric]]]
  ultimately show ?thesis unfolding sched_ok_def with_thread_fields using o(2-4,6,7) by simp
qed

lemma create_eq:
  assumes "kmalloc SIZEOF_TCB (kheap k) = Some (Inr (t, h1))" "kmalloc 4096 h1 = Some (Inr (b, h2))"
  shows "create_kernel_thread code e k = Some (Inr (k\<lparr>kheap := h2, sched := with_thread code e t b (sched k)\<rparr>))"
  using assms by (simp add: create_kernel_thread_def kmalloc_k_def with_thread_def Let_def)

lemma thread_sizes: "heap_size SIZEOF_TCB" "heap_size 4096" "heap_cost SIZEOF_TCB = 1" "heap_cost 4096 = 2"
  by (simp_all add: heap_size_def heap_cost_def SIZEOF_TCB_def pages_for_def real_size_of_def)

lemma create_thread_ok:
  assumes "sched_ok (sched k) R S D W" "heap_state_ok base (kheap k) L" "heap_room (3 + m) (kheap k)" "threads (sched k) R S D W \<subseteq> L"
  obtains t b h where "create_kernel_thread code e k = Some (Inr (k\<lparr>kheap := h, sched := with_thread code e t b (sched k)\<rparr>))"
    "heap_state_ok base h (insert b (insert t L))" "heap_room m h" "t \<notin> L" "b \<notin> L" "t \<noteq> b" "t \<noteq> 0" "b \<noteq> 0"
    "sched_ok (with_thread code e t b (sched k)) (R(0 := R 0 @ [t])) S D W"
proof -
  have "heap_cost SIZEOF_TCB + (heap_cost 4096 + m) = 3 + m" by (simp add: thread_sizes)
  then have "heap_room (heap_cost SIZEOF_TCB + (heap_cost 4096 + m)) (kheap k)" using assms(3) by (simp only:)
  then obtain t h1 b h2 where h: "kmalloc SIZEOF_TCB (kheap k) = Some (Inr (t, h1))" "kmalloc 4096 h1 = Some (Inr (b, h2))"
    "heap_state_ok base h2 (insert b (insert t L))" "t \<noteq> 0" "b \<noteq> 0" "t \<notin> L" "b \<notin> L" "t \<noteq> b" "heap_room m h2"
    by (rule kheap_room.alloc_pair_within [OF assms(2) thread_sizes(1,2)])
  have "t \<notin> threads (sched k) R S D W" using assms(4) h(6) by blast
  then show thesis using that [OF create_eq [OF h(1,2)] h(3,9) h(6,7,8,4,5)] with_thread_ok [OF assms(1) _ h(4)] by blast
qed

lemma kfree_k_eq: "kfree a (kheap k) = Some (Inr h) \<Longrightarrow> kfree_k a k = Some (Inr (k\<lparr>kheap := h\<rparr>))"
  by (simp add: kfree_k_def)

lemma cleaner_free_ok:
  assumes "path (nx s) q D" "heap_state_ok base h L" "distinct (owned s D)" "set (owned s D) \<subseteq> L"
  shows "\<exists>h'. cleaner_free q (k\<lparr>sched := s, kheap := h\<rparr>) = Some (Inr (k\<lparr>sched := s, kheap := h'\<rparr>)) \<and> heap_state_ok base h' (L - set (owned s D))
    \<and> (\<forall>m. heap_room m h \<longrightarrow> heap_room m h')"
  using assms
proof (induction D arbitrary: q h L)
  case Nil
  then show ?case by (intro exI [of _ h]) (simp add: cleaner_free.simps NULL_def owned_def)
next
  case (Cons t D)
  let ?b = "stack_base (tcbs s t)"
  have o: "owned s (t # D) = ?b # t # owned s D" by (simp add: owned_def)
  have q: "q = t" "t \<noteq> 0" "path (nx s) (nx s t) D" using Cons.prems(1) by auto
  obtain h1 h2 where h: "kfree ?b h = Some (Inr h1)" "kfree t h1 = Some (Inr h2)" "heap_state_ok base h2 (L - {?b, t})" "heap_state_ok base h1 (L - {?b})"
    using kheap.release_pair [OF Cons.prems(2), of ?b t] kheap.release_ok [OF Cons.prems(2), of ?b] Cons.prems(3,4) unfolding o by auto
  have m: "heap_room m h \<Longrightarrow> heap_room m h2" for m
    using kheap_room.release_room [OF Cons.prems(2) _ h(1)] kheap_room.release_room [OF h(4) _ h(2)] Cons.prems(3,4) unfolding o by auto
  have "distinct (owned s D)" "set (owned s D) \<subseteq> L - {?b, t}" using Cons.prems(3,4) unfolding o by auto
  then obtain h' where h': "cleaner_free (nx s t) (k\<lparr>sched := s, kheap := h2\<rparr>) = Some (Inr (k\<lparr>sched := s, kheap := h'\<rparr>))"
    "heap_state_ok base h' (L - {?b, t} - set (owned s D))" "\<forall>m. heap_room m h2 \<longrightarrow> heap_room m h'"
    using Cons.IH [OF q(3) h(3)] by blast
  have "L - {?b, t} - set (owned s D) = L - set (owned s (t # D))" unfolding o by auto
  moreover have "cleaner_free q (k\<lparr>sched := s, kheap := h\<rparr>) = cleaner_free (nx s t) (k\<lparr>sched := s, kheap := h2\<rparr>)"
    using q(1,2) by (subst cleaner_free.simps) (simp add: NULL_def Let_def kfree_k_eq [where h = h1] kfree_k_eq [where h = h2] h(1,2))
  ultimately show ?case using h' m by auto
qed

lemma take_terminated:
  assumes ok: "sched_ok s R S D W" and q: "quiet s"
  defines "s' \<equiv> unlock_scheduler (if terminated_thread_queue s \<noteq> 0 then (lock_scheduler s)\<lparr>terminated_thread_queue := 0\<rparr> else lock_scheduler s)"
  shows "sched_ok s' R S [] W" "quiet s'" "settled s s'" "current_thread s' = current_thread s" "nx s' = nx s"
proof -
  define s2 where "s2 = (if terminated_thread_queue s \<noteq> 0 then (lock_scheduler s)\<lparr>terminated_thread_queue := 0\<rparr> else lock_scheduler s)"
  note o = sched_okD [OF ok] and l = sched_coreD [OF lock_core [OF sched_okD(1) [OF ok]]]
  have f: "first_ready_to_run_thread_list s2 = first_ready_to_run_thread_list (lock_scheduler s)"
    "last_ready_to_run_thread_list s2 = last_ready_to_run_thread_list (lock_scheduler s)"
    "sleeping_thread_queue s2 = sleeping_thread_queue (lock_scheduler s)" "idle_thread s2 = idle_thread (lock_scheduler s)"
    "tcbs s2 = tcbs (lock_scheduler s)" "terminated_thread_queue s2 = 0" "current_thread s2 = current_thread s"
    "IRQ_disable_counter s2 = IRQ_disable_counter s + 1" "cpu s2 = cpu (lock_scheduler s)"
    "postponed_yield_flag s2 = postponed_yield_flag s" "postpone_switches_counter s2 = postpone_switches_counter s"
    "counter s2 = counter s" "last_id s2 = last_id s" "system_ticks s2 = system_ticks s"
    by (simp_all add: s2_def)
  have "sched_core s2 R S [] W"
  proof (rule core_change [OF lock_core [OF o(1)]], unfold f)
    show "path (nx (lock_scheduler s)) 0 []" by simp
    show "\<And>t. t \<in> set [] \<Longrightarrow> state (tcbs (lock_scheduler s) t) = THREAD_TERMINATED" by simp
  qed (use l(2,7,10) in blast)+
  moreover have g: "state (tcbs (lock_scheduler s) t) = state (tcbs s t)" "priority (tcbs (lock_scheduler s) t) = priority (tcbs s t)"
    "idle_thread (lock_scheduler s) = idle_thread s" for t by simp_all
  ultimately have "sched_ok s2 R S [] W" unfolding sched_ok_def f g using o(2-4,6,7) by blast
  then show "sched_ok s' R S [] W" unfolding s'_def s2_def by (rule unlock_ok)
  show "quiet s'" "settled s s'" "current_thread s' = current_thread s" "nx s' = nx s"
    using q unfolding s'_def s2_def [symmetric] by (simp_all add: quiet_def settled_def unlock_cpu fun_eq_iff f)
qed

lemma settled_after:
  assumes "settled s s1" "current_thread s1 = current_thread s" "settled s1 s2"
  shows "settled s s2"
  using assms unfolding settled_def by auto

lemma cleaner_pass_ok:
  assumes ok: "sched_ok (sched k) R S D W" and q: "quiet (sched k)" and c: "current_thread (sched k) \<noteq> idle_thread (sched k)"
    and h: "heap_state_ok base (kheap k) L" "distinct (owned (sched k) D)" "set (owned (sched k) D) \<subseteq> L"
  defines "P \<equiv> pick (idle_thread (sched k)) R"
  obtains h' s' where "cleaner_task_pass k = Some (Inr (k\<lparr>sched := s', kheap := h'\<rparr>))" "heap_state_ok base h' (L - set (owned (sched k) D))"
    "\<And>m. heap_room m (kheap k) \<Longrightarrow> heap_room m h'" "sched_ok s' (snd P) (S @ [current_thread (sched k)]) [] W" "current_thread s' = fst P"
    "settled (sched k) s'" "wake_time (tcbs s' (current_thread (sched k))) = system_ticks (sched k) + 2000"
proof -
  define s1 where "s1 = unlock_scheduler (if terminated_thread_queue (sched k) \<noteq> 0 then (lock_scheduler (sched k))\<lparr>terminated_thread_queue := 0\<rparr>
     else lock_scheduler (sched k))"
  note t = take_terminated [OF ok q, folded s1_def]
  have st: "stack_base (tcbs s1 u) = stack_base (tcbs (sched k) u)" "idle_thread s1 = idle_thread (sched k)" "system_ticks s1 = system_ticks (sched k)" for u
    using t(3) by (simp_all add: settled_def)
  have ow: "owned s1 D = owned (sched k) D" unfolding owned_def st ..
  have "path (nx s1) (terminated_thread_queue (sched k)) D" using sched_coreD(3) [OF sched_okD(1) [OF ok]] t(5) by simp
  then obtain h' where h': "cleaner_free (terminated_thread_queue (sched k)) (k\<lparr>sched := s1, kheap := kheap k\<rparr>) = Some (Inr (k\<lparr>sched := s1, kheap := h'\<rparr>))"
    "heap_state_ok base h' (L - set (owned (sched k) D))" "\<forall>m. heap_room m (kheap k) \<longrightarrow> heap_room m h'"
    using cleaner_free_ok [of s1 "terminated_thread_queue (sched k)" D base "kheap k" L k] h unfolding ow by blast
  have "current_thread s1 \<noteq> idle_thread s1" "postpone_switches_counter s1 = 0" "IRQ_disable_counter s1 = 0" using c t(2,4) st by (simp_all add: quiet_def)
  then obtain s' where s': "thread_sleep 2000 s1 = Some s'" "sched_ok s' (snd P) (S @ [current_thread (sched k)]) [] W" "current_thread s' = fst P"
    "settled s1 s'" "wake_time (tcbs s' (current_thread (sched k))) = system_ticks (sched k) + ucast (2000 :: u32)"
    using sleep_ok [OF t(1), of 2000] unfolding P_def st t(4) by metis
  have "cleaner_task_pass k = kbind (cleaner_free (terminated_thread_queue (sched k)) (k\<lparr>sched := s1, kheap := kheap k\<rparr>)) (\<lambda>k2.
         case thread_sleep 2000 (sched k2) of None \<Rightarrow> None | Some s3 \<Rightarrow> Some (Inr (k2\<lparr>sched := s3\<rparr>)))"
    unfolding cleaner_task_pass_def Let_def s1_def
    by (simp add: NULL_def get_terminated_thread_queue_def set_terminated_thread_queue_def)
  then have "cleaner_task_pass k = Some (Inr (k\<lparr>sched := s', kheap := h'\<rparr>))" unfolding h'(1) by (simp add: s'(1))
  then show thesis using that h'(2,3) s'(2,3,5) settled_after [OF t(3,4) s'(4)] by simp
qed

end
