(* ===== verification/Thread_Props.thy ===== *)
theory Thread_Props
  imports Thread_Ops
begin

text \<open>
  The properties of thread creation, of the start of multitasking, of the cleaner and of the creation of semaphores and mutexes.
\<close>

section \<open>Specification vocabulary\<close>

text \<open>The scheduler when \<open>initialize_multitasking\<close> has set up the root thread \<open>r\<close> and the idle thread \<open>i\<close> with stack \<open>b\<close>.\<close>

definition with_root_idle :: "code_addresses \<Rightarrow> u32 \<Rightarrow> u32 \<Rightarrow> u32 \<Rightarrow> sched_state \<Rightarrow> sched_state" where
  "with_root_idle code r i b s =
     (let s1 = upd_tcb r (\<lambda>c. c\<lparr>esp := 0, esp0 := 0, state := THREAD_RUNNING, thread_id := 0, time_used := 0,
                priority := 0, remaining_time := FIRST_LIMIT, saved_interrupt_state := 0x202\<rparr>) s;
          s2 = s1\<lparr>current_thread := r, idle_thread := i\<rparr>;
          s3 = push_initial_frame (b + 4096 - 24) (addr_idle_thread_method code) (addr_thread_exit code) s2
      in upd_tcb i (\<lambda>c. c\<lparr>esp := b + 4096 - 24, stack_base := b, state := THREAD_READY, time_used := 0,
                priority := 2, thread_id := 0xFFFFFFFE, remaining_time := 0, saved_interrupt_state := 0x202\<rparr>) s3)"

definition sample_boot :: kernel_state where
  "sample_boot = sample_kernel\<lparr>sched := sample_sched\<lparr>first_ready_to_run_thread_list := (\<lambda>_. 0), last_ready_to_run_thread_list := (\<lambda>_. 0),
     sleeping_thread_queue := 0, terminated_thread_queue := 0\<rparr>\<rparr>"

definition sample_code :: code_addresses where
  "sample_code = \<lparr>addr_idle_thread_method = 0xC0101000, addr_cleaner_task = 0xC0102000, addr_thread_exit = 0xC0103000\<rparr>"

text \<open>The sample system with a terminated thread at the two given heap addresses.\<close>

definition sample_dead :: "u32 \<Rightarrow> u32 \<Rightarrow> heap_state \<Rightarrow> kernel_state" where
  "sample_dead t b h = sample_kernel\<lparr>kheap := h, sched := sample_sched\<lparr>terminated_thread_queue := t,
     tcbs := (tcbs sample_sched)(t := (sample_tcb THREAD_TERMINATED 0 0 0)\<lparr>stack_base := b\<rparr>)\<rparr>\<rparr>"

fun create_sync :: "u16 option \<Rightarrow> kernel_state \<Rightarrow> (panic + (u32 \<times> kernel_state)) option" where
  "create_sync (Some limit) k = create_semaphore limit k"
| "create_sync None k = create_mutex k"

fun sync_object :: "u16 option \<Rightarrow> u32 \<Rightarrow> waitq" where
  "sync_object (Some limit) x = Sem x"
| "sync_object None x = Mtx x"

fun address_of :: "waitq \<Rightarrow> u32" where
  "address_of (Sem x) = x"
| "address_of (Mtx x) = x"

section \<open>Lemmas\<close>

lemma with_root_idle_ok:
  assumes "booted s" "r \<noteq> i" "r \<noteq> 0" "i \<noteq> 0"
  shows "sched_ok (with_root_idle code r i b s) (\<lambda>_. []) [] [] Map.empty"
proof -
  have "sched_core (with_root_idle code r i b s) (\<lambda>_. []) [] [] Map.empty"
    using assms by (intro sched_coreI) (simp_all add: booted_def with_root_idle_def Let_def queue_ok_def)
  then show ?thesis using assms by (simp add: sched_ok_def with_root_idle_def Let_def)
qed

lemma with_root_idle_fields:
  "current_thread (with_root_idle code r i b s) = r" "idle_thread (with_root_idle code r i b s) = i" "last_id (with_root_idle code r i b s) = last_id s"
  by (simp_all add: with_root_idle_def Let_def)

lemma init_eq:
  assumes "kmalloc SIZEOF_TCB (kheap k) = Some (Inr (r, h1))" "kmalloc SIZEOF_TCB h1 = Some (Inr (i, h2))" "kmalloc 4096 h2 = Some (Inr (b, h3))"
  shows "initialize_multitasking code k = create_kernel_thread code (addr_cleaner_task code) (k\<lparr>kheap := h3, sched := with_root_idle code r i b (sched k)\<rparr>)"
  using assms by (simp add: initialize_multitasking_def kmalloc_k_def with_root_idle_def Let_def upd_tcb_def)

lemma init_ok:
  assumes s: "booted (sched k)" and h: "heap_state_ok base (kheap k) L" "heap_room (7 + m) (kheap k)"
  obtains r i b t c h' where
    "initialize_multitasking code k = Some (Inr (k\<lparr>kheap := h', sched := with_thread code (addr_cleaner_task code) t c (with_root_idle code r i b (sched k))\<rparr>))"
    "sched_ok (with_thread code (addr_cleaner_task code) t c (with_root_idle code r i b (sched k))) ((\<lambda>_. [])(0 := [t])) [] [] Map.empty"
    "heap_state_ok base h' (L \<union> {r, i, b, t, c})" "heap_room m h'" "distinct [r, i, b, t, c]" "L \<inter> {r, i, b, t, c} = {}"
proof -
  have e: "heap_cost SIZEOF_TCB + (heap_cost SIZEOF_TCB + (5 + m)) = 7 + m" "heap_cost 4096 + (3 + m) = 5 + m" by (simp_all add: thread_sizes)
  obtain r h1 i h2 where 1: "kmalloc SIZEOF_TCB (kheap k) = Some (Inr (r, h1))" "kmalloc SIZEOF_TCB h1 = Some (Inr (i, h2))"
    "heap_state_ok base h2 (insert i (insert r L))" "r \<noteq> 0" "i \<noteq> 0" "r \<notin> L" "i \<notin> L" "r \<noteq> i" "heap_room (5 + m) h2"
    by (rule kheap_room.alloc_pair_within [OF h(1) thread_sizes(1,1), of "5 + m"]) (use h(2) in \<open>simp only: e\<close>)
  obtain b h3 where 2: "kmalloc 4096 h2 = Some (Inr (b, h3))" "heap_state_ok base h3 (insert b (insert i (insert r L)))" "b \<notin> insert i (insert r L)" "heap_room (3 + m) h3"
    by (rule kheap_room.alloc_within [OF 1(3) thread_sizes(2), of "3 + m"]) (use 1(9) in \<open>simp only: e\<close>)
  let ?s = "with_root_idle code r i b (sched k)" let ?k = "k\<lparr>kheap := h3, sched := ?s\<rparr>"
  have ok: "sched_ok (sched ?k) (\<lambda>_. []) [] [] Map.empty" using with_root_idle_ok [OF s 1(8,4,5)] by simp
  have th: "threads (sched ?k) (\<lambda>_. []) [] [] Map.empty \<subseteq> insert b (insert i (insert r L))"
    by (auto simp add: threads_def listed_def with_root_idle_fields)
  have hp: "heap_state_ok base (kheap ?k) (insert b (insert i (insert r L)))" "heap_room (3 + m) (kheap ?k)" using 2(2,4) by simp_all
  obtain t c h' where 3: "create_kernel_thread code (addr_cleaner_task code) ?k = Some (Inr (?k\<lparr>kheap := h', sched := with_thread code (addr_cleaner_task code) t c (sched ?k)\<rparr>))"
    "heap_state_ok base h' (insert c (insert t (insert b (insert i (insert r L)))))" "heap_room m h'" "t \<notin> insert b (insert i (insert r L))"
    "c \<notin> insert b (insert i (insert r L))" "t \<noteq> c"
    "sched_ok (with_thread code (addr_cleaner_task code) t c (sched ?k)) ((\<lambda>_. [])(0 := [] @ [t])) [] [] Map.empty"
    by (rule create_thread_ok [OF ok hp th])
  have d: "distinct [r, i, b, t, c]" "L \<inter> {r, i, b, t, c} = {}" using 1(6-8) 2(3) 3(4-6) by auto
  have "insert c (insert t (insert b (insert i (insert r L)))) = L \<union> {r, i, b, t, c}" by auto
  then show thesis using that [where h' = h' and t = t and c = c and r = r and i = i and b = b] 3 init_eq [OF 1(1,2) 2(1), of code] d by simp
qed

lemma init_fields:
  assumes "distinct [r, i, b, t, c]"
  defines "z \<equiv> \<lambda>code s. with_thread code (addr_cleaner_task code) t c (with_root_idle code r i b s)"
  shows "current_thread (z code s) = r" "idle_thread (z code s) = i" "priority (tcbs (z code s) i) = 2" "stack_base (tcbs (z code s) i) = b"
    "slices_ok (z code s) ((\<lambda>_. [])(0 := [t])) []"
proof -
  have n: "i \<noteq> t" "r \<noteq> t" "r \<noteq> i" using assms(1) by auto
  note fi = tcb_eq_fields [OF with_thread_other [OF n(1), of code "addr_cleaner_task code" c "with_root_idle code r i b s"]]
  note fr = tcb_eq_fields [OF with_thread_other [OF n(2), of code "addr_cleaner_task code" c "with_root_idle code r i b s"]]
  show 1: "current_thread (z code s) = r" "idle_thread (z code s) = i" by (simp_all add: z_def with_thread_fields with_root_idle_fields)
  show "priority (tcbs (z code s) i) = 2" "stack_base (tcbs (z code s) i) = b" unfolding z_def fi using n by (simp_all add: with_root_idle_def Let_def)
  have "remaining_time (tcbs (z code s) r) = FIRST_LIMIT" unfolding z_def fr using n by (simp add: with_root_idle_def Let_def)
  then show "slices_ok (z code s) ((\<lambda>_. [])(0 := [t])) []" using 1 by (auto simp add: slices_ok_def ready_set_def z_def with_thread_new)
qed

text \<open>
  C22: \<open>initialize_multitasking\<close> returns when the heap can still grow by seven pages, and establishes the scheduler's
  invariant: the caller is the running root thread, there is an idle thread of the lowest level, the cleaner is the only
  ready thread and will start at its entry function, and control blocks and stacks are five
  different fresh blocks of the heap.
\<close>

theorem initialize_multitasking_establishes:
  assumes "booted (sched k)" "heap_state_ok base (kheap k) L" "heap_room (7 + m) (kheap k)"
  shows "\<exists>k' r i b t c. initialize_multitasking code k = Some (Inr k') \<and> sched_ok (sched k') ((\<lambda>_. [])(0 := [t])) [] [] Map.empty
    \<and> current_thread (sched k') = r \<and> idle_thread (sched k') = i \<and> priority (tcbs (sched k') i) = 2
    \<and> slices_ok (sched k') ((\<lambda>_. [])(0 := [t])) []
    \<and> stack_base (tcbs (sched k') i) = b \<and> parked t (start_cpu c (addr_cleaner_task code)) (sched k')
    \<and> distinct [r, i, b, t, c] \<and> L \<inter> {r, i, b, t, c} = {} \<and> heap_state_ok base (kheap k') (L \<union> {r, i, b, t, c}) \<and> heap_room m (kheap k')"
proof -
  obtain r i b t c h' where 1: "initialize_multitasking code k = Some (Inr (k\<lparr>kheap := h', sched := with_thread code (addr_cleaner_task code) t c (with_root_idle code r i b (sched k))\<rparr>))"
    "sched_ok (with_thread code (addr_cleaner_task code) t c (with_root_idle code r i b (sched k))) ((\<lambda>_. [])(0 := [t])) [] [] Map.empty"
    "heap_state_ok base h' (L \<union> {r, i, b, t, c})" "heap_room m h'" "distinct [r, i, b, t, c]" "L \<inter> {r, i, b, t, c} = {}"
    by (rule init_ok [OF assms])
  let ?s = "with_thread code (addr_cleaner_task code) t c (with_root_idle code r i b (sched k))"
  note s = init_fields [OF 1(5), of code "sched k"]
  show ?thesis
    by (intro exI [of _ "k\<lparr>kheap := h', sched := ?s\<rparr>"] exI [of _ r] exI [of _ i] exI [of _ b] exI [of _ t] exI [of _ c])
      (use 1 s with_thread_parked(1) in simp)
qed

text \<open>
  C20: \<open>create_kernel_thread\<close> returns when the heap can still grow by three pages. The new thread gets a control block and a
  stack no other thread uses, is ready at the back of the first queue with a full slice and the next identifier,
  and when the processor is switched to it, it starts at its entry point with cleared registers, interrupts enabled and
  the address of \<open>thread_exit\<close> as return address on its stack. No other thread's control block
  changes but for the link of the queue, and blocked threads stay in their queues.
\<close>

theorem create_kernel_thread_starts:
  assumes "sync_ok k R S D X Q" "heap_state_ok base (kheap k) L" "heap_room (3 + m) (kheap k)"
    and "threads (sched k) R S D (waiting X Q (sched k)) \<subseteq> L"
  shows "\<exists>k' t b. create_kernel_thread code entry k = Some (Inr k') \<and> sync_ok k' (R(0 := R 0 @ [t])) S D X Q
    \<and> current_thread (sched k') = current_thread (sched k) \<and> t \<notin> L \<and> b \<notin> L \<and> t \<noteq> b
    \<and> heap_state_ok base (kheap k') (insert b (insert t L)) \<and> heap_room m (kheap k')
    \<and> thread_id (tcbs (sched k') t) = last_id (sched k) + 1 \<and> remaining_time (tcbs (sched k') t) = FIRST_LIMIT
    \<and> parked t (start_cpu b entry) (sched k') \<and> mem (sched k') (b + 4096) = addr_thread_exit code
    \<and> (\<forall>prev. frame_apart t (sched k') \<longrightarrow> cpu (switch_to_task prev (esp (tcbs (sched k') t)) (sched k')) = start_cpu b entry)
    \<and> (\<forall>u. u \<noteq> t \<longrightarrow> (tcbs (sched k') u)\<lparr>next_thread := 0\<rparr> = (tcbs (sched k) u)\<lparr>next_thread := 0\<rparr>)"
proof -
  obtain t b h where 1: "create_kernel_thread code entry k = Some (Inr (k\<lparr>kheap := h, sched := with_thread code entry t b (sched k)\<rparr>))"
    "heap_state_ok base h (insert b (insert t L))" "heap_room m h" "t \<notin> L" "b \<notin> L" "t \<noteq> b"
    "sched_ok (with_thread code entry t b (sched k)) (R(0 := R 0 @ [t])) S D (waiting X Q (sched k))"
    by (rule create_thread_ok [OF sync_okD(1) [OF assms(1)] assms(2-4)])
  let ?k = "k\<lparr>kheap := h, sched := with_thread code entry t b (sched k)\<rparr>"
  have "sync_ok ?k (R(0 := R 0 @ [t])) S D X Q"
  proof (rule sync_transfer [OF assms(1)])
    show "counts_ok ?k X Q" using sync_okD(3) [OF assms(1)] by (simp add: counts_ok_def)
    show "wq_head w ?k = wq_head w k" "wq_tail w ?k = wq_tail w k" for w by (cases w; simp)+
  qed (use 1(7) in simp)
  then show ?thesis
    using 1 with_thread_new(5,6) [of code entry t b "sched k"] with_thread_parked(1) [of t b entry code "sched k"] with_thread_parked(2) [of code entry t b "sched k"] switch_unparks [OF with_thread_parked(1)]
      with_thread_other [of _ t code entry b "sched k"]
    by (intro exI [of _ ?k] exI [of _ t] exI [of _ b]) (simp add: with_thread_fields)
qed

text \<open>
  C21: One pass of the cleaner returns. It takes every terminated thread off the list, gives back exactly their stacks and
  control blocks to the heap, never frees anything else or anything twice, and then sleeps
  two thousand ticks.
\<close>

theorem cleaner_pass_frees:
  assumes "sched_ok (sched k) R S D W" "quiet (sched k)" "current_thread (sched k) \<noteq> idle_thread (sched k)"
    and "heap_state_ok base (kheap k) L" "distinct (owned (sched k) D)" "set (owned (sched k) D) \<subseteq> L"
  defines "P \<equiv> pick (idle_thread (sched k)) R"
  shows "\<exists>k'. cleaner_task_pass k = Some (Inr k') \<and> heap_state_ok base (kheap k') (L - set (owned (sched k) D))
    \<and> sched_ok (sched k') (snd P) (S @ [current_thread (sched k)]) [] W \<and> current_thread (sched k') = fst P
    \<and> wake_time (tcbs (sched k') (current_thread (sched k))) = system_ticks (sched k) + 2000 \<and> settled (sched k) (sched k')
    \<and> semaphores k' = semaphores k \<and> mutexes k' = mutexes k"
proof -
  obtain h' s' where "cleaner_task_pass k = Some (Inr (k\<lparr>sched := s', kheap := h'\<rparr>))" "heap_state_ok base h' (L - set (owned (sched k) D))"
    "sched_ok s' (snd P) (S @ [current_thread (sched k)]) [] W" "current_thread s' = fst P"
    "settled (sched k) s'" "wake_time (tcbs s' (current_thread (sched k))) = system_ticks (sched k) + 2000"
    by (rule cleaner_pass_ok [OF assms(1-6), folded P_def])
  then show ?thesis by (intro exI [of _ "k\<lparr>sched := s', kheap := h'\<rparr>"]) simp
qed

lemma sample_boot_facts: "booted (sched sample_boot)" "heap_state_ok 0xD0000000 (kheap sample_boot) {}" "heap_room 14 (kheap sample_boot)"
  using sample_heap_ok sample_reserve
  by (simp_all add: booted_def sample_boot_def sample_kernel_def heap_room_def heap_reserve_def sample_heap_def HEAP_LIMIT_def)

theorem initialize_multitasking_establishes_witness:
  "\<exists>k' t c. initialize_multitasking sample_code sample_boot = Some (Inr k')
     \<and> sched_ok (sched k') ((\<lambda>_. [])(0 := [t])) [] [] Map.empty \<and> parked t (start_cpu c 0xC0102000) (sched k')"
  using initialize_multitasking_establishes [OF sample_boot_facts(1,2), of 7 sample_code] sample_boot_facts(3)
  by (auto simp add: sample_code_def)

lemma no_sync_ok: "sched_ok (sched k) R S D Map.empty \<Longrightarrow> sync_ok k R S D {} (\<lambda>_. [])"
proof -
  assume "sched_ok (sched k) R S D Map.empty"
  moreover have "waiting {} (\<lambda>_. []) (sched k) = Map.empty" by (simp add: waiting_def blocked_def fun_eq_iff)
  ultimately show ?thesis by (simp add: sync_ok_def wait_lists_def counts_ok_def)
qed

theorem create_kernel_thread_starts_witness:
  "\<exists>k k' t b. initialize_multitasking sample_code sample_boot = Some (Inr k) \<and> create_kernel_thread sample_code 0xC0104000 k = Some (Inr k')
     \<and> parked t (start_cpu b 0xC0104000) (sched k') \<and> mem (sched k') (b + 4096) = 0xC0103000"
proof -
  obtain r i b t c h' where 1: "initialize_multitasking sample_code sample_boot = Some (Inr (sample_boot\<lparr>kheap := h', sched := with_thread sample_code (addr_cleaner_task sample_code) t c (with_root_idle sample_code r i b (sched sample_boot))\<rparr>))"
    "sched_ok (with_thread sample_code (addr_cleaner_task sample_code) t c (with_root_idle sample_code r i b (sched sample_boot))) ((\<lambda>_. [])(0 := [t])) [] [] Map.empty"
    "heap_state_ok 0xD0000000 h' ({} \<union> {r, i, b, t, c})" "heap_room 7 h'"
    by (rule init_ok [OF sample_boot_facts(1,2), of 7 sample_code]) (use sample_boot_facts(3) in simp)
  let ?k = "sample_boot\<lparr>kheap := h', sched := with_thread sample_code (addr_cleaner_task sample_code) t c (with_root_idle sample_code r i b (sched sample_boot))\<rparr>"
  let ?R = "(\<lambda>_. [])(0 := [t])"
  have "threads (sched ?k) ?R [] [] (waiting {} (\<lambda>_. []) (sched ?k)) \<subseteq> {r, i, b, t, c}"
    by (simp add: threads_def listed_def with_thread_fields with_root_idle_fields) (simp add: blocked_def)
  moreover have "sync_ok ?k ?R [] [] {} (\<lambda>_. [])" using no_sync_ok [of ?k ?R "[]" "[]"] 1(2) by simp
  moreover have "heap_state_ok 0xD0000000 (kheap ?k) {r, i, b, t, c}" "heap_room (3 + 4) (kheap ?k)" using 1(3,4) by simp_all
  ultimately obtain k' t' b' where "create_kernel_thread sample_code 0xC0104000 ?k = Some (Inr k')" "parked t' (start_cpu b' 0xC0104000) (sched k')"
    "mem (sched k') (b' + 4096) = addr_thread_exit sample_code"
    using create_kernel_thread_starts [of ?k ?R "[]" "[]" "{}" "\<lambda>_. []" "0xD0000000" "{r, i, b, t, c}" 4 sample_code "0xC0104000"] by blast
  with 1(1) show ?thesis by (auto simp add: sample_code_def)
qed

lemma sample_two_blocks:
  obtains h1 h2 where "kmalloc SIZEOF_TCB sample_heap = Some (Inr (0xD0000008, h1))" "kmalloc 4096 h1 = Some (Inr (0xD0001008, h2))"
    "heap_state_ok 0xD0000000 h2 {0xD0000008, 0xD0001008}"
proof -
  have r: "heap_room (heap_cost SIZEOF_TCB + (heap_cost 4096 + 0)) sample_heap"
    using sample_boot_facts(3) by (auto intro: heap_room_mono simp add: thread_sizes sample_boot_def sample_kernel_def)
  obtain a h1 b h2 where h: "kmalloc SIZEOF_TCB sample_heap = Some (Inr (a, h1))" "kmalloc 4096 h1 = Some (Inr (b, h2))"
    "heap_state_ok 0xD0000000 h2 (insert b (insert a {}))"
    by (rule kheap_room.alloc_pair_within [OF sample_heap_ok thread_sizes(1,2) r])
  have s1: "can_serve 48 0xD0000000 [] sample_heap"
    using sample_reserve by (simp add: can_serve_def sample_heap_def heap_reserve_def HEAP_LIMIT_def pages_for_def real_size_of_def)
  obtain v1 where 1: "a = 0xD0000008" "heap_inv 0xD0000000 [(64, False), (4032, True)] v1 h1"
    using kmalloc_ok [OF sample_heap_inv s1] h(1) by (auto simp add: SIZEOF_TCB_def malloc_spec_def real_size_of_def pages_for_def)
  have "heap_room (heap_cost 4096 + 0) h1"
    by (rule kheap_room.alloc_room [OF sample_heap_ok thread_sizes(1) r h(1)])
  then have "can_serve (unat (4096 :: u32)) 0xD0000000 [(64, False), (4032, True)] h1"
    using safe_request_serves [OF 1(2) room_serves [OF thread_sizes(2)]] by blast
  then have "b = 0xD0001008" using kmalloc_ok [OF 1(2), of 4096] h(2) by (auto simp add: malloc_spec_def real_size_of_def pages_for_def)
  with 1(1) h show thesis using that by (simp add: insert_commute)
qed

lemma sample_dead_ok: "sched_ok (sched (sample_dead 0xD0000008 b h)) sample_ready [0x60] [0xD0000008] Map.empty"
proof -
  have "sched_core (sched (sample_dead 0xD0000008 b h)) sample_ready [0x60] [0xD0000008] Map.empty"
    by (rule sched_coreI) (auto simp add: sample_dead_def sample_kernel_def sample_sched_def sample_ready_def sample_tcb_def queue_ok_def dest!: less_3_cases)
  then show ?thesis by (simp add: sched_ok_def sample_dead_def sample_kernel_def sample_sched_def sample_tcb_def)
qed

theorem cleaner_pass_frees_witness:
  "\<exists>k k'. terminated_thread_queue (sched k) = 0xD0000008 \<and> heap_state_ok 0xD0000000 (kheap k) {0xD0000008, 0xD0001008}
     \<and> cleaner_task_pass k = Some (Inr k') \<and> heap_state_ok 0xD0000000 (kheap k') {} \<and> current_thread (sched k') = 0x30"
proof -
  obtain h where h: "heap_state_ok 0xD0000000 h {0xD0000008, 0xD0001008}" by (rule sample_two_blocks)
  let ?k = "sample_dead 0xD0000008 0xD0001008 h"
  have o: "owned (sched ?k) [0xD0000008] = [0xD0001008, 0xD0000008]" by (simp add: owned_def sample_dead_def)
  have f: "quiet (sched ?k)" "current_thread (sched ?k) \<noteq> idle_thread (sched ?k)" "kheap ?k = h" "idle_thread (sched ?k) = 0x10" "terminated_thread_queue (sched ?k) = 0xD0000008"
    by (simp_all add: quiet_def sample_dead_def sample_kernel_def sample_sched_def)
  have p: "pick (idle_thread (sched ?k)) sample_ready = (0x30, sample_ready(0 := [0x40]))" by (simp add: pick_def sample_ready_def)
  have e: "{0xD0000008, 0xD0001008} - set (owned (sched ?k) [0xD0000008]) = {}" unfolding o by auto
  have "heap_state_ok 0xD0000000 (kheap ?k) {0xD0000008, 0xD0001008}" "distinct (owned (sched ?k) [0xD0000008])"
    "set (owned (sched ?k) [0xD0000008]) \<subseteq> {0xD0000008, 0xD0001008}" using h unfolding o f(3) by simp_all
  from cleaner_pass_frees [OF sample_dead_ok f(1,2) this] obtain k' where "cleaner_task_pass ?k = Some (Inr k')"
    "heap_state_ok 0xD0000000 (kheap k') {}" "current_thread (sched k') = 0x30" unfolding e p fst_conv by blast
  with f(5) h show ?thesis by (intro exI [of _ ?k] exI [of _ k']) (simp add: f(3))
qed

lemma sync_sizes: "heap_size SIZEOF_SEMAPHORE" "heap_size SIZEOF_MUTEX" "heap_cost SIZEOF_SEMAPHORE = 1" "heap_cost SIZEOF_MUTEX = 1"
  by (simp_all add: heap_size_def heap_cost_def SIZEOF_SEMAPHORE_def SIZEOF_MUTEX_def pages_for_def real_size_of_def)

lemma create_sync_fields:
  assumes "kmalloc 12 (kheap k) = Some (Inr (x, h))"
  obtains k' where "create_sync n k = Some (Inr (x, k'))" "sched k' = sched k" "kheap k' = h" "wq_head (sync_object n x) k' = 0"
    "unused (sync_object n x) k'" "capacity (sync_object n x) k' = (case n of None \<Rightarrow> 1 | Some l \<Rightarrow> unat l)"
    "\<And>y. Sem y \<noteq> sync_object n x \<Longrightarrow> semaphores k' y = semaphores k y" "\<And>y. Mtx y \<noteq> sync_object n x \<Longrightarrow> mutexes k' y = mutexes k y"
proof (cases n)
  case None
  show thesis
    by (rule that [of "upd_mtx x (\<lambda>_. \<lparr>owner_thread = NULL, mtx_first_waiting_thread = NULL, mtx_last_waiting_thread = NULL\<rparr>) (k\<lparr>kheap := h\<rparr>)"])
      (use assms None in \<open>simp_all add: create_mutex_def kmalloc_k_def SIZEOF_MUTEX_def NULL_def\<close>)
next
  case (Some l)
  show thesis
    by (rule that [of "upd_sem x (\<lambda>_. \<lparr>max_count = l, current_count = 0, sem_first_waiting_thread = NULL, sem_last_waiting_thread = NULL\<rparr>) (k\<lparr>kheap := h\<rparr>)"])
      (use assms Some in \<open>simp_all add: create_semaphore_def kmalloc_k_def SIZEOF_SEMAPHORE_def NULL_def\<close>)
qed

lemma sync_ok_insert:
  assumes ok: "sync_ok k R S D X Q" and w: "w \<notin> X" "wq_head w k' = 0" "unused w k'" "sched k' = sched k"
    and same: "\<And>y. Sem y \<noteq> w \<Longrightarrow> semaphores k' y = semaphores k y" "\<And>y. Mtx y \<noteq> w \<Longrightarrow> mutexes k' y = mutexes k y"
  shows "sync_ok k' R S D (insert w X) (Q(w := []))"
proof -
  note o = sync_okD [OF ok]
  have b: "blocked (insert w X) (Q(w := [])) = blocked X Q" using w(1) by (auto simp add: blocked_def split: if_splits)
  have "waiting (insert w X) (Q(w := [])) (sched k') = waiting X Q (sched k)" by (simp add: waiting_def b w(4) fun_eq_iff)
  then have "sched_ok (sched k') R S D (waiting (insert w X) (Q(w := [])) (sched k'))" using o(1) w(4) by simp
  moreover have v: "wq_head v k' = wq_head v k \<and> wq_tail v k' = wq_tail v k" if "v \<in> X" for v
  proof -
    have "v \<noteq> w" using that w(1) by blast
    then show ?thesis using same by (cases v) simp_all
  qed
  have "wait_lists k' (insert w X) (Q(w := []))"
  proof -
    have "wait_lists k X Q" by (rule o(2))
    then have "path (nx (sched k')) (wq_head v k') ((Q(w := [])) v) \<and> ((Q(w := [])) v \<noteq> [] \<longrightarrow> wq_tail v k' = last ((Q(w := [])) v))" if "v \<in> insert w X" for v
      using that v [of v] w by (cases "v = w") (auto simp add: wait_lists_def)
    moreover have "set ((Q(w := [])) u) \<inter> set ((Q(w := [])) v) = {}" if "u \<in> insert w X" "v \<in> insert w X" "u \<noteq> v" for u v
      using that o(8) by auto
    ultimately show ?thesis unfolding wait_lists_def by blast
  qed
  moreover have "counts_ok k' (insert w X) (Q(w := []))"
    using o(3) w same by (cases w) (auto simp add: counts_ok_def)
  ultimately show ?thesis by (simp add: sync_ok_def)
qed

text \<open>
  \<open>create_semaphore\<close> and \<open>create_mutex\<close> return, when the heap can grow by one page, the address of a fresh object: no token taken
  or no owner, nobody waiting, the limit as asked. The objects, queues and threads that exist stay as they are, so that the
  invariant of the system now covers the new object too.
\<close>

theorem create_sync_fresh:
  assumes "sync_ok k R S D X Q" "heap_state_ok base (kheap k) L" "heap_room (1 + m) (kheap k)" "address_of ` X \<subseteq> L"
  shows "\<exists>x k'. create_sync n k = Some (Inr (x, k')) \<and> x \<notin> L \<and> heap_state_ok base (kheap k') (insert x L) \<and> heap_room m (kheap k')
    \<and> sync_ok k' R S D (insert (sync_object n x) X) (Q(sync_object n x := [])) \<and> sched k' = sched k
    \<and> unused (sync_object n x) k' \<and> capacity (sync_object n x) k' = (case n of None \<Rightarrow> 1 | Some l \<Rightarrow> unat l)"
proof -
  have "heap_size 12" "heap_room (heap_cost 12 + m) (kheap k)" using sync_sizes(2,4) assms(3) by (simp_all add: SIZEOF_MUTEX_def)
  then obtain x h where h: "kmalloc 12 (kheap k) = Some (Inr (x, h))" "heap_state_ok base h (insert x L)" "x \<notin> L" "heap_room m h"
    by (rule kheap_room.alloc_within [OF assms(2)])
  have new: "sync_object n x \<notin> X" using h(3) assms(4) by (cases n) force+
  show ?thesis
    by (rule create_sync_fields [OF h(1), of n]) (use sync_ok_insert [OF assms(1) new] h in blast)
qed

theorem create_sync_fresh_witness:
  "\<exists>x k'. create_semaphore 2 sample_kernel = Some (Inr (x, k')) \<and> current_count (semaphores k' x) = 0 \<and> unat (max_count (semaphores k' x)) = 2
     \<and> sync_ok k' sample_ready [0x60] [] {Sem x} ((\<lambda>_. [])(Sem x := []))"
proof -
  have "sync_ok sample_kernel sample_ready [0x60] [] {} (\<lambda>_. [])" using no_sync_ok sample_sched_ok by (simp add: sample_kernel_def)
  moreover have "heap_state_ok 0xD0000000 (kheap sample_kernel) {}" "heap_room (1 + 13) (kheap sample_kernel)"
    using sample_boot_facts by (simp_all add: sample_boot_def)
  ultimately show ?thesis using create_sync_fresh [of sample_kernel sample_ready "[0x60]" "[]" "{}" "\<lambda>_. []" "0xD0000000" "{}" 13 "Some 2"]
    by auto
qed

end
