(* ===== verification/Test_Threads.thy ===== *)
theory Test_Threads
  imports Thread_Props
begin

text \<open>
  The self test of multitasking (\<open>multitasking_run_test\<close> and its tasks, \<open>src/src/util/tests.c\<close>). Every thread is the list of calls it makes; a run
  of the test interleaves these calls with timer interrupts and with passes of the cleaner in any order. A call is one
  step, also where the code lets interrupts in between its parts (the creation of threads and objects and the heap functions).
\<close>

section \<open>The test\<close>

text \<open>The global variables of the test, and what its threads do: the calls of their bodies, in order.\<close>

datatype sync_var = Vga_Mutex | Bouncer_Sem | Test_Barrier_Sem

datatype test_task = Task_A | Task_B | Task_1 | Task_2 | Task_3 | Task_4

datatype test_call = Create sync_var | Acquire sync_var | Release sync_var | Sleep u32 | Start test_task | Free sync_var | Exit

text \<open>
  The bodies without the call of \<open>unlock_scheduler\<close> at their start, which belongs to the switch to the new thread, and
  without \<open>pr\<close>, which expands to nothing since the file sets \<open>PRINT\<close> to 0.
\<close>

definition task_a :: "test_call list" where
  "task_a = concat (replicate 2 [Acquire Vga_Mutex, Sleep 2, Release Vga_Mutex]) @ [Release Test_Barrier_Sem]"

definition task_b :: "test_call list" where
  "task_b = concat (replicate 2 [Acquire Vga_Mutex, Sleep 1, Release Vga_Mutex]) @ [Release Test_Barrier_Sem]"

definition task_1 :: "test_call list" where
  "task_1 = concat (replicate 2 [Acquire Bouncer_Sem, Sleep 2, Release Bouncer_Sem]) @ [Release Test_Barrier_Sem]"

definition task_2 :: "test_call list" where
  "task_2 = concat (replicate 2 [Acquire Bouncer_Sem, Sleep 2, Release Bouncer_Sem]) @ [Release Test_Barrier_Sem]"

definition task_3 :: "test_call list" where
  "task_3 = concat (replicate 2 [Acquire Bouncer_Sem, Sleep 2, Release Bouncer_Sem]) @ [Release Test_Barrier_Sem]"

definition task_4 :: "test_call list" where
  "task_4 = concat (replicate 2 [Acquire Bouncer_Sem, Sleep 2, Release Bouncer_Sem]) @ [Release Test_Barrier_Sem]"

definition multitasking_run_test :: "test_call list" where
  "multitasking_run_test =
     [Create Vga_Mutex, Create Bouncer_Sem, Create Test_Barrier_Sem]
     @ replicate 6 (Acquire Test_Barrier_Sem)
     @ [Start Task_1, Start Task_2, Start Task_3, Start Task_4, Start Task_A, Start Task_B]
     @ replicate 6 (Acquire Test_Barrier_Sem)
     @ [Free Vga_Mutex, Free Bouncer_Sem, Free Test_Barrier_Sem]"

fun body_of :: "test_task \<Rightarrow> test_call list" where
  "body_of Task_A = task_a"
| "body_of Task_B = task_b"
| "body_of Task_1 = task_1"
| "body_of Task_2 = task_2"
| "body_of Task_3 = task_3"
| "body_of Task_4 = task_4"

text \<open>The kernel, the global variables, and for every thread the calls it has still to make.\<close>

record test_state =
  tkern :: kernel_state
  objects :: "sync_var \<Rightarrow> u32"
  todo :: "u32 \<Rightarrow> test_call list"

fun object :: "test_state \<Rightarrow> sync_var \<Rightarrow> waitq" where
  "object m Vga_Mutex = Mtx (objects m Vga_Mutex)"
| "object m Bouncer_Sem = Sem (objects m Bouncer_Sem)"
| "object m Test_Barrier_Sem = Sem (objects m Test_Barrier_Sem)"

fun limit_of :: "sync_var \<Rightarrow> u16 option" where
  "limit_of Vga_Mutex = None"
| "limit_of Bouncer_Sem = Some 2"
| "limit_of Test_Barrier_Sem = Some 6"

text \<open>
  What a call does. The functions of the kernel are called as the code calls them; a new thread is the one put at the end of the first
  ready queue, and when its body returns it continues in \<open>thread_exit\<close>.
\<close>

fun perform :: "code_addresses \<Rightarrow> (test_task \<Rightarrow> u32) \<Rightarrow> test_call \<Rightarrow> test_state \<Rightarrow> (panic + test_state) option" where
  "perform code entry (Create v) m =
     kbind (create_sync (limit_of v) (tkern m)) (\<lambda>(x, k). Some (Inr (m\<lparr>tkern := k, objects := (objects m)(v := x)\<rparr>)))"
| "perform code entry (Acquire v) m = Some (Inr (m\<lparr>tkern := acquire (object m v) (tkern m)\<rparr>))"
| "perform code entry (Release v) m = Some (Inr (m\<lparr>tkern := release (object m v) (tkern m)\<rparr>))"
| "perform code entry (Sleep n) m =
     Option.bind (thread_sleep n (sched (tkern m))) (\<lambda>s. Some (Inr (m\<lparr>tkern := (tkern m)\<lparr>sched := s\<rparr>\<rparr>)))"
| "perform code entry (Start p) m =
     kbind (create_kernel_thread code (entry p) (tkern m)) (\<lambda>k.
       Some (Inr (m\<lparr>tkern := k, todo := (todo m)(last_ready_to_run_thread_list (sched k) 0 := body_of p @ [Exit])\<rparr>)))"
| "perform code entry (Free v) m =
     kbind (kfree_k (objects m v) (tkern m)) (\<lambda>k. Some (Inr (m\<lparr>tkern := k\<rparr>)))"
| "perform code entry Exit m =
     Option.bind (sched_event_step Exit_Call (sched (tkern m))) (\<lambda>s. Some (Inr (m\<lparr>tkern := (tkern m)\<lparr>sched := s\<rparr>\<rparr>)))"

definition call_step :: "code_addresses \<Rightarrow> (test_task \<Rightarrow> u32) \<Rightarrow> test_state \<Rightarrow> (panic + test_state) option" where
  "call_step code entry m =
     (let c = current_thread (sched (tkern m)) in
      case todo m c of [] \<Rightarrow> None
      | x # xs \<Rightarrow> perform code entry x (m\<lparr>todo := (todo m)(c := xs)\<rparr>))"

definition tick_step :: "test_state \<Rightarrow> test_state option" where
  "tick_step m = Option.bind (apic_timer_handler (sched (tkern m))) (\<lambda>s. Some (m\<lparr>tkern := (tkern m)\<lparr>sched := s\<rparr>\<rparr>))"

definition clean_step :: "test_state \<Rightarrow> (panic + test_state) option" where
  "clean_step m = kbind (cleaner_task_pass (tkern m)) (\<lambda>k. Some (Inr (m\<lparr>tkern := k\<rparr>)))"

text \<open>
  A run of the test: timer interrupts, calls of the running thread and passes of the cleaner, in any order. The calls are atomic.
\<close>

inductive test_reaches :: "code_addresses \<Rightarrow> (test_task \<Rightarrow> u32) \<Rightarrow> u32 \<Rightarrow> test_state \<Rightarrow> test_state \<Rightarrow> bool" for code entry cleaner m0 where
  test_begin: "test_reaches code entry cleaner m0 m0"
| test_tick: "test_reaches code entry cleaner m0 m \<Longrightarrow> tick_step m = Some m' \<Longrightarrow> test_reaches code entry cleaner m0 m'"
| test_call: "test_reaches code entry cleaner m0 m \<Longrightarrow> call_step code entry m = Some (Inr m') \<Longrightarrow> test_reaches code entry cleaner m0 m'"
| test_clean: "test_reaches code entry cleaner m0 m \<Longrightarrow> current_thread (sched (tkern m)) = cleaner \<Longrightarrow> clean_step m = Some (Inr m') \<Longrightarrow>
    test_reaches code entry cleaner m0 m'"

end
