(* ===== verification/Test_Calls.thy ===== *)
theory Test_Calls
  imports Test_Threads "HOL-Library.Sublist"
begin

text \<open>
  What is left to do of the functions of the test, and what the next call tells about the rest.
\<close>

section \<open>Specification vocabulary\<close>

text \<open>The next call on \<open>v\<close> is a release: the thread is waiting for \<open>v\<close> or holds it.\<close>

fun inside :: "sync_var \<Rightarrow> test_call list \<Rightarrow> bool" where
  "inside v [] \<longleftrightarrow> False"
| "inside v (c # p) \<longleftrightarrow> c = Release v \<or> c \<noteq> Acquire v \<and> inside v p"

text \<open>What is left to do: releases of the barrier, acquires of the barrier, threads to create, pages the heap may have to supply.\<close>

abbreviation releases :: "test_call list \<Rightarrow> nat" where
  "releases p \<equiv> count_list p (Release Test_Barrier_Sem)"

abbreviation acquires :: "test_call list \<Rightarrow> nat" where
  "acquires p \<equiv> count_list p (Acquire Test_Barrier_Sem)"

fun starts :: "test_call list \<Rightarrow> nat" where
  "starts [] = 0"
| "starts (c # p) = (case c of Start x \<Rightarrow> 1 | _ \<Rightarrow> 0) + starts p"

fun pages :: "test_call list \<Rightarrow> nat" where
  "pages [] = 0"
| "pages (c # p) = (case c of Start x \<Rightarrow> 3 | Create v \<Rightarrow> 1 | _ \<Rightarrow> 0) + pages p"

text \<open>The objects that exist while \<open>p\<close> is left to do of the main function.\<close>

definition existing :: "test_call list \<Rightarrow> sync_var set" where
  "existing p = {v. Create v \<notin> set p \<and> Free v \<in> set p}"

definition main_rest :: "test_call list \<Rightarrow> bool" where
  "main_rest p \<longleftrightarrow> suffix p multitasking_run_test"

definition task_rest :: "test_call list \<Rightarrow> bool" where
  "task_rest p \<longleftrightarrow> (\<exists>x. suffix p (body_of x @ [Exit]))"

section \<open>Lemmas\<close>

lemma task_suffixes:
  assumes "task_rest p"
  obtains v n where "v \<noteq> Test_Barrier_Sem"
    "p \<in> {[Acquire v, Sleep n, Release v, Acquire v, Sleep n, Release v, Release Test_Barrier_Sem, Exit],
      [Sleep n, Release v, Acquire v, Sleep n, Release v, Release Test_Barrier_Sem, Exit],
      [Release v, Acquire v, Sleep n, Release v, Release Test_Barrier_Sem, Exit],
      [Acquire v, Sleep n, Release v, Release Test_Barrier_Sem, Exit], [Sleep n, Release v, Release Test_Barrier_Sem, Exit],
      [Release v, Release Test_Barrier_Sem, Exit], [Release Test_Barrier_Sem, Exit], [Exit], []}"
proof -
  obtain x where x: "suffix p (body_of x @ [Exit])" using assms by (auto simp add: task_rest_def)
  define v where "v = (if x \<in> {Task_A, Task_B} then Vga_Mutex else Bouncer_Sem)"
  define n :: u32 where "n = (if x = Task_B then 1 else 2)"
  have "body_of x @ [Exit] = [Acquire v, Sleep n, Release v, Acquire v, Sleep n, Release v, Release Test_Barrier_Sem, Exit]"
    by (cases x) (simp_all add: v_def n_def task_a_def task_b_def task_1_def task_2_def task_3_def task_4_def numeral_2_eq_2)
  moreover have "v \<noteq> Test_Barrier_Sem" by (simp add: v_def)
  ultimately show thesis using that [of v n] x by (simp only: suffix_Cons insert_iff suffix_Nil) blast
qed

lemma task_tail: "task_rest (c # p) \<Longrightarrow> task_rest p"
  unfolding task_rest_def by (meson suffix_ConsD)

lemma task_body: "task_rest (body_of x @ [Exit])"
  unfolding task_rest_def by blast

lemma task_facts:
  assumes "task_rest p"
  shows "releases p \<le> 1" "releases p = 0 \<Longrightarrow> p = [] \<or> p = [Exit]" "inside v p \<Longrightarrow> v \<noteq> Test_Barrier_Sem \<Longrightarrow> releases p = 1"
    "inside u p \<Longrightarrow> inside v p \<Longrightarrow> u \<noteq> Test_Barrier_Sem \<Longrightarrow> v \<noteq> Test_Barrier_Sem \<Longrightarrow> u = v"
  using assms by (elim task_suffixes; auto split: if_splits)+

lemma task_head:
  assumes "task_rest (c # p)"
  shows "c = Acquire v \<Longrightarrow> v \<noteq> Test_Barrier_Sem \<and> inside v p \<and> \<not> inside v (c # p)" "c = Release v \<Longrightarrow> v \<noteq> Test_Barrier_Sem \<Longrightarrow> \<not> inside v p"
    "c = Exit \<longleftrightarrow> p = []" "c \<noteq> Create v" "c \<noteq> Free v" "c \<noteq> Start x"
    "c = Release Test_Barrier_Sem \<or> c = Exit \<or> releases (c # p) = 1"
    "u \<noteq> Test_Barrier_Sem \<Longrightarrow> c \<notin> {Acquire u, Release u} \<Longrightarrow> inside u (c # p) = inside u p"
  using assms by (elim task_suffixes; auto)+

lemma body_fresh: "\<not> inside v (body_of x @ [Exit]) \<or> v = Test_Barrier_Sem" "releases (body_of x @ [Exit]) = 1"
  by (cases v; cases x; simp add: task_a_def task_b_def task_1_def task_2_def task_3_def task_4_def numeral_2_eq_2)
    (cases x; simp add: task_a_def task_b_def task_1_def task_2_def task_3_def task_4_def numeral_2_eq_2)

lemma main_tail: "main_rest (c # p) \<Longrightarrow> main_rest p"
  unfolding main_rest_def by (meson suffix_ConsD)

lemma main_quiet: "main_rest p \<Longrightarrow> \<not> inside v p" "main_rest p \<Longrightarrow> releases p = 0"
proof -
  assume "main_rest p"
  then have "set p \<subseteq> set multitasking_run_test" unfolding main_rest_def by (rule set_mono_suffix)
  then have n: "Release v \<notin> set p" for v unfolding multitasking_run_test_def by auto
  then show "releases p = 0" by (simp add: count_list_0_iff)
  have "inside v p \<Longrightarrow> Release v \<in> set p" by (induction p) auto
  then show "\<not> inside v p" using n by blast
qed

lemma vars_all: "(UNIV :: sync_var set) = {Vga_Mutex, Bouncer_Sem, Test_Barrier_Sem}"
  using sync_var.exhaust by auto

lemma existing_Cons:
  "existing [] = {}" "existing (Create v # p) = existing p - {v}" "existing (Acquire v # p) = existing p" "existing (Start x # p) = existing p"
  "Create v \<notin> set p \<Longrightarrow> existing (Free v # p) = insert v (existing p)"
  by (auto simp add: existing_def)

lemma main_eq:
  "multitasking_run_test = [Create Vga_Mutex, Create Bouncer_Sem, Create Test_Barrier_Sem,
    Acquire Test_Barrier_Sem, Acquire Test_Barrier_Sem, Acquire Test_Barrier_Sem, Acquire Test_Barrier_Sem, Acquire Test_Barrier_Sem, Acquire Test_Barrier_Sem,
    Start Task_1, Start Task_2, Start Task_3, Start Task_4, Start Task_A, Start Task_B,
    Acquire Test_Barrier_Sem, Acquire Test_Barrier_Sem, Acquire Test_Barrier_Sem, Acquire Test_Barrier_Sem, Acquire Test_Barrier_Sem, Acquire Test_Barrier_Sem,
    Free Vga_Mutex, Free Bouncer_Sem, Free Test_Barrier_Sem]"
  by (simp add: multitasking_run_test_def numeral_eq_Suc)

lemmas main_suffixes = main_rest_def [unfolded main_eq suffix_Cons suffix_Nil]

lemma main_head:
  assumes "main_rest (c # p)"
  shows "c = Create v \<Longrightarrow> v \<notin> existing (c # p) \<and> existing p = insert v (existing (c # p)) \<and> starts p = 6 \<and> acquires p = 12"
    "c = Acquire v \<Longrightarrow> v = Test_Barrier_Sem \<and> v \<in> existing p \<and> existing p = existing (c # p) \<and> length p \<ge> 3"
    "c = Start x \<Longrightarrow> existing p = UNIV \<and> existing (c # p) = UNIV \<and> acquires p = 6 \<and> length p \<ge> 3"
    "c = Free v \<Longrightarrow> v \<in> existing (c # p) \<and> Test_Barrier_Sem \<in> existing (c # p) \<and> existing p = existing (c # p) - {v} \<and> starts p = 0 \<and> acquires p = 0 \<and> length p \<le> 2"
    "c \<noteq> Release v" "c \<noteq> Sleep n" "c \<noteq> Exit"
  using assms unfolding main_suffixes by - (elim disjE; simp; simp add: existing_Cons vars_all insert_commute insert_Diff_if)+

end
