(* ===== verification/Systems.thy ===== *)
theory Systems
  imports Thread_Props
begin

text \<open>
  A running system with its threads, its semaphores and mutexes and its heap: what every operation of the kernel keeps. No
  operation loses a thread, slices stay within their bounds, and control blocks and stacks stay the different blocks they are.
\<close>

section \<open>Specification vocabulary\<close>

text \<open>All threads of the system: the running one, the idle one, and those in a list.\<close>

definition crew :: "kernel_state \<Rightarrow> (nat \<Rightarrow> u32 list) \<Rightarrow> u32 list \<Rightarrow> u32 list \<Rightarrow> waitq set \<Rightarrow> (waitq \<Rightarrow> u32 list) \<Rightarrow> u32 set" where
  "crew k R S D X Q = {current_thread (sched k), idle_thread (sched k)} \<union> ready_set R \<union> set S \<union> set D \<union> blocked X Q"

definition slice_ok :: "sched_state \<Rightarrow> u32 \<Rightarrow> bool" where
  "slice_ok s t \<longleftrightarrow> 1 \<le> unat (remaining_time (tcbs s t)) \<and> unat (remaining_time (tcbs s t)) \<le> 30"

text \<open>A system at rest between two steps, with the threads \<open>A\<close>.\<close>

definition sys_ok :: "kernel_state \<Rightarrow> (nat \<Rightarrow> u32 list) \<Rightarrow> u32 list \<Rightarrow> u32 list \<Rightarrow> waitq set \<Rightarrow> (waitq \<Rightarrow> u32 list) \<Rightarrow> u32 set \<Rightarrow> bool" where
  "sys_ok k R S D X Q A \<longleftrightarrow> sync_ok k R S D X Q \<and> calm (sched k) \<and> crew k R S D X Q = A \<and> (\<forall>t \<in> A - {idle_thread (sched k)}. slice_ok (sched k) t)"

text \<open>What the operations of the scheduler leave alone.\<close>

definition same_blocks :: "kernel_state \<Rightarrow> kernel_state \<Rightarrow> bool" where
  "same_blocks k k' \<longleftrightarrow> idle_thread (sched k') = idle_thread (sched k) \<and> (\<forall>t. stack_base (tcbs (sched k') t) = stack_base (tcbs (sched k) t)) \<and> kheap k' = kheap k"

text \<open>
  Who uses the blocks \<open>L\<close> of the heap: the threads \<open>T\<close> own a control block and a stack each, all different, and \<open>K\<close> are the others.
\<close>

definition owns :: "sched_state \<Rightarrow> u32 set \<Rightarrow> u32 set \<Rightarrow> u32 set \<Rightarrow> bool" where
  "owns s T K L \<longleftrightarrow> L = K \<union> (\<Union>t \<in> T. {t, stack_base (tcbs s t)}) \<and> (\<forall>t \<in> T. t \<noteq> stack_base (tcbs s t) \<and> {t, stack_base (tcbs s t)} \<inter> K = {})
     \<and> (\<forall>t \<in> T. \<forall>u \<in> T. t \<noteq> u \<longrightarrow> {t, stack_base (tcbs s t)} \<inter> {u, stack_base (tcbs s u)} = {})"

text \<open>The threads that have acquired a semaphore and not released it: those admitted and those waiting.\<close>

definition demand :: "u32 \<Rightarrow> kernel_state \<Rightarrow> (waitq \<Rightarrow> u32 list) \<Rightarrow> nat" where
  "demand x k Q = unat (current_count (semaphores k x)) + length (Q (Sem x))"

section \<open>Lemmas\<close>

lemma crew_threads: "crew k R S D X Q = threads (sched k) R S D (waiting X Q (sched k))"
  by (simp add: crew_def threads_def ready_set_simps(3) Un_assoc)

lemma sys_okD:
  assumes "sys_ok k R S D X Q A"
  shows "sync_ok k R S D X Q" "calm (sched k)" "crew k R S D X Q = A" "t \<in> A \<Longrightarrow> t \<noteq> idle_thread (sched k) \<Longrightarrow> slice_ok (sched k) t"
    "current_thread (sched k) \<in> A" "idle_thread (sched k) \<in> A" "set D \<subseteq> A" "w \<in> X \<Longrightarrow> set (Q w) \<subseteq> A" "set S \<subseteq> A" "ready_set R \<subseteq> A"
  using assms by (auto simp add: sys_ok_def crew_def blocked_def)

lemma settled_sys:
  assumes ok: "sys_ok k R S D X Q A" and s: "settled (sched k) (sched k')" and h: "kheap k' = kheap k"
    and y: "sync_ok k' R' S' D' X' Q'" "calm (sched k')" "crew k' R' S' D' X' Q' = A"
  shows "sys_ok k' R' S' D' X' Q' A" "same_blocks k k'"
  using ok s h y by (simp_all add: sys_ok_def same_blocks_def settled_def slice_ok_def)

lemma heap_same: "kheap (acquire w k) = kheap k" "kheap (release w k) = kheap k"
  by (cases w; simp add: acquire_semaphore_def acquire_mutex_def release_semaphore_def release_mutex_def sem_append_def mtx_append_def Let_def)+

lemma sys_tick:
  assumes ok: "sys_ok k R S D X Q A"
  obtains s' R' S' where "apic_timer_handler (sched k) = Some s'" "sys_ok (k\<lparr>sched := s'\<rparr>) R' S' D X Q A" "same_blocks k (k\<lparr>sched := s'\<rparr>)"
proof -
  note o = sys_okD [OF ok]
  obtain n R' S' D' where spec: "event_spec Tick (sched k) R S D = (n, R', S', D')" by (cases "event_spec Tick (sched k) R S D") auto
  then have D': "D' = D" by (auto simp add: Let_def case_prod_beta)
  have q: "quiet (sched k)" using o(2) by (simp add: calm_def)
  obtain s' where s': "sched_event_step Tick (sched k) = Some s'" "sched_ok s' R' S' D' (waiting X Q (sched k))" "quiet s'" "current_thread s' = n"
    "idle_thread s' = idle_thread (sched k)" "event_effect Tick (sched k) R S s'"
    by (rule event_refines [OF sync_okD(1) [OF o(1)] q _ spec]) (simp add: enabled_def)
  let ?s0 = "tick_entry (sched k)" and ?k = "k\<lparr>sched := s'\<rparr>"
  obtain s1 where s1: "woken (set (filter (due ?s0) S)) ?s0 s1" "decided s1 (wake_spec ?s0 R S) s'"
    using s'(6) by (auto simp add: event_effect_def Let_def)
  have sync: "sync_ok ?k R' S' D X Q"
  proof (rule sync_transfer [OF o(1)])
    show "counts_ok ?k X Q" using sync_okD(3) [OF o(1)] by (simp add: counts_ok_def)
    show "wq_head w ?k = wq_head w k" "wq_tail w ?k = wq_tail w k" for w by (cases w; simp)+
  qed (use s'(2) D' in simp)
  have "postponed_yield_flag s' = postponed_yield_flag (sched k)" using s1 by (simp add: decided_def woken_def lists_frame_def)
  then have calm: "calm (sched ?k)" using s'(3) o(2) by (simp add: calm_def)
  have "crew ?k R' S' D X Q = {n, idle_thread (sched k)} \<union> listed R' S' D' (waiting X Q (sched k))"
    by (simp add: crew_def s'(4,5) D' ready_set_simps(3) Un_assoc)
  then have crew: "crew ?k R' S' D X Q = A" using event_threads [OF sync_okD(1) [OF o(1)] spec] o(3) by (simp add: crew_threads)
  have sl: "slice_ok s' t" if "t \<in> A" "t \<noteq> idle_thread s'" for t
  proof -
    have "slice_ok (sched k) t" using o(4) [of t] that s'(5) by simp
    then have "slice_ok s1 t" using s1(1) by (simp add: slice_ok_def woken_def)
    then show ?thesis using decided_slice [OF s1(2), of t] by (simp add: slice_ok_def)
  qed
  have "stack_base (tcbs s' t) = stack_base (tcbs (sched k) t)" for t using s1 by (simp add: decided_def woken_def lists_frame_def)
  then show thesis using that [of s' R' S'] s'(1,5) sync calm crew sl by (simp add: sys_ok_def same_blocks_def)
qed

lemma sys_call:
  assumes ok: "sys_ok k R S D X Q A" and e: "e \<noteq> Tick" "current_thread (sched k) \<noteq> idle_thread (sched k)"
    and spec: "event_spec e (sched k) R S D = (n, R', S', D')"
  obtains s' where "sched_event_step e (sched k) = Some s'" "sys_ok (k\<lparr>sched := s'\<rparr>) R' S' D' X Q A" "same_blocks k (k\<lparr>sched := s'\<rparr>)"
proof -
  note o = sys_okD [OF ok]
  have q: "quiet (sched k)" using o(2) by (simp add: calm_def)
  obtain s' where s': "sched_event_step e (sched k) = Some s'" "sched_ok s' R' S' D' (waiting X Q (sched k))" "quiet s'" "current_thread s' = n"
    "idle_thread s' = idle_thread (sched k)" "event_effect e (sched k) R S s'"
    by (rule event_refines [OF sync_okD(1) [OF o(1)] q _ spec]) (simp add: enabled_def e)
  let ?k = "k\<lparr>sched := s'\<rparr>"
  have st: "settled (sched k) (sched ?k)" using s'(6) e(1) by (simp add: event_effect_def)
  have sync: "sync_ok ?k R' S' D' X Q"
  proof (rule sync_transfer [OF o(1)])
    show "counts_ok ?k X Q" using sync_okD(3) [OF o(1)] by (simp add: counts_ok_def)
    show "wq_head w ?k = wq_head w k" "wq_tail w ?k = wq_tail w k" for w by (cases w; simp)+
  qed (use s'(2) in simp)
  have "crew ?k R' S' D' X Q = {n, idle_thread (sched k)} \<union> listed R' S' D' (waiting X Q (sched k))"
    by (simp add: crew_def s'(4,5) ready_set_simps(3) Un_assoc)
  then have "crew ?k R' S' D' X Q = A" using event_threads [OF sync_okD(1) [OF o(1)] spec] o(3) by (simp add: crew_threads)
  then show thesis using that s'(1) settled_sys [OF ok st _ sync calm_settled [OF o(2) st]] by simp
qed

lemma sys_sleep:
  assumes "sys_ok k R S D X Q A" "current_thread (sched k) \<noteq> idle_thread (sched k)"
  obtains s' R' S' where "thread_sleep n (sched k) = Some s'" "sys_ok (k\<lparr>sched := s'\<rparr>) R' S' D X Q A" "same_blocks k (k\<lparr>sched := s'\<rparr>)"
  by (rule sys_call [OF assms(1) _ assms(2), of "Sleep_Call n"]) (auto simp add: Let_def case_prod_beta intro: that)

lemma sys_exit:
  assumes "sys_ok k R S D X Q A" "current_thread (sched k) \<noteq> idle_thread (sched k)"
  obtains s' R' where "sched_event_step Exit_Call (sched k) = Some s'" "sys_ok (k\<lparr>sched := s'\<rparr>) R' S (D @ [current_thread (sched k)]) X Q A"
    "same_blocks k (k\<lparr>sched := s'\<rparr>)"
  by (rule sys_call [OF assms(1) _ assms(2), of Exit_Call]) (auto simp add: Let_def case_prod_beta intro: that)

lemma sys_acquire:
  assumes ok: "sys_ok k R S D X Q A" and w: "w \<in> X" and i: "current_thread (sched k) \<noteq> idle_thread (sched k)"
  defines "Q' \<equiv> if available w k then Q else Q(w := Q w @ [current_thread (sched k)])"
  obtains R' where "sys_ok (acquire w k) R' S D X Q' A" "same_blocks k (acquire w k)"
proof (cases "available w k")
  case True
  note o = sys_okD [OF ok] and a = acquire_free_ok [OF sys_okD(1,2) [OF ok] w True]
  have "crew (acquire w k) R S D X Q = A" using o(3) a(3,4) by (simp add: crew_def settled_def)
  then show thesis using that [of R] settled_sys [OF ok a(3) heap_same(1) a(1,2)] True by (simp add: Q'_def)
next
  case False
  note o = sys_okD [OF ok] and a = acquire_wait_ok [OF sys_okD(1,2) [OF ok] w False i]
  let ?P = "pick (idle_thread (sched k)) R" and ?Q = "Q(w := Q w @ [current_thread (sched k)])"
  have "crew (acquire w k) (snd ?P) S D X ?Q = {current_thread (sched k)} \<union> insert (fst ?P) (insert (idle_thread (sched k)) (ready_set (snd ?P))) \<union> set S \<union> set D \<union> blocked X Q"
    using a(3,4) blocked_upd [OF w, of Q "[current_thread (sched k)]"] by (auto simp add: crew_def settled_def)
  also have "\<dots> = A" unfolding pick_threads o(3) [symmetric] by (auto simp add: crew_def)
  finally show thesis using that [of "snd ?P"] settled_sys [OF ok a(3) heap_same(1) a(1,2)] False by (simp add: Q'_def)
qed

lemma release_threads:
  assumes ok: "sync_ok k R S D X Q" and w: "w \<in> X" "Q w = t # ts"
  shows "insert (idle_thread (sched k)) (ready_set (release_lists (sched k) t R)) = {current_thread (sched k), idle_thread (sched k), t} \<union> ready_set R"
proof -
  let ?p = "unat (priority (tcbs (sched k) t))" and ?c = "unat (priority (tcbs (sched k) (current_thread (sched k))))"
  have p: "?p < 3" by (rule hand_over_core(6) [OF ok w])
  have "ready_set (R(?p := R ?p @ [t])) = insert t (ready_set R)" using ready_set_simps(2) [OF p, of R "[t]"] by simp
  then show ?thesis
    using sched_okD(3,4) [OF sync_okD(1) [OF ok]] ready_set_simps(2) [of ?c "R(?p := R ?p @ [t])" "[current_thread (sched k)]"]
    unfolding release_lists_def requeue_def Let_def by (auto simp del: fun_upd_apply)
qed

lemma sys_release:
  assumes ok: "sys_ok k R S D X Q A" and w: "w \<in> X"
  obtains R' where "sys_ok (release w k) R' S D X (Q(w := tl (Q w))) A" "same_blocks k (release w k)"
proof (cases "Q w")
  case Nil
  note o = sys_okD [OF ok] and a = release_idle_ok [OF sys_okD(1,2) [OF ok] w Nil]
  have "crew (release w k) R S D X Q = A" using o(3) a(3,4) by (simp add: crew_def settled_def)
  moreover have "Q(w := tl (Q w)) = Q" using Nil by (simp add: fun_upd_idem)
  ultimately show thesis using that [of R] settled_sys [OF ok a(3) heap_same(2) a(1,2)] by simp
next
  case (Cons t ts)
  note o = sys_okD [OF ok] and a = release_wake_ok [OF sys_okD(1,2) [OF ok] w Cons]
  let ?P = "pick (idle_thread (sched k)) (release_lists (sched k) t R)"
  have t: "t \<in> blocked X Q" using w Cons by (intro blocked_I [of w]) simp_all
  have "crew (release w k) (snd ?P) S D X (Q(w := ts)) = insert (fst ?P) (insert (idle_thread (sched k)) (ready_set (snd ?P))) \<union> set S \<union> set D \<union> (blocked X Q - {t})"
    using a(3,4) blocked_pop [OF o(1) w Cons] by (auto simp add: crew_def settled_def)
  also have "\<dots> = A" unfolding pick_threads release_threads [OF o(1) w Cons] o(3) [symmetric] using t by (auto simp add: crew_def)
  finally show thesis using that [of "snd ?P"] settled_sys [OF ok a(3) heap_same(2) a(1,2)] Cons by simp
qed

lemma sys_sched:
  assumes "sys_ok k R S D X Q A" "sched k' = sched k" "sync_ok k' R S D X' Q'" "blocked X' Q' = blocked X Q"
  shows "sys_ok k' R S D X' Q' A"
  using assms by (simp add: sys_ok_def crew_def)

lemma sys_create_sync:
  assumes ok: "sys_ok k R S D X Q A" and h: "heap_state_ok base (kheap k) L" "heap_room (1 + m) (kheap k)" "address_of ` X \<subseteq> L"
  obtains x k' where "create_sync n k = Some (Inr (x, k'))" "x \<notin> L" "heap_state_ok base (kheap k') (insert x L)" "heap_room m (kheap k')"
    "sys_ok k' R S D (insert (sync_object n x) X) (Q(sync_object n x := [])) A" "sched k' = sched k" "unused (sync_object n x) k'"
    "capacity (sync_object n x) k' = (case n of None \<Rightarrow> 1 | Some l \<Rightarrow> unat l)"
    "\<And>y. Sem y \<noteq> sync_object n x \<Longrightarrow> semaphores k' y = semaphores k y" "\<And>y. Mtx y \<noteq> sync_object n x \<Longrightarrow> mutexes k' y = mutexes k y"
proof -
  have "heap_size 12" "heap_room (heap_cost 12 + m) (kheap k)" using sync_sizes(2,4) h(2) by (simp_all add: SIZEOF_MUTEX_def)
  then obtain x hp where x: "kmalloc 12 (kheap k) = Some (Inr (x, hp))" "heap_state_ok base hp (insert x L)" "x \<notin> L" "heap_room m hp"
    by (rule kheap_room.alloc_within [OF h(1)])
  let ?w = "sync_object n x"
  have new: "?w \<notin> X" using x(3) h(3) by (cases n) force+
  have b: "blocked (insert ?w X) (Q(?w := [])) = blocked X Q" using new by (auto simp add: blocked_def split: if_splits)
  obtain k' where k': "create_sync n k = Some (Inr (x, k'))" "sched k' = sched k" "kheap k' = hp" "wq_head ?w k' = 0"
    "unused ?w k'" "capacity ?w k' = (case n of None \<Rightarrow> 1 | Some l \<Rightarrow> unat l)"
    "\<And>y. Sem y \<noteq> ?w \<Longrightarrow> semaphores k' y = semaphores k y" "\<And>y. Mtx y \<noteq> ?w \<Longrightarrow> mutexes k' y = mutexes k y"
    by (rule create_sync_fields [OF x(1), of n]) blast
  have "sync_ok k' R S D (insert ?w X) (Q(?w := []))" by (rule sync_ok_insert [OF sys_okD(1) [OF ok] new k'(4,5,2,7,8)])
  then show thesis using that [OF k'(1) x(3) _ _ sys_sched [OF ok k'(2) _ b] k'(2,5,6,7,8)] x(2,4) k'(3) by simp
qed

lemma sys_drop:
  assumes ok: "sys_ok k R S D X Q A" and w: "Q w = []"
  shows "sys_ok (k\<lparr>kheap := h\<rparr>) R S D (X - {w}) Q A"
proof -
  note o = sync_okD [OF sys_okD(1) [OF ok]]
  have b: "blocked (X - {w}) Q = blocked X Q" using w by (auto simp add: blocked_def)
  have h: "wq_head v (k\<lparr>kheap := h\<rparr>) = wq_head v k" "wq_tail v (k\<lparr>kheap := h\<rparr>) = wq_tail v k" for v by (cases v; simp)+
  have "waiting (X - {w}) Q (sched k) = waiting X Q (sched k)" by (simp add: waiting_def b fun_eq_iff)
  then have "sync_ok (k\<lparr>kheap := h\<rparr>) R S D (X - {w}) Q" using o(1-3) by (auto simp add: sync_ok_def wait_lists_def counts_ok_def h)
  then show ?thesis using sys_sched [OF ok, of "k\<lparr>kheap := h\<rparr>"] b by simp
qed

lemma with_thread_last: "last_ready_to_run_thread_list (with_thread code e t b s) 0 = t"
  by (simp add: with_thread_def enqueue_thread_def Let_def)

lemma sys_start:
  assumes ok: "sys_ok k R S D X Q A" and h: "heap_state_ok base (kheap k) L" "heap_room (3 + m) (kheap k)" "A \<subseteq> L"
  obtains k' t b R' where "create_kernel_thread code e k = Some (Inr k')" "last_ready_to_run_thread_list (sched k') 0 = t"
    "sys_ok k' R' S D X Q (insert t A)" "t \<notin> L" "b \<notin> L" "t \<noteq> b" "heap_state_ok base (kheap k') (insert b (insert t L))" "heap_room m (kheap k')"
    "stack_base (tcbs (sched k') t) = b" "\<And>u. u \<noteq> t \<Longrightarrow> stack_base (tcbs (sched k') u) = stack_base (tcbs (sched k) u)"
    "semaphores k' = semaphores k" "mutexes k' = mutexes k" "idle_thread (sched k') = idle_thread (sched k)" "current_thread (sched k') = current_thread (sched k)"
proof -
  note o = sys_okD [OF ok]
  obtain t b hp where 1: "create_kernel_thread code e k = Some (Inr (k\<lparr>kheap := hp, sched := with_thread code e t b (sched k)\<rparr>))"
    "heap_state_ok base hp (insert b (insert t L))" "heap_room m hp" "t \<notin> L" "b \<notin> L" "t \<noteq> b"
    "sched_ok (with_thread code e t b (sched k)) (R(0 := R 0 @ [t])) S D (waiting X Q (sched k))"
    by (rule create_thread_ok [OF sync_okD(1) [OF o(1)] h(1,2)]) (use o(3) h(3) in \<open>auto simp add: crew_threads\<close>)
  let ?k = "k\<lparr>kheap := hp, sched := with_thread code e t b (sched k)\<rparr>"
  have sync: "sync_ok ?k (R(0 := R 0 @ [t])) S D X Q"
  proof (rule sync_transfer [OF o(1)])
    show "counts_ok ?k X Q" using sync_okD(3) [OF o(1)] by (simp add: counts_ok_def)
    show "wq_head w ?k = wq_head w k" "wq_tail w ?k = wq_tail w k" for w by (cases w; simp)+
  qed (use 1(7) in simp)
  have crew: "crew ?k (R(0 := R 0 @ [t])) S D X Q = insert t A"
    using ready_set_simps(2) [of 0 R "[t]"] o(3) by (auto simp add: crew_def with_thread_fields simp del: fun_upd_apply)
  have t: "t \<notin> A" using 1(4) h(3) by blast
  note f = tcb_eq_fields [OF with_thread_other]
  have "slice_ok (with_thread code e t b (sched k)) u" if "u \<in> insert t A" "u \<noteq> idle_thread (sched k)" for u
    using that o(4) [of u] f(5) [of u t code e b "sched k"] with_thread_new(5) [of code e t b "sched k"] by (cases "u = t") (simp_all add: slice_ok_def)
  moreover have "calm (with_thread code e t b (sched k))" using o(2) by (simp add: calm_def quiet_def with_thread_fields)
  ultimately have "sys_ok ?k (R(0 := R 0 @ [t])) S D X Q (insert t A)" using sync crew by (simp add: sys_ok_def with_thread_fields)
  then show thesis using that [OF 1(1) _ _ 1(4,5,6)] 1(2,3) with_thread_last f(4) by (simp add: with_thread_new with_thread_fields)
qed

lemma sys_clean:
  assumes ok: "sys_ok k R S D X Q A" and i: "current_thread (sched k) \<noteq> idle_thread (sched k)"
    and h: "heap_state_ok base (kheap k) L" "distinct (owned (sched k) D)" "set (owned (sched k) D) \<subseteq> L" "idle_thread (sched k) \<notin> set D"
  obtains k' R' S' where "cleaner_task_pass k = Some (Inr k')" "sys_ok k' R' S' [] X Q (A - set D)" "heap_state_ok base (kheap k') (L - set (owned (sched k) D))"
    "\<And>m. heap_room m (kheap k) \<Longrightarrow> heap_room m (kheap k')" "idle_thread (sched k') = idle_thread (sched k)"
    "\<And>t. stack_base (tcbs (sched k') t) = stack_base (tcbs (sched k) t)" "semaphores k' = semaphores k" "mutexes k' = mutexes k"
proof -
  note o = sys_okD [OF ok]
  let ?P = "pick (idle_thread (sched k)) R" and ?c = "current_thread (sched k)"
  have q: "quiet (sched k)" using o(2) by (simp add: calm_def)
  obtain h' s' where 1: "cleaner_task_pass k = Some (Inr (k\<lparr>sched := s', kheap := h'\<rparr>))" "heap_state_ok base h' (L - set (owned (sched k) D))"
    "\<And>m. heap_room m (kheap k) \<Longrightarrow> heap_room m h'" "sched_ok s' (snd ?P) (S @ [?c]) [] (waiting X Q (sched k))" "current_thread s' = fst ?P" "settled (sched k) s'"
    by (rule cleaner_pass_ok [OF sync_okD(1) [OF o(1)] q i h(1-3)]) blast
  let ?k = "k\<lparr>sched := s', kheap := h'\<rparr>"
  have sync: "sync_ok ?k (snd ?P) (S @ [?c]) [] X Q"
  proof (rule sync_transfer [OF o(1)])
    show "counts_ok ?k X Q" using sync_okD(3) [OF o(1)] by (simp add: counts_ok_def)
    show "wq_head w ?k = wq_head w k" "wq_tail w ?k = wq_tail w k" for w by (cases w; simp)+
  qed (use 1(4) in simp)
  have st: "idle_thread s' = idle_thread (sched k)" "stack_base (tcbs s' t) = stack_base (tcbs (sched k) t)" "remaining_time (tcbs s' t) = remaining_time (tcbs (sched k) t)" for t
    using 1(6) by (simp_all add: settled_def)
  have d: "set D \<inter> ({?c, idle_thread (sched k)} \<union> ready_set R \<union> set S \<union> blocked X Q) = {}"
  proof -
    note c = sched_coreD [OF sync_okD(4) [OF o(1)]] and r = sched_okD [OF sync_okD(1) [OF o(1)]]
    have "t \<notin> ready_set R" "t \<notin> set S" "t \<notin> blocked X Q" "t \<noteq> ?c" if "t \<in> set D" for t
      using c(11) [OF that] c(8) [of 0 t] c(8) [of 1 t] c(8) [of 2 t] c(10) [of t] c(12) [of t] r(3) by (auto simp add: ready_set_def)
    then show ?thesis using h(4) by blast
  qed
  have "crew ?k (snd ?P) (S @ [?c]) [] X Q = insert (fst ?P) (insert (idle_thread (sched k)) (ready_set (snd ?P))) \<union> {?c} \<union> set S \<union> blocked X Q"
    by (auto simp add: crew_def 1(5) st(1))
  also have "\<dots> = A - set D" unfolding pick_threads o(3) [symmetric] using d by (auto simp add: crew_def)
  finally have crew: "crew ?k (snd ?P) (S @ [?c]) [] X Q = A - set D" .
  have sl: "slice_ok s' t" if "t \<in> A - set D" "t \<noteq> idle_thread (sched k)" for t using o(4) [of t] that st(3) by (simp add: slice_ok_def)
  have "sys_ok ?k (snd ?P) (S @ [?c]) [] X Q (A - set D)"
    using sync crew sl calm_settled [OF o(2) 1(6)] by (simp add: sys_ok_def st(1))
  then show thesis using that [OF 1(1)] 1(2,3) st by simp
qed

lemma owns_cong: "owns s T K L \<Longrightarrow> (\<And>t. t \<in> T \<Longrightarrow> stack_base (tcbs s' t) = stack_base (tcbs s t)) \<Longrightarrow> owns s' T K L"
  by (simp add: owns_def)

lemma ownsD:
  assumes "owns s T K L"
  shows "K \<subseteq> L" "t \<in> T \<Longrightarrow> t \<noteq> stack_base (tcbs s t)" "t \<in> T \<Longrightarrow> {t, stack_base (tcbs s t)} \<subseteq> L" "t \<in> T \<Longrightarrow> {t, stack_base (tcbs s t)} \<inter> K = {}"
    "t \<in> T \<Longrightarrow> u \<in> T \<Longrightarrow> t \<noteq> u \<Longrightarrow> {t, stack_base (tcbs s t)} \<inter> {u, stack_base (tcbs s u)} = {}" "L = K \<union> (\<Union>t \<in> T. {t, stack_base (tcbs s t)})"
  using assms unfolding owns_def by blast+

lemma owns_keep: "owns s T K L \<Longrightarrow> x \<notin> L \<Longrightarrow> owns s T (insert x K) (insert x L)"
  unfolding owns_def by (intro conjI; blast)

lemma owns_unkeep: "owns s T K L \<Longrightarrow> x \<in> K \<Longrightarrow> owns s T (K - {x}) (L - {x})"
  unfolding owns_def by (intro conjI; blast)

lemma owns_start:
  assumes "owns s T K L" "t \<notin> L" "b \<notin> L" "t \<noteq> b" "stack_base (tcbs s' t) = b" "\<And>u. u \<noteq> t \<Longrightarrow> stack_base (tcbs s' u) = stack_base (tcbs s u)"
  shows "owns s' (insert t T) K (insert b (insert t L))"
proof -
  have t: "t \<notin> T" using assms(1,2) by (auto simp add: owns_def)
  have e: "stack_base (tcbs s' u) = stack_base (tcbs s u)" if "u \<in> T" for u using assms(6) [of u] that t by auto
  have l: "{u, stack_base (tcbs s u)} \<subseteq> L" if "u \<in> T" for u using assms(1) that by (auto simp add: owns_def)
  have "{u, stack_base (tcbs s' u)} \<inter> {t, b} = {}" if "u \<in> T" for u using l [OF that] e [OF that] assms(2,3) by auto
  then show ?thesis using assms(1-5) e unfolding owns_def by (simp add: insert_Diff_if) blast
qed

lemma owned_set: "set (owned s D) = (\<Union>t \<in> set D. {t, stack_base (tcbs s t)})"
  by (auto simp add: owned_def)

lemma owns_clean:
  assumes o: "owns s T K L" and D: "set D \<subseteq> T" "distinct D"
  shows "distinct (owned s D)" "set (owned s D) \<subseteq> L" "owns s (T - set D) K (L - set (owned s D))"
proof -
  let ?b = "\<lambda>t. {t, stack_base (tcbs s t)}"
  have apart: "?b t \<inter> set (owned s E) = {}" if "t \<in> T - set E" "set E \<subseteq> T" for t E
  proof -
    have "?b t \<inter> ?b u = {}" if "u \<in> set E" for u by (rule ownsD(5) [OF o]) (use that \<open>t \<in> T - set E\<close> \<open>set E \<subseteq> T\<close> in auto)
    then show ?thesis unfolding owned_set by blast
  qed
  show "distinct (owned s D)" using D
  proof (induction D)
    case (Cons t D)
    have "?b t \<inter> set (owned s D) = {}" using Cons.prems by (intro apart) auto
    moreover have "t \<noteq> stack_base (tcbs s t)" using ownsD(2) [OF o] Cons.prems by simp
    moreover have "owned s (t # D) = stack_base (tcbs s t) # t # owned s D" by (simp add: owned_def)
    ultimately show ?case using Cons by auto
  qed (simp add: owned_def)
  show "set (owned s D) \<subseteq> L" using ownsD(3) [OF o] D(1) unfolding owned_set by blast
  have k: "K \<inter> set (owned s D) = {}" using ownsD(4) [OF o] D(1) unfolding owned_set by blast
  have "(\<Union>t \<in> T. ?b t) = (\<Union>t \<in> T - set D. ?b t) \<union> set (owned s D)" using D(1) unfolding owned_set by blast
  then have "L - set (owned s D) = (K \<union> (\<Union>t \<in> T - set D. ?b t)) - set (owned s D)" using ownsD(6) [OF o] by blast
  also have "\<dots> = K \<union> (\<Union>t \<in> T - set D. ?b t)" using k apart [OF _ D(1)] by blast
  finally show "owns s (T - set D) K (L - set (owned s D))" using o unfolding owns_def by simp
qed

lemma count_same:
  "Sem x \<noteq> w \<Longrightarrow> current_count (semaphores (acquire w k) x) = current_count (semaphores k x)"
  "Sem x \<noteq> w \<Longrightarrow> current_count (semaphores (release w k) x) = current_count (semaphores k x)"
  "max_count (semaphores (acquire w k) x) = max_count (semaphores k x)" "max_count (semaphores (release w k) x) = max_count (semaphores k x)"
  by (cases w; auto simp add: acquire_semaphore_def acquire_mutex_def release_semaphore_def release_mutex_def sem_append_def mtx_append_def Let_def)+

lemma demand_acquire:
  "demand x (acquire (Sem x) k) (if available (Sem x) k then Q else Q(Sem x := Q (Sem x) @ [t])) = Suc (demand x k Q)"
  using wq_append_counts(1) [of "Sem x" "current_thread (sched k)" "on_sched lock_atomic k" x]
  by (auto simp add: demand_def acquire_eq waiter_def Let_def unat_succ)

lemma demand_release:
  assumes "sync_ok k R S D X Q" "Sem x \<in> X" "0 < demand x k Q"
  shows "demand x (release (Sem x) k) (Q(Sem x := tl (Q (Sem x)))) = demand x k Q - 1"
proof (cases "Q (Sem x)")
  case Nil
  then have "wq_head (Sem x) k = 0" using sync_okD(6) [OF assms(1,2)] by simp
  moreover have "current_count (semaphores k x) \<noteq> 0" using assms(3) Nil by (auto simp add: demand_def)
  ultimately show ?thesis using Nil by (simp add: demand_def release_eq word_gt_0 unat_minus_one)
next
  case (Cons t ts)
  then have "wq_head (Sem x) k \<noteq> 0" using sync_okD(6) [OF assms(1,2)] by auto
  then show ?thesis using Cons by (simp add: demand_def release_eq Let_def)
qed

end
