(* ===== verification/Test_Inv.thy ===== *)
theory Test_Inv
  imports Test_Calls Systems
begin

text \<open>
  The invariant of the multitasking test, and that timer interrupts and the calls of the tasks keep it.
\<close>

section \<open>Specification vocabulary\<close>

text \<open>The releases of the barrier still to come: by the tasks that run, and by those not yet created.\<close>

definition pending :: "test_state \<Rightarrow> u32 \<Rightarrow> u32 set \<Rightarrow> nat" where
  "pending m main T = (\<Sum>t \<in> T. releases (todo m t)) + starts (todo m main)"

text \<open>The threads between acquire and release of \<open>v\<close>.\<close>

definition users :: "test_state \<Rightarrow> sync_var \<Rightarrow> u32 set" where
  "users m v = {t. inside v (todo m t)}"

text \<open>Every thread has a final part of its function left to do; terminated threads \<open>D\<close> have nothing.\<close>

definition progs_ok :: "test_state \<Rightarrow> u32 \<Rightarrow> u32 set \<Rightarrow> u32 list \<Rightarrow> bool" where
  "progs_ok m main T D \<longleftrightarrow> main_rest (todo m main) \<and> main \<notin> T \<and> finite T \<and> (\<forall>t \<in> T. task_rest (todo m t))
     \<and> (\<forall>t. t \<notin> T \<and> t \<noteq> main \<longrightarrow> todo m t = []) \<and> set D \<subseteq> T \<and> (\<forall>t \<in> T. todo m t = [] \<longleftrightarrow> t \<in> set D)
     \<and> pending m main T \<le> 6 \<and> (length (todo m main) < 3 \<longrightarrow> pending m main T = 0)"

text \<open>The blocks of the heap: the blocks \<open>L0\<close> from before the test, the objects that exist, and control blocks and stacks of the tasks, all different.\<close>

definition blocks_ok :: "nat \<Rightarrow> u32 set \<Rightarrow> test_state \<Rightarrow> u32 \<Rightarrow> u32 set \<Rightarrow> u32 set \<Rightarrow> bool" where
  "blocks_ok base L0 m main T L \<longleftrightarrow>
     (let k = tkern m; V = existing (todo m main)
      in heap_state_ok base (kheap k) L \<and> heap_room (pages (todo m main)) (kheap k) \<and> owns (sched k) T (L0 \<union> objects m ` V) L
         \<and> inj_on (objects m) V \<and> objects m ` V \<inter> L0 = {})"

text \<open>
  The objects that exist: limits as asked for; for the mutex and the first semaphore the threads between acquire and release are admitted or waiting;
  at the barrier only the main thread waits, and every release still to come is matched.
\<close>

definition objects_ok :: "test_state \<Rightarrow> u32 \<Rightarrow> u32 set \<Rightarrow> (waitq \<Rightarrow> u32 list) \<Rightarrow> bool" where
  "objects_ok m main T Q \<longleftrightarrow>
     (\<forall>v \<in> existing (todo m main). capacity (object m v) (tkern m) = (case limit_of v of None \<Rightarrow> 1 | Some n \<Rightarrow> unat n)
        \<and> (v \<noteq> Test_Barrier_Sem \<longrightarrow> holders_ok (tkern m) Q (\<lambda>_. users m v) (object m v)))
     \<and> (Test_Barrier_Sem \<in> existing (todo m main) \<longrightarrow> set (Q (object m Test_Barrier_Sem)) \<subseteq> {main}
        \<and> demand (objects m Test_Barrier_Sem) (tkern m) Q + acquires (todo m main) = 6 + pending m main T)"

definition test_inv :: "nat \<Rightarrow> u32 set \<Rightarrow> u32 \<Rightarrow> u32 \<Rightarrow> test_state \<Rightarrow> (nat \<Rightarrow> u32 list) \<Rightarrow> u32 list \<Rightarrow> u32 list \<Rightarrow> (waitq \<Rightarrow> u32 list) \<Rightarrow> u32 set \<Rightarrow> u32 set \<Rightarrow> bool" where
  "test_inv base L0 main cleaner m R S D Q A L \<longleftrightarrow>
     (let T = A - {main, idle_thread (sched (tkern m)), cleaner}
      in sys_ok (tkern m) R S D (object m ` existing (todo m main)) Q A \<and> distinct [main, idle_thread (sched (tkern m)), cleaner] \<and> {main, cleaner} \<subseteq> A
         \<and> {main, idle_thread (sched (tkern m)), cleaner} \<subseteq> L0
         \<and> progs_ok m main T D \<and> blocks_ok base L0 m main T L \<and> objects_ok m main T Q)"

text \<open>What a timer interrupt leaves alone.\<close>

definition ticked :: "test_state \<Rightarrow> test_state \<Rightarrow> bool" where
  "ticked m m' \<longleftrightarrow> todo m' = todo m \<and> objects m' = objects m \<and> idle_thread (sched (tkern m')) = idle_thread (sched (tkern m))"

section \<open>Lemmas\<close>

lemma progs_okD:
  assumes "progs_ok m main T D"
  shows "main_rest (todo m main)" "main \<notin> T" "finite T" "t \<in> T \<Longrightarrow> task_rest (todo m t)" "t \<notin> T \<Longrightarrow> t \<noteq> main \<Longrightarrow> todo m t = []"
    "set D \<subseteq> T" "t \<in> set D \<Longrightarrow> todo m t = []" "pending m main T \<le> 6" "length (todo m main) < 3 \<Longrightarrow> pending m main T = 0"
    "t \<in> T \<Longrightarrow> todo m t = [] \<Longrightarrow> t \<in> set D"
  using assms unfolding progs_ok_def by blast+

lemma busy_task: "progs_ok m main T D \<Longrightarrow> todo m t \<noteq> [] \<Longrightarrow> t \<noteq> main \<Longrightarrow> t \<in> T"
  using progs_okD(5) by blast

lemma holders_H: "holders_ok k Q H v \<Longrightarrow> H' v = H v \<Longrightarrow> holders_ok k Q H' v"
  by (cases v) simp_all

lemma pending_task:
  assumes "finite T" "t \<in> T" "main \<notin> T" "releases p \<le> releases (todo m t)"
  shows "pending (m\<lparr>todo := (todo m)(t := p)\<rparr>) main T = pending m main T - (releases (todo m t) - releases p)"
proof -
  have "(\<Sum>u \<in> T. releases (((todo m)(t := p)) u)) = releases p + (\<Sum>u \<in> T - {t}. releases (todo m u))"
    using assms(1,2) by (subst sum.remove [OF assms(1,2)]) (auto intro: sum.cong)
  moreover have "(\<Sum>u \<in> T. releases (todo m u)) = releases (todo m t) + (\<Sum>u \<in> T - {t}. releases (todo m u))" by (rule sum.remove [OF assms(1,2)])
  moreover have "main \<noteq> t" using assms(2,3) by blast
  ultimately show ?thesis using assms(4) by (simp add: pending_def)
qed

lemma pending_ge:
  assumes "finite T" "t \<in> T"
  shows "releases (todo m t) + starts (todo m main) \<le> pending m main T"
  using member_le_sum [OF assms(2), of "\<lambda>t. releases (todo m t)"] assms(1) by (simp add: pending_def)

lemma progs_task:
  assumes ok: "progs_ok m main T D" and t: "t \<in> T" "t \<notin> set D" "todo m t = c # p"
  defines "m' \<equiv> m\<lparr>todo := (todo m)(t := p)\<rparr>"
  shows "progs_ok m' main T (if c = Exit then D @ [t] else D)" "pending m' main T = pending m main T - (if c = Release Test_Barrier_Sem then 1 else 0)"
    "c = Release Test_Barrier_Sem \<Longrightarrow> 0 < pending m main T"
proof -
  have o: "finite T" "main \<notin> T" "task_rest (c # p)" using ok t by (auto simp add: progs_ok_def)
  have n: "main \<noteq> t" using o(2) t(1) by blast
  show e: "pending m' main T = pending m main T - (if c = Release Test_Barrier_Sem then 1 else 0)"
    using pending_task [OF o(1) t(1) o(2), of p m] t(3) by (auto simp add: m'_def)
  show "0 < pending m main T" if "c = Release Test_Barrier_Sem" using pending_ge [OF o(1) t(1), of m main] t(3) that by simp
  show "progs_ok m' main T (if c = Exit then D @ [t] else D)"
    using ok t n task_tail [OF o(3)] e task_head(3) [OF o(3)] unfolding progs_ok_def by (auto simp add: m'_def)
qed

lemma users_task:
  assumes "task_rest (c # p)" "todo m t = c # p" "v \<noteq> Test_Barrier_Sem"
  shows "users (m\<lparr>todo := (todo m)(t := p)\<rparr>) v =
    (if c = Acquire v then insert t (users m v) else if c = Release v then users m v - {t} else users m v)"
    "c = Acquire v \<Longrightarrow> t \<notin> users m v" "c = Release v \<Longrightarrow> t \<in> users m v"
  using assms task_head(1,2) [OF assms(1), of v] task_head(8) [OF assms(1,3)] by (auto simp add: users_def split: if_splits)

text \<open>A task that still has to use an object finds all of them.\<close>

lemma existing_task:
  assumes ok: "progs_ok m main T D" and t: "t \<in> T" "releases (todo m t) = 1"
  shows "existing (todo m main) = UNIV" "acquires (todo m main) \<le> 6" "0 < pending m main T"
proof -
  have f: "finite T" using ok by (simp add: progs_ok_def)
  note g = pending_ge [OF f t(1), of m main]
  show p: "0 < pending m main T" using g t(2) by simp
  have "starts (todo m main) \<le> 5" "main_rest (todo m main)" "3 \<le> length (todo m main)" using ok g t(2) p by (auto simp add: progs_ok_def)
  then show "existing (todo m main) = UNIV" "acquires (todo m main) \<le> 6"
    unfolding main_suffixes by (elim disjE; simp; simp add: existing_Cons vars_all insert_commute insert_Diff_if)+
qed

lemma test_invD:
  assumes "test_inv base L0 main cleaner m R S D Q A L"
  defines "T \<equiv> A - {main, idle_thread (sched (tkern m)), cleaner}"
  shows "sys_ok (tkern m) R S D (object m ` existing (todo m main)) Q A" "main \<noteq> idle_thread (sched (tkern m))" "main \<noteq> cleaner"
    "cleaner \<noteq> idle_thread (sched (tkern m))" "main \<in> A" "cleaner \<in> A" "progs_ok m main T D" "blocks_ok base L0 m main T L" "objects_ok m main T Q"
    "{main, idle_thread (sched (tkern m)), cleaner} \<subseteq> L0"
  using assms by (auto simp add: test_inv_def Let_def)

lemma test_invI:
  assumes "sys_ok (tkern m) R S D (object m ` existing (todo m main)) Q A" "distinct [main, idle_thread (sched (tkern m)), cleaner]"
    "main \<in> A" "cleaner \<in> A" "T = A - {main, idle_thread (sched (tkern m)), cleaner}" "progs_ok m main T D" "blocks_ok base L0 m main T L" "objects_ok m main T Q"
    "{main, idle_thread (sched (tkern m)), cleaner} \<subseteq> L0"
  shows "test_inv base L0 main cleaner m R S D Q A L"
  using assms by (simp add: test_inv_def Let_def)

text \<open>Steps that change neither the variables nor the heap.\<close>

lemma blocks_same:
  assumes "blocks_ok base L0 m main T L" "same_blocks (tkern m) (tkern m')" "objects m' = objects m" "todo m' main = todo m main"
  shows "blocks_ok base L0 m' main T L"
  using assms owns_cong [of "sched (tkern m)" T _ L "sched (tkern m')"] unfolding blocks_ok_def Let_def same_blocks_def by simp

lemma same_blocks_idle: "same_blocks k k' \<Longrightarrow> idle_thread (sched k') = idle_thread (sched k)"
  by (simp add: same_blocks_def)

lemma object_eq: "objects m' = objects m \<Longrightarrow> object m' = object m"
  by (rule ext, rename_tac v, case_tac v) simp_all

lemma object_address: "address_of (object m v) = objects m v"
  by (cases v) simp_all

lemma object_inj: "inj_on (objects m) V \<Longrightarrow> u \<in> V \<Longrightarrow> v \<in> V \<Longrightarrow> object m u = object m v \<longleftrightarrow> u = v"
  by (metis inj_onD object_address)

text \<open>What happens to the objects when a task makes a call that is none on them, or the scheduler acts.\<close>

lemma objects_frame:
  assumes ok: "objects_ok m main T Q" and s: "semaphores (tkern m') = semaphores (tkern m)" "mutexes (tkern m') = mutexes (tkern m)" "objects m' = objects m"
    and p: "existing (todo m' main) = existing (todo m main)" "acquires (todo m' main) = acquires (todo m main)"
      "\<And>v. v \<noteq> Test_Barrier_Sem \<Longrightarrow> users m' v = users m v" "pending m' main T' = pending m main T"
  shows "objects_ok m' main T' Q"
proof -
  have c: "capacity w (tkern m') = capacity w (tkern m)" for w using s by (cases w) simp_all
  have "holders_ok (tkern m') Q (\<lambda>_. users m' v) w" if "holders_ok (tkern m) Q (\<lambda>_. users m v) w" "v \<noteq> Test_Barrier_Sem" for v w
    using holders_cong [OF that(1) s(1,2)] p(3) [OF that(2)] by simp
  then show ?thesis using ok s p(1,2,4) c unfolding objects_ok_def object_eq [OF s(3)] demand_def by auto
qed

lemma current_task:
  assumes ok: "test_inv base L0 main cleaner m R S D Q A L" and c: "c = current_thread (sched (tkern m))" "todo m c \<noteq> []" "c \<noteq> main"
  shows "c \<in> A - {main, idle_thread (sched (tkern m)), cleaner}" "c \<notin> set D" "c \<noteq> idle_thread (sched (tkern m))"
proof -
  note o = test_invD [OF ok]
  have "\<forall>t. t \<notin> A - {main, idle_thread (sched (tkern m)), cleaner} \<and> t \<noteq> main \<longrightarrow> todo m t = []" using o(7) unfolding progs_ok_def by blast
  then show 1: "c \<in> A - {main, idle_thread (sched (tkern m)), cleaner}" using c(2,3) by blast
  then show "c \<noteq> idle_thread (sched (tkern m))" by blast
  show "c \<notin> set D" using sched_okD(5) [OF sync_okD(1) [OF sys_okD(1) [OF o(1)]]] c(1) by (simp add: listed_def)
qed

lemma ticked_trans: "ticked m m' \<Longrightarrow> ticked m' m'' \<Longrightarrow> ticked m m''"
  by (simp add: ticked_def)

lemma tick_inv:
  assumes ok: "test_inv base L0 main cleaner m R S D Q A L"
  obtains m' R' S' where "tick_step m = Some m'" "test_inv base L0 main cleaner m' R' S' D Q A L" "ticked m m'"
proof -
  note o = test_invD [OF ok]
  obtain s' R' S' where s': "apic_timer_handler (sched (tkern m)) = Some s'" "sys_ok ((tkern m)\<lparr>sched := s'\<rparr>) R' S' D (object m ` existing (todo m main)) Q A"
    "same_blocks (tkern m) ((tkern m)\<lparr>sched := s'\<rparr>)"
    by (rule sys_tick [OF o(1)])
  define m' where "m' = m\<lparr>tkern := (tkern m)\<lparr>sched := s'\<rparr>\<rparr>"
  have f: "todo m' = todo m" "objects m' = objects m" "semaphores (tkern m') = semaphores (tkern m)" "mutexes (tkern m') = mutexes (tkern m)"
    "tkern m' = (tkern m)\<lparr>sched := s'\<rparr>" "users m' = users m" "pending m' = pending m" by (auto simp add: m'_def users_def pending_def fun_eq_iff)
  have i: "idle_thread (sched (tkern m')) = idle_thread (sched (tkern m))" using s'(3) by (simp add: m'_def same_blocks_def)
  have "test_inv base L0 main cleaner m' R' S' D Q A L"
  proof (rule test_invI)
    show "sys_ok (tkern m') R' S' D (object m' ` existing (todo m' main)) Q A" using s'(2) by (simp add: f object_eq [of m' m])
    show "progs_ok m' main (A - {main, idle_thread (sched (tkern m)), cleaner}) D" using o(7) unfolding progs_ok_def f .
    show "blocks_ok base L0 m' main (A - {main, idle_thread (sched (tkern m)), cleaner}) L" using blocks_same [OF o(8), of m'] s'(3) f by simp
    show "objects_ok m' main (A - {main, idle_thread (sched (tkern m)), cleaner}) Q" by (rule objects_frame [OF o(9)]) (simp_all add: f)
  qed (use o i in simp_all)
  then show thesis using that [of m'] s'(1) f(1,2) i by (simp add: tick_step_def m'_def ticked_def)
qed

text \<open>A step of a task, except for its effect on the objects.\<close>

lemma task_inv:
  assumes ok: "test_inv base L0 main cleaner m R S D Q A L" and c: "c = current_thread (sched (tkern m))" "todo m c = x # xs" "c \<noteq> main"
    and D': "D' = (if x = Exit then D @ [c] else D)"
    and m': "todo m' = (todo m)(c := xs)" "objects m' = objects m" "same_blocks (tkern m) (tkern m')"
      "sys_ok (tkern m') R' S' D' (object m ` existing (todo m main)) Q' A"
      "objects_ok m' main (A - {main, idle_thread (sched (tkern m)), cleaner}) Q'"
  shows "test_inv base L0 main cleaner m' R' S' D' Q' A L"
proof (rule test_invI)
  note o = test_invD [OF ok]
  let ?T = "A - {main, idle_thread (sched (tkern m)), cleaner}"
  have t: "c \<in> ?T" "c \<notin> set D" using current_task [OF ok c(1)] c(2,3) by simp_all
  have e: "todo m' main = todo m main" using m'(1) c(3) by simp
  have "todo m' = todo (m\<lparr>todo := (todo m)(c := xs)\<rparr>)" using m'(1) by simp
  then have "progs_ok m' main ?T D'' = progs_ok (m\<lparr>todo := (todo m)(c := xs)\<rparr>) main ?T D''" for D'' unfolding progs_ok_def pending_def by simp
  then show "progs_ok m' main ?T D'" using progs_task(1) [OF o(7) t c(2)] D' by simp
  show "sys_ok (tkern m') R' S' D' (object m' ` existing (todo m' main)) Q' A" using m'(4) e object_eq [OF m'(2)] by simp
  show "blocks_ok base L0 m' main ?T L" by (rule blocks_same [OF o(8) m'(3,2) e])
  show "objects_ok m' main ?T Q'" by (rule m'(5))
qed (use test_invD [OF ok] same_blocks_idle [OF m'(3)] in simp_all)

lemma pending_cong:
  "todo m = todo m' \<Longrightarrow> pending m = pending m'" "todo m = todo m' \<Longrightarrow> users m = users m'" "todo m = todo m' \<Longrightarrow> progs_ok m = progs_ok m'"
  by (simp_all add: progs_ok_def pending_def users_def fun_eq_iff)

lemma task_quiet_objects:
  assumes ok: "test_inv base L0 main cleaner m R S D Q A L" and c: "c = current_thread (sched (tkern m))" "todo m c = x # xs" "c \<noteq> main" "x = Exit \<or> (\<exists>n. x = Sleep n)"
    and m': "todo m' = (todo m)(c := xs)" "objects m' = objects m" "semaphores (tkern m') = semaphores (tkern m)" "mutexes (tkern m') = mutexes (tkern m)"
  shows "objects_ok m' main (A - {main, idle_thread (sched (tkern m)), cleaner}) Q"
proof (rule objects_frame [OF test_invD(9) [OF ok] m'(3,4,2)])
  note o = test_invD [OF ok]
  let ?T = "A - {main, idle_thread (sched (tkern m)), cleaner}" and ?m = "m\<lparr>todo := (todo m)(c := xs)\<rparr>"
  have t: "c \<in> ?T" "c \<notin> set D" using current_task [OF ok c(1)] c(2,3) by simp_all
  have e: "todo m' = todo ?m" using m'(1) by simp
  have r: "task_rest (x # xs)" using progs_okD(4) [OF o(7) t(1)] c(2) by simp
  show "existing (todo m' main) = existing (todo m main)" "acquires (todo m' main) = acquires (todo m main)" using m'(1) c(3) by simp_all
  show "pending m' main ?T = pending m main ?T" using progs_task(2) [OF o(7) t c(2)] pending_cong(1) [OF e] c(4) by auto
  show "users m' v = users m v" if "v \<noteq> Test_Barrier_Sem" for v using users_task(1) [OF r c(2) that] pending_cong(2) [OF e] c(4) by auto
qed

lemma task_sleep_exit:
  assumes ok: "test_inv base L0 main cleaner m R S D Q A L" and c: "c = current_thread (sched (tkern m))" "todo m c = x # xs" "c \<noteq> main" "x = Exit \<or> (\<exists>n. x = Sleep n)"
  shows "\<exists>m' R' S' D'. call_step code entry m = Some (Inr m') \<and> test_inv base L0 main cleaner m' R' S' D' Q A L"
proof -
  note o = test_invD [OF ok]
  have i: "current_thread (sched (tkern m)) \<noteq> idle_thread (sched (tkern m))" using current_task(3) [OF ok c(1)] c(1,2,3) by simp
  obtain s' R' S' D' where s': "call_step code entry m = Some (Inr (m\<lparr>todo := (todo m)(c := xs), tkern := (tkern m)\<lparr>sched := s'\<rparr>\<rparr>))"
    "sys_ok ((tkern m)\<lparr>sched := s'\<rparr>) R' S' D' (object m ` existing (todo m main)) Q A" "same_blocks (tkern m) ((tkern m)\<lparr>sched := s'\<rparr>)"
    "D' = (if x = Exit then D @ [c] else D)"
  proof (cases "x = Exit")
    case True
    obtain s' R' where "sched_event_step Exit_Call (sched (tkern m)) = Some s'"
      "sys_ok ((tkern m)\<lparr>sched := s'\<rparr>) R' S (D @ [current_thread (sched (tkern m))]) (object m ` existing (todo m main)) Q A"
      "same_blocks (tkern m) ((tkern m)\<lparr>sched := s'\<rparr>)" by (rule sys_exit [OF o(1) i])
    then show thesis using that [of s' R' S "D @ [c]"] c(1,2) True by (simp add: call_step_def Let_def)
  next
    case False
    then obtain n where x: "x = Sleep n" using c(4) by blast
    obtain s' R' S' where "thread_sleep n (sched (tkern m)) = Some s'" "sys_ok ((tkern m)\<lparr>sched := s'\<rparr>) R' S' D (object m ` existing (todo m main)) Q A"
      "same_blocks (tkern m) ((tkern m)\<lparr>sched := s'\<rparr>)" by (rule sys_sleep [OF o(1) i])
    then show thesis using that [of s' R' S' D] c(1,2) x by (simp add: call_step_def Let_def)
  qed
  let ?m = "m\<lparr>todo := (todo m)(c := xs), tkern := (tkern m)\<lparr>sched := s'\<rparr>\<rparr>"
  have "objects_ok ?m main (A - {main, idle_thread (sched (tkern m)), cleaner}) Q" by (rule task_quiet_objects [OF ok c]) simp_all
  then have "test_inv base L0 main cleaner ?m R' S' D' Q A L" using s'(2,3) by (intro task_inv [OF ok c(1-3) s'(4)]) simp_all
  then show ?thesis using s'(1) by blast
qed

lemma sem_capacity: "capacity w (acquire v k) = capacity w k" "capacity w (release v k) = capacity w k"
  by (cases w; simp add: count_same)+

lemma barrier_frame:
  assumes "Sem x \<noteq> w"
  shows "demand x (acquire w k) (if available w k then Q else Q(w := ts)) = demand x k Q" "demand x (release w k) (Q(w := ts)) = demand x k Q"
  using assms by (auto simp add: demand_def count_same)

text \<open>A task acquires or releases the mutex or the first semaphore.\<close>

lemma task_acquire:
  assumes ok: "test_inv base L0 main cleaner m R S D Q A L" and c: "c = current_thread (sched (tkern m))" "todo m c = Acquire v # xs" "c \<noteq> main"
  shows "\<exists>m' R' S' D' Q'. call_step code entry m = Some (Inr m') \<and> test_inv base L0 main cleaner m' R' S' D' Q' A L"
proof -
  note o = test_invD [OF ok]
  let ?T = "A - {main, idle_thread (sched (tkern m)), cleaner}" and ?w = "object m v" and ?k = "tkern m" and ?B = Test_Barrier_Sem
  have t: "c \<in> ?T" "c \<notin> set D" "c \<noteq> idle_thread (sched ?k)" using current_task [OF ok c(1)] c(2,3) by simp_all
  have r: "task_rest (Acquire v # xs)" using progs_okD(4) [OF o(7) t(1)] c(2) by simp
  have v: "v \<noteq> ?B" using task_head(1) [OF r] by blast
  have V: "existing (todo m main) = UNIV" by (rule existing_task(1) [OF o(7) t(1)]) (use task_head(7) [OF r] c(2) in simp)
  define Q' where "Q' = (if available ?w ?k then Q else Q(?w := Q ?w @ [c]))"
  define m' where "m' = m\<lparr>todo := (todo m)(c := xs), tkern := acquire ?w ?k\<rparr>"
  have w: "?w \<in> object m ` existing (todo m main)" using V by simp
  have i: "current_thread (sched ?k) \<noteq> idle_thread (sched ?k)" using t(3) c(1) by simp
  obtain R' where s: "sys_ok (acquire ?w ?k) R' S D (object m ` existing (todo m main)) Q' A" "same_blocks ?k (acquire ?w ?k)"
    using sys_acquire [OF o(1) w i] unfolding Q'_def c(1) by blast
  have inj: "object m u = ?w \<longleftrightarrow> u = v" for u using object_inj [of m UNIV u v] o(8) V by (auto simp add: blocks_ok_def Let_def)
  have f: "todo m' = todo (m\<lparr>todo := (todo m)(c := xs)\<rparr>)" "objects m' = objects m" "tkern m' = acquire ?w ?k" by (simp_all add: m'_def)
  have p: "pending m' main ?T = pending m main ?T" using progs_task(2) [OF o(7) t(1,2) c(2)] pending_cong(1) [OF f(1)] by simp
  note u = users_task [OF r c(2), folded fun_cong [OF pending_cong(2) [OF f(1)]]]
  have h: "holders_ok (tkern m') Q' (\<lambda>_. users m' u) (object m' u)" if "u \<noteq> ?B" for u
  proof -
    have "holders_ok ?k Q (\<lambda>_. users m u) (object m u)" using o(9) that V by (simp add: objects_ok_def)
    moreover have "current_thread (sched ?k) \<notin> users m u" if "object m u = ?w" using that inj u(2) [OF \<open>u \<noteq> ?B\<close>] c(1) by simp
    ultimately have "holders_ok (acquire ?w ?k) Q' ((\<lambda>_. users m u)(?w := insert c (users m u))) (object m u)"
      using holders_acquire [OF sys_okD(1,2) [OF o(1)] w, of "\<lambda>_. users m u" "object m u"] unfolding Q'_def c(1) by simp
    then show ?thesis unfolding f(3) object_eq [OF f(2)] by (rule holders_H) (use u(1) [OF that] inj in simp)
  qed
  have b: "object m ?B \<noteq> ?w" using inj [of ?B] v by metis
  then have "demand (objects m ?B) (acquire ?w ?k) Q' = demand (objects m ?B) ?k Q" "Q' (object m ?B) = Q (object m ?B)"
    using barrier_frame(1) [of "objects m ?B" ?w ?k Q "Q ?w @ [c]"] by (simp_all add: Q'_def)
  then have "objects_ok m' main ?T Q'"
    using o(9) h p c(3) V unfolding objects_ok_def object_eq [OF f(2)] f sem_capacity by simp
  then have "test_inv base L0 main cleaner m' R' S D Q' A L" using s f by (intro task_inv [OF ok c]) simp_all
  moreover have "call_step code entry m = Some (Inr m')" using c(1,2) object_eq [of "m\<lparr>todo := (todo m)(c := xs)\<rparr>" m] by (simp add: call_step_def Let_def m'_def)
  ultimately show ?thesis by blast
qed

lemma released_barrier:
  assumes ok: "sync_ok (tkern m) R S D X Q" "object m v \<in> X" and inj: "object m Test_Barrier_Sem = object m v \<longleftrightarrow> v = Test_Barrier_Sem"
    and d: "0 < demand (objects m Test_Barrier_Sem) (tkern m) Q" and b: "set (Q (object m Test_Barrier_Sem)) \<subseteq> {main}"
  defines "Q' \<equiv> Q(object m v := tl (Q (object m v)))"
  shows "demand (objects m Test_Barrier_Sem) (release (object m v) (tkern m)) Q' = demand (objects m Test_Barrier_Sem) (tkern m) Q - (if v = Test_Barrier_Sem then 1 else 0)"
    "set (Q' (object m Test_Barrier_Sem)) \<subseteq> {main}"
proof -
  have "demand (objects m Test_Barrier_Sem) (release (object m v) (tkern m)) Q' = demand (objects m Test_Barrier_Sem) (tkern m) Q - (if v = Test_Barrier_Sem then 1 else 0)
    \<and> set (Q' (object m Test_Barrier_Sem)) \<subseteq> {main}"
  proof (cases "v = Test_Barrier_Sem")
    case True
    then have "set (Q' (object m Test_Barrier_Sem)) \<subseteq> set (Q (object m Test_Barrier_Sem))" unfolding Q'_def by (cases "Q (object m Test_Barrier_Sem)") auto
    then show ?thesis using demand_release [OF ok(1) _ d] ok(2) True b unfolding Q'_def by simp
  next
    case False
    then have n: "Sem (objects m Test_Barrier_Sem) \<noteq> object m v" using inj by auto
    then have "Q' (object m Test_Barrier_Sem) = Q (object m Test_Barrier_Sem)" unfolding Q'_def by simp
    then show ?thesis using barrier_frame(2) [OF n] False b unfolding Q'_def by simp
  qed
  then show "demand (objects m Test_Barrier_Sem) (release (object m v) (tkern m)) Q' = demand (objects m Test_Barrier_Sem) (tkern m) Q - (if v = Test_Barrier_Sem then 1 else 0)"
    "set (Q' (object m Test_Barrier_Sem)) \<subseteq> {main}" by blast+
qed

lemma task_release:
  assumes ok: "test_inv base L0 main cleaner m R S D Q A L" and c: "c = current_thread (sched (tkern m))" "todo m c = Release v # xs" "c \<noteq> main"
  shows "\<exists>m' R' S' D' Q'. call_step code entry m = Some (Inr m') \<and> test_inv base L0 main cleaner m' R' S' D' Q' A L"
proof -
  note o = test_invD [OF ok]
  let ?T = "A - {main, idle_thread (sched (tkern m)), cleaner}" and ?w = "object m v" and ?k = "tkern m" and ?B = Test_Barrier_Sem
  have t: "c \<in> ?T" "c \<notin> set D" using current_task [OF ok c(1)] c(2,3) by simp_all
  have r: "task_rest (Release v # xs)" using progs_okD(4) [OF o(7) t(1)] c(2) by simp
  have r1: "releases (todo m c) = 1" using task_head(7) [OF r] task_facts(1) [OF r] c(2) by (cases v) simp_all
  note V = existing_task [OF o(7) t(1) r1]
  define Q' where "Q' = Q(?w := tl (Q ?w))"
  define m' where "m' = m\<lparr>todo := (todo m)(c := xs), tkern := release ?w ?k\<rparr>"
  have w: "?w \<in> object m ` existing (todo m main)" using V(1) by simp
  obtain R' where s: "sys_ok (release ?w ?k) R' S D (object m ` existing (todo m main)) Q' A" "same_blocks ?k (release ?w ?k)"
    using sys_release [OF o(1) w] unfolding Q'_def by blast
  have inj: "object m u = ?w \<longleftrightarrow> u = v" for u using object_inj [of m UNIV u v] o(8) V(1) by (auto simp add: blocks_ok_def Let_def)
  have f: "todo m' = todo (m\<lparr>todo := (todo m)(c := xs)\<rparr>)" "objects m' = objects m" "tkern m' = release ?w ?k" by (simp_all add: m'_def)
  have p: "pending m' main ?T = pending m main ?T - (if v = ?B then 1 else 0)" using progs_task(2) [OF o(7) t(1,2) c(2)] pending_cong(1) [OF f(1)] by simp
  note u = users_task [OF r c(2), folded fun_cong [OF pending_cong(2) [OF f(1)]]]
  have h: "holders_ok (tkern m') Q' (\<lambda>_. users m' u) (object m' u)" if "u \<noteq> ?B" for u
  proof -
    have "holders_ok ?k Q (\<lambda>_. users m u) (object m u)" using o(9) that V(1) by (simp add: objects_ok_def)
    moreover have "current_thread (sched ?k) \<in> users m u" if "object m u = ?w" using that inj u(3) [OF \<open>u \<noteq> ?B\<close>] c(1) by simp
    ultimately have "holders_ok (release ?w ?k) Q' ((\<lambda>_. users m u)(?w := users m u - {c})) (object m u)"
      using holders_release [OF sys_okD(1) [OF o(1)] w, of "\<lambda>_. users m u" "object m u"] unfolding Q'_def c(1) by simp
    then show ?thesis unfolding f(3) object_eq [OF f(2)] by (rule holders_H) (use u(1) [OF that] inj in simp)
  qed
  have b: "set (Q (object m ?B)) \<subseteq> {main}" "demand (objects m ?B) ?k Q + acquires (todo m main) = 6 + pending m main ?T"
    using o(9) V(1) by (simp_all add: objects_ok_def)
  have d0: "0 < demand (objects m ?B) ?k Q" using b(2) V(2,3) by linarith
  note d = released_barrier [OF sys_okD(1) [OF o(1)] w inj [of ?B, unfolded eq_commute [of ?B]] d0 b(1), folded Q'_def]
  have "objects_ok m' main ?T Q'"
    using o(9) h p c(3) V d d0 b(2) unfolding objects_ok_def object_eq [OF f(2)] f sem_capacity by auto
  then have "test_inv base L0 main cleaner m' R' S D Q' A L" using s f by (intro task_inv [OF ok c]) simp_all
  moreover have "call_step code entry m = Some (Inr m')" using c(1,2) object_eq [of "m\<lparr>todo := (todo m)(c := xs)\<rparr>" m] by (simp add: call_step_def Let_def m'_def)
  ultimately show ?thesis by blast
qed

lemma task_step:
  assumes ok: "test_inv base L0 main cleaner m R S D Q A L" and c: "c = current_thread (sched (tkern m))" "todo m c \<noteq> []" "c \<noteq> main"
  shows "\<exists>m' R' S' D' Q'. call_step code entry m = Some (Inr m') \<and> test_inv base L0 main cleaner m' R' S' D' Q' A L"
proof -
  note o = test_invD [OF ok] and t = current_task [OF ok c]
  obtain x xs where x: "todo m c = x # xs" using c(2) by (cases "todo m c") auto
  have r: "task_rest (x # xs)" using progs_okD(4) [OF o(7) t(1)] x by simp
  show ?thesis
  proof (cases x)
    case (Acquire v)
    then show ?thesis using task_acquire [OF ok c(1) _ c(3)] x by simp
  next
    case (Release v)
    then show ?thesis using task_release [OF ok c(1) _ c(3)] x by simp
  next
    case (Sleep n)
    then show ?thesis using task_sleep_exit [OF ok c(1) x c(3)] by blast
  next
    case Exit
    then show ?thesis using task_sleep_exit [OF ok c(1) x c(3)] by blast
  qed (use task_head(4-6) [OF r] in simp_all)
qed

end
