(* ===== verification/Test_Steps.thy ===== *)
theory Test_Steps
  imports Test_Inv
begin

text \<open>
  The calls of the main function of the test, and the passes of the cleaner, keep the invariant.
\<close>

section \<open>Lemmas\<close>

lemma users_none:
  assumes ok: "progs_ok m main T D" and z: "\<And>t. t \<in> T \<Longrightarrow> releases (todo m t) = 0" and v: "v \<noteq> Test_Barrier_Sem"
  shows "users m v = {}"
proof -
  have "\<not> inside v (todo m t)" for t
  proof (cases "t \<in> T")
    case True
    then show ?thesis using task_facts(3) [OF progs_okD(4) [OF ok True] _ v] z [OF True] by auto
  next
    case False
    then show ?thesis using progs_okD(5) [OF ok False] main_quiet(1) [OF progs_okD(1) [OF ok]] by (cases "t = main") auto
  qed
  then show ?thesis by (simp add: users_def)
qed

lemma progs_main:
  assumes ok: "progs_ok m main T D" and p: "todo m main = c # p" "\<And>x. c \<noteq> Start x" and z: "length p < 3 \<Longrightarrow> pending m main T = 0"
  defines "m' \<equiv> m\<lparr>todo := (todo m)(main := p)\<rparr>"
  shows "progs_ok m' main T D" "pending m' main T = pending m main T" "users m' = users m"
proof -
  note o = progs_okD [OF ok]
  have "(\<Sum>u \<in> T. releases (((todo m)(main := p)) u)) = (\<Sum>u \<in> T. releases (todo m u))" using o(2) by (intro sum.cong) auto
  moreover have "starts p = starts (c # p)" using p(2) by (cases c) auto
  ultimately show e: "pending m' main T = pending m main T" using p(1) by (simp add: pending_def m'_def)
  have "main_rest p" using main_tail o(1) p(1) by metis
  then show "users m' = users m" using main_quiet(1) [OF o(1)] main_quiet(1) [of p] by (auto simp add: users_def m'_def fun_eq_iff)
  show "progs_ok m' main T D" using ok o(2) \<open>main_rest p\<close> z e unfolding progs_ok_def by (auto simp add: m'_def)
qed

lemma main_acquire:
  assumes ok: "test_inv base L0 main cleaner m R S D Q A L" and c: "current_thread (sched (tkern m)) = main" "todo m main = Acquire v # xs"
  shows "\<exists>m' R' S' D' Q'. call_step code entry m = Some (Inr m') \<and> test_inv base L0 main cleaner m' R' S' D' Q' A L"
proof -
  note o = test_invD [OF ok]
  let ?T = "A - {main, idle_thread (sched (tkern m)), cleaner}" and ?w = "object m Test_Barrier_Sem" and ?k = "tkern m" and ?B = Test_Barrier_Sem
  have r: "main_rest (Acquire v # xs)" using progs_okD(1) [OF o(7)] c(2) by simp
  have v: "v = ?B" "?B \<in> existing (todo m main)" "existing xs = existing (todo m main)" "3 \<le> length xs" using main_head(2) [OF r refl] c(2) by auto
  define Q' where "Q' = (if available ?w ?k then Q else Q(?w := Q ?w @ [main]))"
  define m' where "m' = m\<lparr>todo := (todo m)(main := xs), tkern := acquire ?w ?k\<rparr>"
  have w: "?w \<in> object m ` existing (todo m main)" using v(2) by (rule imageI)
  have i: "current_thread (sched ?k) \<noteq> idle_thread (sched ?k)" using o(2) c(1) by simp
  obtain R' where s: "sys_ok (acquire ?w ?k) R' S D (object m ` existing (todo m main)) Q' A" "same_blocks ?k (acquire ?w ?k)"
    using sys_acquire [OF o(1) w i] unfolding Q'_def c(1) by blast
  have f: "todo m' = todo (m\<lparr>todo := (todo m)(main := xs)\<rparr>)" "objects m' = objects m" "tkern m' = acquire ?w ?k" by (simp_all add: m'_def)
  note g = progs_main [OF o(7) c(2)] and e = pending_cong [OF f(1)]
  have p: "progs_ok m' main ?T D" "pending m' main ?T = pending m main ?T" "users m' = users m"
    using g v(4) unfolding e by simp_all
  have b: "set (Q ?w) \<subseteq> {main}" "demand (objects m ?B) ?k Q + acquires (todo m main) = 6 + pending m main ?T"
    using o(9) v(2) by (simp_all add: objects_ok_def)
  have inj: "object m u = ?w \<longleftrightarrow> u = ?B" if "u \<in> existing (todo m main)" for u
    by (rule object_inj [OF _ that v(2)]) (use o(8) in \<open>simp add: blocks_ok_def Let_def\<close>)
  have h: "holders_ok (tkern m') Q' (\<lambda>_. users m' u) (object m' u)" if u: "u \<in> existing (todo m main)" "u \<noteq> ?B" for u
  proof -
    have n: "object m u \<noteq> ?w" using inj [OF u(1)] u(2) by metis
    have "holders_ok ?k Q (\<lambda>_. users m u) (object m u)" using o(9) u by (simp add: objects_ok_def)
    then have "holders_ok (acquire ?w ?k) Q' ((\<lambda>_. users m u)(?w := insert main (users m u))) (object m u)"
      using holders_acquire [OF sys_okD(1,2) [OF o(1)] w, of "\<lambda>_. users m u" "object m u"] n unfolding Q'_def c(1) by metis
    then show ?thesis unfolding f(3) object_eq [OF f(2)] p(3) by (rule holders_H) (metis n fun_upd_other)
  qed
  have d: "demand (objects m ?B) (acquire ?w ?k) Q' = Suc (demand (objects m ?B) ?k Q)"
    using demand_acquire [of "objects m ?B" ?k Q main] unfolding Q'_def object.simps .
  have "set (Q' ?w) \<subseteq> {main}" using b(1) by (auto simp add: Q'_def)
  then have "objects_ok m' main ?T Q'"
    using o(9) h p(2) b(2) d c(2) v unfolding objects_ok_def object_eq [OF f(2)] f sem_capacity by simp
  moreover have "blocks_ok base L0 m' main ?T L"
    using o(8) owns_cong [of "sched ?k" ?T _ L "sched (tkern m')"] s(2) c(2) v unfolding blocks_ok_def Let_def same_blocks_def f by simp
  ultimately have "test_inv base L0 main cleaner m' R' S D Q' A L"
    using s o(2-6,10) p(1) v(3) same_blocks_idle [OF s(2)] by (intro test_invI [where T = ?T]) (simp_all add: f object_eq [OF f(2)])
  moreover have "call_step code entry m = Some (Inr m')" using c v(1) by (simp add: call_step_def Let_def m'_def)
  ultimately show ?thesis by blast
qed

lemma created_object:
  assumes "objects m' = (objects m)(v := x)"
  shows "object m' v = sync_object (limit_of v) x" "u \<noteq> v \<Longrightarrow> object m' u = object m u" "v \<notin> V \<Longrightarrow> object m' ` insert v V = insert (sync_object (limit_of v) x) (object m ` V)"
proof -
  show 1: "object m' v = sync_object (limit_of v) x" using assms by (cases v) simp_all
  show 2: "object m' u = object m u" if "u \<noteq> v" for u using assms that by (cases u) simp_all
  assume "v \<notin> V"
  then have "object m' ` V = object m ` V" by (intro image_cong [OF refl] 2) blast
  then show "object m' ` insert v V = insert (sync_object (limit_of v) x) (object m ` V)" using 1 by simp
qed

lemma created_blocks:
  assumes ok: "blocks_ok base L0 m main T L" and v: "v \<notin> existing (todo m main)" "existing xs = insert v (existing (todo m main))" and x: "x \<notin> L"
    and m': "todo m' main = xs" "objects m' = (objects m)(v := x)" "sched (tkern m') = sched (tkern m)"
      "heap_state_ok base (kheap (tkern m')) (insert x L)" "heap_room (pages xs) (kheap (tkern m'))"
  shows "blocks_ok base L0 m' main T (insert x L)"
proof -
  let ?V = "existing (todo m main)"
  have bl: "owns (sched (tkern m)) T (L0 \<union> objects m ` ?V) L" "inj_on (objects m) ?V" "objects m ` ?V \<inter> L0 = {}" using ok by (simp_all add: blocks_ok_def Let_def)
  have xK: "x \<notin> L0 \<union> objects m ` ?V" using x ownsD(1) [OF bl(1)] by blast
  have i: "objects m' ` existing xs = insert x (objects m ` ?V)" unfolding v(2) m'(2) using v(1) by auto
  have K: "L0 \<union> objects m' ` existing xs = insert x (L0 \<union> objects m ` ?V)" unfolding i by blast
  have "inj_on (objects m') (existing xs)" unfolding v(2) m'(2) using bl(2) xK v(1) by (auto simp add: inj_on_def)
  moreover have "objects m' ` existing xs \<inter> L0 = {}" unfolding i using xK bl(3) by blast
  ultimately show ?thesis using owns_keep [OF bl(1) x] m'(4,5) unfolding blocks_ok_def Let_def m'(1,3) by (simp only: K)
qed

lemma created_objects:
  assumes ok: "objects_ok m main T Q" and p: "progs_ok m main T D" "todo m main = Create v # xs"
    and m': "todo m' = (todo m)(main := xs)" "objects m' = (objects m)(v := x)" "pending m' main T = pending m main T" "users m' = users m"
    and w: "w = object m' v" "\<And>u. u \<in> existing (todo m main) \<Longrightarrow> object m u \<noteq> w" "unused w (tkern m')"
      "capacity w (tkern m') = (case limit_of v of None \<Rightarrow> 1 | Some l \<Rightarrow> unat l)"
    and same: "\<And>y. Sem y \<noteq> w \<Longrightarrow> semaphores (tkern m') y = semaphores (tkern m) y" "\<And>y. Mtx y \<noteq> w \<Longrightarrow> mutexes (tkern m') y = mutexes (tkern m) y"
  shows "objects_ok m' main T (Q(w := []))"
proof -
  let ?k = "tkern m'" and ?V = "existing (todo m main)" and ?B = Test_Barrier_Sem
  have r: "main_rest (Create v # xs)" using progs_okD(1) [OF p(1)] p(2) by simp
  have v: "v \<notin> ?V" "existing xs = insert v ?V" "starts xs = 6" "acquires xs = 12" using main_head(1) [OF r refl] p(2) by auto
  have six: "pending m main T = 6" "\<And>t. t \<in> T \<Longrightarrow> releases (todo m t) = 0"
    using progs_okD(3,8) [OF p(1)] v(3) p(2) pending_ge [OF progs_okD(3) [OF p(1)], of _ m main] unfolding pending_def by fastforce+
  have old: "capacity (object m u) ?k = capacity (object m u) (tkern m)" "holders_ok ?k (Q(w := [])) H (object m u) = holders_ok (tkern m) Q H (object m u)"
    if "u \<in> ?V" for u H using w(2) [OF that] same by (cases "object m u"; simp)+
  have "holders_ok ?k (Q(w := [])) (\<lambda>_. {}) w" using w(3) by (cases w) simp_all
  then have new: "v \<noteq> ?B \<Longrightarrow> holders_ok ?k (Q(w := [])) (\<lambda>_. users m v) w" using users_none [OF p(1) six(2)] by simp
  show ?thesis unfolding objects_ok_def m'(3,4)
  proof (intro conjI ballI impI)
    fix u assume "u \<in> existing (todo m' main)"
    then have u: "u = v \<or> u \<in> ?V \<and> u \<noteq> v" using v(1,2) by (auto simp add: m'(1))
    show "capacity (object m' u) ?k = (case limit_of u of None \<Rightarrow> 1 | Some n \<Rightarrow> unat n)"
      using u w(4) old(1) ok created_object(2) [OF m'(2)] by (auto simp add: objects_ok_def w(1) [symmetric])
    show "holders_ok ?k (Q(w := [])) (\<lambda>_. users m u) (object m' u)" if "u \<noteq> ?B"
      using u new that old(2) ok created_object(2) [OF m'(2)] by (auto simp add: objects_ok_def w(1) [symmetric])
  next
    assume l: "?B \<in> existing (todo m' main)"
    have "set ((Q(w := [])) (object m' ?B)) \<subseteq> {main} \<and> demand (objects m' ?B) ?k (Q(w := [])) + acquires xs = 6 + pending m main T"
    proof (cases "v = ?B")
      case True
      then have "object m' ?B = w" "w = Sem x" "objects m' ?B = x" using w(1) m'(2) by simp_all
      then show ?thesis using w(3) v(4) six(1) by (auto simp add: demand_def)
    next
      case False
      then have B: "?B \<in> ?V" using l v(2) by (simp add: m'(1))
      then have "w \<noteq> Sem (objects m ?B)" using w(2) [OF B] by simp
      then have "demand (objects m ?B) ?k (Q(w := [])) = demand (objects m ?B) (tkern m) Q" using same(1) by (simp add: demand_def)
      then show ?thesis using ok B w(2) [OF B] False p(2) created_object(2) [OF m'(2), of ?B] by (simp add: objects_ok_def m'(2))
    qed
    then show "set ((Q(w := [])) (object m' ?B)) \<subseteq> {main}" "demand (objects m' ?B) ?k (Q(w := [])) + acquires (todo m' main) = 6 + pending m main T"
      by (simp_all add: m'(1))
  qed
qed

lemma main_create:
  assumes ok: "test_inv base L0 main cleaner m R S D Q A L" and c: "current_thread (sched (tkern m)) = main" "todo m main = Create v # xs"
  shows "\<exists>m' Q' L'. call_step code entry m = Some (Inr m') \<and> test_inv base L0 main cleaner m' R S D Q' A L'"
proof -
  note o = test_invD [OF ok]
  let ?T = "A - {main, idle_thread (sched (tkern m)), cleaner}" and ?k = "tkern m" and ?V = "existing (todo m main)"
  have r: "main_rest (Create v # xs)" using progs_okD(1) [OF o(7)] c(2) by simp
  have v: "v \<notin> ?V" "existing xs = insert v ?V" "acquires xs = 12" using main_head(1) [OF r refl] c(2) by auto
  have l3: "3 \<le> length xs" using count_le_length [of xs "Acquire Test_Barrier_Sem"] v(3) by simp
  have bl: "heap_state_ok base (kheap ?k) L" "heap_room (1 + pages xs) (kheap ?k)" "owns (sched ?k) ?T (L0 \<union> objects m ` ?V) L"
    using o(8) c(2) by (simp_all add: blocks_ok_def Let_def)
  have K: "objects m ` ?V \<subseteq> L" using ownsD(1) [OF bl(3)] by blast
  then have "address_of ` object m ` ?V \<subseteq> L" by (auto simp add: object_address)
  then obtain x k' where k': "create_sync (limit_of v) ?k = Some (Inr (x, k'))" "x \<notin> L" "heap_state_ok base (kheap k') (insert x L)" "heap_room (pages xs) (kheap k')"
    "sys_ok k' R S D (insert (sync_object (limit_of v) x) (object m ` ?V)) (Q(sync_object (limit_of v) x := [])) A" "sched k' = sched ?k" "unused (sync_object (limit_of v) x) k'"
    "capacity (sync_object (limit_of v) x) k' = (case limit_of v of None \<Rightarrow> 1 | Some l \<Rightarrow> unat l)"
    "\<And>y. Sem y \<noteq> sync_object (limit_of v) x \<Longrightarrow> semaphores k' y = semaphores ?k y" "\<And>y. Mtx y \<noteq> sync_object (limit_of v) x \<Longrightarrow> mutexes k' y = mutexes ?k y"
    by (rule sys_create_sync [OF o(1) bl(1,2), where n = "limit_of v"]) blast
  define m' where "m' = m\<lparr>todo := (todo m)(main := xs), tkern := k', objects := (objects m)(v := x)\<rparr>"
  have f: "todo m' = (todo m)(main := xs)" "tkern m' = k'" "objects m' = (objects m)(v := x)" by (simp_all add: m'_def)
  note ob = created_object [OF f(3)]
  have ne: "object m u \<noteq> object m' v" if "u \<in> ?V" for u
    using k'(2) K that object_address [of m u] object_address [of m' v] by (auto simp add: f(3))
  have p: "progs_ok m' main ?T D" "pending m' main ?T = pending m main ?T" "users m' = users m"
    using progs_main [OF o(7) c(2)] l3 pending_cong [of m' "m\<lparr>todo := (todo m)(main := xs)\<rparr>"] f(1) by simp_all
  have "objects_ok m' main ?T (Q(object m' v := []))"
    by (rule created_objects [OF o(9,7) c(2) f(1,3) p(2,3) refl ne]) (use k'(7-10) in \<open>simp_all add: ob(1) f(2)\<close>)
  moreover have "blocks_ok base L0 m' main ?T (insert x L)"
    by (rule created_blocks [OF o(8) v(1,2) k'(2) _ f(3)]) (use k'(3,4,6) f in simp_all)
  ultimately have "test_inv base L0 main cleaner m' R S D (Q(object m' v := [])) A (insert x L)"
    using k'(5,6) o(2-6,10) p(1) ob(1) ob(3) [OF v(1)] v(2) by (intro test_invI [where T = ?T]) (simp_all add: f(1,2))
  moreover have "call_step code entry m = Some (Inr m')" using c k'(1) by (simp add: call_step_def Let_def m'_def)
  ultimately show ?thesis by blast
qed

lemma crew_blocks:
  assumes "test_inv base L0 main cleaner m R S D Q A L"
  shows "A \<subseteq> L"
proof -
  have o: "owns (sched (tkern m)) (A - {main, idle_thread (sched (tkern m)), cleaner}) (L0 \<union> objects m ` existing (todo m main)) L"
    using test_invD(8) [OF assms] by (simp add: blocks_ok_def Let_def)
  show ?thesis using ownsD(1,3) [OF o] test_invD(10) [OF assms] by blast
qed

lemma progs_start:
  assumes ok: "progs_ok m main T D" and p: "todo m main = Start x # p" and t: "t \<notin> T" "t \<noteq> main"
  defines "m' \<equiv> m\<lparr>todo := (todo m)(main := p, t := body_of x @ [Exit])\<rparr>"
  shows "progs_ok m' main (insert t T) D" "pending m' main (insert t T) = pending m main T" "v \<noteq> Test_Barrier_Sem \<Longrightarrow> users m' v = users m v"
proof -
  note o = progs_okD [OF ok]
  have r: "main_rest (Start x # p)" using o(1) p by simp
  have "(\<Sum>u \<in> T. releases (todo m' u)) = (\<Sum>u \<in> T. releases (todo m u))" using o(2) t(1) by (intro sum.cong) (auto simp add: m'_def)
  then show e: "pending m' main (insert t T) = pending m main T"
    using o(3) t p body_fresh(2) [of x] by (simp add: pending_def m'_def)
  show "progs_ok m' main (insert t T) D"
    using ok t main_tail [OF r] task_body [of x] main_head(3) [OF r] e unfolding progs_ok_def by (auto simp add: m'_def)
  assume v: "v \<noteq> Test_Barrier_Sem"
  have "todo m t = []" by (rule o(5) [OF t])
  then show "users m' v = users m v"
    using v body_fresh(1) [of v x] main_quiet(1) [OF r] main_quiet(1) [OF main_tail [OF r]] p t(2) by (auto simp add: users_def m'_def)
qed

lemma main_start:
  assumes ok: "test_inv base L0 main cleaner m R S D Q A L" and c: "current_thread (sched (tkern m)) = main" "todo m main = Start x # xs"
  shows "\<exists>m' R' A' L'. call_step code entry m = Some (Inr m') \<and> test_inv base L0 main cleaner m' R' S D Q A' L'"
proof -
  note o = test_invD [OF ok]
  let ?T = "A - {main, idle_thread (sched (tkern m)), cleaner}" and ?k = "tkern m" and ?V = "existing (todo m main)" and ?F = "{main, idle_thread (sched (tkern m)), cleaner}"
  have r: "main_rest (Start x # xs)" using progs_okD(1) [OF o(7)] c(2) by simp
  have v: "existing xs = ?V" "acquires xs = acquires (todo m main)" using main_head(3) [OF r refl] c(2) by simp_all
  have bl: "heap_state_ok base (kheap ?k) L" "heap_room (3 + pages xs) (kheap ?k)" "owns (sched ?k) ?T (L0 \<union> objects m ` ?V) L" "inj_on (objects m) ?V" "objects m ` ?V \<inter> L0 = {}"
    using o(8) c(2) by (simp_all add: blocks_ok_def Let_def)
  obtain k' t b R' where k': "create_kernel_thread code (entry x) ?k = Some (Inr k')" "last_ready_to_run_thread_list (sched k') 0 = t"
    "sys_ok k' R' S D (object m ` ?V) Q (insert t A)" "t \<notin> L" "b \<notin> L" "t \<noteq> b" "heap_state_ok base (kheap k') (insert b (insert t L))" "heap_room (pages xs) (kheap k')"
    "stack_base (tcbs (sched k') t) = b" "\<And>u. u \<noteq> t \<Longrightarrow> stack_base (tcbs (sched k') u) = stack_base (tcbs (sched ?k) u)"
    "semaphores k' = semaphores ?k" "mutexes k' = mutexes ?k" "idle_thread (sched k') = idle_thread (sched ?k)"
    by (rule sys_start [OF o(1) bl(1,2) crew_blocks [OF ok], where code = code and e = "entry x"]) blast
  define m' where "m' = m\<lparr>todo := (todo m)(main := xs, t := body_of x @ [Exit]), tkern := k'\<rparr>"
  have t: "t \<notin> A" "t \<notin> ?T" "t \<noteq> main" "insert t ?T = insert t A - ?F" using k'(4) crew_blocks [OF ok] o(5,6) sys_okD(6) [OF o(1)] by auto
  have f: "todo m' = todo (m\<lparr>todo := (todo m)(main := xs, t := body_of x @ [Exit])\<rparr>)" "tkern m' = k'" "objects m' = objects m" "todo m' main = xs"
    using t(3) by (simp_all add: m'_def)
  note g = progs_start [OF o(7) c(2) t(2,3), folded pending_cong [OF f(1)]]
  have ob: "objects_ok m' main (insert t ?T) Q"
    by (rule objects_frame [OF o(9)]) (use k'(11,12) g(2,3) v f in simp_all)
  have "blocks_ok base L0 m' main (insert t ?T) (insert b (insert t L))"
    using owns_start [OF bl(3) k'(4-6,9,10)] bl(4,5) k'(7,8,13) unfolding blocks_ok_def Let_def f(2-4) v(1) by simp
  then have "test_inv base L0 main cleaner m' R' S D Q (insert t A) (insert b (insert t L))"
    using k'(3,13) o(2-6,10) g(1) ob t(4) v(1) by (intro test_invI [where T = "insert t ?T"]) (simp_all add: f(2-4) object_eq [OF f(3)])
  moreover have "call_step code entry m = Some (Inr m')" using c k'(1,2) by (simp add: call_step_def Let_def m'_def)
  ultimately show ?thesis by blast
qed

text \<open>When the main thread runs after its last acquire of the barrier, all releases have been made and nobody uses an object.\<close>

lemma barrier_passed:
  assumes ok: "test_inv base L0 main cleaner m R S D Q A L" and c: "current_thread (sched (tkern m)) = main" "acquires (todo m main) = 0" "Test_Barrier_Sem \<in> existing (todo m main)"
  defines "T \<equiv> A - {main, idle_thread (sched (tkern m)), cleaner}"
  shows "pending m main T = 0" "t \<in> T \<Longrightarrow> todo m t = [] \<or> todo m t = [Exit]" "v \<in> existing (todo m main) \<Longrightarrow> Q (object m v) = []"
proof -
  note o = test_invD [OF ok, folded T_def]
  let ?B = Test_Barrier_Sem and ?w = "object m Test_Barrier_Sem"
  have w: "?w \<in> object m ` existing (todo m main)" using c(3) by (rule imageI)
  have b: "set (Q ?w) \<subseteq> {main}" "demand (objects m ?B) (tkern m) Q = 6 + pending m main T" "capacity ?w (tkern m) = 6"
    using o(9) c(2,3) by (auto simp add: objects_ok_def)
  have "main \<notin> set (Q ?w)" using sync_okD(5) [OF sys_okD(1) [OF o(1)]] blocked_I [OF w] c(1) by metis
  then have q: "Q ?w = []" using b(1) by (cases "Q ?w") auto
  have "current_count (semaphores (tkern m) (objects m ?B)) \<le> max_count (semaphores (tkern m) (objects m ?B))"
    using sync_okD(3) [OF sys_okD(1) [OF o(1)]] w by (simp add: counts_ok_def)
  then show p: "pending m main T = 0" using b(2,3) q by (simp add: demand_def word_le_nat_alt)
  have z: "releases (todo m t) = 0" if "t \<in> T" for t using pending_ge [OF progs_okD(3) [OF o(7)] that, of m main] p by simp
  show "todo m t = [] \<or> todo m t = [Exit]" if "t \<in> T" using task_facts(2) [OF progs_okD(4) [OF o(7) that] z [OF that]] .
  show "Q (object m v) = []" if v: "v \<in> existing (todo m main)"
  proof (cases "v = ?B")
    case False
    then have "holders_ok (tkern m) Q (\<lambda>_. users m v) (object m v)" using o(9) v by (simp add: objects_ok_def)
    then show ?thesis using users_none [OF o(7) z False] by (cases "object m v") simp_all
  qed (use q in simp)
qed

lemma main_free:
  assumes ok: "test_inv base L0 main cleaner m R S D Q A L" and c: "current_thread (sched (tkern m)) = main" "todo m main = Free v # xs"
  shows "\<exists>m' L'. call_step code entry m = Some (Inr m') \<and> test_inv base L0 main cleaner m' R S D Q A L'"
proof -
  note o = test_invD [OF ok]
  let ?T = "A - {main, idle_thread (sched (tkern m)), cleaner}" and ?k = "tkern m" and ?V = "existing (todo m main)" and ?F = "{main, idle_thread (sched (tkern m)), cleaner}"
  let ?x = "objects m v"
  have r: "main_rest (Free v # xs)" using progs_okD(1) [OF o(7)] c(2) by simp
  have v: "v \<in> ?V" "Test_Barrier_Sem \<in> ?V" "existing xs = ?V - {v}" "acquires xs = 0" using main_head(4) [OF r refl] c(2) by auto
  have bl: "heap_state_ok base (kheap ?k) L" "heap_room (pages xs) (kheap ?k)" "owns (sched ?k) ?T (L0 \<union> objects m ` ?V) L" "inj_on (objects m) ?V" "objects m ` ?V \<inter> L0 = {}"
    using o(8) c(2) by (simp_all add: blocks_ok_def Let_def)
  have "acquires (todo m main) = 0" using v(4) c(2) by simp
  note b = barrier_passed [OF ok c(1) this v(2)]
  have x: "?x \<in> L" "?x \<in> L0 \<union> objects m ` ?V" using bl(3) v(1) by (auto simp add: owns_def)
  obtain h where h: "kfree ?x (kheap ?k) = Some (Inr h)" "heap_state_ok base h (L - {?x})" "heap_room (pages xs) h"
    using kheap.release_ok [OF bl(1) x(1)] kheap_room.release_room [OF bl(1) x(1)] bl(2) by blast
  define m' where "m' = m\<lparr>todo := (todo m)(main := xs), tkern := ?k\<lparr>kheap := h\<rparr>\<rparr>"
  have f: "todo m' = todo (m\<lparr>todo := (todo m)(main := xs)\<rparr>)" "tkern m' = ?k\<lparr>kheap := h\<rparr>" "objects m' = objects m" "todo m' main = xs" by (simp_all add: m'_def)
  note g = progs_main [OF o(7) c(2) _ b(1), folded pending_cong [OF f(1)], simplified]
  have "inj_on (object m) ?V" by (rule inj_onI) (use object_inj [OF bl(4)] in simp)
  then have inj: "object m ` (?V - {v}) = object m ` ?V - {object m v}" using inj_on_image_set_diff [of "object m" ?V ?V "{v}"] v(1) by simp
  have sys: "sys_ok (tkern m') R S D (object m' ` existing (todo m' main)) Q A"
    unfolding f(2,4) v(3) object_eq [OF f(3)] inj by (rule sys_drop [OF o(1) b(3) [OF v(1)]])
  have K: "L0 \<union> objects m ` (?V - {v}) = (L0 \<union> objects m ` ?V) - {?x}" using inj_on_image_set_diff [OF bl(4), of ?V "{v}"] v(1) bl(5) by auto
  have "inj_on (objects m) (?V - {v})" "objects m ` (?V - {v}) \<inter> L0 = {}" using inj_on_subset [OF bl(4)] bl(5) by blast+
  then have "blocks_ok base L0 m' main ?T (L - {?x})"
    using owns_unkeep [OF bl(3) x(2)] h(2,3) K unfolding blocks_ok_def Let_def f(2-4) v(3) by simp
  moreover have "objects_ok m' main ?T Q"
  proof -
    have "holders_ok (tkern m') Q (\<lambda>_. users m u) w = holders_ok ?k Q (\<lambda>_. users m u) w" "capacity w (tkern m') = capacity w ?k" for u w by (cases w; simp add: f(2))+
    then show ?thesis using o(9) v(3,4) c(2) g(2,3) unfolding objects_ok_def object_eq [OF f(3)] f(3,4) demand_def by (simp add: f(2))
  qed
  ultimately have "test_inv base L0 main cleaner m' R S D Q A (L - {?x})" using sys o(2-6,10) g(1) by (intro test_invI [where T = ?T]) (simp_all add: f(2))
  moreover have "call_step code entry m = Some (Inr m')" using c h(1) by (simp add: call_step_def Let_def m'_def kfree_k_def)
  ultimately show ?thesis by blast
qed

lemma clean_inv:
  assumes ok: "test_inv base L0 main cleaner m R S D Q A L" and c: "current_thread (sched (tkern m)) = cleaner"
  obtains m' R' S' L' where "clean_step m = Some (Inr m')" "test_inv base L0 main cleaner m' R' S' [] Q (A - set D) L'" "todo m' = todo m"
proof -
  note o = test_invD [OF ok]
  let ?T = "A - {main, idle_thread (sched (tkern m)), cleaner}" and ?k = "tkern m" and ?V = "existing (todo m main)" and ?F = "{main, idle_thread (sched (tkern m)), cleaner}"
  have bl: "heap_state_ok base (kheap ?k) L" "heap_room (pages (todo m main)) (kheap ?k)" "owns (sched ?k) ?T (L0 \<union> objects m ` ?V) L" "inj_on (objects m) ?V" "objects m ` ?V \<inter> L0 = {}"
    using o(8) by (simp_all add: blocks_ok_def Let_def)
  have D: "set D \<subseteq> ?T" "distinct D" using progs_okD(6) [OF o(7)] path_distinct [OF sched_coreD(3) [OF sync_okD(4) [OF sys_okD(1) [OF o(1)]]]] by blast+
  note w = owns_clean [OF bl(3) D]
  have i: "current_thread (sched ?k) \<noteq> idle_thread (sched ?k)" "idle_thread (sched ?k) \<notin> set D" using c o(4) D(1) by auto
  obtain k' R' S' where k': "cleaner_task_pass ?k = Some (Inr k')" "sys_ok k' R' S' [] (object m ` ?V) Q (A - set D)" "heap_state_ok base (kheap k') (L - set (owned (sched ?k) D))"
    "\<And>m. heap_room m (kheap ?k) \<Longrightarrow> heap_room m (kheap k')" "idle_thread (sched k') = idle_thread (sched ?k)"
    "\<And>t. stack_base (tcbs (sched k') t) = stack_base (tcbs (sched ?k) t)" "semaphores k' = semaphores ?k" "mutexes k' = mutexes ?k"
    by (rule sys_clean [OF o(1) i(1) bl(1) w(1,2) i(2)]) blast
  define m' where "m' = m\<lparr>tkern := k'\<rparr>"
  have f: "todo m' = todo m" "tkern m' = k'" "objects m' = objects m" by (simp_all add: m'_def)
  have T: "?T - set D = (A - set D) - ?F" by blast
  have p: "pending m main (?T - set D) = pending m main ?T"
    using progs_okD(7) [OF o(7)] by (simp add: pending_def) (rule sum.mono_neutral_left, use progs_okD(3) [OF o(7)] in auto)
  have "progs_ok m main (?T - set D) []" using o(7) unfolding progs_ok_def p by auto
  then have "progs_ok m' main (?T - set D) []" unfolding pending_cong(3) [OF f(1)] .
  moreover have "blocks_ok base L0 m' main (?T - set D) (L - set (owned (sched ?k) D))"
    using owns_cong [OF w(3), of "sched k'"] bl(4,5) k'(3-6) bl(2) unfolding blocks_ok_def Let_def f by simp
  moreover have "objects_ok m' main (?T - set D) Q"
    by (rule objects_frame [OF o(9)]) (simp_all add: f k'(7,8) pending_cong [OF f(1)] p)
  ultimately have "test_inv base L0 main cleaner m' R' S' [] Q (A - set D) (L - set (owned (sched ?k) D))"
    using k'(2,5) o(2-6,10) D(1) T by (intro test_invI [where T = "?T - set D"]) (auto simp add: f object_eq [OF f(3)])
  then show thesis using that [of m'] k'(1) f(1) by (simp add: clean_step_def m'_def)
qed

end
