(* ===== verification/Test_Live.thy ===== *)
theory Test_Live
  imports Test_Steps
begin

text \<open>
  In every state of the test some thread that is not waiting has calls to make, and every call brings the test closer to its end.
\<close>

section \<open>Specification vocabulary\<close>

text \<open>The state in which \<open>kmain\<close> calls the test: the calling thread runs, the cleaner is ready, the blocks \<open>L0\<close> of the heap are in use and twenty-one pages can be supplied.\<close>

definition test_begun :: "nat \<Rightarrow> u32 set \<Rightarrow> u32 \<Rightarrow> u32 \<Rightarrow> test_state \<Rightarrow> bool" where
  "test_begun base L0 main cleaner m \<longleftrightarrow>
     (let k = tkern m; s = sched k; R = (\<lambda>_. [])(0 := [cleaner])
      in sync_ok k R [] [] {} (\<lambda>_. []) \<and> calm s \<and> slices_ok s R [] \<and> current_thread s = main \<and> distinct [main, idle_thread s, cleaner]
         \<and> heap_state_ok base (kheap k) L0 \<and> {main, idle_thread s, cleaner} \<subseteq> L0 \<and> heap_room 21 (kheap k)
         \<and> todo m = (\<lambda>_. [])(main := multitasking_run_test))"

text \<open>How many calls are left, where creating a task counts for the calls of its body too.\<close>

fun weight :: "test_call list \<Rightarrow> nat" where
  "weight [] = 0"
| "weight (c # p) = (case c of Start x \<Rightarrow> 10 | _ \<Rightarrow> 1) + weight p"

definition remaining :: "test_state \<Rightarrow> nat" where
  "remaining m = (\<Sum>t | todo m t \<noteq> []. weight (todo m t))"

section \<open>Lemmas\<close>

lemma main_whole: "main_rest multitasking_run_test" "existing multitasking_run_test = {}" "starts multitasking_run_test = 6" "pages multitasking_run_test = 21"
  "length multitasking_run_test = 24"
  by (simp_all add: main_rest_def) (auto simp add: main_eq existing_Cons)

lemma begin_inv:
  assumes "test_begun base L0 main cleaner m"
  obtains R Q A L where "test_inv base L0 main cleaner m R [] [] Q A L"
proof -
  let ?k = "tkern m" let ?i = "idle_thread (sched ?k)" let ?A = "{main, ?i, cleaner}" let ?R = "(\<lambda>_. [])(0 := [cleaner]) :: nat \<Rightarrow> u32 list"
  have b: "sync_ok ?k ?R [] [] {} (\<lambda>_. [])" "calm (sched ?k)" "slices_ok (sched ?k) ?R []" "current_thread (sched ?k) = main" "distinct [main, ?i, cleaner]"
    "heap_state_ok base (kheap ?k) L0" "?A \<subseteq> L0" "heap_room 21 (kheap ?k)" "todo m = (\<lambda>_. [])(main := multitasking_run_test)"
    using assms by (auto simp add: test_begun_def Let_def)
  have "crew ?k ?R [] [] {} (\<lambda>_. []) = ?A" using b(4) by (auto simp add: crew_def ready_set_def blocked_def)
  then have "sys_ok ?k ?R [] [] {} (\<lambda>_. []) ?A" using b(1-5) by (auto simp add: sys_ok_def slices_ok_def slice_ok_def ready_set_def)
  then have "test_inv base L0 main cleaner m ?R [] [] (\<lambda>_. []) ?A L0"
    using b by (intro test_invI [where T = "{}"]) (simp_all add: main_whole progs_ok_def pending_def blocks_ok_def owns_def objects_ok_def Let_def)
  then show thesis by (rule that)
qed

lemma main_step:
  assumes ok: "test_inv base L0 main cleaner m R S D Q A L" and c: "current_thread (sched (tkern m)) = main" "todo m main \<noteq> []"
  shows "\<exists>m' R' S' D' Q' A' L'. call_step code entry m = Some (Inr m') \<and> test_inv base L0 main cleaner m' R' S' D' Q' A' L'"
proof -
  obtain x xs where x: "todo m main = x # xs" using c(2) by (cases "todo m main") auto
  have r: "main_rest (x # xs)" using progs_okD(1) [OF test_invD(7) [OF ok]] x by simp
  show ?thesis
  proof (cases x)
    case (Create v)
    then show ?thesis using main_create [OF ok c(1)] x by blast
  next
    case (Acquire v)
    then show ?thesis using main_acquire [OF ok c(1)] x by blast
  next
    case (Start p)
    then show ?thesis using main_start [OF ok c(1)] x by blast
  next
    case (Free v)
    then show ?thesis using main_free [OF ok c(1)] x by blast
  qed (use main_head(5-7) [OF r] in simp_all)
qed

lemma call_inv:
  assumes ok: "test_inv base L0 main cleaner m R S D Q A L" and c: "todo m (current_thread (sched (tkern m))) \<noteq> []"
  shows "\<exists>m' R' S' D' Q' A' L'. call_step code entry m = Some (Inr m') \<and> test_inv base L0 main cleaner m' R' S' D' Q' A' L'"
proof (cases "current_thread (sched (tkern m)) = main")
  case True
  then show ?thesis using main_step [OF ok True] c by simp
next
  case False
  then show ?thesis using task_step [OF ok refl c] by blast
qed

lemma test_inv_reaches:
  assumes "test_reaches code entry cleaner m0 m" "test_inv base L0 main cleaner m0 R S D Q A L"
  shows "\<exists>R S D Q A L. test_inv base L0 main cleaner m R S D Q A L"
  using assms(1)
proof (induction rule: test_reaches.induct)
  case test_begin
  then show ?case using assms(2) by blast
next
  case (test_tick m m')
  then show ?case by (metis option.inject tick_inv)
next
  case (test_call m m')
  then have "todo m (current_thread (sched (tkern m))) \<noteq> []" by (auto simp add: call_step_def Let_def)
  then show ?case using test_call call_inv by (metis Inr_inject option.inject)
next
  case (test_clean m m')
  then show ?case by (metis Inr_inject option.inject clean_inv)
qed

text \<open>A thread that is not waiting is in the section if the next call on the object is its release.\<close>

lemma section_bound:
  assumes ok: "test_inv base L0 main cleaner m R S D Q A L" and v: "v \<noteq> Test_Barrier_Sem"
  shows "card {t \<in> users m v. state (tcbs (sched (tkern m)) t) \<noteq> THREAD_BLOCKED} \<le> (if v = Vga_Mutex then 1 else 2)"
proof (cases "v \<in> existing (todo m main)")
  case True
  note o = test_invD [OF ok]
  let ?w = "object m v"
  have w: "?w \<in> object m ` existing (todo m main)" using True by (rule imageI)
  have h: "holders_ok (tkern m) Q (\<lambda>_. users m v) ?w" "capacity ?w (tkern m) = (if v = Vga_Mutex then 1 else 2)"
  proof -
    have "capacity ?w (tkern m) = (case limit_of v of None \<Rightarrow> 1 | Some n \<Rightarrow> unat n) \<and> (v \<noteq> Test_Barrier_Sem \<longrightarrow> holders_ok (tkern m) Q (\<lambda>_. users m v) ?w)"
      using o(9) True unfolding objects_ok_def by blast
    then show "holders_ok (tkern m) Q (\<lambda>_. users m v) ?w" "capacity ?w (tkern m) = (if v = Vga_Mutex then 1 else 2)"
      using v by (auto simp del: object.simps) (cases v; simp del: object.simps)
  qed
  note c = holders_capacity [OF h(1) sync_okD(3) [OF sys_okD(1) [OF o(1)]] w]
  have "state (tcbs (sched (tkern m)) t) = THREAD_BLOCKED" if "t \<in> set (Q ?w)" for t
    by (rule sched_coreD(12) [OF sync_okD(4) [OF sys_okD(1) [OF o(1)]]]) (unfold dom_waiting, rule blocked_I [where Q = Q, OF w that])
  then have "{t \<in> users m v. state (tcbs (sched (tkern m)) t) \<noteq> THREAD_BLOCKED} \<subseteq> users m v - set (Q ?w)" by blast
  then have "card {t \<in> users m v. state (tcbs (sched (tkern m)) t) \<noteq> THREAD_BLOCKED} \<le> card (users m v - set (Q ?w))" by (rule card_mono [OF c(2)])
  also have "\<dots> \<le> (if v = Vga_Mutex then 1 else 2)" using c(3) unfolding h(2) .
  finally show ?thesis .
next
  case False
  have "users m v = {}"
  proof (rule ccontr)
    note o = test_invD [OF ok]
    assume "users m v \<noteq> {}"
    then obtain t where t: "inside v (todo m t)" by (auto simp add: users_def)
    then have T: "t \<in> A - {main, idle_thread (sched (tkern m)), cleaner}"
      using progs_okD(5) [OF o(7), of t] main_quiet(1) [OF progs_okD(1) [OF o(7)]] by (metis inside.simps(1))
    have "releases (todo m t) = 1" using task_facts(3) [OF progs_okD(4) [OF o(7) T] t v] .
    then show False using existing_task(1) [OF o(7) T] False by simp
  qed
  then show ?thesis by simp
qed

text \<open>The thread of the sleepers that a tick does not wake has a later time to wake.\<close>

lemma tick_sleeper:
  assumes ok: "sched_ok s R S D W" and q: "quiet s" and t: "t \<in> threads s R S D W" and st: "apic_timer_handler s = Some s'" "state (tcbs s' t) = THREAD_SLEEPING"
  shows "wake_time (tcbs s' t) = wake_time (tcbs s t)" "system_ticks s' = system_ticks s + 1" "system_ticks s' < wake_time (tcbs s' t)"
proof -
  obtain n R' S' D' where spec: "event_spec Tick s R S D = (n, R', S', D')" by (cases "event_spec Tick s R S D") auto
  have S': "S' = filter (\<lambda>t. \<not> due (tick_entry s) t) S" using spec by (auto simp add: Let_def case_prod_beta)
  obtain s'' where s'': "sched_event_step Tick s = Some s''" "sched_ok s'' R' S' D' W" "current_thread s'' = n" "idle_thread s'' = idle_thread s" "event_effect Tick s R S s''"
    by (rule event_refines [OF ok q _ spec]) (simp add: enabled_def)
  then have [simp]: "s'' = s'" using st(1) by simp
  note c = sched_coreD [OF sched_okD(1) [OF s''(2)]] and o = sched_okD [OF s''(2)]
  have "t \<in> {current_thread s', idle_thread s'} \<union> listed R' S' D' W" using event_threads [OF ok spec] t s''(3,4) by simp
  moreover have "t \<noteq> current_thread s'" "t \<noteq> idle_thread s'" "t \<notin> set (R' 0)" "t \<notin> set (R' 1)" "t \<notin> set (R' 2)" "t \<notin> set D'" "t \<notin> dom W"
    using st(2) o(3) c(7) c(8) [of 0 t] c(8) [of 1 t] c(8) [of 2 t] c(11) [of t] c(12) [of t] by auto
  ultimately have tS: "t \<in> set S'" by (simp add: listed_def)
  obtain s1 where s1: "woken (set (filter (due (tick_entry s)) S)) (tick_entry s) s1" "decided s1 (wake_spec (tick_entry s) R S) s'"
    using s''(5) by (auto simp add: event_effect_def Let_def)
  show 1: "wake_time (tcbs s' t) = wake_time (tcbs s t)" "system_ticks s' = system_ticks s + 1"
    using s1 by (simp_all add: decided_def woken_def lists_frame_def)
  show "system_ticks s' < wake_time (tcbs s' t)" unfolding 1 using tS by (auto simp add: S' due_def not_le)
qed

lemma sleep_measure: "(a :: u64) < w \<Longrightarrow> b = a + 1 \<Longrightarrow> b < w \<Longrightarrow> unat w - unat b < unat w - unat a"
  using unat_succ [of a w] by (simp add: word_less_nat_alt)

lemma queue_users:
  assumes ok: "test_inv base L0 main cleaner m R S D Q A L" and v: "v \<in> existing (todo m main)" "v \<noteq> Test_Barrier_Sem"
  shows "set (Q (object m v)) \<subseteq> users m v" "Q (object m v) \<noteq> [] \<Longrightarrow> \<exists>t. t \<in> users m v - set (Q (object m v))"
proof -
  note o = test_invD [OF ok]
  have w: "object m v \<in> object m ` existing (todo m main)" using v(1) by (rule imageI)
  have h: "holders_ok (tkern m) Q (\<lambda>_. users m v) (object m v)" "capacity (object m v) (tkern m) = (case limit_of v of None \<Rightarrow> 1 | Some n \<Rightarrow> unat n)"
    using o(9) v unfolding objects_ok_def by blast+
  note c = holders_capacity [OF h(1) sync_okD(3) [OF sys_okD(1) [OF o(1)]] w]
  show "set (Q (object m v)) \<subseteq> users m v" by (rule c(1))
  have "0 < capacity (object m v) (tkern m)" unfolding h(2) using v(2) by (cases v) simp_all
  then show "\<exists>t. t \<in> users m v - set (Q (object m v))" if "Q (object m v) \<noteq> []" using c(4) [OF that] by (metis card.empty ex_in_conv less_irrefl)
qed

text \<open>If a task waits then the task it waits for does not.\<close>

lemma task_not_stuck:
  assumes ok: "test_inv base L0 main cleaner m R S D Q A L" and u: "u \<noteq> main" "todo m u \<noteq> []"
  shows "\<exists>t. todo m t \<noteq> [] \<and> t \<notin> blocked (object m ` existing (todo m main)) Q"
proof (cases "u \<in> blocked (object m ` existing (todo m main)) Q")
  case True
  note o = test_invD [OF ok]
  have qB: "set (Q (object m Test_Barrier_Sem)) \<subseteq> {main}" if "Test_Barrier_Sem \<in> existing (todo m main)" using o(9) that unfolding objects_ok_def by blast
  obtain v where v: "v \<in> existing (todo m main)" "u \<in> set (Q (object m v))" using True unfolding blocked_def by blast
  have vB: "v \<noteq> Test_Barrier_Sem" using qB v u(1) by blast
  have "Q (object m v) \<noteq> []" using v(2) by auto
  then obtain t where t: "t \<in> users m v" "t \<notin> set (Q (object m v))" using queue_users(2) [OF ok v(1) vB] by blast
  have i: "inside v (todo m t)" using t(1) by (simp add: users_def)
  then have tm: "t \<noteq> main" "todo m t \<noteq> []" using main_quiet(1) [OF progs_okD(1) [OF o(7)], of v] by auto
  have r: "task_rest (todo m t)" by (rule progs_okD(4) [OF o(7) busy_task [OF o(7) tm(2,1)]])
  have "t \<notin> set (Q (object m w))" if w: "w \<in> existing (todo m main)" for w
  proof
    assume q: "t \<in> set (Q (object m w))"
    have wB: "w \<noteq> Test_Barrier_Sem" using qB w q tm(1) by blast
    then have "inside w (todo m t)" using queue_users(1) [OF ok w wB] q by (auto simp add: users_def)
    then have "w = v" using task_facts(4) [OF r _ i wB vB] by blast
    then show False using q t(2) by simp
  qed
  then show ?thesis using tm(2) by (auto simp add: blocked_def)
qed (use u in blast)

lemma starts_acquires: "main_rest p \<Longrightarrow> 0 < starts p \<Longrightarrow> 6 \<le> acquires p"
  unfolding main_suffixes by (elim disjE; simp)

text \<open>The main thread waits at the barrier only for tasks.\<close>

lemma not_stuck:
  assumes ok: "test_inv base L0 main cleaner m R S D Q A L" and u: "todo m u \<noteq> []"
  shows "\<exists>t. todo m t \<noteq> [] \<and> t \<notin> blocked (object m ` existing (todo m main)) Q"
proof (cases "u \<noteq> main \<or> u \<notin> blocked (object m ` existing (todo m main)) Q")
  case True
  then show ?thesis using task_not_stuck [OF ok _ u] u by blast
next
  case False
  note o = test_invD [OF ok]
  let ?T = "A - {main, idle_thread (sched (tkern m)), cleaner}" and ?B = Test_Barrier_Sem
  obtain v where v: "v \<in> existing (todo m main)" "main \<in> set (Q (object m v))" using False unfolding blocked_def by blast
  have vB: "v = ?B" using queue_users(1) [OF ok v(1)] v(2) main_quiet(1) [OF progs_okD(1) [OF o(7)]] by (auto simp add: users_def)
  have b: "set (Q (object m ?B)) \<subseteq> {main}" "demand (objects m ?B) (tkern m) Q + acquires (todo m main) = 6 + pending m main ?T" "capacity (object m ?B) (tkern m) = 6"
    using o(9) v(1) vB by (auto simp add: objects_ok_def)
  have w: "object m ?B \<in> object m ` existing (todo m main)" using v(1) vB by blast
  have ne: "Q (object m ?B) \<noteq> []" using v(2) vB by auto
  then have "current_count (semaphores (tkern m) (objects m ?B)) = max_count (semaphores (tkern m) (objects m ?B))"
    using sync_okD(3) [OF sys_okD(1) [OF o(1)]] w by (simp add: counts_ok_def)
  then have "7 \<le> demand (objects m ?B) (tkern m) Q" using b(3) ne by (cases "Q (object m ?B)") (simp_all add: demand_def)
  then have p: "1 + acquires (todo m main) \<le> pending m main ?T" using b(2) by linarith
  have "starts (todo m main) = 0" using starts_acquires [OF progs_okD(1) [OF o(7)]] p progs_okD(8) [OF o(7)] by fastforce
  then have "(\<Sum>t \<in> ?T. releases (todo m t)) \<noteq> 0" using p unfolding pending_def by linarith
  then obtain t where t: "t \<in> ?T" "releases (todo m t) \<noteq> 0" by (meson sum.neutral)
  then have "t \<noteq> main" "todo m t \<noteq> []" by auto
  then show ?thesis by (rule task_not_stuck [OF ok])
qed

lemma remaining_eq:
  assumes "finite F" "\<And>t. t \<notin> F \<Longrightarrow> todo m t = []"
  shows "remaining m = (\<Sum>t \<in> F. weight (todo m t))"
  unfolding remaining_def using assms by (intro sum.mono_neutral_left) auto

lemma remaining_less:
  assumes f: "finite {t. todo m t \<noteq> []}" and c: "weight (f c) < weight (todo m c)" "\<And>t. t \<noteq> c \<Longrightarrow> f t = todo m t" and m': "todo m' = f"
  shows "remaining m' < remaining m"
proof -
  let ?F = "insert c {t. todo m t \<noteq> []}"
  have "(\<Sum>t \<in> ?F. weight (todo m' t)) < (\<Sum>t \<in> ?F. weight (todo m t))"
  proof (rule sum_strict_mono_ex1)
    show "\<forall>t \<in> ?F. weight (todo m' t) \<le> weight (todo m t)" using c m' by (metis less_imp_le order_refl)
    show "\<exists>t \<in> ?F. weight (todo m' t) < weight (todo m t)" using c(1) m' by blast
  qed (use f in simp)
  moreover have "remaining m' = (\<Sum>t \<in> ?F. weight (todo m' t))" using f c(2) by (intro remaining_eq) (auto simp add: m')
  moreover have "remaining m = (\<Sum>t \<in> ?F. weight (todo m t))" using f by (intro remaining_eq) auto
  ultimately show ?thesis by simp
qed

lemma weight_body: "weight (body_of x @ [Exit]) = 8"
  by (cases x) (simp_all add: task_a_def task_b_def task_1_def task_2_def task_3_def task_4_def numeral_2_eq_2)

lemma call_remaining:
  assumes st: "call_step code entry m = Some (Inr m')" and f: "finite {t. todo m t \<noteq> []}"
  shows "remaining m' < remaining m"
proof -
  let ?c = "current_thread (sched (tkern m))"
  obtain x xs where x: "todo m ?c = x # xs" "perform code entry x (m\<lparr>todo := (todo m)(?c := xs)\<rparr>) = Some (Inr m')"
    using st by (auto simp add: call_step_def Let_def split: list.splits)
  show ?thesis
  proof (cases "\<exists>p. x = Start p")
    case False
    then have "todo m' = (todo m)(?c := xs)"
      using x(2) by (cases x) (auto simp add: kbind_def Option.bind_eq_Some_conv split: option.splits sum.splits)
    moreover have "weight xs < weight (todo m ?c)" using x(1) False by (cases x) simp_all
    ultimately show ?thesis by (intro remaining_less [OF f, of "(todo m)(?c := xs)" ?c]) simp_all
  next
    case True
    then obtain p where p: "x = Start p" by blast
    then obtain t where t: "todo m' = (todo m)(?c := xs, t := body_of p @ [Exit])"
      using x(2) by (auto simp add: kbind_def split: option.splits sum.splits)
    let ?F = "{?c, t} \<union> {t. todo m t \<noteq> []}"
    have fF: "finite ?F" using f by simp
    have "weight (todo m' ?c) + (if t = ?c then 0 else weight (todo m' t)) < weight (todo m ?c) + (if t = ?c then 0 else weight (todo m t))"
      using x(1) p by (auto simp add: t weight_body)
    moreover have "(\<Sum>u \<in> ?F. g u) = g ?c + (if t = ?c then 0 else g t) + (\<Sum>u \<in> ?F - {?c, t}. g u)" for g :: "u32 \<Rightarrow> nat"
      by (subst sum.subset_diff [of "{?c, t}" ?F]) (use fF in auto)
    moreover have "(\<Sum>u \<in> ?F - {?c, t}. weight (todo m' u)) = (\<Sum>u \<in> ?F - {?c, t}. weight (todo m u))" by (intro sum.cong) (auto simp add: t)
    ultimately have "(\<Sum>u \<in> ?F. weight (todo m' u)) < (\<Sum>u \<in> ?F. weight (todo m u))" by simp
    moreover have "remaining m' = (\<Sum>u \<in> ?F. weight (todo m' u))" by (intro remaining_eq fF) (auto simp add: t)
    moreover have "remaining m = (\<Sum>u \<in> ?F. weight (todo m u))" by (intro remaining_eq fF) auto
    ultimately show ?thesis by simp
  qed
qed

lemma busy_finite:
  assumes "test_inv base L0 main cleaner m R S D Q A L"
  shows "finite {t. todo m t \<noteq> []}"
proof (rule finite_subset)
  note o = test_invD [OF assms]
  show "{t. todo m t \<noteq> []} \<subseteq> insert main (A - {main, idle_thread (sched (tkern m)), cleaner})" using busy_task [OF o(7)] by blast
  show "finite (insert main (A - {main, idle_thread (sched (tkern m)), cleaner}))" using progs_okD(3) [OF o(7)] by simp
qed

end
