(* ===== verification/Test_Fair.thy ===== *)
theory Test_Fair
  imports Test_Live
begin

text \<open>
  Infinite runs of the multitasking test. In every fair run the test completes, and the choice of events that prefers calls is fair.
\<close>

section \<open>Specification vocabulary\<close>

text \<open>The steps of \<^const>\<open>test_reaches\<close>, named: a timer interrupt, the next call of the running thread, a pass of the cleaner when it runs.\<close>

datatype test_event = Interrupt | Call | Pass

fun test_event_step :: "code_addresses \<Rightarrow> (test_task \<Rightarrow> u32) \<Rightarrow> u32 \<Rightarrow> test_event \<Rightarrow> test_state \<Rightarrow> (panic + test_state) option" where
  "test_event_step code entry cleaner Interrupt m = map_option Inr (tick_step m)"
| "test_event_step code entry cleaner Call m = call_step code entry m"
| "test_event_step code entry cleaner Pass m = (if current_thread (sched (tkern m)) = cleaner then clean_step m else None)"

definition test_run :: "code_addresses \<Rightarrow> (test_task \<Rightarrow> u32) \<Rightarrow> u32 \<Rightarrow> (nat \<Rightarrow> test_event) \<Rightarrow> (nat \<Rightarrow> test_state) \<Rightarrow> bool" where
  "test_run code entry cleaner es ms \<longleftrightarrow> (\<forall>i. test_event_step code entry cleaner (es i) (ms i) = Some (Inr (ms (Suc i))))"

text \<open>
  A run is fair if the timer keeps interrupting and no thread is held up for ever at one place: a thread that has the processor again and again
  while it has calls to make makes calls again and again, and a cleaner that has the processor again and again makes passes.
\<close>

definition fair :: "u32 \<Rightarrow> (nat \<Rightarrow> test_event) \<Rightarrow> (nat \<Rightarrow> test_state) \<Rightarrow> bool" where
  "fair cleaner es ms \<longleftrightarrow> often (\<lambda>i. es i = Interrupt)
     \<and> (\<forall>t. often (\<lambda>i. current_thread (sched (tkern (ms i))) = t \<and> todo (ms i) t \<noteq> []) \<longrightarrow> often (\<lambda>i. es i = Call \<and> current_thread (sched (tkern (ms i))) = t))
     \<and> (often (\<lambda>i. current_thread (sched (tkern (ms i))) = cleaner) \<longrightarrow> often (\<lambda>i. es i = Pass))"

text \<open>A ready thread gets the processor within \<open>n\<close> ticks; and how long a sleeping thread still sleeps.\<close>

definition waits_in :: "nat \<Rightarrow> u32 \<Rightarrow> nat \<Rightarrow> sched_state \<Rightarrow> bool" where
  "waits_in N t n s \<longleftrightarrow> (\<exists>R S D W. sched_ok s R S D W \<and> quiet s \<and> slices_ok s R S \<and> load s R S \<le> N \<and> waits N s R t n)"

definition sleep_rank :: "u32 \<Rightarrow> sched_state \<Rightarrow> nat" where
  "sleep_rank t s = (if system_ticks s < wake_time (tcbs s t) then unat (wake_time (tcbs s t)) - unat (system_ticks s) else 2 ^ 64)"

text \<open>A fair choice of events: make a call or a pass whenever there is one to make. Its rank falls with every event but an interrupt.\<close>

definition eager :: "u32 \<Rightarrow> test_state \<Rightarrow> test_event" where
  "eager cleaner m =
     (let c = current_thread (sched (tkern m)) in if todo m c \<noteq> [] then Call else if c = cleaner then Pass else Interrupt)"

primrec eager_run :: "code_addresses \<Rightarrow> (test_task \<Rightarrow> u32) \<Rightarrow> u32 \<Rightarrow> test_state \<Rightarrow> nat \<Rightarrow> test_state" where
  "eager_run code entry cleaner m 0 = m"
| "eager_run code entry cleaner m (Suc n) =
     (case test_event_step code entry cleaner (eager cleaner (eager_run code entry cleaner m n)) (eager_run code entry cleaner m n) of
        Some (Inr m') \<Rightarrow> m' | _ \<Rightarrow> eager_run code entry cleaner m n)"

definition eager_rank :: "u32 \<Rightarrow> test_state \<Rightarrow> nat" where
  "eager_rank cleaner m = 2 * remaining m + (if current_thread (sched (tkern m)) = cleaner then 1 else 0)"

section \<open>Lemmas\<close>

lemma kfree_k_sched: "kfree_k a k = Some (Inr k') \<Longrightarrow> sched k' = sched k"
  by (auto simp add: kfree_k_def kbind_def split: option.splits sum.splits)

lemma cleaner_free_sched:
  assumes "cleaner_free q k = Some (Inr k')"
  shows "sched k' = sched k"
proof -
  have "\<forall>k'. r = Inr k' \<longrightarrow> sched k' = sched k" if "cleaner_free q k = Some r" for r
  proof (rule cleaner_free.raw_induct [OF _ that])
    fix f q k r
    assume IH: "\<And>q k r. f q k = Some r \<Longrightarrow> \<forall>k'. r = Inr k' \<longrightarrow> sched k' = sched k"
      and step: "(if q \<noteq> NULL then let tmp = nx (sched k) q in
          case kfree_k (stack_base (tcbs (sched k) q)) k of None \<Rightarrow> None | Some (Inl e) \<Rightarrow> Some (Inl e)
          | Some (Inr k1) \<Rightarrow> (case kfree_k q k1 of None \<Rightarrow> None | Some (Inl e) \<Rightarrow> Some (Inl e) | Some (Inr k2) \<Rightarrow> f tmp k2)
        else Some (Inr k)) = Some r"
    show "\<forall>k'. r = Inr k' \<longrightarrow> sched k' = sched k"
    proof (intro allI impI)
      fix k'
      assume r: "r = Inr k'"
      show "sched k' = sched k"
      proof (cases "q = NULL")
        case False
        then obtain k1 k2 where "kfree_k (stack_base (tcbs (sched k) q)) k = Some (Inr k1)" "kfree_k q k1 = Some (Inr k2)" "f (nx (sched k) q) k2 = Some r"
          using step r by (auto simp add: Let_def split: option.splits sum.splits)
        then show ?thesis using IH r kfree_k_sched by metis
      qed (use step r in simp)
    qed
  qed
  then show ?thesis using assms by blast
qed


lemma cleaner_pass_sched:
  assumes "cleaner_task_pass k = Some (Inr k')"
  shows "thread_sleep 2000 (unlock_scheduler (if terminated_thread_queue (sched k) \<noteq> 0 then (lock_scheduler (sched k))\<lparr>terminated_thread_queue := 0\<rparr>
    else lock_scheduler (sched k))) = Some (sched k')"
proof -
  let ?s = "unlock_scheduler (if terminated_thread_queue (sched k) \<noteq> 0 then (lock_scheduler (sched k))\<lparr>terminated_thread_queue := 0\<rparr> else lock_scheduler (sched k))"
  have "kbind (cleaner_free (terminated_thread_queue (sched k)) (k\<lparr>sched := ?s\<rparr>)) (\<lambda>k2.
      case thread_sleep 2000 (sched k2) of None \<Rightarrow> None | Some s3 \<Rightarrow> Some (Inr (k2\<lparr>sched := s3\<rparr>))) = Some (Inr k')"
    using assms unfolding cleaner_task_pass_def Let_def NULL_def get_terminated_thread_queue_def set_terminated_thread_queue_def
    by (simp split del: if_split)
  then obtain k2 where "cleaner_free (terminated_thread_queue (sched k)) (k\<lparr>sched := ?s\<rparr>) = Some (Inr k2)" "thread_sleep 2000 (sched k2) = Some (sched k')"
    by (auto simp add: kbind_def split: option.splits sum.splits)
  then show ?thesis using cleaner_free_sched by fastforce
qed

lemma tick_waits:
  assumes "waits_in N t n s" "apic_timer_handler s = Some s'"
  shows "current_thread s' = t \<or> (\<exists>n' < n. waits_in N t n' s')"
proof -
  obtain R S D W where w: "sched_ok s R S D W" "quiet s" "slices_ok s R S" "load s R S \<le> N" "waits N s R t n" using assms(1) unfolding waits_in_def by blast
  have e: "enabled Tick s" "sched_event_step Tick s = Some s'" using assms(2) by (simp_all add: enabled_def)
  obtain R' S' D' n' where "sched_ok s' R' S' D' W" "quiet s'" "slices_ok s' R' S'" "load s' R' S' \<le> N"
    "current_thread s' = t \<or> waits N s' R' t n' \<and> n' \<le> n \<and> (Tick = Tick \<longrightarrow> n' < n)" by (rule event_progress [OF w e])
  then show ?thesis unfolding waits_in_def by blast
qed

lemma pass_waits:
  assumes w: "waits_in N t n (sched k)" and c: "current_thread (sched k) \<noteq> idle_thread (sched k)" and st: "cleaner_task_pass k = Some (Inr k')"
  shows "current_thread (sched k') = t \<or> (\<exists>n' \<le> n. waits_in N t n' (sched k'))"
proof -
  let ?s = "sched k"
  obtain R S D W where w: "sched_ok ?s R S D W" "quiet ?s" "slices_ok ?s R S" "load ?s R S \<le> N" "waits N ?s R t n" using w unfolding waits_in_def by blast
  define s1 where "s1 = unlock_scheduler (if terminated_thread_queue ?s \<noteq> 0 then (lock_scheduler ?s)\<lparr>terminated_thread_queue := 0\<rparr> else lock_scheduler ?s)"
  note t = take_terminated [OF w(1,2), folded s1_def]
  have f: "idle_thread s1 = idle_thread ?s" "counter s1 = counter ?s" "\<And>t. remaining_time (tcbs s1 t) = remaining_time (tcbs ?s t)" using t(3) by (simp_all add: settled_def)
  have p: "slices_ok s1 R S" "load s1 R S \<le> N" "waits N s1 R t n" using w(3-5) unfolding slices_ok_def load_def waits_def f t(4) by simp_all
  have e: "enabled (Sleep_Call 2000) s1" using c f(1) t(4) by (simp add: enabled_def)
  have st1: "sched_event_step (Sleep_Call 2000) s1 = Some (sched k')" using cleaner_pass_sched [OF st] by (simp add: s1_def)
  obtain R' S' D' n' where "sched_ok (sched k') R' S' D' W" "quiet (sched k')" "slices_ok (sched k') R' S'" "load (sched k') R' S' \<le> N"
    "current_thread (sched k') = t \<or> waits N (sched k') R' t n' \<and> n' \<le> n \<and> (Sleep_Call 2000 = Tick \<longrightarrow> n' < n)"
    by (rule event_progress [OF t(1,2) p e st1])
  then show ?thesis unfolding waits_in_def by blast
qed

lemma tick_step_sched: "tick_step m = Some m' \<Longrightarrow> apic_timer_handler (sched (tkern m)) = Some (sched (tkern m'))"
  by (auto simp add: tick_step_def Option.bind_eq_Some_conv)

lemma pass_step:
  assumes "test_event_step code entry cleaner Pass m = Some (Inr m')"
  shows "current_thread (sched (tkern m)) = cleaner" "cleaner_task_pass (tkern m) = Some (Inr (tkern m'))" "m' = m\<lparr>tkern := tkern m'\<rparr>" "clean_step m = Some (Inr m')"
  using assms by (auto simp add: clean_step_def kbind_def split: option.splits sum.splits if_splits)

lemma pass_settles:
  assumes ok: "sched_ok (sched k) R S D W" "quiet (sched k)" and c: "current_thread (sched k) \<noteq> idle_thread (sched k)" and st: "cleaner_task_pass k = Some (Inr k')"
  shows "settled (sched k) (sched k')" "current_thread (sched k') = fst (pick (idle_thread (sched k)) R)"
proof -
  let ?s = "sched k"
  define s1 where "s1 = unlock_scheduler (if terminated_thread_queue ?s \<noteq> 0 then (lock_scheduler ?s)\<lparr>terminated_thread_queue := 0\<rparr> else lock_scheduler ?s)"
  note t = take_terminated [OF ok, folded s1_def]
  have i: "idle_thread s1 = idle_thread ?s" using t(3) by (simp add: settled_def)
  have "current_thread s1 \<noteq> idle_thread s1" "postpone_switches_counter s1 = 0" "IRQ_disable_counter s1 = 0" using c t(2,4) i by (simp_all add: quiet_def)
  then obtain s' where "thread_sleep 2000 s1 = Some s'" "current_thread s' = fst (pick (idle_thread ?s) R)" "settled s1 s'"
    using sleep_ok [OF t(1), of 2000] unfolding i by metis
  moreover have "thread_sleep 2000 s1 = Some (sched k')" using cleaner_pass_sched [OF st] by (simp add: s1_def)
  ultimately show "settled ?s (sched k')" "current_thread (sched k') = fst (pick (idle_thread ?s) R)" using settled_after [OF t(3,4)] by simp_all
qed

lemma calm_event:
  assumes ok: "test_inv base L0 main cleaner m R S D Q A L" and st: "test_event_step code entry cleaner e m = Some (Inr m')" "e \<noteq> Call"
  shows "\<exists>R' S' D' A' L'. test_inv base L0 main cleaner m' R' S' D' Q A' L' \<and> ticked m m' \<and> A' - set D' = A - set D \<and> (e = Pass \<longrightarrow> D' = []) \<and> (D = [] \<longrightarrow> D' = [])"
proof (cases e)
  case Interrupt
  then have "tick_step m = Some m'" using st(1) by auto
  moreover obtain m1 R' S' where "tick_step m = Some m1" "test_inv base L0 main cleaner m1 R' S' D Q A L" "ticked m m1" by (rule tick_inv [OF ok])
  ultimately show ?thesis using Interrupt by (intro exI [of _ R'] exI [of _ S'] exI [of _ D] exI [of _ A] exI [of _ L]) simp
next
  case Pass
  note p = pass_step [OF st(1) [unfolded Pass]]
  obtain m1 R' S' L' where "clean_step m = Some (Inr m1)" and 1: "test_inv base L0 main cleaner m1 R' S' [] Q (A - set D) L'" "todo m1 = todo m"
    by (rule clean_inv [OF ok p(1)])
  then have i: "test_inv base L0 main cleaner m' R' S' [] Q (A - set D) L'" using p(4) by simp
  note o = test_invD [OF ok]
  have q: "quiet (sched (tkern m))" using sys_okD(2) [OF o(1)] by (simp add: calm_def)
  have "settled (sched (tkern m)) (sched (tkern m'))" by (rule pass_settles(1) [OF sync_okD(1) [OF sys_okD(1) [OF o(1)]] q _ p(2)]) (use p(1) o(4) in simp)
  then have "ticked m m'" unfolding ticked_def by (subst (1 2) p(3)) (simp add: settled_def)
  then show ?thesis using i by (intro exI [of _ R'] exI [of _ S'] exI [of _ "[]"] exI [of _ "A - set D"] exI [of _ L']) simp
qed (use st(2) in simp)

lemma calm_run:
  assumes run: "test_run code entry cleaner es ms" and calls: "\<And>j. i \<le> j \<Longrightarrow> es j \<noteq> Call" and ok: "test_inv base L0 main cleaner (ms i) R S D Q A L" and "i \<le> j"
  shows "\<exists>R' S' D' A' L'. test_inv base L0 main cleaner (ms j) R' S' D' Q A' L' \<and> ticked (ms i) (ms j) \<and> A' - set D' = A - set D \<and> ((D = [] \<or> (\<exists>k \<ge> i. k < j \<and> es k = Pass)) \<longrightarrow> D' = [])"
  using assms(4)
proof (induction rule: dec_induct)
  case base
  then show ?case using ok by (fastforce simp add: ticked_def)
next
  case (step n)
  then obtain R' S' D' A' L' where n: "test_inv base L0 main cleaner (ms n) R' S' D' Q A' L'" "ticked (ms i) (ms n)" "A' - set D' = A - set D"
    "(D = [] \<or> (\<exists>k \<ge> i. k < n \<and> es k = Pass)) \<longrightarrow> D' = []" by blast
  have st: "test_event_step code entry cleaner (es n) (ms n) = Some (Inr (ms (Suc n)))" using run unfolding test_run_def by blast
  obtain R2 S2 D2 A2 L2 where 2: "test_inv base L0 main cleaner (ms (Suc n)) R2 S2 D2 Q A2 L2" "ticked (ms n) (ms (Suc n))" "A2 - set D2 = A' - set D'"
      "es n = Pass \<longrightarrow> D2 = []" "D' = [] \<longrightarrow> D2 = []"
    using calm_event [OF n(1) st calls [OF step.hyps(1)]] by blast
  have "(D = [] \<or> (\<exists>k \<ge> i. k < Suc n \<and> es k = Pass)) \<longrightarrow> D2 = []" using n(4) 2(4,5) less_Suc_eq by metis
  then show ?case using 2 n(3) ticked_trans [OF n(2) 2(2)] by (intro exI [of _ R2] exI [of _ S2] exI [of _ D2] exI [of _ A2] exI [of _ L2]) simp
qed


lemma tick_rank:
  assumes ok: "sched_ok s R S D W" and q: "quiet s" and t: "t \<in> threads s R S D W" and st: "apic_timer_handler s = Some s'" "state (tcbs s' t) = THREAD_SLEEPING"
  shows "sleep_rank t s' < sleep_rank t s"
proof -
  note w = tick_sleeper [OF assms]
  have "unat (wake_time (tcbs s t)) < 2 ^ 64" using unsigned_less [of "wake_time (tcbs s t)", where ?'a = nat] by simp
  then show ?thesis using w sleep_measure [of "system_ticks s" "wake_time (tcbs s t)" "system_ticks s'"]
    by (auto simp add: sleep_rank_def intro: le_less_trans [OF diff_le_self])
qed

lemma wakes_in_run:
  assumes run: "test_run code entry cleaner es ms" "often (\<lambda>i. es i = Interrupt)" and calls: "\<And>j. i \<le> j \<Longrightarrow> es j \<noteq> Call"
    and ok: "test_inv base L0 main cleaner (ms i) R S D Q A L" and t: "t \<in> A - set D"
  shows "\<exists>k \<ge> i. state (tcbs (sched (tkern (ms k))) t) \<noteq> THREAD_SLEEPING"
proof (cases "state (tcbs (sched (tkern (ms i))) t) = THREAD_SLEEPING")
  case True
  let ?s = "\<lambda>j. sched (tkern (ms j))"
  let ?V = "\<lambda>n j. state (tcbs (?s j) t) = THREAD_SLEEPING \<and> sleep_rank t (?s j) = n"
  have "state (tcbs (?s (Suc j)) t) \<noteq> THREAD_SLEEPING \<or> (\<exists>n' \<le> n. ?V n' (Suc j) \<and> (es j = Interrupt \<longrightarrow> n' < n))" if j: "i \<le> j" "?V n j" for j n
  proof (cases "state (tcbs (?s (Suc j)) t) = THREAD_SLEEPING")
    case sl: True
    obtain R' S' D' A' L' where c: "test_inv base L0 main cleaner (ms j) R' S' D' Q A' L'" "A' - set D' = A - set D" using calm_run [OF run(1) calls ok j(1)] by blast
    note o = test_invD [OF c(1)]
    note y = sync_okD(1) [OF sys_okD(1) [OF o(1)]]
    have q: "quiet (?s j)" using sys_okD(2) [OF o(1)] by (simp add: calm_def)
    have st: "test_event_step code entry cleaner (es j) (ms j) = Some (Inr (ms (Suc j)))" using run(1) unfolding test_run_def by blast
    show ?thesis
    proof (cases "es j")
      case Interrupt
      have "apic_timer_handler (?s j) = Some (?s (Suc j))" using st Interrupt tick_step_sched by auto
      moreover have "t \<in> threads (?s j) R' S' D' (waiting (object (ms j) ` existing (todo (ms j) main)) Q (?s j))"
        using t c(2) sys_okD(3) [OF o(1)] crew_threads by fastforce
      ultimately show ?thesis using tick_rank [OF y q _ _ sl] sl j(2) by auto
    next
      case Pass
      note p = pass_step [OF st [unfolded Pass]]
      have "settled (?s j) (?s (Suc j))" by (rule pass_settles(1) [OF y q _ p(2)]) (use p(1) o(4) in simp)
      moreover have "t \<noteq> current_thread (?s j)" using j(2) sched_okD(3) [OF y] by auto
      ultimately have "sleep_rank t (?s (Suc j)) = sleep_rank t (?s j)" by (simp add: settled_def sleep_rank_def)
      then show ?thesis using sl j(2) Pass by auto
    qed (use calls [OF j(1)] in simp)
  qed blast
  from ranked_eventually [of i ?V _ "\<lambda>j. es j = Interrupt", OF this run(2) order_refl] True show ?thesis by blast
qed blast

lemma waits_in_start:
  assumes ok: "test_inv base L0 main cleaner m R S D Q A L" and t: "t \<in> ready_set R"
  obtains N n where "waits_in N t n (sched (tkern m))"
proof -
  note y = sys_okD [OF test_invD(1) [OF ok]]
  let ?s = "sched (tkern m)"
  have q: "quiet ?s" using y(2) by (simp add: calm_def)
  have sl: "slices_ok ?s R S" unfolding slices_ok_def using y(4,5,9,10) by (auto simp add: slice_ok_def)
  obtain n where "waits (load ?s R S) ?s R t n" by (rule waits_bound [OF sync_okD(1) [OF y(1)] q sl t])
  then show thesis using that sync_okD(1) [OF y(1)] q sl unfolding waits_in_def by blast
qed

lemma ready_runs_in_run:
  assumes run: "test_run code entry cleaner es ms" "often (\<lambda>i. es i = Interrupt)" and calls: "\<And>j. i \<le> j \<Longrightarrow> es j \<noteq> Call"
    and ok: "test_inv base L0 main cleaner (ms i) R S D Q A L" and w: "waits_in N t n (sched (tkern (ms j)))" "i \<le> j"
  shows "\<exists>k \<ge> j. current_thread (sched (tkern (ms k))) = t"
proof -
  let ?s = "\<lambda>j. sched (tkern (ms j))"
  have "current_thread (?s (Suc j)) = t \<or> (\<exists>n' \<le> n. waits_in N t n' (?s (Suc j)) \<and> (es j = Interrupt \<longrightarrow> n' < n))"
    if j: "i \<le> j" "waits_in N t n (?s j)" for j n
  proof -
    have st: "test_event_step code entry cleaner (es j) (ms j) = Some (Inr (ms (Suc j)))" using run(1) unfolding test_run_def by blast
    show ?thesis
    proof (cases "es j")
      case Interrupt
      then have "apic_timer_handler (?s j) = Some (?s (Suc j))" using st tick_step_sched by auto
      then show ?thesis using tick_waits [OF j(2)] less_imp_le by blast
    next
      case Pass
      note p = pass_step [OF st [unfolded Pass]]
      obtain R' S' D' A' L' where "test_inv base L0 main cleaner (ms j) R' S' D' Q A' L'" using calm_run [OF run(1) calls ok j(1)] by blast
      then have "current_thread (?s j) \<noteq> idle_thread (?s j)" using test_invD(4) p(1) by blast
      then show ?thesis using pass_waits [OF j(2) _ p(2)] Pass by auto
    qed (use calls [OF j(1)] in simp)
  qed
  then show ?thesis by (rule ranked_eventually [of i "\<lambda>n j. waits_in N t n (?s j)" _ "\<lambda>j. es j = Interrupt", OF _ run(2) w(2,1)])
qed

text \<open>While no calls are made, every thread that is neither blocked nor ended gets the processor again and again.\<close>

lemma runs_again:
  assumes run: "test_run code entry cleaner es ms" "often (\<lambda>i. es i = Interrupt)" and calls: "\<And>j. i \<le> j \<Longrightarrow> es j \<noteq> Call"
    and ok: "test_inv base L0 main cleaner (ms i) R S D Q A L"
    and t: "t \<in> A - set D" "t \<noteq> idle_thread (sched (tkern (ms i)))" "t \<notin> blocked (object (ms i) ` existing (todo (ms i) main)) Q"
  shows "often (\<lambda>j. current_thread (sched (tkern (ms j))) = t)"
  unfolding often_def
proof
  fix i0
  let ?s = "\<lambda>j. sched (tkern (ms j))" let ?i = "max i i0"
  obtain R1 S1 D1 A1 L1 where 1: "test_inv base L0 main cleaner (ms ?i) R1 S1 D1 Q A1 L1" "A1 - set D1 = A - set D" using calm_run [OF run(1) calls ok, of ?i] by auto
  have calls': "es j \<noteq> Call" if "?i \<le> j" for j using calls that by simp
  have t1: "t \<in> A1 - set D1" using t(1) 1(2) by simp
  obtain j where j: "?i \<le> j" "state (tcbs (?s j) t) \<noteq> THREAD_SLEEPING" using wakes_in_run [OF run calls' 1(1) t1] by blast
  then have ij: "i \<le> j" by simp
  obtain R' S' D' A' L' where c: "test_inv base L0 main cleaner (ms j) R' S' D' Q A' L'" "ticked (ms i) (ms j)" "A' - set D' = A - set D"
    using calm_run [OF run(1) calls ok ij] by blast
  note o = test_invD [OF c(1)]
  have "t \<notin> set S'" using sched_coreD(10) [OF sync_okD(4) [OF sys_okD(1) [OF o(1)]]] j(2) by blast
  moreover have "t \<notin> blocked (object (ms j) ` existing (todo (ms j) main)) Q" "t \<noteq> idle_thread (?s j)"
    using t(2,3) c(2) object_eq [of "ms j" "ms i"] by (simp_all add: ticked_def)
  ultimately have "t \<in> insert (current_thread (?s j)) (ready_set R')" using sys_okD(3) [OF o(1)] t(1) c(3) by (auto simp add: crew_def)
  then show "\<exists>k \<ge> i0. current_thread (?s k) = t"
  proof
    assume "t = current_thread (?s j)"
    then show ?thesis using j(1) by (intro exI [of _ j]) simp
  next
    assume "t \<in> ready_set R'"
    then obtain N n where "waits_in N t n (?s j)" using waits_in_start [OF c(1)] by blast
    from ready_runs_in_run [OF run calls ok this ij] show ?thesis using j(1) by (meson max.bounded_iff le_trans)
  qed
qed

lemma event_inv:
  assumes ok: "test_inv base L0 main cleaner m R S D Q A L" and st: "test_event_step code entry cleaner e m = Some (Inr m')"
  shows "\<exists>R' S' D' Q' A' L'. test_inv base L0 main cleaner m' R' S' D' Q' A' L'"
    "if e = Call then remaining m' < remaining m else todo m' = todo m"
proof -
  have call: "\<exists>R' S' D' Q' A' L'. test_inv base L0 main cleaner m' R' S' D' Q' A' L'" "remaining m' < remaining m" if "e = Call"
  proof -
    have c: "call_step code entry m = Some (Inr m')" using st that by simp
    then have "todo m (current_thread (sched (tkern m))) \<noteq> []" by (auto simp add: call_step_def Let_def)
    from call_inv [OF ok this, of code entry] show "\<exists>R' S' D' Q' A' L'. test_inv base L0 main cleaner m' R' S' D' Q' A' L'" using c by auto
    show "remaining m' < remaining m" by (rule call_remaining [OF c busy_finite [OF ok]])
  qed
  show "\<exists>R' S' D' Q' A' L'. test_inv base L0 main cleaner m' R' S' D' Q' A' L'" using call(1) calm_event [OF ok st] by blast
  show "if e = Call then remaining m' < remaining m else todo m' = todo m" using call(2) calm_event [OF ok st] by (auto simp add: ticked_def)
qed

lemma run_inv:
  assumes "test_run code entry cleaner es ms" "test_inv base L0 main cleaner (ms 0) R S D Q A L"
  shows "\<exists>R S D Q A L. test_inv base L0 main cleaner (ms i) R S D Q A L"
proof (induction i)
  case (Suc i)
  then obtain R S D Q A L where "test_inv base L0 main cleaner (ms i) R S D Q A L" by blast
  moreover have "test_event_step code entry cleaner (es i) (ms i) = Some (Inr (ms (Suc i)))" using assms(1) unfolding test_run_def by blast
  ultimately show ?case by (rule event_inv(1))
qed (use assms(2) in blast)

text \<open>Only finitely many calls are made.\<close>

lemma calls_end:
  assumes run: "test_run code entry cleaner es ms" "test_inv base L0 main cleaner (ms 0) R S D Q A L"
  obtains i where "\<And>j. i \<le> j \<Longrightarrow> es j \<noteq> Call"
proof -
  let ?V = "\<lambda>n j. remaining (ms j) = n"
  have "\<exists>n' \<le> n. ?V n' (Suc j) \<and> (es j = Call \<longrightarrow> n' < n)" if "?V n j" for j n
  proof -
    obtain R S D Q A L where "test_inv base L0 main cleaner (ms j) R S D Q A L" using run_inv [OF run] by blast
    from event_inv(2) [OF this, of code entry "es j" "ms (Suc j)"] show ?thesis
      using run(1) that unfolding test_run_def by (auto simp add: remaining_def split: if_splits)
  qed
  then have "\<not> often (\<lambda>j. es j = Call)" using ranked_eventually [of 0 ?V "\<lambda>_. False" "\<lambda>j. es j = Call" 0] by blast
  then show thesis using that unfolding often_def by blast
qed

lemma all_done_heap:
  assumes ok: "test_inv base L0 main cleaner m R S [] Q A L" and z: "\<forall>t. todo m t = []"
  shows "heap_state_ok base (kheap (tkern m)) L0" "sync_ok (tkern m) R S [] {} (\<lambda>_. [])"
proof -
  note o = test_invD [OF ok]
  have T: "A - {main, idle_thread (sched (tkern m)), cleaner} = {}" "existing (todo m main) = {}"
    using progs_okD(10) [OF o(7)] z by (auto simp add: existing_def)
  have "owns (sched (tkern m)) {} L0 L" "heap_state_ok base (kheap (tkern m)) L" using o(8) unfolding T by (simp_all add: blocks_ok_def Let_def T(2))
  then show "heap_state_ok base (kheap (tkern m)) L0" by (simp add: owns_def)
  have "waiting {} (\<lambda>_. []) (sched (tkern m)) = waiting {} Q (sched (tkern m))" by (simp add: waiting_def blocked_def fun_eq_iff)
  then show "sync_ok (tkern m) R S [] {} (\<lambda>_. [])"
    using sys_okD(1) [OF o(1)] unfolding T(2) by (simp add: sync_ok_def wait_lists_def counts_ok_def)
qed

lemma fair_calls_made:
  assumes run: "test_run code entry cleaner es ms" "fair cleaner es ms" "\<And>j. i \<le> j \<Longrightarrow> es j \<noteq> Call" and ok: "test_inv base L0 main cleaner (ms i) R S D Q A L"
  shows "\<forall>t. todo (ms i) t = []"
proof (rule ccontr)
  assume "\<not> (\<forall>t. todo (ms i) t = [])"
  then obtain t where t: "todo (ms i) t \<noteq> []" "t \<notin> blocked (object (ms i) ` existing (todo (ms i) main)) Q" using not_stuck [OF ok] by blast
  note o = test_invD [OF ok]
  have "t \<in> A - set D" "t \<noteq> idle_thread (sched (tkern (ms i)))"
    using busy_task [OF o(7) t(1)] progs_okD(7) [OF o(7), of t] t(1) o(2,5) by blast+
  moreover have "often (\<lambda>j. es j = Interrupt)" using run(2) by (simp add: fair_def)
  ultimately have r: "often (\<lambda>j. current_thread (sched (tkern (ms j))) = t)" using runs_again [OF run(1) _ run(3) ok _ _ t(2)] by blast
  have "todo (ms j) t \<noteq> []" if "i \<le> j" for j using calm_run [OF run(1,3) ok that] t(1) by (auto simp add: ticked_def)
  then have "often (\<lambda>j. current_thread (sched (tkern (ms j))) = t \<and> todo (ms j) t \<noteq> [])" using r unfolding often_def by (metis max.bounded_iff)
  then have "often (\<lambda>j. es j = Call \<and> current_thread (sched (tkern (ms j))) = t)" using run(2) unfolding fair_def by blast
  then show False using run(3) unfolding often_def by blast
qed

lemma fair_completes:
  assumes run: "test_run code entry cleaner es ms" "fair cleaner es ms" and ok: "test_inv base L0 main cleaner (ms 0) R S D Q A L"
  shows "\<exists>i. \<forall>j \<ge> i. (\<forall>t. todo (ms j) t = []) \<and> heap_state_ok base (kheap (tkern (ms j))) L0 \<and> (\<exists>R S. sync_ok (tkern (ms j)) R S [] {} (\<lambda>_. []))"
proof -
  obtain i where i: "\<And>j. i \<le> j \<Longrightarrow> es j \<noteq> Call" by (rule calls_end [OF run(1) ok]) blast
  obtain R S D Q A L where ok: "test_inv base L0 main cleaner (ms i) R S D Q A L" using run_inv [OF run(1) ok] by blast
  note z = fair_calls_made [OF run i ok] and o = test_invD [OF ok]
  have "cleaner \<in> A - set D" "cleaner \<noteq> idle_thread (sched (tkern (ms i)))" "cleaner \<notin> blocked (object (ms i) ` existing (todo (ms i) main)) Q"
    using progs_okD(6) [OF o(7)] o(4,6) z by (auto simp add: blocked_def existing_def)
  moreover have "often (\<lambda>j. es j = Interrupt)" using run(2) by (simp add: fair_def)
  ultimately have "often (\<lambda>j. current_thread (sched (tkern (ms j))) = cleaner)" using runs_again [OF run(1) _ i ok] by blast
  then obtain k where k: "i \<le> k" "es k = Pass" using run(2) unfolding fair_def often_def by blast
  have "(\<forall>t. todo (ms j) t = []) \<and> heap_state_ok base (kheap (tkern (ms j))) L0 \<and> (\<exists>R S. sync_ok (tkern (ms j)) R S [] {} (\<lambda>_. []))" if j: "Suc k \<le> j" for j
  proof -
    obtain R' S' A' L' where c: "test_inv base L0 main cleaner (ms j) R' S' [] Q A' L'" "ticked (ms i) (ms j)" using calm_run [OF run(1) i ok, of j] k j by fastforce
    have "\<forall>t. todo (ms j) t = []" using c(2) z by (simp add: ticked_def)
    then show ?thesis using all_done_heap [OF c(1)] by blast
  qed
  then show ?thesis by blast
qed

text \<open>The choice of events is fair.\<close>

lemma eager_steps:
  assumes ok: "test_inv base L0 main cleaner m R S D Q A L"
  shows "\<exists>m'. test_event_step code entry cleaner (eager cleaner m) m = Some (Inr m')"
proof -
  obtain m1 where "tick_step m = Some m1" by (rule tick_inv [OF ok])
  moreover have "\<exists>m'. clean_step m = Some (Inr m')" if "current_thread (sched (tkern m)) = cleaner" by (rule clean_inv [OF ok that]) blast
  ultimately show ?thesis using call_inv [OF ok, of code entry] by (auto simp add: eager_def Let_def)
qed

lemma cleaner_idle: "test_inv base L0 main cleaner m R S D Q A L \<Longrightarrow> todo m cleaner = []"
  using progs_okD(5) [OF test_invD(7), of base L0 main cleaner m R S D Q A L cleaner] test_invD(3) by blast

lemma eager_rank_less:
  assumes ok: "test_inv base L0 main cleaner m R S D Q A L" and st: "test_event_step code entry cleaner (eager cleaner m) m = Some (Inr m')" "eager cleaner m \<noteq> Interrupt"
  shows "eager_rank cleaner m' < eager_rank cleaner m"
proof (cases "eager cleaner m")
  case Call
  then show ?thesis using event_inv(2) [OF ok st(1)] by (auto simp add: eager_rank_def)
next
  case Pass
  note p = pass_step [OF st(1) [unfolded Pass]] and o = test_invD [OF ok]
  note y = sync_okD(1) [OF sys_okD(1) [OF o(1)]]
  have q: "quiet (sched (tkern m))" using sys_okD(2) [OF o(1)] by (simp add: calm_def)
  have "current_thread (sched (tkern m')) = fst (pick (idle_thread (sched (tkern m))) R)" by (rule pass_settles(2) [OF y q _ p(2)]) (use p(1) o(4) in simp)
  then have "current_thread (sched (tkern m')) \<in> insert (idle_thread (sched (tkern m))) (ready_set R)" using pick_threads [of "idle_thread (sched (tkern m))" R] by blast
  moreover have "cleaner \<notin> ready_set R"
    using sched_okD(3) [OF y] p(1) sched_coreD(8) [OF sched_okD(1) [OF y], of 0 cleaner] sched_coreD(8) [OF sched_okD(1) [OF y], of 1 cleaner]
      sched_coreD(8) [OF sched_okD(1) [OF y], of 2 cleaner] by (auto simp add: ready_set_def)
  ultimately have "current_thread (sched (tkern m')) \<noteq> cleaner" using o(4) by auto
  moreover have "remaining m' = remaining m" using event_inv(2) [OF ok st(1)] Pass by (simp add: remaining_def)
  ultimately show ?thesis using p(1) by (simp add: eager_rank_def)
qed (use st(2) in simp)

lemma eager_run_fair:
  fixes code :: code_addresses and entry :: "test_task \<Rightarrow> u32" and cleaner :: u32 and m :: test_state
  defines "ms \<equiv> eager_run code entry cleaner m" and "es \<equiv> \<lambda>i. eager cleaner (eager_run code entry cleaner m i)"
  assumes ok: "test_inv base L0 main cleaner m R S D Q A L"
  shows "test_run code entry cleaner es ms" "fair cleaner es ms" "ms 0 = m"
proof -
  have next_state: "ms (Suc i) = (case test_event_step code entry cleaner (es i) (ms i) of Some (Inr m') \<Rightarrow> m' | _ \<Rightarrow> ms i)" for i
    unfolding ms_def es_def by (rule eager_run.simps(2))
  show 0: "ms 0 = m" by (simp add: ms_def)
  have inv: "\<exists>R S D Q A L. test_inv base L0 main cleaner (ms i) R S D Q A L" for i
  proof (induction i)
    case (Suc i)
    then obtain R S D Q A L where i: "test_inv base L0 main cleaner (ms i) R S D Q A L" by blast
    obtain m' where m': "test_event_step code entry cleaner (es i) (ms i) = Some (Inr m')" using eager_steps [OF i] unfolding es_def ms_def by blast
    then have "ms (Suc i) = m'" using next_state [of i] by simp
    then show ?case using event_inv(1) [OF i m'] by simp
  qed (use ok in \<open>unfold 0, blast\<close>)
  have st: "test_event_step code entry cleaner (es i) (ms i) = Some (Inr (ms (Suc i)))" for i
    using eager_steps inv [of i] next_state [of i] unfolding es_def ms_def by (metis option.simps(5) sum.simps(6))
  then show "test_run code entry cleaner es ms" by (simp add: test_run_def)
  have "\<exists>j \<ge> i. es j = Interrupt" for i
  proof (rule ccontr)
    assume n: "\<not> (\<exists>j \<ge> i. es j = Interrupt)"
    have "\<exists>n' \<le> n. eager_rank cleaner (ms (Suc j)) = n' \<and> (True \<longrightarrow> n' < n)" if "i \<le> j" "eager_rank cleaner (ms j) = n" for j n
    proof -
      obtain R S D Q A L where j: "test_inv base L0 main cleaner (ms j) R S D Q A L" using inv by blast
      have "eager_rank cleaner (ms (Suc j)) < eager_rank cleaner (ms j)"
        by (rule eager_rank_less [OF j, of code entry]) (use st [of j] n that(1) in \<open>auto simp add: es_def ms_def \<close>)
      then show ?thesis using that(2) by simp
    qed
    from ranked_eventually [of i "\<lambda>n j. eager_rank cleaner (ms j) = n" "\<lambda>_. False" "\<lambda>_. True", OF _ _ order_refl refl] this show False
      by (auto simp add: often_def)
  qed
  moreover have "es i = Call" if "todo (ms i) (current_thread (sched (tkern (ms i)))) \<noteq> []" for i using that by (simp add: es_def ms_def eager_def Let_def)
  moreover have "es i = Pass" if "current_thread (sched (tkern (ms i))) = cleaner" for i
    using that inv [of i] cleaner_idle by (auto simp add: es_def ms_def eager_def Let_def)
  ultimately show "fair cleaner es ms" unfolding fair_def often_def by metis
qed

lemma run_reaches:
  assumes "test_run code entry cleaner es ms"
  shows "test_reaches code entry cleaner (ms 0) (ms i)"
proof (induction i)
  case (Suc i)
  have "test_event_step code entry cleaner (es i) (ms i) = Some (Inr (ms (Suc i)))" using assms unfolding test_run_def by blast
  then show ?case using test_tick [OF Suc] test_call [OF Suc] test_clean [OF Suc] by (cases "es i") (auto split: if_splits)
qed (rule test_begin)

lemma main_returns:
  assumes ok: "test_inv base L0 main cleaner m R S D Q A L"
  obtains c where "test_reaches code entry cleaner m c" "current_thread (sched (tkern c)) = main" "\<forall>t. todo c t = []"
proof -
  let ?ms = "eager_run code entry cleaner m" and ?es = "\<lambda>i. eager cleaner (eager_run code entry cleaner m i)"
  note e = eager_run_fair [OF ok, of code entry]
  have ok0: "test_inv base L0 main cleaner (?ms 0) R S D Q A L" using ok by simp
  obtain i where i: "\<And>j. i \<le> j \<Longrightarrow> ?es j \<noteq> Call" by (rule calls_end [OF e(1) ok0]) blast
  obtain R S D Q A L where c: "test_inv base L0 main cleaner (?ms i) R S D Q A L" using run_inv [OF e(1) ok0] by blast
  note z = fair_calls_made [OF e(1,2) i c] and o = test_invD [OF c]
  have "main \<in> A - set D" "main \<notin> blocked (object (?ms i) ` existing (todo (?ms i) main)) Q"
    using progs_okD(6) [OF o(7)] o(5) z by (auto simp add: blocked_def existing_def)
  moreover have "often (\<lambda>j. ?es j = Interrupt)" using e(2) by (simp add: fair_def)
  ultimately have "often (\<lambda>j. current_thread (sched (tkern (?ms j))) = main)" using runs_again [OF e(1) _ i c _ o(2)] by blast
  then obtain k where k: "i \<le> k" "current_thread (sched (tkern (?ms k))) = main" unfolding often_def by blast
  have "\<forall>t. todo (?ms k) t = []" using calm_run [OF e(1) i c k(1)] z by (auto simp add: ticked_def)
  then show thesis using that run_reaches [OF e(1), of k] k(2) by simp
qed

end
