(* ===== verification/Vga.thy ===== *)
theory Vga
  imports Io
begin

text \<open>
  The text console (\<open>src/src/drivers/vga.c\<close>, the constants of \<open>src/include/drivers/vga.h\<close>). The state holds the
  bytes of the frame buffer, indexed by their offset, the static variables, and the trace of port accesses. The \<open>for\<close> loops
  are functions with a measure; their \<open>int\<close> counters stay below 4000.
\<close>

section \<open>The console\<close>

record console =
  fb :: "u32 \<Rightarrow> u8"
  cursor_pos :: u32
  current_color :: u8
  ports :: io_log

definition FB_COMMAND_PORT :: u16 where "FB_COMMAND_PORT = 0x3D4"
definition FB_DATA_PORT :: u16 where "FB_DATA_PORT = 0x3D5"
definition FB_HIGH_BYTE_COMMAND :: u8 where "FB_HIGH_BYTE_COMMAND = 14"
definition FB_LOW_BYTE_COMMAND :: u8 where "FB_LOW_BYTE_COMMAND = 15"

datatype vga_color = FB_BLACK | FB_BLUE | FB_GREEN | FB_CYAN | FB_RED | FB_MAGENTA | FB_BROWN | FB_LIGHT_GREY | FB_DARK_GREY
  | FB_LIGHT_BLUE | FB_LIGHT_GREEN | FB_LIGHT_CYAN | FB_LIGHT_RED | FB_LIGHT_MAGENTA | FB_YELLOW | FB_WHITE

fun color_code :: "vga_color \<Rightarrow> u8" where
  "color_code FB_BLACK = 0" | "color_code FB_BLUE = 1" | "color_code FB_GREEN = 2" | "color_code FB_CYAN = 3"
| "color_code FB_RED = 4" | "color_code FB_MAGENTA = 5" | "color_code FB_BROWN = 6" | "color_code FB_LIGHT_GREY = 7"
| "color_code FB_DARK_GREY = 8" | "color_code FB_LIGHT_BLUE = 9" | "color_code FB_LIGHT_GREEN = 10" | "color_code FB_LIGHT_CYAN = 11"
| "color_code FB_LIGHT_RED = 12" | "color_code FB_LIGHT_MAGENTA = 13" | "color_code FB_YELLOW = 14" | "color_code FB_WHITE = 15"

definition vga_set_color :: "vga_color \<Rightarrow> vga_color \<Rightarrow> console \<Rightarrow> console" where
  "vga_set_color fg bg s = s\<lparr>current_color := color_code fg OR push_bit 4 (color_code bg)\<rparr>"

definition fb_write_cell :: "u32 \<Rightarrow> u8 \<Rightarrow> u8 \<Rightarrow> u8 \<Rightarrow> console \<Rightarrow> console" where
  "fb_write_cell i c fg bg s =
     (let s1 = s\<lparr>fb := (fb s)(i := c)\<rparr>
      in s1\<lparr>fb := (fb s1)(i + 1 := push_bit 4 (bg AND 0x0F) OR (fg AND 0x0F))\<rparr>)"

definition fb_move_cursor :: "u16 \<Rightarrow> console \<Rightarrow> console" where
  "fb_move_cursor pos s =
     (let p1 = outb FB_COMMAND_PORT FB_HIGH_BYTE_COMMAND (ports s);
          p2 = outb FB_DATA_PORT (ucast (drop_bit 8 pos AND 0x00FF)) p1;
          p3 = outb FB_COMMAND_PORT FB_LOW_BYTE_COMMAND p2;
          p4 = outb FB_DATA_PORT (ucast (pos AND 0x00FF)) p3
      in s\<lparr>ports := p4\<rparr>)"

function scroll_lines :: "u32 \<Rightarrow> (u32 \<Rightarrow> u8) \<Rightarrow> u32 \<Rightarrow> u8" where
  "scroll_lines i f = (if i < 3840 then scroll_lines (i + 1) (f(i := f (i + 160))) else f)"
  by pat_completeness auto
termination
  by (relation "measure (\<lambda>(i, f). 3840 - unat i)") (auto simp add: word_less_nat_alt unat_word_ariths)

function blank_line :: "u32 \<Rightarrow> (u32 \<Rightarrow> u8) \<Rightarrow> u32 \<Rightarrow> u8" where
  "blank_line i f = (if i < 4000 then blank_line (i + 2) (f(i := 0x20, i + 1 := 0x0F)) else f)"
  by pat_completeness auto
termination
  by (relation "measure (\<lambda>(i, f). 4000 - unat i)") (auto simp add: word_less_nat_alt unat_word_ariths)

definition scroll :: "console \<Rightarrow> console" where
  "scroll s = s\<lparr>fb := blank_line 3840 (scroll_lines 0 (fb s)), cursor_pos := 3840\<rparr>"

definition vga_putchar :: "u8 \<Rightarrow> console \<Rightarrow> console" where
  "vga_putchar c s =
     (let s1 = (if c = 10 then s\<lparr>cursor_pos := (cursor_pos s div 160 + 1) * 160\<rparr>
                else if c = 13 then s\<lparr>cursor_pos := (cursor_pos s div 160) * 160\<rparr>
                else s\<lparr>fb := (fb s)(cursor_pos s := c, cursor_pos s + 1 := current_color s), cursor_pos := cursor_pos s + 2\<rparr>);
          s2 = (if cursor_pos s1 \<ge> 4000 then scroll s1 else s1)
      in fb_move_cursor (ucast (cursor_pos s2 div 2)) s2)"

function clear_cells :: "u32 \<Rightarrow> console \<Rightarrow> console" where
  "clear_cells i s = (if i < 80 * 25 then clear_cells (i + 1) (fb_write_cell (i * 2) 0x20 (color_code FB_WHITE) (color_code FB_BLACK) s) else s)"
  by pat_completeness auto
termination
  by (relation "measure (\<lambda>(i, s). 2000 - unat i)") (auto simp add: word_less_nat_alt unat_word_ariths)

definition vga_clear_screen :: "console \<Rightarrow> console" where
  "vga_clear_screen s = fb_move_cursor 0 ((clear_cells 0 s)\<lparr>cursor_pos := 0\<rparr>)"

section \<open>Lemmas\<close>

declare scroll_lines.simps [simp del] blank_line.simps [simp del]

declare clear_cells.simps [simp del]

end
