(* ===== verification/Stdio.thy ===== *)
theory Stdio
  imports Vga
begin

text \<open>
  Formatted output (\<open>src/src/libc/stdio.c\<close>). Arrays of \<open>char\<close> are lists of bytes, and an access outside of one has no
  result. The arguments of \<open>printf\<close> are a list; reading an argument that is missing or of another type, undefined in C, has
  no result either. The buffers on the stack, uninitialised in C, start as zeros; every byte that is printed has been written.
  The negation in \<open>print_int\<close> wraps at the least integer.
\<close>

section \<open>Formatted output\<close>

definition EOF :: u32 where "EOF = - 1"

definition putchar :: "u32 \<Rightarrow> console \<Rightarrow> u32 \<times> console" where
  "putchar ic s = (ic, vga_putchar (ucast ic) s)"

text \<open>
  An array of bytes, a string with its terminating zero among them, is a list; reading or writing past its end has no result.
\<close>

definition buf_get :: "u8 list \<Rightarrow> nat \<Rightarrow> u8 option" where
  "buf_get b i = (if i < length b then Some (b ! i) else None)"

definition buf_set :: "u8 list \<Rightarrow> nat \<Rightarrow> u8 \<Rightarrow> u8 list option" where
  "buf_set b i v = (if i < length b then Some (b[i := v]) else None)"

function print_from :: "nat \<Rightarrow> u8 list \<Rightarrow> console \<Rightarrow> (u32 \<times> console) option" where
  "print_from i chars s =
     (case buf_get chars i of
        None \<Rightarrow> None
      | Some c \<Rightarrow>
          if c \<noteq> 0 then
            let (r, s1) = putchar (scast c) s
            in if r = EOF then Some (EOF, s1) else print_from (i + 1) chars s1
          else Some (of_nat i, s))"
  by pat_completeness auto
termination
  by (relation "measure (\<lambda>(i, chars, s). length chars - i)") (auto simp add: buf_get_def split: if_splits)

definition print_string :: "u8 list \<Rightarrow> console \<Rightarrow> (u32 \<times> console) option" where
  "print_string chars s = print_from 0 chars s"

definition puts :: "u8 list \<Rightarrow> console \<Rightarrow> (u32 \<times> console) option" where
  "puts chars s =
     Option.bind (print_string chars s) (\<lambda>(n, s1).
       let (_, s2) = putchar 10 s1 in Some (n + 1, s2))"

function hex_digits :: "u32 \<Rightarrow> nat \<Rightarrow> u8 list \<Rightarrow> (nat \<times> u8 list) option" where
  "hex_digits n i buffer =
     (if n > 0 \<and> i \<ge> 2 then
        let remainder = n mod 16;
            c = (if remainder < 10 then ucast remainder + 48 else (ucast remainder - 10) + 65)
        in Option.bind (buf_set buffer i c) (\<lambda>b. hex_digits (n div 16) (i - 1) b)
      else Some (i, buffer))"
  by pat_completeness auto
termination
  by (relation "measure (\<lambda>(n, i, b). i)") auto

definition print_hex :: "u32 \<Rightarrow> console \<Rightarrow> console option" where
  "print_hex n s =
     (if n = 0 then map_option snd (print_string [48, 120, 48, 0] s)
      else
        let buffer = (replicate 11 0)[0 := 48, 1 := 120];
            buffer1 = buffer[10 := 0]
        in Option.bind (hex_digits n 9 buffer1) (\<lambda>(i, b). map_option snd (print_string (drop (i + 1) b) s)))"

function int_digits :: "u32 \<Rightarrow> nat \<Rightarrow> u8 list \<Rightarrow> (nat \<times> u8 list) option" where
  "int_digits num i buffer =
     (if num > 0 then Option.bind (buf_set buffer i (ucast (num mod 10) + 48)) (\<lambda>b. int_digits (num div 10) (i + 1) b)
      else Some (i, buffer))"
  by pat_completeness auto
termination
  by (relation "measure (\<lambda>(n, i, b). unat n)") (auto simp add: unat_div word_less_nat_alt)

function reverse_buffer :: "nat \<Rightarrow> nat \<Rightarrow> u8 list \<Rightarrow> u8 list option" where
  "reverse_buffer start end_i buffer =
     (if start < end_i then
        Option.bind (buf_get buffer start) (\<lambda>temp.
        Option.bind (buf_get buffer end_i) (\<lambda>e.
        Option.bind (buf_set buffer start e) (\<lambda>b1.
        Option.bind (buf_set b1 end_i temp) (\<lambda>b2. reverse_buffer (start + 1) (end_i - 1) b2))))
      else Some buffer)"
  by pat_completeness auto
termination
  by (relation "measure (\<lambda>(s, e, b). e - s)") auto

definition print_int :: "u32 \<Rightarrow> console \<Rightarrow> console option" where
  "print_int n s =
     (if n = 0 then map_option snd (print_string [48, 0] s)
      else
        let is_negative = (sint n < 0);
            num = (if sint n < 0 then - n else n)
        in Option.bind (int_digits num 0 (replicate 12 0)) (\<lambda>(i, b).
           Option.bind (if is_negative then map_option (\<lambda>b1. (i + 1, b1)) (buf_set b i 45) else Some (i, b)) (\<lambda>(i1, b1).
           Option.bind (buf_set b1 i1 0) (\<lambda>b2.
           Option.bind (reverse_buffer 0 (i1 - 1) b2) (\<lambda>b3. map_option snd (print_string b3 s))))))"

datatype va_arg = Va_Int u32 | Va_Str "u8 list"

function printf_from :: "nat \<Rightarrow> u8 list \<Rightarrow> va_arg list \<Rightarrow> console \<Rightarrow> console option" where
  "printf_from i format args s =
     (case buf_get format i of
        None \<Rightarrow> None
      | Some c \<Rightarrow>
          if c = 0 then Some s
          else if c \<noteq> 37 then printf_from (i + 1) format args (snd (putchar (scast c) s))
          else case buf_get format (i + 1) of
            None \<Rightarrow> None
          | Some d \<Rightarrow>
              if d = 100 then
                (case args of Va_Int n # rest \<Rightarrow> Option.bind (print_int n s) (\<lambda>s1. printf_from (i + 2) format rest s1) | _ \<Rightarrow> None)
              else if d = 120 then
                (case args of Va_Int n # rest \<Rightarrow> Option.bind (print_hex n s) (\<lambda>s1. printf_from (i + 2) format rest s1) | _ \<Rightarrow> None)
              else if d = 115 then
                (case args of Va_Str t # rest \<Rightarrow> Option.bind (print_string t s) (\<lambda>(_, s1). printf_from (i + 2) format rest s1) | _ \<Rightarrow> None)
              else if d = 99 then
                (case args of Va_Int n # rest \<Rightarrow> printf_from (i + 2) format rest (snd (putchar (scast (ucast n :: u8)) s)) | _ \<Rightarrow> None)
              else if d = 37 then printf_from (i + 2) format args (snd (putchar 37 s))
              else if d = 0 then Some s
              else printf_from (i + 2) format args (snd (putchar (scast d) (snd (putchar 37 s)))))"
  by pat_completeness auto
termination
  by (relation "measure (\<lambda>(i, f, a, s). length f - i)") (auto simp add: buf_get_def split: if_splits)

definition printf :: "u8 list \<Rightarrow> va_arg list \<Rightarrow> console \<Rightarrow> console option" where
  "printf format args s = printf_from 0 format args s"

text \<open>The tracing macro: a call of \<open>printf\<close> where the file sets \<open>PRINT\<close> to 1, and nothing elsewhere.\<close>

definition pr :: "bool \<Rightarrow> u8 list \<Rightarrow> va_arg list \<Rightarrow> console \<Rightarrow> console option" where
  "pr PRINT format args s = (if PRINT then printf format args s else Some s)"

text \<open>A string literal, with its terminating zero.\<close>

definition cstr :: "string \<Rightarrow> u8 list" where
  "cstr t = map of_char t @ [0]"

section \<open>Lemmas\<close>

declare print_from.simps [simp del]

declare hex_digits.simps [simp del]

declare int_digits.simps [simp del] reverse_buffer.simps [simp del]

declare printf_from.simps [simp del]

end
