(* ===== verification/Ata.thy ===== *)
theory Ata
  imports Stdio
begin

text \<open>
  The disk driver (\<open>src/src/drivers/ata.c\<close>). Buffers are functions from the index of a word; the loops that poll the status
  register are partial functions. The macro \<open>pr\<close> prints here, since the file defines \<open>PRINT\<close>.
\<close>

section \<open>The driver\<close>

text \<open>The disk: \<open>while (inb(0x1F7) & mask)\<close>, and \<open>while (!(inb(0x1F7) & mask))\<close>.\<close>

partial_function (option) poll_while :: "device \<Rightarrow> u8 \<Rightarrow> io_log \<Rightarrow> io_log option" where
  "poll_while dev bits tr = (case inb dev 0x1F7 tr of (v, tr1) \<Rightarrow> if v AND bits \<noteq> 0 then poll_while dev bits tr1 else Some tr1)"

partial_function (option) poll_until :: "device \<Rightarrow> u8 \<Rightarrow> io_log \<Rightarrow> io_log option" where
  "poll_until dev bits tr = (case inb dev 0x1F7 tr of (v, tr1) \<Rightarrow> if v AND bits = 0 then poll_until dev bits tr1 else Some tr1)"

definition delay_400ns :: "device \<Rightarrow> io_log \<Rightarrow> io_log" where
  "delay_400ns dev tr =
     (let (_, tr1) = inb dev 0x3F6 tr; (_, tr2) = inb dev 0x3F6 tr1; (_, tr3) = inb dev 0x3F6 tr2; (_, tr4) = inb dev 0x3F6 tr3 in tr4)"

fun read_words :: "device \<Rightarrow> nat \<Rightarrow> nat \<Rightarrow> (nat \<Rightarrow> u16) \<Rightarrow> io_log \<Rightarrow> (nat \<Rightarrow> u16) \<times> io_log" where
  "read_words dev i 0 buffer tr = (buffer, tr)"
| "read_words dev i (Suc n) buffer tr = (let (v, tr1) = inw dev 0x1F0 tr in read_words dev (i + 1) n (buffer(i := v)) tr1)"

fun write_words :: "nat \<Rightarrow> nat \<Rightarrow> (nat \<Rightarrow> u16) \<Rightarrow> io_log \<Rightarrow> io_log" where
  "write_words i 0 buffer tr = tr"
| "write_words i (Suc n) buffer tr = write_words (i + 1) n buffer (outw 0x1F0 (buffer i) tr)"

definition ata_command :: "u8 \<Rightarrow> u32 \<Rightarrow> u8 \<Rightarrow> io_log \<Rightarrow> io_log" where
  "ata_command cmd LBA sector_count tr =
     (let tr1 = outb 0x1F6 (ucast (0xE0 OR (drop_bit 24 LBA AND 0x0F))) tr;
          tr2 = outb 0x1F1 0x00 tr1;
          tr3 = outb 0x1F2 sector_count tr2;
          tr4 = outb 0x1F3 (ucast LBA) tr3;
          tr5 = outb 0x1F4 (ucast (drop_bit 8 LBA)) tr4;
          tr6 = outb 0x1F5 (ucast (drop_bit 16 LBA)) tr5
      in outb 0x1F7 cmd tr6)"

fun read_loop :: "device \<Rightarrow> nat \<Rightarrow> nat \<Rightarrow> (nat \<Rightarrow> u16) \<Rightarrow> io_log \<Rightarrow> (panic + (nat \<Rightarrow> u16) \<times> io_log) option" where
  "read_loop dev i 0 buffer tr = Some (Inr (buffer, tr))"
| "read_loop dev i (Suc n) buffer tr =
     Option.bind (poll_while dev 0x80 tr) (\<lambda>tr1.
     let (e, tr2) = inb dev 0x1F7 tr1
     in if e AND 0x01 \<noteq> 0 then Some (Inl AtaAbort)
        else
          let (d, tr3) = inb dev 0x1F7 tr2;
              (buffer1, tr4) = (if d AND 0x08 \<noteq> 0 then read_words dev (i * 256) 256 buffer tr3 else (buffer, tr3))
          in read_loop dev (i + 1) n buffer1 (delay_400ns dev tr4))"

fun write_loop :: "device \<Rightarrow> nat \<Rightarrow> nat \<Rightarrow> (nat \<Rightarrow> u16) \<Rightarrow> io_log \<Rightarrow> (panic + io_log) option" where
  "write_loop dev i 0 buffer tr = Some (Inr tr)"
| "write_loop dev i (Suc n) buffer tr =
     Option.bind (poll_while dev 0x80 tr) (\<lambda>tr1.
     let (e, tr2) = inb dev 0x1F7 tr1
     in if e AND 0x01 \<noteq> 0 then Some (Inl AtaAbort)
        else
          let (d, tr3) = inb dev 0x1F7 tr2;
              tr4 = (if d AND 0x08 \<noteq> 0 then write_words (i * 256) 256 buffer tr3 else tr3)
          in write_loop dev (i + 1) n buffer (delay_400ns dev tr4))"

definition sector_counts :: "u8 \<Rightarrow> u16" where
  "sector_counts sector_count = (if sector_count = 0 then 256 else ucast sector_count)"

definition read_sectors :: "device \<Rightarrow> u32 \<Rightarrow> u8 \<Rightarrow> (nat \<Rightarrow> u16) \<Rightarrow> io_log \<Rightarrow> (panic + (nat \<Rightarrow> u16) \<times> io_log) option" where
  "read_sectors dev LBA sector_count buffer tr =
     read_loop dev 0 (unat (sector_counts sector_count)) buffer (ata_command 0x20 LBA sector_count tr)"

definition flush_cache :: "device \<Rightarrow> io_log \<Rightarrow> io_log option" where
  "flush_cache dev tr = poll_while dev 0x80 (outb 0x1F7 0xE7 tr)"

definition write_sectors :: "device \<Rightarrow> u32 \<Rightarrow> u8 \<Rightarrow> (nat \<Rightarrow> u16) \<Rightarrow> io_log \<Rightarrow> (panic + io_log) option" where
  "write_sectors dev LBA sector_count buffer tr =
     (case write_loop dev 0 (unat (sector_counts sector_count)) buffer (ata_command 0x30 LBA sector_count tr) of
        None \<Rightarrow> None
      | Some (Inl e) \<Rightarrow> Some (Inl e)
      | Some (Inr tr1) \<Rightarrow> Option.bind (flush_cache dev tr1) (\<lambda>tr2. Some (Inr tr2)))"

text \<open>\<open>identify_disk\<close> prints, so it works on the console, whose trace of port accesses it extends.\<close>

definition ATA_PRINT :: bool where "ATA_PRINT = True"

definition identify_disk :: "device \<Rightarrow> (nat \<Rightarrow> u16) \<Rightarrow> console \<Rightarrow> (panic + (nat \<Rightarrow> u16) \<times> console) option" where
  "identify_disk dev identify_buffer s =
     (let tr1 = outb 0x1F6 0xA0 (ports s);
          tr2 = outb 0x1F5 0 (outb 0x1F4 0 (outb 0x1F3 0 (outb 0x1F2 0 tr1)));
          tr3 = outb 0x1F7 0xEC tr2;
          (st, tr4) = inb dev 0x1F7 tr3
      in if st = 0 then Some (Inl NoDriver)
         else Option.bind (poll_while dev 0x80 tr4) (\<lambda>tr5.
           let (e, tr6) = inb dev 0x1F7 tr5
           in if e AND 0x01 \<noteq> 0 then Some (Inl AtaAbort)
              else Option.bind (poll_until dev 0x08 tr6) (\<lambda>tr7.
                let (b, tr8) = read_words dev 0 256 identify_buffer tr7;
                    size_mb = (ucast (b 60) OR push_bit 16 (ucast (b 61))) div 2048
                in Option.bind (pr ATA_PRINT (map of_char ''Total disk size is %d'' @ [10, 0]) [Va_Int size_mb] (s\<lparr>ports := tr8\<rparr>)) (\<lambda>s1.
                   Some (Inr (b, s1\<lparr>ports := delay_400ns dev (ports s1)\<rparr>))))))"

end
