(* ===== verification/Vga_Terminal.thy ===== *)
theory Vga_Terminal
  imports Vga
begin

text \<open>
  The console is a terminal of 25 lines and 80 columns: what printing does to the cells of the screen, to the position and to
  the hardware cursor.
\<close>

section \<open>Specification vocabulary\<close>

text \<open>The screen as a terminal: two thousand cells of a character and its colours, and the position of the next one.\<close>

type_synonym cell = "u8 \<times> u8"

definition cell_at :: "(u32 \<Rightarrow> u8) \<Rightarrow> nat \<Rightarrow> cell" where
  "cell_at f k = (f (of_nat (2 * k)), f (of_nat (2 * k + 1)))"

definition cells :: "console \<Rightarrow> cell list" where
  "cells s = map (cell_at (fb s)) [0..<2000]"

definition position :: "console \<Rightarrow> nat" where
  "position s = unat (cursor_pos s) div 2"

definition console_ok :: "console \<Rightarrow> bool" where
  "console_ok s \<longleftrightarrow> cursor_pos s < 4000 \<and> even (unat (cursor_pos s))"

text \<open>What a character does to a terminal of 25 lines of 80 cells.\<close>

definition tty_put :: "u8 \<Rightarrow> u8 \<Rightarrow> cell list \<times> nat \<Rightarrow> cell list \<times> nat" where
  "tty_put color c t =
     (let (cs, p) = t;
          (cs1, p1) = (if c = 10 then (cs, (p div 80 + 1) * 80) else if c = 13 then (cs, p div 80 * 80) else (cs[p := (c, color)], p + 1))
      in if p1 \<ge> 2000 then (drop 80 cs1 @ replicate 80 (0x20, 0x0F), 1920) else (cs1, p1))"

text \<open>How the position reaches the cursor of the display hardware.\<close>

definition cursor_command :: "nat \<Rightarrow> io_log" where
  "cursor_command p = [Out_b 0x3D4 14, Out_b 0x3D5 (of_nat (p div 256)), Out_b 0x3D4 15, Out_b 0x3D5 (of_nat (p mod 256))]"

text \<open>The state between the character and the scrolling.\<close>

definition put_glyph :: "u8 \<Rightarrow> console \<Rightarrow> console" where
  "put_glyph c s = (if c = 10 then s\<lparr>cursor_pos := (cursor_pos s div 160 + 1) * 160\<rparr>
     else if c = 13 then s\<lparr>cursor_pos := (cursor_pos s div 160) * 160\<rparr>
     else s\<lparr>fb := (fb s)(cursor_pos s := c, cursor_pos s + 1 := current_color s), cursor_pos := cursor_pos s + 2\<rparr>)"

section \<open>Lemmas\<close>

lemma scroll_lines_eq:
  "i \<le> 3840 \<Longrightarrow> scroll_lines i f = (\<lambda>j. if i \<le> j \<and> j < 3840 then f (j + 160) else f j)"
proof (induction i f rule: scroll_lines.induct)
  case (1 i f)
  show ?case
  proof (cases "i < 3840")
    case True
    then have s: "unat (i + 1) = Suc (unat i)" by (simp add: unat_word_ariths word_less_nat_alt)
    then have "i + 1 \<le> 3840" using True by (simp add: word_le_nat_alt word_less_nat_alt)
    note ih = 1(1) [OF True this]
    have "(if i + 1 \<le> j \<and> j < 3840 then (f(i := f (i + 160))) (j + 160) else (f(i := f (i + 160))) j)
      = (if i \<le> j \<and> j < 3840 then f (j + 160) else f j)" for j
    proof -
      have le: "i + 1 \<le> j \<longleftrightarrow> i \<le> j \<and> i \<noteq> j" using s by (auto simp add: word_le_nat_alt word_unat_eq_iff)
      have "j + 160 \<noteq> i" if "i \<le> j" "j < 3840"
        using that by (simp add: word_le_nat_alt word_less_nat_alt word_unat_eq_iff unat_word_ariths)
      with True show ?thesis unfolding le by auto
    qed
    then show ?thesis unfolding scroll_lines.simps [of i] ih using True by (simp add: fun_eq_iff)
  next
    case False
    then show ?thesis using 1(2) by (subst scroll_lines.simps) (auto simp add: fun_eq_iff)
  qed
qed

lemma blank_line_eq:
  "i \<le> 4000 \<Longrightarrow> even (unat i) \<Longrightarrow>
    blank_line i f = (\<lambda>j. if i \<le> j \<and> j < 4000 then if even (unat j) then 0x20 else 0x0F else f j)"
proof (induction i f rule: blank_line.induct)
  case (1 i f)
  show ?case
  proof (cases "i < 4000")
    case True
    then have u: "unat i < 4000" by (simp add: word_less_nat_alt)
    then have s: "unat (i + 2) = unat i + 2" "unat (i + 1) = unat i + 1" by (simp_all add: unat_word_ariths)
    have "unat i \<noteq> 3999" using 1(3) by auto
    then have "i + 2 \<le> 4000" "even (unat (i + 2))" using u s 1(3) by (simp_all add: word_le_nat_alt)
    note ih = 1(1) [OF True this]
    have "(if i + 2 \<le> j \<and> j < 4000 then if even (unat j) then 0x20 else 0x0F else (f(i := 0x20, i + 1 := 0x0F)) j)
      = (if i \<le> j \<and> j < 4000 then if even (unat j) then 0x20 else 0x0F else f j)" for j
      using s u 1(3) \<open>unat i \<noteq> 3999\<close> by (auto simp add: word_le_nat_alt word_less_nat_alt word_unat_eq_iff)
    then show ?thesis unfolding blank_line.simps [of i] ih using True by (simp add: fun_eq_iff)
  next
    case False
    then show ?thesis by (subst blank_line.simps) (auto simp add: fun_eq_iff)
  qed
qed

lemma small_word: "k < 5000 \<Longrightarrow> unat (of_nat k :: u32) = k"
  by (simp add: unat_of_nat)

lemma scroll_fb:
  "fb (scroll s) = (\<lambda>j. if j < 3840 then fb s (j + 160) else if j < 4000 then if even (unat j) then 0x20 else 0x0F else fb s j)"
proof -
  have "even (unat (3840 :: u32))" by simp
  then have "fb (scroll s) = (\<lambda>j. if 3840 \<le> j \<and> j < 4000 then if even (unat j) then 0x20 else 0x0F
      else if j < 3840 then fb s (j + 160) else fb s j)"
    by (simp add: scroll_def blank_line_eq scroll_lines_eq)
  then show ?thesis by (auto simp add: fun_eq_iff word_le_nat_alt word_less_nat_alt)
qed

lemma scroll_cells: "cells (scroll s) = drop 80 (cells s) @ replicate 80 (0x20, 0x0F)"
proof (rule nth_equalityI)
  show "length (cells (scroll s)) = length (drop 80 (cells s) @ replicate 80 (0x20, 0x0F))" by (simp add: cells_def)
  fix k assume "k < length (cells (scroll s))"
  then have k: "k < 2000" by (simp add: cells_def)
  then have n: "unat (of_nat (2 * k) :: u32) = 2 * k" "unat (of_nat (2 * k + 1) :: u32) = 2 * k + 1" by (intro small_word; simp)+
  have e: "of_nat (2 * k) + (160 :: u32) = of_nat (2 * (80 + k))" "of_nat (2 * k + 1) + (160 :: u32) = of_nat (2 * (80 + k) + 1)" by simp_all
  show "cells (scroll s) ! k = (drop 80 (cells s) @ replicate 80 (0x20, 0x0F)) ! k"
  proof (cases "k < 1920")
    case True
    then have "of_nat (2 * k) < (3840 :: u32)" "of_nat (2 * k + 1) < (3840 :: u32)" using n by (simp_all only: word_less_nat_alt) simp_all
    then have "cell_at (fb (scroll s)) k = cell_at (fb s) (80 + k)" unfolding cell_at_def scroll_fb e [symmetric] by simp
    then show ?thesis using True by (simp add: cells_def nth_append)
  next
    case False
    then have "\<not> of_nat (2 * k) < (3840 :: u32)" "\<not> of_nat (2 * k + 1) < (3840 :: u32)" "of_nat (2 * k) < (4000 :: u32)" "of_nat (2 * k + 1) < (4000 :: u32)"
      using n k by (simp_all only: word_less_nat_alt) simp_all
    then have "cell_at (fb (scroll s)) k = (0x20, 0x0F)" unfolding cell_at_def scroll_fb n by simp
    then show ?thesis using False k by (simp add: cells_def nth_append)
  qed
qed

lemma write_cells:
  assumes "console_ok s"
  shows "cells (s\<lparr>fb := (fb s)(cursor_pos s := c, cursor_pos s + 1 := a)\<rparr>) = (cells s)[position s := (c, a)]"
proof (rule nth_equalityI)
  let ?s = "s\<lparr>fb := (fb s)(cursor_pos s := c, cursor_pos s + 1 := a)\<rparr>"
  show "length (cells ?s) = length ((cells s)[position s := (c, a)])" by (simp add: cells_def)
  fix k assume "k < length (cells ?s)"
  then have k: "k < 2000" by (simp add: cells_def)
  have c: "unat (cursor_pos s) < 4000" "even (unat (cursor_pos s))" using assms by (simp_all add: console_ok_def word_less_nat_alt)
  have n: "unat (of_nat (2 * k) :: u32) = 2 * k" "unat (of_nat (2 * k + 1) :: u32) = 2 * k + 1" using k by (intro small_word; simp)+
  have c1: "unat (cursor_pos s + 1) = unat (cursor_pos s) + 1" using c by (simp add: unat_word_ariths)
  obtain q where q: "unat (cursor_pos s) = 2 * q" using c(2) by (elim evenE)
  have "of_nat (2 * k) = cursor_pos s \<longleftrightarrow> k = position s" "of_nat (2 * k + 1) = cursor_pos s + 1 \<longleftrightarrow> k = position s"
    "of_nat (2 * k) \<noteq> cursor_pos s + 1" "of_nat (2 * k + 1) \<noteq> cursor_pos s"
    unfolding word_unat_eq_iff n c1 position_def q by presburger+
  then have "cell_at (fb ?s) k = (if k = position s then (c, a) else cell_at (fb s) k)" by (simp add: cell_at_def)
  then show "cells ?s ! k = (cells s)[position s := (c, a)] ! k" using k by (simp add: cells_def nth_list_update)
qed

lemma and_255: "x AND 0xFF = take_bit 8 x" for x :: "'a::len word"
  by (simp add: take_bit_eq_mask mask_eq_decr_exp)

lemma byte_split: "unat (ucast (drop_bit 8 p AND 0x00FF) :: u8) = unat p div 256" "unat (ucast (p AND 0x00FF) :: u8) = unat p mod 256" for p :: u16
proof -
  have lt: "unat p < 65536" using unsigned_less [of p] by simp
  then have "unat (drop_bit 8 p) = unat p div 256" by (simp add: unsigned_drop_bit_eq drop_bit_eq_div [where 'a = nat] take_bit_nat_eq_self)
  with lt show "unat (ucast (drop_bit 8 p AND 0x00FF) :: u8) = unat p div 256" "unat (ucast (p AND 0x00FF) :: u8) = unat p mod 256"
    unfolding and_255 by (simp_all only: unsigned_ucast_eq unsigned_take_bit_eq take_bit_eq_mod) (simp_all add: unat_mod)
qed

lemma cursor_moves:
  assumes "cursor_pos s < 4000"
  shows "ports (fb_move_cursor (ucast (cursor_pos s div 2)) s) = ports s @ cursor_command (position s)"
proof -
  let ?p = "ucast (cursor_pos s div 2) :: u16"
  have "unat (cursor_pos s) < 4000" using assms by (simp add: word_less_nat_alt)
  then have u: "unat ?p = position s" "position s < 2000"
    by (simp_all add: position_def unsigned_ucast_eq unat_div take_bit_nat_eq_self)
  have h: "ucast (drop_bit 8 ?p AND 0x00FF) = (of_nat (position s div 256) :: u8)" using byte_split(1) [of ?p] u(1) by (metis of_nat_unat ucast_id)
  have l: "ucast (?p AND 0x00FF) = (of_nat (position s mod 256) :: u8)" using byte_split(2) [of ?p] u(1) by (metis of_nat_unat ucast_id)
  show ?thesis unfolding fb_move_cursor_def Let_def h l
    by (simp add: outb_def cursor_command_def FB_COMMAND_PORT_def FB_DATA_PORT_def FB_HIGH_BYTE_COMMAND_def FB_LOW_BYTE_COMMAND_def)
qed

lemma move_cursor_fields [simp]:
  "fb (fb_move_cursor p s) = fb s" "cursor_pos (fb_move_cursor p s) = cursor_pos s" "current_color (fb_move_cursor p s) = current_color s"
  by (simp_all add: fb_move_cursor_def Let_def)

lemma screen_cong: "fb s' = fb s \<Longrightarrow> cells s' = cells s" "cursor_pos s' = cursor_pos s \<Longrightarrow> position s' = position s"
  by (simp_all add: cells_def position_def)

lemma newline_position:
  assumes "console_ok s"
  shows "unat ((cursor_pos s div 160 + 1) * 160) = 2 * ((position s div 80 + 1) * 80)" "unat (cursor_pos s div 160 * 160) = 2 * (position s div 80 * 80)"
    "unat (cursor_pos s + 2) = 2 * (position s + 1)"
proof -
  obtain q where q: "unat (cursor_pos s) = 2 * q" "q < 2000" using assms by (auto simp add: console_ok_def word_less_nat_alt elim!: evenE)
  have d: "unat (cursor_pos s div 160) = q div 80" "q div 80 < 25" using q by (simp_all add: unat_div)
  have "unat (cursor_pos s div 160 + 1) = q div 80 + 1" using d by (simp add: unat_word_ariths)
  then show "unat ((cursor_pos s div 160 + 1) * 160) = 2 * ((position s div 80 + 1) * 80)" "unat (cursor_pos s div 160 * 160) = 2 * (position s div 80 * 80)"
    using d q by (simp_all only: unat_word_ariths(2) position_def) simp_all
  show "unat (cursor_pos s + 2) = 2 * (position s + 1)" using q by (simp add: unat_word_ariths(1) position_def)
qed

lemma put_glyph_refines:
  fixes c :: u8
  assumes "console_ok s"
  defines "t \<equiv> if c = 10 then (cells s, (position s div 80 + 1) * 80) else if c = 13 then (cells s, position s div 80 * 80)
     else ((cells s)[position s := (c, current_color s)], position s + 1)"
  shows "cells (put_glyph c s) = fst t" "unat (cursor_pos (put_glyph c s)) = 2 * snd t" "j \<ge> 4000 \<Longrightarrow> fb (put_glyph c s) j = fb s j"
    "current_color (put_glyph c s) = current_color s" "ports (put_glyph c s) = ports s"
proof -
  have w: "cells (s\<lparr>fb := (fb s)(cursor_pos s := c, cursor_pos s + 1 := current_color s), cursor_pos := cursor_pos s + 2\<rparr>)
      = (cells s)[position s := (c, current_color s)]"
    using write_cells [OF assms(1), of c "current_color s"] by (simp add: cells_def)
  show "cells (put_glyph c s) = fst t" unfolding put_glyph_def t_def using w by (simp add: cells_def)
  show "unat (cursor_pos (put_glyph c s)) = 2 * snd t" unfolding put_glyph_def t_def using newline_position [OF assms(1)] by simp
  have c: "unat (cursor_pos s) < 4000" "even (unat (cursor_pos s))" using assms(1) by (simp_all add: console_ok_def word_less_nat_alt)
  then have "unat (cursor_pos s) \<noteq> 3999" by auto
  then have "cursor_pos s < 4000" "cursor_pos s + 1 < 4000" using c by (simp_all add: word_less_nat_alt unat_word_ariths)
  then show "j \<ge> 4000 \<Longrightarrow> fb (put_glyph c s) j = fb s j" by (auto simp add: put_glyph_def)
  show "current_color (put_glyph c s) = current_color s" "ports (put_glyph c s) = ports s" by (simp_all add: put_glyph_def)
qed

lemma vga_putchar_refines_tty:
  assumes ok: "console_ok s"
  shows "(cells (vga_putchar c s), position (vga_putchar c s)) = tty_put (current_color s) c (cells s, position s)"
    "console_ok (vga_putchar c s)" "j \<ge> 4000 \<Longrightarrow> fb (vga_putchar c s) j = fb s j" "current_color (vga_putchar c s) = current_color s"
    "ports (vga_putchar c s) = ports s @ cursor_command (position (vga_putchar c s))"
proof -
  note g = put_glyph_refines [OF ok, where c = c]
  let ?t = "if c = 10 then (cells s, (position s div 80 + 1) * 80) else if c = 13 then (cells s, position s div 80 * 80)
     else ((cells s)[position s := (c, current_color s)], position s + 1)"
  define s2 where "s2 = (if cursor_pos (put_glyph c s) \<ge> 4000 then scroll (put_glyph c s) else put_glyph c s)"
  have v: "vga_putchar c s = fb_move_cursor (ucast (cursor_pos s2 div 2)) s2" by (simp add: vga_putchar_def Let_def s2_def put_glyph_def)
  have b: "cursor_pos (put_glyph c s) \<ge> 4000 \<longleftrightarrow> snd ?t \<ge> 2000" using g(2) by (simp add: word_le_nat_alt)
  have t: "tty_put (current_color s) c (cells s, position s) = (if snd ?t \<ge> 2000 then (drop 80 (fst ?t) @ replicate 80 (0x20, 0x0F), 1920) else ?t)"
    by (simp add: tty_put_def)
  have s2: "(cells s2, position s2) = tty_put (current_color s) c (cells s, position s)"
    "cursor_pos s2 < 4000 \<and> even (unat (cursor_pos s2))" "current_color s2 = current_color s \<and> ports s2 = ports s" "4000 \<le> j \<Longrightarrow> fb s2 j = fb s j" for j
  proof -
    have "(cells s2, position s2) = tty_put (current_color s) c (cells s, position s) \<and> cursor_pos s2 < 4000 \<and> even (unat (cursor_pos s2))
      \<and> current_color s2 = current_color s \<and> ports s2 = ports s \<and> (4000 \<le> j \<longrightarrow> fb s2 j = fb s j)" for j
    proof (cases "snd ?t \<ge> 2000")
      case True
      then have e: "s2 = scroll (put_glyph c s)" using b by (simp add: s2_def)
      have "\<not> j < 3840" "\<not> j < 4000" if "j \<ge> 4000" using that by (simp_all add: word_le_nat_alt word_less_nat_alt)
      then have "4000 \<le> j \<longrightarrow> fb s2 j = fb s j" unfolding e scroll_fb using g(3) by simp
      moreover have "cells s2 = drop 80 (fst ?t) @ replicate 80 (0x20, 0x0F)" unfolding e scroll_cells g(1) ..
      moreover have "cursor_pos s2 = 3840" "current_color s2 = current_color s" "ports s2 = ports s" using g(4,5) by (simp_all add: e scroll_def)
      ultimately show ?thesis unfolding t using True by (simp add: position_def)
    next
      case False
      then have e: "s2 = put_glyph c s" using b by (simp add: s2_def)
      have "unat (cursor_pos s2) = 2 * snd ?t" "cells s2 = fst ?t" unfolding e by (rule g(2), rule g(1))
      moreover have "cursor_pos s2 < 4000" using False b by (simp add: e)
      ultimately show ?thesis unfolding t using False g(3-5) by (simp add: position_def e)
    qed
    then show "(cells s2, position s2) = tty_put (current_color s) c (cells s, position s)"
      "cursor_pos s2 < 4000 \<and> even (unat (cursor_pos s2))" "current_color s2 = current_color s \<and> ports s2 = ports s" "4000 \<le> j \<Longrightarrow> fb s2 j = fb s j"
      by blast+
  qed
  show "console_ok (vga_putchar c s)" "j \<ge> 4000 \<Longrightarrow> fb (vga_putchar c s) j = fb s j" "current_color (vga_putchar c s) = current_color s"
    using s2 by (simp_all add: v console_ok_def)
  have p: "cells (vga_putchar c s) = cells s2" "position (vga_putchar c s) = position s2"
    unfolding v by (rule screen_cong(1), simp) (rule screen_cong(2), simp)
  show "(cells (vga_putchar c s), position (vga_putchar c s)) = tty_put (current_color s) c (cells s, position s)" unfolding p by (rule s2(1))
  show "ports (vga_putchar c s) = ports s @ cursor_command (position (vga_putchar c s))"
    unfolding p unfolding v using cursor_moves [of s2] s2(2,3) by simp
qed

lemma clear_cells_fb:
  "i \<le> 2000 \<Longrightarrow> fb (clear_cells i s) = (\<lambda>j. if 2 * i \<le> j \<and> j < 4000 then if even (unat j) then 0x20 else 0x0F else fb s j)
     \<and> current_color (clear_cells i s) = current_color s \<and> ports (clear_cells i s) = ports s"
proof (induction i s rule: clear_cells.induct)
  case (1 i s)
  show ?case
  proof (cases "i < 80 * 25")
    case True
    then have u: "unat i < 2000" by (simp add: word_less_nat_alt)
    then have s: "unat (i + 1) = unat i + 1" "unat (2 * i) = 2 * unat i" "unat (2 * (i + 1)) = 2 * unat i + 2" "unat (i * 2 + 1) = 2 * unat i + 1" "unat (i * 2) = 2 * unat i"
      by (simp_all add: unat_word_ariths)
    let ?s = "fb_write_cell (i * 2) 0x20 (color_code FB_WHITE) (color_code FB_BLACK) s"
    have w: "fb ?s = (fb s)(i * 2 := 0x20, i * 2 + 1 := 0x0F)" "current_color ?s = current_color s" "ports ?s = ports s"
      by (simp_all add: fb_write_cell_def Let_def)
    have "i + 1 \<le> 2000" using s u by (simp add: word_le_nat_alt)
    note ih = 1(1) [OF True this, unfolded w]
    have "(if 2 * (i + 1) \<le> j \<and> j < 4000 then if even (unat j) then 0x20 else 0x0F else ((fb s)(i * 2 := 0x20, i * 2 + 1 := 0x0F)) j)
      = (if 2 * i \<le> j \<and> j < 4000 then if even (unat j) then 0x20 else 0x0F else fb s j)" for j
      using s u by (auto simp add: word_le_nat_alt word_less_nat_alt word_unat_eq_iff)
    then show ?thesis unfolding clear_cells.simps [of i] using True ih by (simp add: fun_eq_iff)
  next
    case False
    then have "i = 2000" using 1(2) by (simp add: word_le_nat_alt word_less_nat_alt word_unat_eq_iff)
    moreover have "\<not> (4000 \<le> j \<and> j < 4000)" for j :: u32 by auto
    ultimately show ?thesis by (subst (1 2 3) clear_cells.simps) (auto simp add: fun_eq_iff)
  qed
qed

lemma clear_screen_ok:
  "cells (vga_clear_screen s) = replicate 2000 (0x20, 0x0F)" "position (vga_clear_screen s) = 0" "console_ok (vga_clear_screen s)"
  "j \<ge> 4000 \<Longrightarrow> fb (vga_clear_screen s) j = fb s j" "current_color (vga_clear_screen s) = current_color s"
proof -
  have c: "fb (vga_clear_screen s) = (\<lambda>j. if j < 4000 then if even (unat j) then 0x20 else 0x0F else fb s j)"
    "current_color (vga_clear_screen s) = current_color s" "cursor_pos (vga_clear_screen s) = 0"
    using clear_cells_fb [of 0 s] by (simp_all add: vga_clear_screen_def)
  show "current_color (vga_clear_screen s) = current_color s" "position (vga_clear_screen s) = 0" "console_ok (vga_clear_screen s)"
    "j \<ge> 4000 \<Longrightarrow> fb (vga_clear_screen s) j = fb s j"
    using c by (auto simp add: position_def console_ok_def)
  have "cell_at (fb (vga_clear_screen s)) k = (0x20, 0x0F)" if "k < 2000" for k
  proof -
    have n: "unat (of_nat (2 * k) :: u32) = 2 * k" "unat (of_nat (2 * k + 1) :: u32) = 2 * k + 1" using that by (intro small_word; simp)+
    then have "of_nat (2 * k) < (4000 :: u32)" "of_nat (2 * k + 1) < (4000 :: u32)" using that by (simp_all only: word_less_nat_alt) simp_all
    then show ?thesis unfolding cell_at_def c n by simp
  qed
  then show "cells (vga_clear_screen s) = replicate 2000 (0x20, 0x0F)"
    by (intro nth_equalityI) (simp_all add: cells_def)
qed

lemma console_text:
  assumes "console_ok s"
  shows "(cells (fold vga_putchar bs s), position (fold vga_putchar bs s)) = fold (tty_put (current_color s)) bs (cells s, position s)
    \<and> console_ok (fold vga_putchar bs s) \<and> (\<forall>j \<ge> 4000. fb (fold vga_putchar bs s) j = fb s j) \<and> current_color (fold vga_putchar bs s) = current_color s"
  using assms
proof (induction bs arbitrary: s)
  case (Cons b bs)
  note v = vga_putchar_refines_tty [OF Cons.prems, where c = b]
  show ?case using Cons.IH [OF v(2)] v(3) unfolding v(4) by (simp add: v(1) del: prod.inject)
qed simp

lemma clear_screen_cursor: "\<exists>tr. ports (vga_clear_screen s) = tr @ cursor_command (position (vga_clear_screen s))"
  by (simp add: vga_clear_screen_def fb_move_cursor_def outb_def Let_def cursor_command_def position_def
      FB_COMMAND_PORT_def FB_DATA_PORT_def FB_HIGH_BYTE_COMMAND_def FB_LOW_BYTE_COMMAND_def)

lemma console_cursor:
  assumes "console_ok s" "\<exists>tr. ports s = tr @ cursor_command (position s)"
  shows "\<exists>tr. ports (fold vga_putchar bs s) = tr @ cursor_command (position (fold vga_putchar bs s))"
  using assms
proof (induction bs arbitrary: s)
  case (Cons b bs)
  then show ?case using vga_putchar_refines_tty [OF Cons.prems(1), where c = b] by simp
qed simp

text \<open>
  C33: The display is a terminal. After the screen is cleared, whatever bytes are printed with \<open>vga_putchar\<close>, the two
  thousand cells of the frame buffer and the cursor are those of a terminal of 25 lines of 80 cells that
  handles newline, carriage return, wrapping and scrolling, the position is always on the screen, the
  last command sent to the hardware cursor puts it there, and no byte after the visible part of the frame buffer is written.
\<close>

theorem console_is_terminal:
  "(cells (fold vga_putchar bs (vga_clear_screen s)), position (fold vga_putchar bs (vga_clear_screen s)))
     = fold (tty_put (current_color s)) bs (replicate 2000 (0x20, 0x0F), 0)
   \<and> position (fold vga_putchar bs (vga_clear_screen s)) < 2000
   \<and> (\<exists>tr. ports (fold vga_putchar bs (vga_clear_screen s)) = tr @ cursor_command (position (fold vga_putchar bs (vga_clear_screen s))))
   \<and> (j < 4000 \<or> fb (fold vga_putchar bs (vga_clear_screen s)) j = fb s j)"
proof -
  note c = clear_screen_ok [where s = s]
  note t = console_text [OF c(3), of bs, unfolded c(1,2,5)]
  then have "position (fold vga_putchar bs (vga_clear_screen s)) < 2000"
    by (auto simp add: console_ok_def position_def word_less_nat_alt)
  then show ?thesis using t c(4) console_cursor [OF c(3) clear_screen_cursor] by (cases "j < 4000") (auto simp add: linorder_not_less)
qed

end
