(* ===== verification/Stdio_Text.thy ===== *)
theory Stdio_Text
  imports Stdio Vga_Terminal
begin

text \<open>
  The text that the functions of \<open>stdio.c\<close> print, as plain functions on lists, and that the loops over the buffers produce it.
\<close>

section \<open>Specification vocabulary\<close>

text \<open>The bytes \<open>print_string\<close> prints: up to the terminating zero, or up to and with a byte that reads as end of file.\<close>

fun text_of :: "u8 list \<Rightarrow> u8 list option" where
  "text_of [] = None"
| "text_of (c # cs) = (if c = 0 then Some [] else if c = 0xFF then Some [0xFF] else map_option ((#) c) (text_of cs))"

text \<open>Numbers in a base, least significant digit first, and how they are written.\<close>

fun digits :: "nat \<Rightarrow> nat \<Rightarrow> nat list" where
  "digits b k = (if k = 0 \<or> b < 2 then [] else k mod b # digits b (k div b))"

definition dec_char :: "nat \<Rightarrow> u8" where "dec_char d = 48 + of_nat d"
definition hex_char :: "nat \<Rightarrow> u8" where "hex_char d = (if d < 10 then 48 + of_nat d else 55 + of_nat d)"

definition decimal :: "int \<Rightarrow> u8 list" where
  "decimal n = (if n = 0 then [48] else (if n < 0 then [45] else []) @ rev (map dec_char (digits 10 (nat \<bar>n\<bar>))))"

definition hexadecimal :: "nat \<Rightarrow> u8 list" where
  "hexadecimal n = (if n = 0 then [48, 120, 48] else rev (map hex_char (digits 16 n)))"

text \<open>What a format string and its arguments stand for; \<open>None\<close> when the arguments do not fit the directives or the string has no end.\<close>

fun render :: "u8 list \<Rightarrow> va_arg list \<Rightarrow> u8 list option" where
  "render [] args = None"
| "render (c # f) args =
     (if c = 0 then Some []
      else if c \<noteq> 37 then map_option ((#) c) (render f args)
      else case f of
        [] \<Rightarrow> None
      | d # g \<Rightarrow>
          if d = 100 then (case args of Va_Int n # rest \<Rightarrow> map_option (\<lambda>t. decimal (sint n) @ t) (render g rest) | _ \<Rightarrow> None)
          else if d = 120 then (case args of Va_Int n # rest \<Rightarrow> map_option (\<lambda>t. hexadecimal (unat n) @ t) (render g rest) | _ \<Rightarrow> None)
          else if d = 115 then (case args of Va_Str t # rest \<Rightarrow> Option.bind (text_of t) (\<lambda>bs. map_option (\<lambda>u. bs @ u) (render g rest)) | _ \<Rightarrow> None)
          else if d = 99 then (case args of Va_Int n # rest \<Rightarrow> map_option ((#) (ucast n)) (render g rest) | _ \<Rightarrow> None)
          else if d = 37 then map_option ((#) 37) (render g args)
          else if d = 0 then Some []
          else map_option (\<lambda>t. 37 # d # t) (render g args))"

section \<open>Lemmas\<close>

declare digits.simps [simp del]

lemma char_back: "ucast (scast c :: u32) = c" for c :: u8
  by (rule bit_word_eqI) (simp add: bit_simps)

lemma putchar_char [simp]: "putchar (scast c) s = (scast c, vga_putchar c s)" for c :: u8
  by (simp add: putchar_def char_back)

lemma char_EOF: "scast c = EOF \<longleftrightarrow> c = 0xFF" for c :: u8
proof
  assume "scast c = EOF"
  then have "c = ucast EOF" using char_back [of c] by simp
  moreover have "ucast (- 1 :: u32) = (- 1 :: u8)" by (rule bit_word_eqI) (simp add: bit_simps)
  ultimately show "c = 0xFF" by (simp add: EOF_def)
next
  assume "c = 0xFF"
  then have "c = - 1" by simp
  then show "scast c = EOF" unfolding EOF_def by (intro bit_word_eqI) (simp add: bit_simps)
qed

lemma print_from_text: "map_option snd (print_from i chars s) = map_option (\<lambda>bs. fold vga_putchar bs s) (text_of (drop i chars))"
proof (induction i chars s rule: print_from.induct)
  case (1 i chars s)
  show ?case
  proof (cases "i < length chars")
    case True
    then have d: "drop i chars = chars ! i # drop (Suc i) chars" by (simp add: Cons_nth_drop_Suc)
    have g: "buf_get chars i = Some (chars ! i)" using True by (simp add: buf_get_def)
    show ?thesis
    proof (cases "chars ! i = 0 \<or> chars ! i = 0xFF")
      case c: True
      then show ?thesis unfolding d by (subst print_from.simps) (auto simp add: g char_EOF)
    next
      case False
      then have "map_option snd (print_from i chars s) = map_option snd (print_from (i + 1) chars (vga_putchar (chars ! i) s))"
        by (subst print_from.simps) (simp add: g char_EOF)
      also have "\<dots> = map_option (\<lambda>bs. fold vga_putchar bs (vga_putchar (chars ! i) s)) (text_of (drop (i + 1) chars))"
        using 1 [OF g _ putchar_char [symmetric] refl] False by (simp add: char_EOF)
      finally show ?thesis unfolding d using False by (simp add: option.map_comp comp_def)
    qed
  next
    case False
    then show ?thesis by (subst print_from.simps) (simp add: buf_get_def)
  qed
qed

lemma print_string_text: "map_option snd (print_string chars s) = map_option (\<lambda>bs. fold vga_putchar bs s) (text_of chars)"
  by (simp add: print_string_def print_from_text)

lemma text_of_string: "0 \<notin> set bs \<Longrightarrow> 0xFF \<notin> set bs \<Longrightarrow> text_of (bs @ 0 # cs) = Some bs"
  by (induction bs) auto

lemma digits_bound: "1 < b \<Longrightarrow> d \<in> set (digits b k) \<Longrightarrow> d < b"
proof (induction b k rule: digits.induct)
  case (1 b k)
  then show ?case by (subst (asm) (2) digits.simps) (auto split: if_splits)
qed

lemma digits_length: "1 < b \<Longrightarrow> k < b ^ m \<Longrightarrow> length (digits b k) \<le> m"
proof (induction b k arbitrary: m rule: digits.induct)
  case (1 b k)
  show ?case
  proof (cases "k = 0")
    case True
    then show ?thesis by (simp add: digits.simps)
  next
    case False
    then obtain m' where m: "m = Suc m'" using 1(3) by (cases m) simp_all
    then have "k div b < b ^ m'" using 1(2,3) by (simp add: less_mult_imp_div_less mult.commute)
    then show ?thesis using 1(1) [of m'] 1(2) False m by (subst digits.simps) simp
  qed
qed

lemma digit_chars:
  assumes "d < 10"
  shows "dec_char d \<noteq> 0" "dec_char d \<noteq> 0xFF" "dec_char d \<noteq> 45"
proof -
  have "unat (dec_char d) = 48 + d" using assms by (simp add: dec_char_def unat_word_ariths unat_of_nat)
  then show "dec_char d \<noteq> 0" "dec_char d \<noteq> 0xFF" "dec_char d \<noteq> 45" using assms by (auto simp add: word_unat_eq_iff)
qed

lemma hex_chars:
  assumes "d < 16"
  shows "hex_char d \<noteq> 0" "hex_char d \<noteq> 0xFF"
proof -
  have "unat (hex_char d) = (if d < 10 then 48 + d else 55 + d)" using assms by (simp add: hex_char_def unat_word_ariths unat_of_nat)
  then show "hex_char d \<noteq> 0" "hex_char d \<noteq> 0xFF" using assms by (auto simp add: word_unat_eq_iff split: if_splits)
qed

lemma digits_Suc: "k \<noteq> 0 \<Longrightarrow> 1 < b \<Longrightarrow> digits b k = k mod b # digits b (k div b)"
  by (subst digits.simps) simp

lemma int_digits_eq:
  "i + length (digits 10 (unat n)) \<le> length b \<Longrightarrow>
     int_digits n i b = Some (i + length (digits 10 (unat n)), take i b @ map dec_char (digits 10 (unat n)) @ drop (i + length (digits 10 (unat n))) b)"
proof (induction n i b rule: int_digits.induct)
  case (1 n i b)
  show ?case
  proof (cases "n = 0")
    case True
    then show ?thesis by (subst int_digits.simps) (simp add: digits.simps)
  next
    case False
    then have u: "unat n \<noteq> 0" "n > 0" by (simp_all add: word_gt_0 unat_gt_0)
    have d: "digits 10 (unat n) = unat n mod 10 # digits 10 (unat (n div 10))"
      using digits_Suc [of "unat n" 10] u by (simp add: unat_div)
    have i: "i < length b" using 1(2) unfolding d by simp
    have c: "ucast (n mod 10) + 48 = dec_char (unat n mod 10)"
    proof -
      have "(ucast (n mod 10) :: u8) = of_nat (unat (n mod 10))" by (simp add: of_nat_unat)
      then show ?thesis by (simp add: dec_char_def unat_mod)
    qed
    have s: "buf_set b i (ucast (n mod 10) + 48) = Some (b[i := dec_char (unat n mod 10)])" using i by (simp add: buf_set_def c)
    have len: "i + 1 + length (digits 10 (unat (n div 10))) \<le> length (b[i := dec_char (unat n mod 10)])" using 1(2) unfolding d by simp
    have "int_digits n i b = int_digits (n div 10) (i + 1) (b[i := dec_char (unat n mod 10)])"
      using u by (subst int_digits.simps) (simp add: s)
    also note 1(1) [OF u(2) s len]
    finally show ?thesis unfolding d using i by (simp add: take_Suc_conv_app_nth take_update_swap list_update_append)
  qed
qed

lemma reverse_buffer_eq:
  "e < length b \<Longrightarrow> s \<le> e + 1 \<Longrightarrow> \<exists>b'. reverse_buffer s e b = Some b' \<and> length b' = length b
     \<and> (\<forall>j < length b. b' ! j = (if s \<le> j \<and> j \<le> e then b ! (s + e - j) else b ! j))"
proof (induction s e b rule: reverse_buffer.induct)
  case (1 s e b)
  show ?case
  proof (cases "s < e")
    case True
    let ?b = "b[s := b ! e, e := b ! s]"
    have b: "buf_get b s = Some (b ! s)" "buf_get b e = Some (b ! e)" "buf_set b s (b ! e) = Some (b[s := b ! e])"
      "buf_set (b[s := b ! e]) e (b ! s) = Some ?b" using True 1(2) by (simp_all add: buf_get_def buf_set_def)
    have "e - 1 < length ?b" "s + 1 \<le> e - 1 + 1" using True 1(2) by simp_all
    then obtain b' where b': "reverse_buffer (s + 1) (e - 1) ?b = Some b'" "length b' = length ?b"
      "\<forall>j < length ?b. b' ! j = (if s + 1 \<le> j \<and> j \<le> e - 1 then ?b ! (s + 1 + (e - 1) - j) else ?b ! j)"
      using 1(1) [OF True b] by blast
    have "b' ! j = (if s \<le> j \<and> j \<le> e then b ! (s + e - j) else b ! j)" if "j < length b" for j
    proof -
      have "b' ! j = (if s + 1 \<le> j \<and> j \<le> e - 1 then ?b ! (s + 1 + (e - 1) - j) else ?b ! j)" using b'(3) that by simp
      moreover have "s + 1 + (e - 1) - j = s + e - j" using True by simp
      ultimately show ?thesis using True that 1(2) by (auto simp add: nth_list_update)
    qed
    then show ?thesis using b'(1,2) True by (subst reverse_buffer.simps) (simp add: b)
  next
    case False
    then show ?thesis using 1(3) by (subst reverse_buffer.simps) (auto intro!: arg_cong [where f = "(!) b"])
  qed
qed

lemma reverse_buffer_prefix:
  assumes "xs \<noteq> []"
  shows "reverse_buffer 0 (length xs - 1) (xs @ ys) = Some (rev xs @ ys)"
proof -
  have lt: "length xs - 1 < length (xs @ ys)" using assms by (cases xs) simp_all
  obtain b' where b': "reverse_buffer 0 (length xs - 1) (xs @ ys) = Some b'" "length b' = length (xs @ ys)"
    "\<forall>j < length (xs @ ys). b' ! j = (if 0 \<le> j \<and> j \<le> length xs - 1 then (xs @ ys) ! (0 + (length xs - 1) - j) else (xs @ ys) ! j)"
    using reverse_buffer_eq [of "length xs - 1" "xs @ ys" 0] lt by blast
  have "b' = rev xs @ ys"
  proof (rule nth_equalityI)
    show "length b' = length (rev xs @ ys)" using b'(2) by simp
    fix j assume "j < length b'"
    then have "b' ! j = (if j < length xs then (xs @ ys) ! (length xs - 1 - j) else (xs @ ys) ! j)" using b'(2,3) assms by (auto split: if_splits)
    then show "b' ! j = (rev xs @ ys) ! j" by (auto simp add: nth_append rev_nth)
  qed
  with b'(1) show ?thesis by simp
qed

lemma print_int_eq: "print_int n s = Some (fold vga_putchar (decimal (sint n)) s)"
proof (cases "n = 0")
  case True
  then show ?thesis using text_of_string [of "[48]" "[]"] by (simp add: print_int_def print_string_text decimal_def)
next
  case False
  define num where "num = (if sint n < 0 then - n else n)"
  have num: "unat num = nat \<bar>sint n\<bar>" "nat \<bar>sint n\<bar> \<le> 2 ^ 31"
  proof -
    have b: "- (2 ^ 31) \<le> sint n" "sint n < 2 ^ 31" using sint_ge [of n] sint_lt [of n] by simp_all
    then show "nat \<bar>sint n\<bar> \<le> 2 ^ 31" by simp
    have "uint (- n) = - sint n" if "sint n < 0"
    proof -
      have "- n = word_of_int (- sint n)" by (simp add: word_of_int_minus)
      moreover have "uint (word_of_int (- sint n) :: u32) = (- sint n) mod 2 ^ 32" by (simp only: uint_word_of_int) simp
      ultimately have "uint (- n) = (- sint n) mod 2 ^ 32" by (simp only:)
      then show ?thesis using that b by simp
    qed
    moreover have "uint n = sint n" if "\<not> sint n < 0"
    proof -
      have "uint (word_of_int (sint n) :: u32) = sint n mod 2 ^ 32" by (simp only: uint_word_of_int) simp
      then have "uint n = sint n mod 2 ^ 32" by simp
      then show ?thesis using that b by simp
    qed
    ultimately have "uint num = \<bar>sint n\<bar>" by (simp add: num_def)
    moreover have "unat num = nat (uint num)" by simp
    ultimately show "unat num = nat \<bar>sint n\<bar>" by (simp only:)
  qed
  let ?d = "map dec_char (digits 10 (unat num))" let ?k = "length (digits 10 (unat num))"
  have k: "?k \<le> 10" using digits_length [of 10 "unat num" 10] num by simp
  have nz: "sint n \<noteq> 0"
  proof
    assume "sint n = 0"
    then have "(word_of_int (sint n) :: u32) = 0" by (simp only: of_int_0)
    then show False using False by simp
  qed
  then have "unat num \<noteq> 0" using num by simp
  then have ne: "?d \<noteq> []" by (simp add: digits_Suc)
  have chars: "0 \<notin> set ?d" "0xFF \<notin> set ?d" using digit_chars digits_bound [of 10 _ "unat num"] by fastforce+
  have 1: "int_digits num 0 (replicate 12 0) = Some (?k, ?d @ replicate (12 - ?k) 0)" using int_digits_eq [of 0 num "replicate 12 0"] k by simp
  define xs where "xs = ?d @ (if sint n < 0 then [45] else [])"
  have xs: "xs \<noteq> []" "length xs \<le> 11" "0 \<notin> set xs" "0xFF \<notin> set xs" using ne chars k by (simp_all add: xs_def)
  have 2: "(if sint n < 0 then map_option (\<lambda>b1. (?k + 1, b1)) (buf_set (?d @ replicate (12 - ?k) 0) ?k 45) else Some (?k, ?d @ replicate (12 - ?k) 0))
      = Some (length xs, xs @ replicate (12 - length xs) 0)"
  proof (cases "sint n < 0")
    case True
    have "12 - ?k = Suc (11 - ?k)" using k by simp
    then have "replicate (12 - ?k) (0 :: u8) = 0 # replicate (11 - ?k) 0" by (simp only: replicate_Suc)
    then show ?thesis using True k by (simp add: xs_def buf_set_def list_update_append)
  qed (simp add: xs_def)
  obtain r where r: "replicate (12 - length xs) (0 :: u8) = 0 # r" using xs(2) by (cases "12 - length xs") auto
  have 3: "buf_set (xs @ 0 # r) (length xs) 0 = Some (xs @ 0 # r)" by (simp add: buf_set_def)
  have "print_int n s = map_option snd (print_string (rev xs @ 0 # r) s)"
    unfolding print_int_def Let_def num_def [symmetric] using False xs(1)
    by (simp add: 1 2 [unfolded r] 3 reverse_buffer_prefix r del: One_nat_def)
  also have "\<dots> = Some (fold vga_putchar (rev xs) s)" using xs(3,4) by (simp add: print_string_text text_of_string)
  also have "rev xs = decimal (sint n)" using nz num(1) by (simp add: xs_def decimal_def)
  finally show ?thesis .
qed

lemma hex_digits_eq:
  "unat n < 16 ^ (i - 1) \<Longrightarrow> 1 \<le> i \<Longrightarrow> i < length b \<Longrightarrow>
     \<exists>b'. hex_digits n i b = Some (i - length (digits 16 (unat n)), b') \<and> length (digits 16 (unat n)) < i
       \<and> drop (i - length (digits 16 (unat n)) + 1) b' = rev (map hex_char (digits 16 (unat n))) @ drop (i + 1) b"
proof (induction n i b rule: hex_digits.induct)
  case (1 n i b)
  show ?case
  proof (cases "n = 0")
    case True
    then show ?thesis using 1(3) by (subst hex_digits.simps) (simp add: digits.simps)
  next
    case False
    then have u: "unat n \<noteq> 0" "n > 0" by (simp_all add: word_gt_0 unat_gt_0)
    then have i: "2 \<le> i" using 1(2,3) by (cases "i = 1") simp_all
    have d: "digits 16 (unat n) = unat n mod 16 # digits 16 (unat (n div 16))"
      using digits_Suc [of "unat n" 16] u by (simp add: unat_div)
    let ?c = "if n mod 16 < 10 then ucast (n mod 16) + 48 else (ucast (n mod 16) - 10) + 65 :: u8"
    have c: "?c = hex_char (unat n mod 16)"
    proof -
      have "(ucast (n mod 16) :: u8) = of_nat (unat (n mod 16))" by (simp add: of_nat_unat)
      then have "(ucast (n mod 16) :: u8) = of_nat (unat n mod 16)" by (simp only: unat_mod) simp
      moreover have "n mod 16 < 10 \<longleftrightarrow> unat n mod 16 < 10" by (simp add: word_less_nat_alt unat_mod)
      ultimately show ?thesis by (simp add: hex_char_def)
    qed
    have s: "buf_set b i ?c = Some (b[i := hex_char (unat n mod 16)])" using 1(4) by (simp add: buf_set_def c)
    have "16 ^ (i - 1) = 16 * (16 ^ (i - 1 - 1) :: nat)" using i by (cases "i - 1") simp_all
    then have "unat n < 16 * 16 ^ (i - 1 - 1)" using 1(2) by (simp only:)
    then have "unat (n div 16) < 16 ^ (i - 1 - 1)" by (simp add: unat_div less_mult_imp_div_less mult.commute)
    moreover have le: "Suc 0 \<le> i - Suc 0" "i - Suc 0 < length b" using i 1(4) by simp_all
    ultimately obtain b' where b': "hex_digits (n div 16) (i - 1) (b[i := hex_char (unat n mod 16)]) = Some (i - 1 - length (digits 16 (unat (n div 16))), b')"
      "length (digits 16 (unat (n div 16))) < i - 1"
      "drop (i - 1 - length (digits 16 (unat (n div 16))) + 1) b' = rev (map hex_char (digits 16 (unat (n div 16)))) @ drop (i - 1 + 1) (b[i := hex_char (unat n mod 16)])"
      using 1(1) [of "n mod 16" ?c "b[i := hex_char (unat n mod 16)]"] u i 1(4) s le by auto
    have "hex_digits n i b = hex_digits (n div 16) (i - 1) (b[i := hex_char (unat n mod 16)])"
      using u i by (subst hex_digits.simps) (simp only: Let_def s, simp)
    moreover have "drop (i - 1 + 1) (b[i := hex_char (unat n mod 16)]) = hex_char (unat n mod 16) # drop (i + 1) b"
      using i 1(4) by (simp add: Cons_nth_drop_Suc [symmetric])
    ultimately show ?thesis unfolding d using b' i by simp
  qed
qed

lemma print_hex_eq: "print_hex n s = Some (fold vga_putchar (hexadecimal (unat n)) s)"
proof (cases "n = 0")
  case True
  then show ?thesis using text_of_string [of "[48, 120, 48]" "[]"] by (simp add: print_hex_def print_string_text hexadecimal_def)
next
  case False
  let ?b = "((replicate 11 0)[0 := 48, 1 := 120])[10 := 0 :: u8]" and ?d = "digits 16 (unat n)"
  have "unat n < 16 ^ (9 - 1)" using unsigned_less [of n] by simp
  then obtain b' where b': "hex_digits n 9 ?b = Some (9 - length ?d, b')" "drop (9 - length ?d + 1) b' = rev (map hex_char ?d) @ drop (9 + 1) ?b"
    using hex_digits_eq [of n 9 ?b] by auto
  have "0 \<notin> set (rev (map hex_char ?d))" "0xFF \<notin> set (rev (map hex_char ?d))" using hex_chars digits_bound [of 16 _ "unat n"] by fastforce+
  then have t: "text_of (rev (map hex_char ?d) @ 0 # []) = Some (rev (map hex_char ?d))" by (rule text_of_string)
  have e: "drop (9 + 1) ?b = [0]" by (simp add: eval_nat_numeral)
  have "print_hex n s = map_option snd (print_string (rev (map hex_char ?d) @ [0]) s)"
    using False b'(2) unfolding print_hex_def Let_def b'(1) e by simp
  then show ?thesis using t False unat_eq_zero [of n] by (simp add: print_string_text hexadecimal_def)
qed

lemma print_string_bind:
  "Option.bind (print_string t s) (\<lambda>(_, s1). f s1) = Option.bind (text_of t) (\<lambda>bs. f (fold vga_putchar bs s))"
  using print_string_text [of t s] by (cases "print_string t s"; cases "text_of t") auto

lemma putchar_percent: "putchar 37 s = (37, vga_putchar 37 s)"
  by (simp add: putchar_def)

end
