(* ===== verification/Stdio_Props.thy ===== *)
theory Stdio_Props
  imports Stdio_Text
begin

text \<open>
  The properties of formatted output.
\<close>

section \<open>Specification vocabulary\<close>

text \<open>Reading a number back.\<close>

definition number :: "nat \<Rightarrow> nat list \<Rightarrow> nat" where
  "number b ds = foldr (\<lambda>d v. d + b * v) ds 0"

definition dec_value :: "u8 \<Rightarrow> nat" where "dec_value c = unat c - 48"
definition hex_value :: "u8 \<Rightarrow> nat" where "hex_value c = (if c < 65 then unat c - 48 else unat c - 55)"

definition read_decimal :: "u8 list \<Rightarrow> int" where
  "read_decimal bs = (if hd bs = 45 then - int (number 10 (map dec_value (rev (tl bs)))) else int (number 10 (map dec_value (rev bs))))"

definition read_hexadecimal :: "u8 list \<Rightarrow> nat" where
  "read_hexadecimal bs = number 16 (map hex_value (rev bs))"

section \<open>Lemmas\<close>

lemma printf_from_render:
  "printf_from (length pre) (pre @ f) args s = map_option (\<lambda>bs. fold vga_putchar bs s) (render f args)"
proof (induction f arbitrary: pre args s rule: length_induct)
  case (1 f)
  show ?case
  proof (cases f)
    case Nil
    then show ?thesis by (subst printf_from.simps) (simp add: buf_get_def)
  next
    case f: (Cons c f')
    have c: "buf_get (pre @ c # f') (length pre) = Some c" by (simp add: buf_get_def)
    have one: "printf_from (Suc (length pre)) (pre @ c # f') a s' = map_option (\<lambda>bs. fold vga_putchar bs s') (render f' a)" for a s'
      using 1 [rule_format, of f' "pre @ [c]" a s'] f by simp
    show ?thesis
    proof (cases "c = 37")
      case False
      then show ?thesis unfolding f by (subst printf_from.simps) (simp add: c one option.map_comp comp_def)
    next
      case True
      show ?thesis
      proof (cases f')
        case Nil
        then show ?thesis unfolding f True by (subst printf_from.simps) (simp add: buf_get_def)
      next
        case (Cons d g)
        have d: "buf_get (pre @ 37 # d # g) (length pre) = Some 37" "buf_get (pre @ 37 # d # g) (Suc (length pre)) = Some d"
          by (simp_all add: buf_get_def nth_append)
        have two: "printf_from (Suc (Suc (length pre))) (pre @ 37 # e # g) a s' = map_option (\<lambda>bs. fold vga_putchar bs s') (render g a)" for e a s'
          using 1 [rule_format, of g "pre @ [37, e]" a s'] f Cons by simp
        note eqs = d two print_int_eq print_hex_eq print_string_bind putchar_percent option.map_comp comp_def
        show ?thesis
        proof (cases args)
          case Nil
          show ?thesis unfolding f True Cons Nil by (subst printf_from.simps) (simp add: eqs)
        next
          case (Cons a rest)
          show ?thesis
          proof (cases a)
            case (Va_Int n)
            show ?thesis unfolding f True \<open>f' = d # g\<close> Cons Va_Int by (subst printf_from.simps) (simp add: eqs)
          next
            case (Va_Str t)
            show ?thesis unfolding f True \<open>f' = d # g\<close> Cons Va_Str
              by (subst printf_from.simps) (cases "text_of t"; simp add: eqs)
          qed
        qed
      qed
    qed
  qed
qed

lemma number_digits: "1 < b \<Longrightarrow> number b (digits b k) = k"
proof (induction b k rule: digits.induct)
  case (1 b k)
  then show ?case by (subst digits.simps) (simp add: number_def)
qed

lemma dec_value_char: "d < 10 \<Longrightarrow> dec_value (dec_char d) = d"
  by (simp add: dec_value_def dec_char_def unat_word_ariths unat_of_nat)

lemma hex_value_char: "d < 16 \<Longrightarrow> hex_value (hex_char d) = d"
  by (simp add: hex_value_def hex_char_def word_less_nat_alt unat_word_ariths unat_of_nat)

lemma decimal_back: "read_decimal (decimal n) = n"
proof (cases "n = 0")
  case True
  then show ?thesis by (simp add: decimal_def read_decimal_def number_def dec_value_def)
next
  case False
  define m where "m = nat \<bar>n\<bar>"
  have m: "m \<noteq> 0" "int m = \<bar>n\<bar>" using False by (simp_all add: m_def)
  have d: "map dec_value (map dec_char (digits 10 m)) = digits 10 m" using digits_bound [of 10 _ m] by (simp add: dec_value_char comp_def cong: map_cong)
  have "digits 10 m \<noteq> []" using m(1) by (simp add: digits_Suc)
  then have h: "hd (rev (map dec_char (digits 10 m))) \<noteq> 45" using digit_chars(3) digits_bound [of 10 "last (digits 10 m)" m] by (simp add: hd_rev last_map)
  have v: "int (number 10 (map dec_value (rev (rev (map dec_char (digits 10 m)))))) = \<bar>n\<bar>" using d number_digits [of 10 m] m(2) by simp
  show ?thesis
  proof (cases "n < 0")
    case True
    then show ?thesis unfolding decimal_def read_decimal_def m_def [symmetric] using False v by simp
  next
    case nonneg: False
    then show ?thesis unfolding decimal_def read_decimal_def m_def [symmetric] using False v h by simp
  qed
qed

lemma hexadecimal_back: "n \<noteq> 0 \<Longrightarrow> read_hexadecimal (hexadecimal n) = n"
proof -
  assume n: "n \<noteq> 0"
  have "map hex_value (map hex_char (digits 16 n)) = digits 16 n"
    using digits_bound [of 16 _ n] by (simp add: hex_value_char comp_def cong: map_cong)
  then show ?thesis using n number_digits [of 16 n] by (simp add: hexadecimal_def read_hexadecimal_def)
qed

lemma decimal_length: "length (decimal (sint n)) \<le> 11" for n :: u32
proof -
  have "- (2 ^ 31) \<le> sint n" "sint n < 2 ^ 31" using sint_ge [of n] sint_lt [of n] by simp_all
  moreover define m where "m = nat \<bar>sint n\<bar>"
  ultimately have "length (digits 10 m) \<le> 10" by (intro digits_length) simp_all
  then show ?thesis unfolding decimal_def m_def [symmetric] by simp
qed

lemma printf_eq: "printf f args s = map_option (\<lambda>bs. fold vga_putchar bs s) (render f args)"
  using printf_from_render [of "[]" f args s] by (simp add: printf_def)

lemma render_plain: "0 \<notin> set f \<Longrightarrow> 37 \<notin> set f \<Longrightarrow> render (f @ 0 # g) args = Some f"
  by (induction f) auto


text \<open>
  Numbers are printed so that they can be read back. For every 32-bit integer, the most negative one included, \<open>print_int\<close>
  stays within its twelve bytes of buffer and prints at most eleven characters that read as the number; \<open>print_hex\<close> stays within its eleven
  bytes and prints upper-case digits that read as the number, without the prefix that it prints only for zero.
\<close>

theorem numbers_print_and_read_back:
  "print_int n s = Some (fold vga_putchar (decimal (sint n)) s) \<and> read_decimal (decimal (sint n)) = sint n \<and> length (decimal (sint n)) \<le> 11
   \<and> print_hex n s = Some (fold vga_putchar (hexadecimal (unat n)) s)
   \<and> (if n = 0 then hexadecimal (unat n) = [48, 120, 48] else read_hexadecimal (hexadecimal (unat n)) = unat n)"
proof -
  have "read_hexadecimal (hexadecimal (unat n)) = unat n" if "n \<noteq> 0" using hexadecimal_back [of "unat n"] that unat_eq_zero [of n] by blast
  then show ?thesis using print_int_eq print_hex_eq decimal_back decimal_length by (simp add: hexadecimal_def)
qed

end
