(* ===== verification/Ata_Props.thy ===== *)
theory Ata_Props
  imports Ata Stdio_Props
begin

text \<open>
  What the driver does to a disk that follows the standard.
\<close>

section \<open>Specification vocabulary\<close>

text \<open>
  A disk as the ATA standard describes programmed input and output, read off the trace of port accesses: the task file registers, the data
  transfer in progress with the next word and the number of words left, and the contents, word by word.
\<close>

datatype transfer = Idle | Reading nat nat | Writing nat nat | Identifying nat

record disk =
  d_words :: "nat \<Rightarrow> u16"
  d_drive :: u8
  d_count :: u8
  d_lba0 :: u8
  d_lba1 :: u8
  d_lba2 :: u8
  d_transfer :: transfer

definition d_start :: "disk \<Rightarrow> nat" where
  "d_start d = 256 * (unat (d_lba0 d) + 2 ^ 8 * unat (d_lba1 d) + 2 ^ 16 * unat (d_lba2 d) + 2 ^ 24 * (unat (d_drive d) mod 16))"

definition d_length :: "disk \<Rightarrow> nat" where
  "d_length d = 256 * (if d_count d = 0 then 256 else unat (d_count d))"

fun disk_step :: "io_event \<Rightarrow> disk \<Rightarrow> disk" where
  "disk_step (Out_b p v) d =
     (if p = 0x1F6 then d\<lparr>d_drive := v\<rparr> else if p = 0x1F2 then d\<lparr>d_count := v\<rparr> else if p = 0x1F3 then d\<lparr>d_lba0 := v\<rparr>
      else if p = 0x1F4 then d\<lparr>d_lba1 := v\<rparr> else if p = 0x1F5 then d\<lparr>d_lba2 := v\<rparr>
      else if p = 0x1F7 then
        d\<lparr>d_transfer := (if v = 0x20 then Reading (d_start d) (d_length d) else if v = 0x30 then Writing (d_start d) (d_length d)
          else if v = 0xEC then Identifying 256 else Idle)\<rparr>
      else d)"
| "disk_step (In_w p v) d = (case d_transfer d of Reading a (Suc n) \<Rightarrow> if p = 0x1F0 then d\<lparr>d_transfer := Reading (a + 1) n\<rparr> else d
     | Identifying (Suc n) \<Rightarrow> if p = 0x1F0 then d\<lparr>d_transfer := Identifying n\<rparr> else d | _ \<Rightarrow> d)"
| "disk_step (Out_w p v) d =
     (case d_transfer d of Writing a (Suc n) \<Rightarrow> if p = 0x1F0 then d\<lparr>d_words := (d_words d)(a := v), d_transfer := Writing (a + 1) n\<rparr> else d | _ \<Rightarrow> d)"
| "disk_step _ d = d"

definition disk_after :: "io_log \<Rightarrow> disk \<Rightarrow> disk" where
  "disk_after tr d = fold disk_step tr d"

definition words_left :: "transfer \<Rightarrow> nat" where
  "words_left t = (case t of Idle \<Rightarrow> 0 | Reading a n \<Rightarrow> n | Writing a n \<Rightarrow> n | Identifying n \<Rightarrow> n)"

text \<open>The trace after \<open>n\<close> more reads of the status register.\<close>

fun polls :: "device \<Rightarrow> nat \<Rightarrow> io_log \<Rightarrow> io_log" where
  "polls dev 0 tr = tr"
| "polls dev (Suc n) tr = polls dev n (tr @ [In_b 0x1F7 (port_b dev tr 0x1F7)])"

text \<open>
  What the driver relies on of a drive without errors: it answers a read of the data register with the word the transfer is at, never sets the
  error bit, is not busy for ever, stays ready once it was seen ready until the next command or data access, and when it is ready during a
  transfer it requests data.
\<close>

definition ata_drive :: "device \<Rightarrow> disk \<Rightarrow> bool" where
  "ata_drive dev d \<longleftrightarrow>
     (\<forall>tr a n. d_transfer (disk_after tr d) = Reading a (Suc n) \<longrightarrow> port_w dev tr 0x1F0 = d_words (disk_after tr d) a)
     \<and> (\<forall>tr. port_b dev tr 0x1F7 AND 0x01 = 0)
     \<and> (\<forall>tr. \<exists>n. port_b dev (polls dev n tr) 0x1F7 AND 0x80 = 0)
     \<and> (\<forall>tr v. v AND 0x80 = 0 \<longrightarrow> port_b dev (tr @ [In_b 0x1F7 v]) 0x1F7 AND 0x80 = 0)
     \<and> (\<forall>tr. words_left (d_transfer (disk_after tr d)) > 0 \<longrightarrow> port_b dev tr 0x1F7 AND 0x80 = 0 \<longrightarrow> port_b dev tr 0x1F7 AND 0x08 \<noteq> 0)"

text \<open>The first word of the disk that a request for sector \<open>LBA\<close> means, and the number of words.\<close>

definition lba_word :: "u32 \<Rightarrow> nat" where
  "lba_word LBA = 256 * (unat LBA mod 2 ^ 28)"

definition word_count :: "u8 \<Rightarrow> nat" where
  "word_count c = 256 * unat (sector_counts c)"

definition sample_disk :: disk where
  "sample_disk = \<lparr>d_words = (\<lambda>_. 0), d_drive = 0, d_count = 0, d_lba0 = 0, d_lba1 = 0, d_lba2 = 0, d_transfer = Idle\<rparr>"

text \<open>A drive that is never busy.\<close>

definition sample_drive :: device where
  "sample_drive = \<lparr>port_b = (\<lambda>tr p. if words_left (d_transfer (disk_after tr sample_disk)) > 0 then 0x48 else 0x40),
     port_w = (\<lambda>tr p. case d_transfer (disk_after tr sample_disk) of Reading a n \<Rightarrow> d_words (disk_after tr sample_disk) a | _ \<Rightarrow> 0), mmio = (\<lambda>tr a. 0)\<rparr>"

text \<open>The line that \<open>identify_disk\<close> prints.\<close>

definition size_text :: "u32 \<Rightarrow> u8 list" where
  "size_text n = map of_char ''Total disk size is '' @ decimal (sint n) @ [10]"

definition disk_size :: "(nat \<Rightarrow> u16) \<Rightarrow> u32" where
  "disk_size b = (ucast (b 60) OR push_bit 16 (ucast (b 61))) div 2048"

text \<open>A drive is there: an empty bus would answer 0.\<close>

definition drive_present :: "device \<Rightarrow> bool" where
  "drive_present dev \<longleftrightarrow> (\<forall>tr. port_b dev tr 0x1F7 \<noteq> 0)"

section \<open>Lemmas\<close>

lemma disk_after_simps [simp]:
  "disk_after [] d = d" "disk_after (e # tr) d = disk_after tr (disk_step e d)" "disk_after (tr @ tr') d = disk_after tr' (disk_after tr d)"
  by (simp_all add: disk_after_def)

lemma poll_ready:
  assumes "\<exists>n. port_b dev (polls dev n tr) 0x1F7 AND 0x80 = 0"
  obtains tr' v where "poll_while dev 0x80 tr = Some (tr' @ [In_b 0x1F7 v])" "v AND 0x80 = 0" "disk_after (tr' @ [In_b 0x1F7 v]) d = disk_after tr d"
proof -
  obtain n where "port_b dev (polls dev n tr) 0x1F7 AND 0x80 = 0" using assms by blast
  then have "\<exists>tr' v. poll_while dev 0x80 tr = Some (tr' @ [In_b 0x1F7 v]) \<and> v AND 0x80 = 0 \<and> disk_after (tr' @ [In_b 0x1F7 v]) d = disk_after tr d"
  proof (induction n arbitrary: tr)
    case 0
    then show ?case by (subst poll_while.simps) (auto simp add: inb_def Let_def)
  next
    case (Suc n)
    show ?case
    proof (cases "port_b dev tr 0x1F7 AND 0x80 = 0")
      case True
      then show ?thesis by (subst poll_while.simps) (auto simp add: inb_def Let_def)
    next
      case False
      have "poll_while dev 0x80 tr = poll_while dev 0x80 (tr @ [In_b 0x1F7 (port_b dev tr 0x1F7)])"
        using False by (subst poll_while.simps) (simp add: inb_def Let_def)
      then show ?thesis using Suc.IH [of "tr @ [In_b 0x1F7 (port_b dev tr 0x1F7)]"] Suc.prems by simp
    qed
  qed
  then show thesis using that by blast
qed

lemma delay_view [simp]: "disk_after (delay_400ns dev tr) d = disk_after tr d"
  by (simp add: delay_400ns_def inb_def Let_def disk_after_def)

lemma shift_window:
  "(\<lambda>j. if i + 1 \<le> j \<and> j < i + 1 + n then g (a + 1 + (j - (i + 1))) else (b(i := g a)) j) = (\<lambda>j. if i \<le> j \<and> j < i + Suc n then g (a + (j - i)) else b j)"
  for i n a :: nat
proof
  fix j
  consider "j < i" | "j = i" | k where "j = i + 1 + k" by (metis less_iff_Suc_add linorder_neqE_nat add_Suc_shift Suc_eq_plus1 add.assoc add.commute)
  then show "(if i + 1 \<le> j \<and> j < i + 1 + n then g (a + 1 + (j - (i + 1))) else (b(i := g a)) j) = (if i \<le> j \<and> j < i + Suc n then g (a + (j - i)) else b j)"
    by cases auto
qed

lemma read_words_ok:
  assumes "ata_drive dev d" "d_transfer (disk_after tr d) = Reading a (n + k)" "d_words (disk_after tr d) = w"
  shows "\<exists>tr'. read_words dev i n b tr = (\<lambda>j. if i \<le> j \<and> j < i + n then w (a + (j - i)) else b j, tr')
    \<and> disk_after tr' d = (disk_after tr d)\<lparr>d_transfer := Reading (a + n) k\<rparr>"
  using assms(2,3)
proof (induction n arbitrary: i a b tr)
  case 0
  then have "(disk_after tr d)\<lparr>d_transfer := Reading a k\<rparr> = disk_after tr d" by simp
  moreover have "(\<lambda>j. if i \<le> j \<and> j < i + 0 then w (a + (j - i)) else b j) = b" by (auto simp add: fun_eq_iff)
  ultimately show ?case by simp
next
  case (Suc n)
  let ?v = "port_w dev tr 0x1F0" let ?tr = "tr @ [In_w 0x1F0 ?v]"
  have v: "?v = w a" using assms(1) Suc.prems by (simp add: ata_drive_def)
  have s: "disk_after ?tr d = (disk_after tr d)\<lparr>d_transfer := Reading (a + 1) (n + k)\<rparr>" using Suc.prems by simp
  then have "d_transfer (disk_after ?tr d) = Reading (a + 1) (n + k)" "d_words (disk_after ?tr d) = w" using Suc.prems by simp_all
  from Suc.IH [OF this, of "i + 1" "b(i := ?v)"] obtain tr' where
    "read_words dev (i + 1) n (b(i := ?v)) ?tr = (\<lambda>j. if i + 1 \<le> j \<and> j < i + 1 + n then w (a + 1 + (j - (i + 1))) else (b(i := ?v)) j, tr')"
    "disk_after tr' d = (disk_after ?tr d)\<lparr>d_transfer := Reading (a + 1 + n) k\<rparr>" by blast
  moreover have "(\<lambda>j. if i + 1 \<le> j \<and> j < i + 1 + n then w (a + 1 + (j - (i + 1))) else (b(i := ?v)) j)
     = (\<lambda>j. if i \<le> j \<and> j < i + Suc n then w (a + (j - i)) else b j)" unfolding v by (rule shift_window)
  ultimately show ?case unfolding s by (simp add: inw_def Let_def)
qed

lemma write_words_ok:
  assumes "d_transfer (disk_after tr d) = Writing a (n + k)"
  shows "disk_after (write_words i n b tr) d = (disk_after tr d)\<lparr>d_words := (\<lambda>j. if a \<le> j \<and> j < a + n then b (i + (j - a)) else d_words (disk_after tr d) j),
     d_transfer := Writing (a + n) k\<rparr>"
  using assms
proof (induction n arbitrary: i a tr)
  case 0
  then have "(disk_after tr d)\<lparr>d_words := d_words (disk_after tr d), d_transfer := Writing a k\<rparr> = disk_after tr d" by simp
  moreover have "(\<lambda>j. if a \<le> j \<and> j < a then b (i + (j - a)) else d_words (disk_after tr d) j) = d_words (disk_after tr d)" by (auto simp add: fun_eq_iff)
  ultimately show ?case by (simp only: write_words.simps add_0_right)
next
  case (Suc n)
  let ?tr = "tr @ [Out_w 0x1F0 (b i)]"
  have s: "disk_after ?tr d = (disk_after tr d)\<lparr>d_words := (d_words (disk_after tr d))(a := b i), d_transfer := Writing (a + 1) (n + k)\<rparr>"
    using Suc.prems by simp
  then have d: "d_transfer (disk_after ?tr d) = Writing (a + 1) (n + k)" "d_words (disk_after ?tr d) = (d_words (disk_after tr d))(a := b i)" by simp_all
  show ?case unfolding write_words.simps outw_def Suc.IH [OF d(1), of "i + 1", unfolded d(2) shift_window] unfolding s by simp
qed

lemma sector_ready:
  assumes dr: "ata_drive dev d" and left: "words_left (d_transfer (disk_after tr d)) > 0"
  obtains tr' e f where "poll_while dev 0x80 tr = Some tr'" "inb dev 0x1F7 tr' = (e, tr' @ [In_b 0x1F7 e])" "e AND 0x01 = 0"
    "inb dev 0x1F7 (tr' @ [In_b 0x1F7 e]) = (f, tr' @ [In_b 0x1F7 e, In_b 0x1F7 f])" "f AND 0x08 \<noteq> 0"
    "disk_after (tr' @ [In_b 0x1F7 e, In_b 0x1F7 f]) d = disk_after tr d"
proof -
  have dr': "\<exists>n. port_b dev (polls dev n tr) 0x1F7 AND 0x80 = 0" "port_b dev u 0x1F7 AND 0x01 = 0"
    "v AND 0x80 = 0 \<Longrightarrow> port_b dev (u @ [In_b 0x1F7 v]) 0x1F7 AND 0x80 = 0"
    "words_left (d_transfer (disk_after u d)) > 0 \<Longrightarrow> port_b dev u 0x1F7 AND 0x80 = 0 \<Longrightarrow> port_b dev u 0x1F7 AND 0x08 \<noteq> 0" for u v
    using dr unfolding ata_drive_def by blast+
  obtain u v where u: "poll_while dev 0x80 tr = Some (u @ [In_b 0x1F7 v])" "v AND 0x80 = 0" "disk_after (u @ [In_b 0x1F7 v]) d = disk_after tr d"
    by (rule poll_ready [OF dr'(1)])
  define tr' where "tr' = u @ [In_b 0x1F7 v]"
  define e where "e = port_b dev tr' 0x1F7"
  define f where "f = port_b dev (tr' @ [In_b 0x1F7 e]) 0x1F7"
  have e: "e AND 0x80 = 0" using dr'(3) [OF u(2)] by (simp add: e_def tr'_def)
  have "f AND 0x80 = 0" using dr'(3) [OF e] by (simp add: f_def)
  moreover have a: "disk_after (tr' @ [In_b 0x1F7 e]) d = disk_after tr d" using u(3) by (simp add: tr'_def)
  ultimately have "f AND 0x08 \<noteq> 0" using dr'(4) [of "tr' @ [In_b 0x1F7 e]"] left unfolding f_def by simp
  moreover have "disk_after (tr' @ [In_b 0x1F7 e, In_b 0x1F7 f]) d = disk_after tr d"
    using a by simp
  moreover have "e AND 0x01 = 0" using dr'(2) by (simp add: e_def)
  ultimately show thesis using that [of tr' e f] u(1) by (simp add: tr'_def [symmetric] e_def [symmetric] f_def [symmetric] inb_def Let_def)
qed

lemma read_loop_ok:
  assumes dr: "ata_drive dev d"
  shows "d_transfer (disk_after tr d) = Reading a (256 * n) \<Longrightarrow> d_words (disk_after tr d) = w \<Longrightarrow>
    \<exists>b' tr'. read_loop dev i n b tr = Some (Inr (b', tr')) \<and> (\<forall>j. b' j = (if 256 * i \<le> j \<and> j < 256 * (i + n) then w (a + (j - 256 * i)) else b j))
      \<and> d_words (disk_after tr' d) = w"
proof (induction n arbitrary: i a b tr)
  case (Suc n)
  have "words_left (d_transfer (disk_after tr d)) > 0" using Suc.prems by (simp add: words_left_def)
  then obtain tr1 e f where r: "poll_while dev 0x80 tr = Some tr1" "inb dev 0x1F7 tr1 = (e, tr1 @ [In_b 0x1F7 e])" "e AND 0x01 = 0"
    "inb dev 0x1F7 (tr1 @ [In_b 0x1F7 e]) = (f, tr1 @ [In_b 0x1F7 e, In_b 0x1F7 f])" "f AND 0x08 \<noteq> 0"
    "disk_after (tr1 @ [In_b 0x1F7 e, In_b 0x1F7 f]) d = disk_after tr d"
    by (rule sector_ready [OF dr])
  let ?b = "\<lambda>j. if i * 256 \<le> j \<and> j < i * 256 + 256 then w (a + (j - i * 256)) else b j"
  have "d_transfer (disk_after (tr1 @ [In_b 0x1F7 e, In_b 0x1F7 f]) d) = Reading a (256 + 256 * n)" using Suc.prems(1) unfolding r(6) by simp
  moreover have "d_words (disk_after (tr1 @ [In_b 0x1F7 e, In_b 0x1F7 f]) d) = w" using Suc.prems(2) unfolding r(6) .
  ultimately obtain tr2 where t: "read_words dev (i * 256) 256 b (tr1 @ [In_b 0x1F7 e, In_b 0x1F7 f]) = (?b, tr2)"
    "disk_after tr2 d = (disk_after tr d)\<lparr>d_transfer := Reading (a + 256) (256 * n)\<rparr>"
    using read_words_ok [OF dr, of "tr1 @ [In_b 0x1F7 e, In_b 0x1F7 f]" a 256 "256 * n" w "i * 256" b] unfolding r(6) by auto
  have "d_transfer (disk_after (delay_400ns dev tr2) d) = Reading (a + 256) (256 * n)" "d_words (disk_after (delay_400ns dev tr2) d) = w"
    using t(2) Suc.prems(2) by simp_all
  from Suc.IH [OF this, of "i + 1" ?b] obtain b' tr' where b': "read_loop dev (i + 1) n ?b (delay_400ns dev tr2) = Some (Inr (b', tr'))"
    "\<forall>j. b' j = (if 256 * (i + 1) \<le> j \<and> j < 256 * (i + 1 + n) then w (a + 256 + (j - 256 * (i + 1))) else ?b j)" "d_words (disk_after tr' d) = w"
    by blast
  have "read_loop dev i (Suc n) b tr = read_loop dev (i + 1) n ?b (delay_400ns dev tr2)"
    using r(3,5) by (simp add: r(1,2,4) t(1))
  moreover have "b' j = (if 256 * i \<le> j \<and> j < 256 * (i + Suc n) then w (a + (j - 256 * i)) else b j)" for j
  proof -
    have "a + 256 + (j - 256 * (i + 1)) = a + (j - 256 * i)" if "256 * (i + 1) \<le> j" using that by simp
    then show ?thesis using b'(2) by (auto simp add: mult.commute [of i])
  qed
  ultimately show ?case using b'(1,3) by auto
qed auto

lemma write_loop_ok:
  assumes dr: "ata_drive dev d"
  shows "d_transfer (disk_after tr d) = Writing a (256 * n) \<Longrightarrow>
    \<exists>tr'. write_loop dev i n b tr = Some (Inr tr')
      \<and> d_words (disk_after tr' d) = (\<lambda>j. if a \<le> j \<and> j < a + 256 * n then b (256 * i + (j - a)) else d_words (disk_after tr d) j)"
proof (induction n arbitrary: i a tr)
  case 0
  then show ?case by (auto simp add: fun_eq_iff)
next
  case (Suc n)
  have "words_left (d_transfer (disk_after tr d)) > 0" using Suc.prems by (simp add: words_left_def)
  then obtain tr1 e f where r: "poll_while dev 0x80 tr = Some tr1" "inb dev 0x1F7 tr1 = (e, tr1 @ [In_b 0x1F7 e])" "e AND 0x01 = 0"
    "inb dev 0x1F7 (tr1 @ [In_b 0x1F7 e]) = (f, tr1 @ [In_b 0x1F7 e, In_b 0x1F7 f])" "f AND 0x08 \<noteq> 0"
    "disk_after (tr1 @ [In_b 0x1F7 e, In_b 0x1F7 f]) d = disk_after tr d"
    by (rule sector_ready [OF dr])
  define tr2 where "tr2 = write_words (i * 256) 256 b (tr1 @ [In_b 0x1F7 e, In_b 0x1F7 f])"
  have "d_transfer (disk_after (tr1 @ [In_b 0x1F7 e, In_b 0x1F7 f]) d) = Writing a (256 + 256 * n)" using Suc.prems(1) unfolding r(6) by simp
  from write_words_ok [OF this, of "i * 256" b] have t: "d_words (disk_after tr2 d) = (\<lambda>j. if a \<le> j \<and> j < a + 256 then b (i * 256 + (j - a)) else d_words (disk_after tr d) j)"
    "d_transfer (disk_after tr2 d) = Writing (a + 256) (256 * n)" unfolding tr2_def r(6) by simp_all
  have "d_transfer (disk_after (delay_400ns dev tr2) d) = Writing (a + 256) (256 * n)" using t(2) by simp
  from Suc.IH [OF this, of "i + 1"] obtain tr' where tr': "write_loop dev (i + 1) n b (delay_400ns dev tr2) = Some (Inr tr')"
    "d_words (disk_after tr' d) = (\<lambda>j. if a + 256 \<le> j \<and> j < a + 256 + 256 * n then b (256 * (i + 1) + (j - (a + 256))) else d_words (disk_after tr2 d) j)"
    unfolding delay_view by blast
  have "write_loop dev i (Suc n) b tr = write_loop dev (i + 1) n b (delay_400ns dev tr2)" using r(3,5) by (simp add: r(1,2,4) tr2_def)
  moreover have "d_words (disk_after tr' d) j = (if a \<le> j \<and> j < a + 256 * Suc n then b (256 * i + (j - a)) else d_words (disk_after tr d) j)" for j
  proof -
    have "256 * (i + 1) + (j - (a + 256)) = 256 * i + (j - a)" if "a + 256 \<le> j" using that by simp
    then show ?thesis unfolding tr'(2) t(1) by (auto simp add: mult.commute)
  qed
  ultimately show ?case using tr'(1) by (auto simp add: fun_eq_iff)
qed

lemma unat_drop: "unat (drop_bit n x) = unat x div 2 ^ n" for x :: u32
proof -
  have "unat x < 2 ^ 32" using unsigned_less [of x] by simp
  then have "take_bit 32 (unat x) = unat x" by (simp add: take_bit_nat_eq_self)
  then show ?thesis by (simp add: unsigned_drop_bit_eq drop_bit_eq_div [where 'a = nat])
qed

lemma byte_at: "unat (ucast (drop_bit n x) :: u8) = unat x div 2 ^ n mod 256" for x :: u32
proof -
  have "unat (ucast y :: u8) = unat y mod 256" for y :: u32 by (simp add: unsigned_ucast_eq take_bit_eq_mod)
  then show ?thesis by (simp add: unat_drop)
qed

lemma drive_register: "unat (ucast (0xE0 OR (drop_bit 24 LBA AND 0x0F)) :: u8) mod 16 = unat LBA div 2 ^ 24 mod 16" for LBA :: u32
proof -
  have m: "x AND 0x0F = take_bit 4 x" for x :: u32 by (simp add: take_bit_eq_mask mask_eq_decr_exp)
  have g: "unat (ucast y :: u8) mod 16 = unat (take_bit 4 y)" for y :: u32
    by (simp add: unsigned_ucast_eq unsigned_take_bit_eq take_bit_eq_mod [where 'a = nat] mod_mod_cancel)
  have "take_bit 4 (0xE0 :: u32) = 0" by (simp add: take_bit_eq_mod)
  then have "take_bit 4 (0xE0 OR take_bit 4 (drop_bit 24 LBA)) = take_bit 4 (drop_bit 24 LBA)" by simp
  moreover have "unat (take_bit 4 (drop_bit 24 LBA)) = unat (drop_bit 24 LBA) mod 16" by (simp add: unsigned_take_bit_eq take_bit_eq_mod [where 'a = nat])
  ultimately show ?thesis unfolding m g by (simp only: unat_drop)
qed

lemma lba_bytes: "x mod 256 + 2 ^ 8 * (x div 2 ^ 8 mod 256) + 2 ^ 16 * (x div 2 ^ 16 mod 256) + 2 ^ 24 * (x div 2 ^ 24 mod 16) = x mod 2 ^ 28" for x :: nat
proof -
  have "x mod 2 ^ 28 = 2 ^ 24 * (x div 2 ^ 24 mod 2 ^ 4) + x mod 2 ^ 24" using mod_mult2_eq [of x "2 ^ 24" "2 ^ 4"] by simp
  moreover have "x mod 2 ^ 24 = 2 ^ 16 * (x div 2 ^ 16 mod 2 ^ 8) + x mod 2 ^ 16" using mod_mult2_eq [of x "2 ^ 16" "2 ^ 8"] by simp
  moreover have "x mod 2 ^ 16 = 2 ^ 8 * (x div 2 ^ 8 mod 2 ^ 8) + x mod 2 ^ 8" using mod_mult2_eq [of x "2 ^ 8" "2 ^ 8"] by simp
  ultimately show ?thesis by simp
qed

lemma sector_counts_nat: "unat (sector_counts c) = (if c = 0 then 256 else unat c)"
proof -
  have "unat (ucast c :: u16) = unat c"
  proof -
    have "unat c < 256" using unsigned_less [of c] by simp
    then show ?thesis by (simp add: unsigned_ucast_eq take_bit_nat_eq_self)
  qed
  then show ?thesis by (simp add: sector_counts_def)
qed

lemma command_starts:
  "d_transfer (disk_after (ata_command 0x20 LBA c tr) d) = Reading (lba_word LBA) (word_count c)"
  "d_transfer (disk_after (ata_command 0x30 LBA c tr) d) = Writing (lba_word LBA) (word_count c)"
  "d_words (disk_after (ata_command cmd LBA c tr) d) = d_words (disk_after tr d)"
proof -
  have b: "unat (ucast LBA :: u8) = unat LBA mod 256" using byte_at [of 0 LBA] by simp
  note l = lba_bytes [of "unat LBA"]
  show "d_transfer (disk_after (ata_command 0x20 LBA c tr) d) = Reading (lba_word LBA) (word_count c)"
    "d_transfer (disk_after (ata_command 0x30 LBA c tr) d) = Writing (lba_word LBA) (word_count c)"
    unfolding ata_command_def Let_def outb_def lba_word_def l [symmetric]
    by (simp_all add: d_start_def d_length_def word_count_def sector_counts_nat b byte_at drive_register)
  show "d_words (disk_after (ata_command cmd LBA c tr) d) = d_words (disk_after tr d)"
    by (simp add: ata_command_def Let_def outb_def)
qed

lemma write_sectors_ok:
  assumes dr: "ata_drive dev d"
  shows "\<exists>tr'. write_sectors dev LBA c b tr = Some (Inr tr') \<and> d_words (disk_after tr' d)
    = (\<lambda>j. if lba_word LBA \<le> j \<and> j < lba_word LBA + word_count c then b (j - lba_word LBA) else d_words (disk_after tr d) j)"
proof -
  obtain tr1 where 1: "write_loop dev 0 (unat (sector_counts c)) b (ata_command 0x30 LBA c tr) = Some (Inr tr1)"
    "d_words (disk_after tr1 d) = (\<lambda>j. if lba_word LBA \<le> j \<and> j < lba_word LBA + 256 * unat (sector_counts c)
       then b (256 * 0 + (j - lba_word LBA)) else d_words (disk_after (ata_command 0x30 LBA c tr) d) j)"
    using write_loop_ok [OF dr command_starts(2) [unfolded word_count_def], of 0] by blast
  note w = 1(2) [unfolded command_starts(3) mult_0_right add_0 word_count_def [symmetric]]
  have "\<exists>n. port_b dev (polls dev n (outb 0x1F7 0xE7 tr1)) 0x1F7 AND 0x80 = 0" using dr unfolding ata_drive_def by blast
  then obtain tr2 v where "poll_while dev 0x80 (outb 0x1F7 0xE7 tr1) = Some (tr2 @ [In_b 0x1F7 v])"
    "disk_after (tr2 @ [In_b 0x1F7 v]) d = disk_after (outb 0x1F7 0xE7 tr1) d" by (rule poll_ready)
  moreover have "d_words (disk_after (outb 0x1F7 0xE7 tr1) d) = d_words (disk_after tr1 d)" by (simp add: outb_def)
  ultimately show ?thesis using 1(1) w by (intro exI [of _ "tr2 @ [In_b 0x1F7 v]"]) (simp only: write_sectors_def flush_cache_def, simp)
qed

lemma read_sectors_ok:
  assumes dr: "ata_drive dev d"
  shows "\<exists>b' tr'. read_sectors dev LBA c b tr = Some (Inr (b', tr')) \<and> d_words (disk_after tr' d) = d_words (disk_after tr d)
    \<and> (\<forall>j. b' j = (if j < word_count c then d_words (disk_after tr d) (lba_word LBA + j) else b j))"
  using read_loop_ok [OF dr command_starts(1) [unfolded word_count_def] command_starts(3), where i = 0 and b = b]
  by (simp only: read_sectors_def word_count_def mult_0_right add_0 minus_nat.diff_0 le0 simp_thms) blast

text \<open>
  C35: On a drive without errors, \<open>write_sectors\<close> and \<open>read_sectors\<close> return, and what is written is what is read back. Writing changes exactly the sectors
  asked for, addressed by the lower 28 bits of the sector number, 256 of them when the count is zero, and the
  following read of the same sectors fills the buffer with the words written and leaves the rest of it.
\<close>

theorem ata_loopback:
  assumes "ata_drive dev d"
  shows "\<exists>tr1 b' tr2. write_sectors dev LBA c b tr = Some (Inr tr1) \<and> read_sectors dev LBA c b0 tr1 = Some (Inr (b', tr2))
    \<and> d_words (disk_after tr1 d) = (\<lambda>j. if lba_word LBA \<le> j \<and> j < lba_word LBA + word_count c then b (j - lba_word LBA) else d_words (disk_after tr d) j)
    \<and> (\<forall>j. b' j = (if j < word_count c then b j else b0 j)) \<and> d_words (disk_after tr2 d) = d_words (disk_after tr1 d)"
proof -
  obtain tr1 where 1: "write_sectors dev LBA c b tr = Some (Inr tr1)" "d_words (disk_after tr1 d)
    = (\<lambda>j. if lba_word LBA \<le> j \<and> j < lba_word LBA + word_count c then b (j - lba_word LBA) else d_words (disk_after tr d) j)"
    using write_sectors_ok [OF assms] by blast
  obtain b' tr2 where 2: "read_sectors dev LBA c b0 tr1 = Some (Inr (b', tr2))" "d_words (disk_after tr2 d) = d_words (disk_after tr1 d)"
    "\<forall>j. b' j = (if j < word_count c then d_words (disk_after tr1 d) (lba_word LBA + j) else b0 j)"
    using read_sectors_ok [OF assms, of LBA c b0 tr1] by blast
  have "b' j = (if j < word_count c then b j else b0 j)" for j using 2(3) unfolding 1(2) by simp
  with 1 2(1,2) show ?thesis by (intro exI [of _ tr1] exI [of _ b'] exI [of _ tr2]) simp
qed

lemma sample_drive_ok: "ata_drive sample_drive sample_disk"
  by (auto simp add: ata_drive_def sample_drive_def)

theorem ata_loopback_witness:
  "\<exists>tr1 b' tr2. write_sectors sample_drive 2 2 of_nat [] = Some (Inr tr1) \<and> read_sectors sample_drive 2 2 (\<lambda>_. 0) tr1 = Some (Inr (b', tr2)) \<and> b' 511 = 511"
proof -
  obtain tr1 b' tr2 where "write_sectors sample_drive 2 2 of_nat [] = Some (Inr tr1)" "read_sectors sample_drive 2 2 (\<lambda>_. 0) tr1 = Some (Inr (b', tr2))"
    "\<forall>j. b' j = (if j < word_count 2 then of_nat j else 0)"
    using ata_loopback [OF sample_drive_ok, of 2 2 of_nat "[]" "\<lambda>_. 0"] by blast
  then show ?thesis by (auto simp add: word_count_def sector_counts_nat)
qed

lemma render_append: "0 \<notin> set f \<Longrightarrow> 37 \<notin> set f \<Longrightarrow> render (f @ g) args = map_option (\<lambda>bs. f @ bs) (render g args)"
  by (induction f) (cases "render g args"; auto)+

lemma render_size: "render (map of_char ''Total disk size is %d'' @ [10, 0]) [Va_Int n] = Some (size_text n)"
proof -
  have "map of_char ''Total disk size is %d'' @ [10, 0] = map of_char ''Total disk size is '' @ ([37, 100, 10, 0] :: u8 list)" by simp
  moreover have "render [37, 100, 10, 0] [Va_Int n] = Some (decimal (sint n) @ [10])" by simp
  ultimately show ?thesis unfolding size_text_def by (simp only: render_append) simp
qed

lemma pr_size: "pr ATA_PRINT (map of_char ''Total disk size is %d'' @ [10, 0]) [Va_Int n] s = Some (fold vga_putchar (size_text n) s)"
  by (simp only: pr_def ATA_PRINT_def if_True printf_eq render_size option.map)

lemma identify_ok:
  assumes dr: "ata_drive dev d" and pr: "drive_present dev"
  shows "\<exists>b tr1 tr2. identify_disk dev buf s = Some (Inr (b, (fold vga_putchar (size_text (disk_size b)) (s\<lparr>ports := tr1\<rparr>))\<lparr>ports := tr2\<rparr>))"
proof -
  define tr4 where "tr4 = snd (inb dev 0x1F7 (outb 0x1F7 0xEC (outb 0x1F5 0 (outb 0x1F4 0 (outb 0x1F3 0 (outb 0x1F2 0 (outb 0x1F6 0xA0 (ports s))))))))"
  have t4: "d_transfer (disk_after tr4 d) = Identifying 256" by (simp add: tr4_def inb_def outb_def Let_def)
  have "\<exists>n. port_b dev (polls dev n tr4) 0x1F7 AND 0x80 = 0" using dr unfolding ata_drive_def by blast
  then obtain tr' v where p: "poll_while dev 0x80 tr4 = Some (tr' @ [In_b 0x1F7 v])" "v AND 0x80 = 0" "disk_after (tr' @ [In_b 0x1F7 v]) d = disk_after tr4 d"
    by (rule poll_ready)
  define tr5 where "tr5 = tr' @ [In_b 0x1F7 v]"
  define e where "e = port_b dev tr5 0x1F7"
  have e: "e AND 0x01 = 0" "e AND 0x80 = 0" using dr p(2) unfolding ata_drive_def e_def tr5_def by blast+
  define tr6 where "tr6 = tr5 @ [In_b 0x1F7 e]"
  have t6: "d_transfer (disk_after tr6 d) = Identifying 256" using t4 p(3) by (simp add: tr6_def tr5_def)
  have "port_b dev tr6 0x1F7 AND 0x80 = 0" using dr e(2) unfolding ata_drive_def tr6_def by blast
  then have "port_b dev tr6 0x1F7 AND 0x08 \<noteq> 0" using dr t6 unfolding ata_drive_def by (auto simp add: words_left_def)
  then have u: "poll_until dev 0x08 tr6 = Some (snd (inb dev 0x1F7 tr6))" by (subst poll_until.simps) (simp add: inb_def Let_def)
  obtain b tr8 where r: "read_words dev 0 256 buf (snd (inb dev 0x1F7 tr6)) = (b, tr8)" by fastforce
  have "fst (inb dev 0x1F7 tr) \<noteq> 0" for tr using pr by (simp add: drive_present_def inb_def Let_def)
  moreover have "inb dev 0x1F7 tr5 = (e, tr6)" by (simp add: inb_def Let_def e_def tr6_def)
  ultimately show ?thesis
    using p(1) u r e(1) unfolding identify_disk_def Let_def tr5_def [symmetric] pr_size split_beta tr4_def [symmetric] disk_size_def [symmetric]
    by (auto simp del: fold_simps)
qed

end
