(* ===== verification/Kernel_Tests.thy ===== *)
theory Kernel_Tests
  imports Thread_Props Ata_Props
begin

text \<open>
  The self tests that run at boot (\<open>src/src/util/tests.c\<close>): \<open>kmalloc_run_test\<close> and \<open>ata_test\<close>, with their checks, each of which panics
  when it fails. The messages they print at the end are left out.
\<close>

section \<open>Self tests\<close>

text \<open>\<open>byte_ptr[i] = value\<close>: the byte is part of an aligned word of memory.\<close>

definition store_byte :: "u32 \<Rightarrow> u8 \<Rightarrow> heap_state \<Rightarrow> panic + heap_state" where
  "store_byte a value h =
     (let sh = 8 * unat (a AND 3)
      in hmodify (a AND NOT 3) (\<lambda>w. (w AND NOT (push_bit sh 0xFF)) OR push_bit sh (ucast value)) h)"

definition kmalloc_run_test :: "heap_state \<Rightarrow> (panic + heap_state) option" where
  "kmalloc_run_test h =
     kbind (kmalloc 1000 h) (\<lambda>(address1, h).
     kbind (kmalloc 1000 h) (\<lambda>(address2, h).
     kbind (kmalloc 1000 h) (\<lambda>(address3, h).
     kbind (kfree address2 h) (\<lambda>h.
     kbind (kmalloc 400 h) (\<lambda>(address4, h).
     kbind (kmalloc 601 h) (\<lambda>(address5, h).
     kbind (kmalloc 201 h) (\<lambda>(address6, h).
     if address4 > address5 \<or> address6 > address5 then Some (Inl InvalidFragmentation)
     else
       kbind (kfree address4 h) (\<lambda>h.
       kbind (kfree address6 h) (\<lambda>h.
       kbind (kmalloc 505 h) (\<lambda>(address7, h).
       if address7 \<noteq> address4 then Some (Inl InvalidFragmentation)
       else
         kbind (kfree address1 h) (\<lambda>h.
         kbind (kfree address3 h) (\<lambda>h.
         kbind (kfree address5 h) (\<lambda>h.
         kbind (kfree address7 h) (\<lambda>h.
         kbind (kmalloc 0 h) (\<lambda>(zero_ptr, h).
         if zero_ptr \<noteq> 0 then Some (Inl KmallocZero)
         else
           kbind (kmalloc 1024 h) (\<lambda>(exact_ptr1, h).
           kbind (kfree exact_ptr1 h) (\<lambda>h.
           kbind (kmalloc 1016 h) (\<lambda>(exact_ptr2, h).
           if exact_ptr1 \<noteq> exact_ptr2 then Some (Inl ExactFitFailed)
           else
             kbind (kfree exact_ptr2 h) (\<lambda>h.
             kbind (kmalloc 150000 h) (\<lambda>(massive_ptr, h).
             if massive_ptr = 0 then Some (Inl ExpansionFailed)
             else
               kbind (Some (store_byte (massive_ptr + 149999) 0xAA h)) (\<lambda>h.
               kfree massive_ptr h)))))))))))))))))))))"

text \<open>The heap consists of the blocks \<open>bs\<close> and can still grow by \<open>m\<close> pages.\<close>

definition heap_is :: "nat \<Rightarrow> block list \<Rightarrow> nat \<Rightarrow> heap_state \<Rightarrow> bool" where
  "heap_is base bs m h \<longleftrightarrow> (\<exists>v. heap_inv base bs v h) \<and> coalesced bs \<and> heap_room m h"

definition big_pmm :: pmm_state_t where
  "big_pmm = \<lparr>array = (\<lambda>i. if i = 0 then 3 else 0), max_blocks = 1024, used_blocks = 2, last_allocated_bit = 0\<rparr>"

definition big_heap :: heap_state where
  "big_heap = sample_heap\<lparr>hvm := sample_mm\<lparr>pmm := big_pmm\<rparr>\<rparr>"

definition ata_test :: "device \<Rightarrow> (nat \<Rightarrow> u16) \<Rightarrow> io_log \<Rightarrow> (panic + io_log) option" where
  "ata_test dev stack tr =
     (let buffer = fold (\<lambda>i b. b(i := of_nat i)) [0..<512] stack;
          new_buffer = (\<lambda>i. 0)
      in case write_sectors dev 2 2 buffer tr of
           None \<Rightarrow> None
         | Some (Inl e) \<Rightarrow> Some (Inl e)
         | Some (Inr tr1) \<Rightarrow>
             (case read_sectors dev 2 2 new_buffer tr1 of
                None \<Rightarrow> None
              | Some (Inl e) \<Rightarrow> Some (Inl e)
              | Some (Inr (new_buffer1, tr2)) \<Rightarrow>
                  if list_ex (\<lambda>i. unat (new_buffer1 i) \<noteq> i) [0..<512] then Some (Inl AtaTestFailed) else Some (Inr tr2)))"

section \<open>Lemmas\<close>

lemma malloc_fits:
  assumes h: "heap_is base bs m h" and n: "0 < n" "n + 23 < 2 ^ 32" and f: "fit (real_size_of n) bs = Some (xs, k, ys)"
  obtains h' where "kmalloc (of_nat n) h = Some (Inr (of_nat (base + blocks_size xs + 8), h'))" "heap_is base (snd (malloc_spec (real_size_of n) bs)) m h'"
proof -
  obtain v where v: "heap_inv base bs v h" "coalesced bs" "heap_room m h" using h by (auto simp add: heap_is_def)
  obtain h' v' where h': "kmalloc (of_nat n) h = Some (Inr (of_nat (base + blocks_size xs + 8), h'))"
    "heap_inv base (snd (malloc_spec (real_size_of n) bs)) v' h'" "heap_reserve h' = heap_reserve h"
    using kmalloc_fit [OF v(1) n f] by blast
  have "heap_room m h'" using v(3) h'(3) watermark_nat [OF v(1)] watermark_nat [OF h'(2)] malloc_spec_size [OF n(1), of bs] f by (simp add: heap_room_def)
  then show thesis using that h' coalesced_malloc [OF v(2)] by (auto simp add: heap_is_def)
qed

lemma malloc_grows:
  assumes h: "heap_is base bs (pages_for (real_size_of n) + m) h" and n: "0 < n" "n + 23 < 2 ^ 32" and f: "fit (real_size_of n) bs = None"
  obtains h' where "kmalloc (of_nat n) h = Some (Inr (of_nat (base + blocks_size bs + 8), h'))" "heap_is base (snd (malloc_spec (real_size_of n) bs)) m h'"
proof -
  obtain v where v: "heap_inv base bs v h" "coalesced bs" "heap_room (pages_for (real_size_of n) + m) h" using h by (auto simp add: heap_is_def)
  have "base + blocks_size bs + 4096 * pages_for (real_size_of n) \<le> HEAP_LIMIT" "2 * pages_for (real_size_of n) \<le> heap_reserve h"
    using v(3) watermark_nat [OF v(1)] by (simp_all add: heap_room_def)
  from kmalloc_grow [OF v(1) n f refl this] obtain h' v' where h': "kmalloc (of_nat n) h = Some (Inr (of_nat (base + blocks_size bs + 8), h'))"
    "heap_inv base (snd (malloc_spec (real_size_of n) bs)) v' h'" "heap_reserve h \<le> heap_reserve h' + 2 * pages_for (real_size_of n)" by blast
  have "heap_room m h'" using v(3) h'(3) watermark_nat [OF v(1)] watermark_nat [OF h'(2)] malloc_spec_size [OF n(1), of bs] f by (simp add: heap_room_def)
  then show thesis using that h' coalesced_malloc [OF v(2)] by (auto simp add: heap_is_def)
qed

lemma free_merges:
  assumes h: "heap_is base (xs @ [(n, False)] @ ys) m h"
  obtains h' where "kfree (of_nat (base + blocks_size xs + 8)) h = Some (Inr h')" "heap_is base (coalesce (xs @ [(n, True)] @ ys)) m h'"
proof -
  let ?bs = "xs @ [(n, False)] @ ys"
  obtain v where v: "heap_inv base ?bs v h" "coalesced ?bs" "heap_room m h" using h by (auto simp add: heap_is_def)
  obtain h' v' where h': "kfree (of_nat (base + blocks_size xs + 8)) h = Some (Inr h')" "heap_inv base (coalesce (xs @ [(n, True)] @ ys)) v' h'"
    using kfree_ok [OF v(1,2)] by blast
  have "heap_state_ok base h ((\<lambda>c. of_nat (c + 8)) ` used_addrs base ?bs)" using v by (auto simp add: heap_state_ok_def)
  moreover have "of_nat (base + blocks_size xs + 8) \<in> (\<lambda>c. of_nat (c + 8) :: u32) ` used_addrs base ?bs" by (rule imageI) (simp add: used_addrs_append)
  ultimately have "heap_room m h'" using kfree_room h'(1) v(3) by blast
  then show thesis using that h' by (auto simp add: heap_is_def coalesced_coalesce)
qed

lemma tiled_below: "x < a \<Longrightarrow> tiled (v(x := w)) a bs = tiled v a bs"
  by (induction bs arbitrary: a) auto

lemma tiled_live: "x \<in> live a bs \<Longrightarrow> tiled (v(x := w)) a bs = tiled v a bs"
proof (induction a bs rule: live.induct)
  case (2 a n f bs)
  have "x \<noteq> a" using live_range [OF 2(2)] by auto
  moreover have "tiled (v(x := w)) (a + n) bs = tiled v (a + n) bs"
  proof (cases "x \<in> live (a + n) bs")
    case False
    then have "x < a + n" using 2(2) by (auto split: if_splits)
    then show ?thesis by (rule tiled_below)
  qed (rule 2)
  ultimately show ?case by (simp del: fun_upd_apply add: fun_upd_other)
qed simp

lemma free_links_not_live: "x \<in> live a bs \<Longrightarrow> y \<in> set (free_addrs a bs) \<Longrightarrow> y + 4 \<noteq> x"
proof (induction a bs rule: live.induct)
  case (2 a n f bs)
  show ?case
  proof (cases "x \<in> live (a + n) bs")
    case True
    then show ?thesis using 2 live_range [OF True] by (auto simp add: free_addrs_def split: if_splits)
  next
    case False
    then have "\<not> f" "x < a + n" using 2(2) by (auto split: if_splits)
    then show ?thesis using free_addrs_ge [of y "a + n" bs] 2(3) by (auto simp add: free_addrs_def)
  qed
qed (simp add: free_addrs_def)

lemma store_live:
  assumes h: "heap_is base bs m h" and x: "x \<in> live base bs"
  obtains h' where "hmodify (of_nat x) f h = Inr h'" "heap_is base bs m h'"
proof -
  obtain v where v: "heap_inv base bs v h" "coalesced bs" "heap_room m h" using h by (auto simp add: heap_is_def)
  note r = live_range [OF x] and fr = heap_inv_frame [OF v(1) refl]
  obtain h' where h': "hstore (of_nat x) (f (v x)) h = Inr h'"
    "heap_at base (base + blocks_size bs) (free_list_head h) (of_nat (base + blocks_size bs)) (heap_reserve h) (v(x := f (v x))) h'"
    using heap_at_store [OF fr(1), of x] r by auto
  have "hload (of_nat x) h = Inr (v x)" using heap_at_load [OF fr(1), of x] r by simp
  then have m: "hmodify (of_nat x) f h = Inr h'" using h'(1) by (simp add: hmodify_def)
  have "list_ok base bs (free_list_head h) (v(x := f (v x)))"
    using fr(2) tiled_live [OF x] lseg_cong [of "free_addrs base bs" "v(x := f (v x))" v] free_links_not_live [OF x]
    unfolding list_ok_def by (metis fun_upd_other)
  then have i: "heap_inv base bs (v(x := f (v x))) h'" "heap_reserve h' = heap_reserve h" using heap_inv_atI [OF h'(2)] by simp_all
  have "heap_room m h'" using v(3) i(2) watermark_nat [OF v(1)] watermark_nat [OF i(1)] by (simp add: heap_room_def)
  then show thesis using that m i(1) v(2) by (auto simp add: heap_is_def)
qed

lemma word_part: "(of_nat x :: u32) AND NOT 3 = of_nat (x div 4 * 4)" if "x < 2 ^ 32"
proof -
  have m: "NOT 3 = (NOT (mask 2) :: u32)" by (simp add: mask_eq_decr_exp)
  have "unat ((of_nat x :: u32) AND NOT 3) = x div 4 * 4"
    unfolding m unat_and_not_mask using that by (simp add: unat_of_nat)
  then show ?thesis by (metis of_nat_unat ucast_id)
qed

lemma live_block: "x \<in> live base (xs @ [(n, False)] @ ys)" if "base + blocks_size xs + 8 \<le> x" "x < base + blocks_size xs + n"
  using that by (simp add: live_append)

lemma store_byte_block:
  assumes h: "heap_is base (xs @ [(n, False)] @ ys) m h" and i: "i < n - 8"
  obtains h' where "store_byte (of_nat (base + blocks_size xs + 8) + of_nat i) b h = Inr h'" "heap_is base (xs @ [(n, False)] @ ys) m h'"
proof -
  let ?x = "base + blocks_size xs + 8 + i"
  obtain v where v: "heap_inv base (xs @ [(n, False)] @ ys) v h" using h by (auto simp add: heap_is_def)
  have "16 dvd base + blocks_size xs" using v by (auto simp add: heap_inv_def intro: list_ok_dvd)
  then have d: "4 dvd base + blocks_size xs + 8" by (auto elim!: dvdE)
  have "base + blocks_size xs + n \<le> HEAP_LIMIT" using heap_inv_size [OF v] by simp
  then have lt: "?x < 2 ^ 32" using i by (simp add: HEAP_LIMIT_def)
  obtain q where q: "base + blocks_size xs + 8 = 4 * q" using d by (elim dvdE)
  have "base + blocks_size xs + 8 \<le> ?x div 4 * 4" unfolding q by simp
  moreover have "?x div 4 * 4 < base + blocks_size xs + n" using i by (intro le_less_trans [OF div_times_less_eq_dividend]) simp
  ultimately have live: "?x div 4 * 4 \<in> live base (xs @ [(n, False)] @ ys)" by (rule live_block)
  have e: "of_nat (base + blocks_size xs + 8) + of_nat i = (of_nat ?x :: u32)" by simp
  show thesis
    by (rule store_live [OF h live]) (rule that, simp_all only: e store_byte_def Let_def word_part [OF lt])
qed

lemma malloc_at:
  assumes "heap_is base bs m h" "0 < n" "n + 23 < 2 ^ 32" "fit (real_size_of n) bs \<noteq> None"
    "blocks_size (fst (the (fit (real_size_of n) bs))) = offs" "snd (malloc_spec (real_size_of n) bs) = bs'" "N = of_nat n"
  obtains h' where "kmalloc N h = Some (Inr (of_nat (base + offs + 8), h'))" "heap_is base bs' m h'"
proof -
  obtain xs k ys where f: "fit (real_size_of n) bs = Some (xs, k, ys)" using assms(4) by auto
  show thesis using malloc_fits [OF assms(1-3) f] assms(5-) f that by (metis fst_conv option.sel)
qed

lemma free_at:
  assumes "heap_is base bs m h" "i < length bs" "\<not> snd (bs ! i)" "blocks_size (take i bs) = offs" "coalesce (bs[i := (fst (bs ! i), True)]) = bs'"
  obtains h' where "kfree (of_nat (base + offs + 8)) h = Some (Inr h')" "heap_is base bs' m h'"
proof -
  have bs: "bs = take i bs @ [(fst (bs ! i), False)] @ drop (Suc i) bs" using id_take_nth_drop [OF assms(2)] assms(3) by (cases "bs ! i") simp
  have "bs[i := (fst (bs ! i), True)] = take i bs @ [(fst (bs ! i), True)] @ drop (Suc i) bs" using assms(2) by (simp add: upd_conv_take_nth_drop)
  then show thesis using free_merges [of base "take i bs" "fst (bs ! i)" "drop (Suc i) bs" m h] assms that bs by metis
qed

text \<open>Three blocks, the middle one freed and its space reused.\<close>

lemma test_fragmentation:
  assumes "heap_is base [(1008, False), (3088, True)] m h"
  obtains h1 h2 h3 h4 h5 h6 where "kmalloc 1000 h = Some (Inr (of_nat (base + 1008 + 8), h1))"
    "kmalloc 1000 h1 = Some (Inr (of_nat (base + 2016 + 8), h2))"
    "kfree (of_nat (base + 1008 + 8)) h2 = Some (Inr h3)"
    "kmalloc 400 h3 = Some (Inr (of_nat (base + 1008 + 8), h4))"
    "kmalloc 601 h4 = Some (Inr (of_nat (base + 3024 + 8), h5))"
    "kmalloc 201 h5 = Some (Inr (of_nat (base + 1424 + 8), h6))"
    "heap_is base [(1008, False), (416, False), (224, False), (368, True), (1008, False), (624, False), (448, True)] m h6"
proof -
  obtain h1 where s1: "kmalloc 1000 h = Some (Inr (of_nat (base + 1008 + 8), h1))" "heap_is base [(1008, False), (1008, False), (2080, True)] m h1"
    by (rule malloc_at [OF assms, where n = 1000 and offs = 1008 and bs' = "[(1008, False), (1008, False), (2080, True)]" and N = 1000])
      (simp_all add: real_size_of_def malloc_spec_def blocks_size_def)
  obtain h2 where s2: "kmalloc 1000 h1 = Some (Inr (of_nat (base + 2016 + 8), h2))" "heap_is base [(1008, False), (1008, False), (1008, False), (1072, True)] m h2"
    by (rule malloc_at [OF s1(2), where n = 1000 and offs = 2016 and bs' = "[(1008, False), (1008, False), (1008, False), (1072, True)]" and N = 1000])
      (simp_all add: real_size_of_def malloc_spec_def blocks_size_def)
  obtain h3 where s3: "kfree (of_nat (base + 1008 + 8)) h2 = Some (Inr h3)" "heap_is base [(1008, False), (1008, True), (1008, False), (1072, True)] m h3"
    by (rule free_at [OF s2(2), where i = 1 and offs = 1008 and bs' = "[(1008, False), (1008, True), (1008, False), (1072, True)]"]) (simp_all add: blocks_size_def)
  obtain h4 where s4: "kmalloc 400 h3 = Some (Inr (of_nat (base + 1008 + 8), h4))" "heap_is base [(1008, False), (416, False), (592, True), (1008, False), (1072, True)] m h4"
    by (rule malloc_at [OF s3(2), where n = 400 and offs = 1008 and bs' = "[(1008, False), (416, False), (592, True), (1008, False), (1072, True)]" and N = 400])
      (simp_all add: real_size_of_def malloc_spec_def blocks_size_def)
  obtain h5 where s5: "kmalloc 601 h4 = Some (Inr (of_nat (base + 3024 + 8), h5))" "heap_is base [(1008, False), (416, False), (592, True), (1008, False), (624, False), (448, True)] m h5"
    by (rule malloc_at [OF s4(2), where n = 601 and offs = 3024 and bs' = "[(1008, False), (416, False), (592, True), (1008, False), (624, False), (448, True)]" and N = 601])
      (simp_all add: real_size_of_def malloc_spec_def blocks_size_def)
  obtain h6 where s6: "kmalloc 201 h5 = Some (Inr (of_nat (base + 1424 + 8), h6))" "heap_is base [(1008, False), (416, False), (224, False), (368, True), (1008, False), (624, False), (448, True)] m h6"
    by (rule malloc_at [OF s5(2), where n = 201 and offs = 1424 and bs' = "[(1008, False), (416, False), (224, False), (368, True), (1008, False), (624, False), (448, True)]" and N = 201])
      (simp_all add: real_size_of_def malloc_spec_def blocks_size_def)
  show thesis by (rule that [OF s1(1) s2(1) s3(1) s4(1) s5(1) s6(1) s6(2)])
qed

text \<open>Two neighbouring blocks freed, their space merged and reused.\<close>

lemma test_reuse:
  assumes "heap_is base [(1008, False), (416, False), (224, False), (368, True), (1008, False), (624, False), (448, True)] m h"
  obtains h1 h2 h3 where "kfree (of_nat (base + 1008 + 8)) h = Some (Inr h1)"
    "kfree (of_nat (base + 1424 + 8)) h1 = Some (Inr h2)"
    "kmalloc 505 h2 = Some (Inr (of_nat (base + 1008 + 8), h3))"
    "heap_is base [(1008, False), (528, False), (480, True), (1008, False), (624, False), (448, True)] m h3"
proof -
  obtain h1 where s1: "kfree (of_nat (base + 1008 + 8)) h = Some (Inr h1)" "heap_is base [(1008, False), (416, True), (224, False), (368, True), (1008, False), (624, False), (448, True)] m h1"
    by (rule free_at [OF assms, where i = 1 and offs = 1008 and bs' = "[(1008, False), (416, True), (224, False), (368, True), (1008, False), (624, False), (448, True)]"]) (simp_all add: blocks_size_def)
  obtain h2 where s2: "kfree (of_nat (base + 1424 + 8)) h1 = Some (Inr h2)" "heap_is base [(1008, False), (1008, True), (1008, False), (624, False), (448, True)] m h2"
    by (rule free_at [OF s1(2), where i = 2 and offs = 1424 and bs' = "[(1008, False), (1008, True), (1008, False), (624, False), (448, True)]"]) (simp_all add: blocks_size_def)
  obtain h3 where s3: "kmalloc 505 h2 = Some (Inr (of_nat (base + 1008 + 8), h3))" "heap_is base [(1008, False), (528, False), (480, True), (1008, False), (624, False), (448, True)] m h3"
    by (rule malloc_at [OF s2(2), where n = 505 and offs = 1008 and bs' = "[(1008, False), (528, False), (480, True), (1008, False), (624, False), (448, True)]" and N = 505])
      (simp_all add: real_size_of_def malloc_spec_def blocks_size_def)
  show thesis by (rule that [OF s1(1) s2(1) s3(1) s3(2)])
qed

text \<open>All blocks freed: one free block is left.\<close>

lemma test_all_freed:
  assumes "heap_is base [(1008, False), (528, False), (480, True), (1008, False), (624, False), (448, True)] m h"
  obtains h1 h2 h3 h4 where "kfree (of_nat (base + 0 + 8)) h = Some (Inr h1)"
    "kfree (of_nat (base + 2016 + 8)) h1 = Some (Inr h2)"
    "kfree (of_nat (base + 3024 + 8)) h2 = Some (Inr h3)"
    "kfree (of_nat (base + 1008 + 8)) h3 = Some (Inr h4)"
    "heap_is base [(4096, True)] m h4"
proof -
  obtain h1 where s1: "kfree (of_nat (base + 0 + 8)) h = Some (Inr h1)" "heap_is base [(1008, True), (528, False), (480, True), (1008, False), (624, False), (448, True)] m h1"
    by (rule free_at [OF assms, where i = 0 and offs = 0 and bs' = "[(1008, True), (528, False), (480, True), (1008, False), (624, False), (448, True)]"]) (simp_all add: blocks_size_def)
  obtain h2 where s2: "kfree (of_nat (base + 2016 + 8)) h1 = Some (Inr h2)" "heap_is base [(1008, True), (528, False), (1488, True), (624, False), (448, True)] m h2"
    by (rule free_at [OF s1(2), where i = 3 and offs = 2016 and bs' = "[(1008, True), (528, False), (1488, True), (624, False), (448, True)]"]) (simp_all add: blocks_size_def)
  obtain h3 where s3: "kfree (of_nat (base + 3024 + 8)) h2 = Some (Inr h3)" "heap_is base [(1008, True), (528, False), (2560, True)] m h3"
    by (rule free_at [OF s2(2), where i = 3 and offs = 3024 and bs' = "[(1008, True), (528, False), (2560, True)]"]) (simp_all add: blocks_size_def)
  obtain h4 where s4: "kfree (of_nat (base + 1008 + 8)) h3 = Some (Inr h4)" "heap_is base [(4096, True)] m h4"
    by (rule free_at [OF s3(2), where i = 1 and offs = 1008 and bs' = "[(4096, True)]"]) (simp_all add: blocks_size_def)
  show thesis by (rule that [OF s1(1) s2(1) s3(1) s4(1) s4(2)])
qed

text \<open>A block freed and taken again.\<close>

lemma test_exact:
  assumes "heap_is base [(4096, True)] m h"
  obtains h1 h2 h3 h4 where "kmalloc 1024 h = Some (Inr (of_nat (base + 0 + 8), h1))"
    "kfree (of_nat (base + 0 + 8)) h1 = Some (Inr h2)"
    "kmalloc 1016 h2 = Some (Inr (of_nat (base + 0 + 8), h3))"
    "kfree (of_nat (base + 0 + 8)) h3 = Some (Inr h4)"
    "heap_is base [(4096, True)] m h4"
proof -
  obtain h1 where s1: "kmalloc 1024 h = Some (Inr (of_nat (base + 0 + 8), h1))" "heap_is base [(1040, False), (3056, True)] m h1"
    by (rule malloc_at [OF assms, where n = 1024 and offs = 0 and bs' = "[(1040, False), (3056, True)]" and N = 1024])
      (simp_all add: real_size_of_def malloc_spec_def blocks_size_def)
  obtain h2 where s2: "kfree (of_nat (base + 0 + 8)) h1 = Some (Inr h2)" "heap_is base [(4096, True)] m h2"
    by (rule free_at [OF s1(2), where i = 0 and offs = 0 and bs' = "[(4096, True)]"]) (simp_all add: blocks_size_def)
  obtain h3 where s3: "kmalloc 1016 h2 = Some (Inr (of_nat (base + 0 + 8), h3))" "heap_is base [(1024, False), (3072, True)] m h3"
    by (rule malloc_at [OF s2(2), where n = 1016 and offs = 0 and bs' = "[(1024, False), (3072, True)]" and N = 1016])
      (simp_all add: real_size_of_def malloc_spec_def blocks_size_def)
  obtain h4 where s4: "kfree (of_nat (base + 0 + 8)) h3 = Some (Inr h4)" "heap_is base [(4096, True)] m h4"
    by (rule free_at [OF s3(2), where i = 0 and offs = 0 and bs' = "[(4096, True)]"]) (simp_all add: blocks_size_def)
  show thesis by (rule that [OF s1(1) s2(1) s3(1) s4(1) s4(2)])
qed

lemma kmalloc_zero: "kmalloc 0 h = Some (Inr (0, h))"
  by (simp add: kmalloc_def)

lemma malloc_grow_at:
  assumes "heap_is base bs p h" "p = pages_for (real_size_of n) + m" "0 < n" "n + 23 < 2 ^ 32" "fit (real_size_of n) bs = None"
    "blocks_size bs = offs" "snd (malloc_spec (real_size_of n) bs) = bs'" "N = of_nat n"
  obtains h' where "kmalloc N h = Some (Inr (of_nat (base + offs + 8), h'))" "heap_is base bs' m h'"
  using malloc_grows [OF assms(1) [unfolded assms(2)] assms(3-5)] assms(6-) that by metis

text \<open>The first request grows the empty heap by a page, the last one by thirty-seven.\<close>

lemma test_first_page:
  assumes "heap_is base [] (38 + m) h"
  obtains h' where "kmalloc 1000 h = Some (Inr (of_nat (base + 0 + 8), h'))" "heap_is base [(1008, False), (3088, True)] (37 + m) h'"
  by (rule malloc_grow_at [OF assms, where n = 1000 and offs = 0 and m = "37 + m" and bs' = "[(1008, False), (3088, True)]" and N = 1000])
    (simp_all only: that, simp_all add: real_size_of_def malloc_spec_def blocks_size_def pages_for_def)

lemma test_massive:
  assumes "heap_is base [(4096, True)] (37 + m) h"
  obtains h1 h2 h3 where "kmalloc 150000 h = Some (Inr (of_nat (base + 4096 + 8), h1))" "store_byte (of_nat (base + 4096 + 8) + 149999) 0xAA h1 = Inr h2"
    "kfree (of_nat (base + 4096 + 8)) h2 = Some (Inr h3)" "heap_is base [(155648, True)] m h3"
proof -
  obtain h1 where h1: "kmalloc 150000 h = Some (Inr (of_nat (base + 4096 + 8), h1))" "heap_is base ([(4096, True)] @ [(150016, False)] @ [(1536, True)]) m h1"
    by (rule malloc_grow_at [OF assms, where n = 150000 and offs = 4096 and m = m and bs' = "[(4096, True)] @ [(150016, False)] @ [(1536, True)]" and N = 150000])
      (simp_all add: real_size_of_def malloc_spec_def blocks_size_def pages_for_def)
  have b: "blocks_size [(4096, True)] = 4096" by (simp add: blocks_size_def)
  obtain h2 where h2: "store_byte (of_nat (base + 4096 + 8) + 149999) 0xAA h1 = Inr h2" "heap_is base ([(4096, True)] @ [(150016, False)] @ [(1536, True)]) m h2"
    using store_byte_block [OF h1(2), of 149999 "0xAA"] unfolding b by auto
  obtain h3 where "kfree (of_nat (base + 4096 + 8)) h2 = Some (Inr h3)" "heap_is base [(155648, True)] m h3"
    by (rule free_at [OF h2(2), where i = 1 and offs = 4096 and bs' = "[(155648, True)]"]) (simp_all add: blocks_size_def)
  then show thesis by (rule that [OF h1(1) h2(1)])
qed

lemma heap_is_used: "heap_is base bs m h \<Longrightarrow> b < blocks_size bs \<Longrightarrow> base + b + 1 < 2 ^ 32"
  using heap_inv_size by (fastforce simp add: heap_is_def HEAP_LIMIT_def)

text \<open>
  The self test of the heap passes: on an empty heap with memory left for thirty-eight pages, \<open>kmalloc_run_test\<close>
  reaches its end without a panic, and leaves the heap with all of its memory in one free block.
\<close>

theorem kmalloc_run_test_passes:
  assumes "heap_is base [] (38 + m) h"
  shows "\<exists>h'. kmalloc_run_test h = Some (Inr h') \<and> heap_is base [(155648, True)] m h'"
proof -
  obtain h0 where a: "kmalloc 1000 h = Some (Inr (of_nat (base + 0 + 8), h0))" "heap_is base [(1008, False), (3088, True)] (37 + m) h0"
    by (rule test_first_page [OF assms])
  obtain h1 h2 h3 h4 h5 h6 where b: "kmalloc 1000 h0 = Some (Inr (of_nat (base + 1008 + 8), h1))"
    "kmalloc 1000 h1 = Some (Inr (of_nat (base + 2016 + 8), h2))" "kfree (of_nat (base + 1008 + 8)) h2 = Some (Inr h3)"
    "kmalloc 400 h3 = Some (Inr (of_nat (base + 1008 + 8), h4))" "kmalloc 601 h4 = Some (Inr (of_nat (base + 3024 + 8), h5))"
    "kmalloc 201 h5 = Some (Inr (of_nat (base + 1424 + 8), h6))"
    and b6: "heap_is base [(1008, False), (416, False), (224, False), (368, True), (1008, False), (624, False), (448, True)] (37 + m) h6"
    by (rule test_fragmentation [OF a(2)])
  obtain i1 i2 i3 where c: "kfree (of_nat (base + 1008 + 8)) h6 = Some (Inr i1)" "kfree (of_nat (base + 1424 + 8)) i1 = Some (Inr i2)"
    "kmalloc 505 i2 = Some (Inr (of_nat (base + 1008 + 8), i3))"
    and c3: "heap_is base [(1008, False), (528, False), (480, True), (1008, False), (624, False), (448, True)] (37 + m) i3"
    by (rule test_reuse [OF b6])
  obtain j1 j2 j3 j4 where d: "kfree (of_nat (base + 0 + 8)) i3 = Some (Inr j1)" "kfree (of_nat (base + 2016 + 8)) j1 = Some (Inr j2)"
    "kfree (of_nat (base + 3024 + 8)) j2 = Some (Inr j3)" "kfree (of_nat (base + 1008 + 8)) j3 = Some (Inr j4)"
    and d4: "heap_is base [(4096, True)] (37 + m) j4"
    by (rule test_all_freed [OF c3])
  obtain k1 k2 k3 k4 where e: "kmalloc 1024 j4 = Some (Inr (of_nat (base + 0 + 8), k1))" "kfree (of_nat (base + 0 + 8)) k1 = Some (Inr k2)"
    "kmalloc 1016 k2 = Some (Inr (of_nat (base + 0 + 8), k3))" "kfree (of_nat (base + 0 + 8)) k3 = Some (Inr k4)"
    and e4: "heap_is base [(4096, True)] (37 + m) k4"
    by (rule test_exact [OF d4])
  obtain l1 l2 l3 where f: "kmalloc 150000 k4 = Some (Inr (of_nat (base + 4096 + 8), l1))" "store_byte (of_nat (base + 4096 + 8) + 149999) 0xAA l1 = Inr l2"
    "kfree (of_nat (base + 4096 + 8)) l2 = Some (Inr l3)" and f3: "heap_is base [(155648, True)] m l3"
    by (rule test_massive [OF e4])
  have "base + 4104 < 2 ^ 32" using heap_is_used [OF f3, of 4103] by (simp add: blocks_size_def)
  then have g: "\<not> (of_nat (base + 1008 + 8) :: u32) > of_nat (base + 3024 + 8)" "\<not> (of_nat (base + 1424 + 8) :: u32) > of_nat (base + 3024 + 8)"
    "of_nat (base + 4096 + 8) \<noteq> (0 :: u32)"
    by (simp_all add: not_less word_le_nat_alt unat_of_nat word_of_nat_eq_0_iff nat_dvd_not_less del: of_nat_add)
  have "kmalloc_run_test h = Some (Inr l3)"
    by (simp only: kmalloc_run_test_def a(1) b c d e f g kmalloc_zero kbind_simps prod.case simp_thms if_False if_True)
  with f3 show ?thesis by blast
qed

lemma big_used: "frame_used big_pmm i \<longleftrightarrow> i < 2"
proof -
  have "bit (3 :: u32) n \<longleftrightarrow> n < 2" for n
    using bit_mask_iff [of 2 n, where 'a = u32] by (auto simp add: mask_eq_decr_exp)
  moreover have "i div 32 = 0 \<longleftrightarrow> unat i < 32" by (simp add: unat_eq_0 [symmetric] unat_div div_eq_0_iff)
  ultimately show ?thesis by (auto simp add: frame_used_def big_pmm_def word_less_nat_alt unat_mod)
qed

lemma big_frames: "used_frames big_pmm = {i. i < 2}" "free_frames big_pmm = {i. 2 \<le> i \<and> i < 1024}"
proof -
  have "max_blocks big_pmm = 1024" by (simp add: big_pmm_def)
  then show "used_frames big_pmm = {i. i < 2}" "free_frames big_pmm = {i. 2 \<le> i \<and> i < 1024}"
    by (auto simp add: used_frames_def free_frames_def big_used not_less word_less_nat_alt word_le_nat_alt)
qed

lemma big_pmm_inv: "pmm_inv big_pmm"
proof -
  have f: "max_blocks big_pmm = 1024" "used_blocks big_pmm = 2" "last_allocated_bit big_pmm = 0" "n_words big_pmm = 32"
    by (simp_all add: n_words_def big_pmm_def)
  show ?thesis unfolding pmm_inv_def big_frames card_below f by auto
qed

lemma big_heap_is: "heap_is 0xD0000000 [] (38 + 1) big_heap"
proof -
  have "0 \<notin> free_frames big_pmm" "1 \<notin> free_frames big_pmm" by (simp_all add: big_frames word_le_nat_alt)
  from sample_vm_inv_pool [OF big_pmm_inv this] have "vm_inv (sample_mm\<lparr>pmm := big_pmm\<rparr>)" .
  moreover have "\<forall>a \<in> region 0xD0000000 HEAP_LIMIT. mmu sample_mm a = None"
    using region_dir [OF _ order_refl] sample_unmapped by blast
  ultimately have "heap_inv 0xD0000000 [] (\<lambda>_. 0) big_heap"
    by (auto simp add: heap_inv_def heap_mem_def list_ok_def sample_heap_def big_heap_def mapped_region_def region_def HEAP_LIMIT_def)
  moreover have "heap_room (38 + 1) big_heap"
    by (simp add: heap_room_def big_heap_def sample_heap_def heap_reserve_def big_frames card_interval HEAP_LIMIT_def)
  ultimately show ?thesis by (auto simp add: heap_is_def)
qed

theorem kmalloc_run_test_passes_witness:
  "\<exists>h'. kmalloc_run_test big_heap = Some (Inr h') \<and> heap_is 0xD0000000 [(155648, True)] 1 h'"
  by (rule kmalloc_run_test_passes [OF big_heap_is])

lemma fold_buffer: "fold (\<lambda>i b. b(i := of_nat i)) xs s = (\<lambda>i. if i \<in> set xs then of_nat i else s i)"
  by (induction xs arbitrary: s) auto

text \<open>The self test of the disk passes on a drive without errors.\<close>

lemma ata_test_passes:
  assumes "ata_drive dev d"
  shows "\<exists>tr'. ata_test dev stack tr = Some (Inr tr')"
proof -
  define b where "b = fold (\<lambda>i b. b(i := of_nat i)) [0..<512] stack"
  obtain tr1 where 1: "write_sectors dev 2 2 b tr = Some (Inr tr1)" "d_words (disk_after tr1 d)
    = (\<lambda>j. if lba_word 2 \<le> j \<and> j < lba_word 2 + word_count 2 then b (j - lba_word 2) else d_words (disk_after tr d) j)"
    using write_sectors_ok [OF assms] by blast
  obtain b' tr2 where 2: "read_sectors dev 2 2 (\<lambda>i. 0) tr1 = Some (Inr (b', tr2))"
    "\<forall>j. b' j = (if j < word_count 2 then d_words (disk_after tr1 d) (lba_word 2 + j) else 0)"
    using read_sectors_ok [OF assms, of 2 2 "\<lambda>i. 0" tr1] by blast
  have "unat (b' i) = i" if "i < 512" for i
    using that 2(2) unfolding 1(2) by (simp add: b_def fold_buffer word_count_def sector_counts_nat unat_of_nat)
  then have "\<not> list_ex (\<lambda>i. unat (b' i) \<noteq> i) [0..<512]" by (auto simp add: list_ex_iff)
  then show ?thesis using 1(1) 2(1) unfolding ata_test_def Let_def b_def [symmetric] by simp
qed

end
