(* ===== verification/Handlers.thy ===== *)
theory Handlers
  imports Stdio_Props
begin

text \<open>
  The interrupt handlers that print: the keyboard (\<open>src/src/drivers/keyboard.c\<close>), the dispatch of interrupt requests and
  exceptions (\<open>src/src/arch/i386/idt.c\<close>), and the screen a panic leaves (\<open>src/src/kernel/panic.c\<close>).
\<close>

section \<open>Handlers\<close>

definition kbd_US :: "u8 list" where
  "kbd_US = [0, 27] @ map of_char (''1234567890-='') @ [8, 9] @ map of_char (''qwertyuiop[]'') @ [10, 0] @ map of_char (''asdfghjkl;'') @ [39, 96, 0, 92]
     @ map of_char (''zxcvbnm,./'') @ [0, 42, 0, 32, 0, 0, 0, 0, 0, 0, 0, 0, 0, 0, 0, 0, 0, 0, 0, 0, 45] @ replicate 53 0"

definition keyboard_handler :: "device \<Rightarrow> console \<Rightarrow> console option" where
  "keyboard_handler dev s =
     (let (scancode, p) = inb dev 0x60 (ports s);
          s1 = s\<lparr>ports := p\<rparr>
      in if scancode AND 0x80 = 0 then
           Option.bind (buf_get kbd_US (unat scancode)) (\<lambda>c.
             if c \<noteq> 0 then printf (cstr ''%s'') [Va_Str [c, 0]] s1 else Some s1)
         else Some s1)"

text \<open>\<open>panic\<close> never returns; this is the screen it halts with. The message is passed as a format string without arguments.\<close>

definition panic_screen :: "u8 list \<Rightarrow> console \<Rightarrow> console option" where
  "panic_screen message s0 =
     (let s = vga_set_color FB_RED FB_BLACK s0
      in Option.bind (printf ([10] @ map of_char ''========================================'' @ [10, 0]) [] s) (\<lambda>s1.
         Option.bind (printf (map of_char ''              KERNEL PANIC              '' @ [10, 0]) [] s1) (\<lambda>s2.
         Option.bind (printf (map of_char ''========================================'' @ [10, 0]) [] s2) (\<lambda>s3.
         Option.bind (printf (cstr ''FATAL ERROR: '') [] s3) (\<lambda>s4.
         Option.bind (printf message [] s4) (\<lambda>s5.
         printf ([10, 10] @ cstr ''System halted. Please restart.'') [] s5))))))"

text \<open>The handler of processor exceptions; the faulting address is what the control register \<open>cr2\<close> holds.\<close>

definition exception_handler :: "u32 \<Rightarrow> u32 \<Rightarrow> u32 \<Rightarrow> console \<Rightarrow> console option" where
  "exception_handler cr2 interrupt_num error_code s =
     Option.bind
       (if interrupt_num = 14 then
          Option.bind (printf ([10] @ map of_char ''Page Fault at Virtual Address: 0x%x'' @ [10, 0]) [Va_Int cr2] s) (\<lambda>s1.
          Option.bind (if error_code AND 0x1 = 0 then printf (map of_char ''Page not present'' @ [10, 0]) [] s1
                       else printf (map of_char ''Page protection violation'' @ [10, 0]) [] s1) (\<lambda>s2.
          Option.bind (if error_code AND 0x2 = 2 then printf (map of_char ''Action: Write'' @ [10, 0]) [] s2
                       else printf (map of_char ''Action: Read'' @ [10, 0]) [] s2) (\<lambda>s3.
          if error_code AND 0x4 = 4 then printf (map of_char ''User Mode'' @ [10, 0]) [] s3
          else printf (map of_char ''Kernel Mode'' @ [10, 0]) [] s3)))
        else printf ([10] @ map of_char ''KERNEL PANIC! CPU EXCEPTION: %d'' @ [10] @ map of_char ''ERROR CODE: 0x%x'' @ [10, 0])
               [Va_Int interrupt_num, Va_Int error_code] s)
       (panic_screen (cstr ''Unhandled Hardware Exception!''))"

definition irq_handler :: "device \<Rightarrow> u32 \<Rightarrow> console \<Rightarrow> console option" where
  "irq_handler dev irq s =
     Option.bind (if irq = 1 then keyboard_handler dev s else Some s) (\<lambda>s1.
     let s2 = (if irq \<ge> 8 then s1\<lparr>ports := outb 0xA0 0x20 (ports s1)\<rparr> else s1)
     in Some (s2\<lparr>ports := outb 0x20 0x20 (ports s2)\<rparr>))"

text \<open>The key pressed, as the bytes to print.\<close>

definition key_text :: "u8 \<Rightarrow> u8 list" where
  "key_text scancode = (if scancode AND 0x80 = 0 \<and> kbd_US ! unat scancode \<noteq> 0 then [kbd_US ! unat scancode] else [])"

text \<open>What a panic prints after its colour is set.\<close>

definition panic_text :: "u8 list \<Rightarrow> u8 list" where
  "panic_text m = [10] @ map of_char ''========================================'' @ [10] @ map of_char ''              KERNEL PANIC              '' @ [10]
     @ map of_char ''========================================'' @ [10] @ map of_char ''FATAL ERROR: '' @ m @ [10, 10] @ map of_char ''System halted. Please restart.''"

section \<open>Lemmas\<close>

lemma kbd_US_length: "length kbd_US = 128"
  by (simp add: kbd_US_def)

lemma kbd_no_EOF: "c \<in> set kbd_US \<Longrightarrow> c \<noteq> 0xFF"
  by (auto simp add: kbd_US_def)

lemma low_byte:
  fixes c :: u8
  assumes "c AND 0x80 = 0"
  shows "unat c < 128"
proof -
  have "c AND 2 ^ 7 = 0" using assms by simp
  then have n: "\<not> bit c 7" by (simp only: and_exp_eq_0_iff_not_bit simp_thms)
  have "take_bit 7 c = c"
  proof (rule bit_word_eqI)
    fix i assume "i < LENGTH(8)"
    then have "i < 7 \<or> i = 7" by auto
    then show "bit (take_bit 7 c) i = bit c i" using n by (auto simp add: bit_take_bit_iff)
  qed
  then have "unat c = take_bit 7 (unat c)" by (metis unsigned_take_bit_eq)
  also have "\<dots> < 2 ^ 7" by (rule take_bit_nat_less_exp)
  finally show ?thesis by simp
qed

lemma keyboard_prints:
  "keyboard_handler dev s = Some (fold vga_putchar (key_text (port_b dev (ports s) 0x60)) (s\<lparr>ports := ports s @ [In_b 0x60 (port_b dev (ports s) 0x60)]\<rparr>))"
proof -
  let ?c = "port_b dev (ports s) 0x60"
  have r: "render (cstr ''%s'') [Va_Str [k, 0]] = Some [k]" if "k \<noteq> 0" "k \<noteq> 0xFF" for k using that by (simp add: cstr_def)
  have g: "buf_get kbd_US (unat ?c) = Some (kbd_US ! unat ?c)" "kbd_US ! unat ?c \<noteq> 0xFF" if "?c AND 0x80 = 0"
  proof -
    have "unat ?c < length kbd_US" using low_byte [OF that] by (simp add: kbd_US_length)
    then show "buf_get kbd_US (unat ?c) = Some (kbd_US ! unat ?c)" "kbd_US ! unat ?c \<noteq> 0xFF"
      using kbd_no_EOF nth_mem by (auto simp add: buf_get_def)
  qed
  show ?thesis
  proof (cases "?c AND 0x80 = 0")
    case True
    then show ?thesis using g r [of "kbd_US ! unat ?c"]
      by (simp add: keyboard_handler_def inb_def key_text_def printf_def Let_def printf_from_render [of "[]", simplified])
  next
    case False
    then show ?thesis by (simp add: keyboard_handler_def inb_def key_text_def Let_def)
  qed
qed

lemma panic_screen_eq:
  "panic_screen message s = map_option (\<lambda>m. fold vga_putchar (panic_text m) (vga_set_color FB_RED FB_BLACK s)) (render message [])"
proof -
  have "render ([10] @ map of_char ''========================================'' @ [10, 0]) [] = Some ([10] @ map of_char ''========================================'' @ [10])"
    "render (map of_char ''              KERNEL PANIC              '' @ [10, 0]) [] = Some (map of_char ''              KERNEL PANIC              '' @ [10])"
    "render (map of_char ''========================================'' @ [10, 0]) [] = Some (map of_char ''========================================'' @ [10])"
    "render (cstr ''FATAL ERROR: '') [] = Some (map of_char ''FATAL ERROR: '')"
    "render ([10, 10] @ cstr ''System halted. Please restart.'') [] = Some ([10, 10] @ map of_char ''System halted. Please restart.'')"
    by (simp_all add: cstr_def)
  then show ?thesis unfolding panic_screen_def Let_def printf_eq panic_text_def
    by (cases "render message []") simp_all
qed

end
