(* ===== verification/Descriptors.thy ===== *)
theory Descriptors
  imports Io
begin

text \<open>
  The descriptor tables of the processor and the interrupt controllers (\<open>src/src/arch/i386/gdt.c\<close>, \<open>idt.c\<close>, \<open>pic.c\<close>), and how
  the hardware reads them. The addresses of the interrupt stubs, which the linker chooses, are parameters; \<open>lgdt\<close> and \<open>lidt\<close> load registers of
  the state.
\<close>

section \<open>Descriptor tables\<close>

record gdt_entry =
  limit :: u16
  base_low :: u16
  base_middle :: u8
  access :: u8
  flags :: u8
  base_high :: u8

record gdt_ptr =
  gdt_limit :: u16
  gdt_base :: u32

record gdt_state =
  gdt_entries :: "nat \<Rightarrow> gdt_entry"
  gdt_register :: gdt_ptr

definition setGdtGate :: "u32 \<Rightarrow> u32 \<Rightarrow> u32 \<Rightarrow> u8 \<Rightarrow> u8 \<Rightarrow> gdt_state \<Rightarrow> gdt_state" where
  "setGdtGate num b l acc gran g =
     (let e = gdt_entries g (unat num);
          e1 = e\<lparr>base_low := ucast (b AND 0xFFFF)\<rparr>;
          e2 = e1\<lparr>base_middle := ucast (drop_bit 16 b AND 0xFF)\<rparr>;
          e3 = e2\<lparr>base_high := ucast (drop_bit 24 b AND 0xFF)\<rparr>;
          e4 = e3\<lparr>limit := ucast (l AND 0xFFFF)\<rparr>;
          e5 = e4\<lparr>flags := ucast (drop_bit 16 l AND 0x0F)\<rparr>;
          e6 = e5\<lparr>flags := flags e5 OR (gran AND 0xF0)\<rparr>;
          e7 = e6\<lparr>access := acc\<rparr>
      in g\<lparr>gdt_entries := (gdt_entries g)(unat num := e7)\<rparr>)"

definition initGdt :: "u32 \<Rightarrow> gdt_state \<Rightarrow> gdt_state" where
  "initGdt addr_gdt_entries g =
     (let ptr = \<lparr>gdt_limit = (8 * 5) - 1, gdt_base = addr_gdt_entries\<rparr>;
          g1 = setGdtGate 0 0 0 0 0 g;
          g2 = setGdtGate 1 0 0xFFFFFFF 0x9A 0xCF g1;
          g3 = setGdtGate 2 0 0xFFFFFFF 0x92 0xCF g2;
          g4 = setGdtGate 3 0 0xFFFFFFF 0xFA 0xCF g3;
          g5 = setGdtGate 4 0 0xFFFFFFF 0xF2 0xCF g4
      in g5\<lparr>gdt_register := ptr\<rparr>)"

text \<open>How the processor reads a segment descriptor.\<close>

definition segment_base :: "gdt_entry \<Rightarrow> u32" where
  "segment_base e = ucast (base_low e) OR push_bit 16 (ucast (base_middle e)) OR push_bit 24 (ucast (base_high e))"

definition segment_limit :: "gdt_entry \<Rightarrow> u32" where
  "segment_limit e = (let l = ucast (limit e) OR push_bit 16 (ucast (flags e AND 0x0F))
     in if bit (flags e) 7 then push_bit 12 l OR 0xFFF else l)"

definition segment_ring :: "gdt_entry \<Rightarrow> u8" where
  "segment_ring e = drop_bit 5 (access e) AND 3"

definition segment_code :: "gdt_entry \<Rightarrow> bool" where
  "segment_code e \<longleftrightarrow> bit (access e) 3"

definition segment_present :: "gdt_entry \<Rightarrow> bool" where
  "segment_present e \<longleftrightarrow> bit (access e) 7"

record idt_entry =
  isr_low :: u16
  kernel_cs :: u16
  reserved :: u8
  attributes :: u8
  isr_high :: u16

record idt_state =
  idt :: "u8 \<Rightarrow> idt_entry"
  vectors :: "u8 \<Rightarrow> bool"
  idtr_limit :: u16
  idtr_base :: u32
  idt_ports :: io_log
  interrupts_on :: bool

definition KEYBOARD_VECTOR :: u8 where "KEYBOARD_VECTOR = 33"
definition SPURIOUS_INTERRUPTS_VECTOR :: u8 where "SPURIOUS_INTERRUPTS_VECTOR = 39"
definition SLAVE_INTERRUPTS_VECTOR :: u8 where "SLAVE_INTERRUPTS_VECTOR = 47"
definition APIC_VECTOR :: u8 where "APIC_VECTOR = 200"

definition idt_set_descriptor :: "u8 \<Rightarrow> u32 \<Rightarrow> u8 \<Rightarrow> idt_state \<Rightarrow> idt_state" where
  "idt_set_descriptor vector isr fl s =
     s\<lparr>idt := (idt s)(vector := \<lparr>isr_low = ucast (isr AND 0xFFFF), kernel_cs = 0x08, reserved = 0, attributes = fl,
                                isr_high = ucast (drop_bit 16 isr)\<rparr>)\<rparr>"

definition PIC1_COMMAND :: u16 where "PIC1_COMMAND = 0x20"
definition PIC1_DATA :: u16 where "PIC1_DATA = 0x21"
definition PIC2_COMMAND :: u16 where "PIC2_COMMAND = 0xA0"
definition PIC2_DATA :: u16 where "PIC2_DATA = 0xA1"
definition ICW1_INIT :: u8 where "ICW1_INIT = 0x10"
definition ICW1_ICW4 :: u8 where "ICW1_ICW4 = 0x01"
definition ICW4_8086 :: u8 where "ICW4_8086 = 0x01"

definition pic_remap :: "device \<Rightarrow> u8 \<Rightarrow> u8 \<Rightarrow> io_log \<Rightarrow> io_log" where
  "pic_remap dev offset1 offset2 tr0 =
     (let (a1, tr1) = inb dev PIC1_DATA tr0;
          (a2, tr2) = inb dev PIC2_DATA tr1;
          tr3 = outb PIC1_COMMAND (ICW1_INIT OR ICW1_ICW4) tr2;
          tr4 = outb PIC2_COMMAND (ICW1_INIT OR ICW1_ICW4) tr3;
          tr5 = outb PIC1_DATA offset1 tr4;
          tr6 = outb PIC2_DATA offset2 tr5;
          tr7 = outb PIC1_DATA 4 tr6;
          tr8 = outb PIC2_DATA 2 tr7;
          tr9 = outb PIC1_DATA ICW4_8086 tr8;
          tr10 = outb PIC2_DATA ICW4_8086 tr9;
          tr11 = outb PIC1_DATA a1 tr10;
          tr12 = outb PIC2_DATA a2 tr11;
          tr13 = outb 0x21 0xFD tr12
      in outb 0xA1 0xFF tr13)"

text \<open>The entry points of the assembly stubs, whose addresses the linker chooses.\<close>

record isr_addresses =
  isr_stub_table :: "u8 \<Rightarrow> u32"
  irq_stub_1 :: u32
  isr_apic_timer :: u32
  isr_spurious :: u32
  addr_idt :: u32

function install_stubs :: "u8 \<Rightarrow> isr_addresses \<Rightarrow> idt_state \<Rightarrow> idt_state" where
  "install_stubs vector isrs s =
     (if vector < 32 then
        let s1 = idt_set_descriptor vector (isr_stub_table isrs vector) 0x8E s
        in install_stubs (vector + 1) isrs (s1\<lparr>vectors := (vectors s1)(vector := True)\<rparr>)
      else s)"
  by pat_completeness auto
termination
  by (relation "measure (\<lambda>(v, i, s). 32 - unat v)") (auto simp add: word_less_nat_alt unat_word_ariths)

definition idt_init :: "device \<Rightarrow> isr_addresses \<Rightarrow> idt_state \<Rightarrow> idt_state" where
  "idt_init dev isrs s =
     (let base = addr_idt isrs;
          lim = 8 * 256 - 1;
          s1 = install_stubs 0 isrs s;
          s2 = s1\<lparr>idt_ports := pic_remap dev 0x20 0x28 (idt_ports s1)\<rparr>;
          s3 = idt_set_descriptor APIC_VECTOR (isr_apic_timer isrs) 0x8E s2;
          s4 = idt_set_descriptor SPURIOUS_INTERRUPTS_VECTOR (isr_spurious isrs) 0x8E s3;
          s5 = idt_set_descriptor KEYBOARD_VECTOR (irq_stub_1 isrs) 0x8E s4;
          s6 = idt_set_descriptor SLAVE_INTERRUPTS_VECTOR (isr_spurious isrs) 0x8E s5;
          s7 = s6\<lparr>idtr_limit := lim, idtr_base := base\<rparr>;
          (_, tr) = inb dev 0x60 (idt_ports s7)
      in s7\<lparr>idt_ports := tr, interrupts_on := True\<rparr>)"

text \<open>How the processor reads an interrupt gate.\<close>

definition gate_target :: "idt_entry \<Rightarrow> u32" where
  "gate_target e = ucast (isr_low e) OR push_bit 16 (ucast (isr_high e))"

definition interrupt_gate :: "u32 \<Rightarrow> idt_entry \<Rightarrow> bool" where
  "interrupt_gate a e \<longleftrightarrow> gate_target e = a \<and> kernel_cs e = 0x08 \<and> attributes e = 0x8E \<and> reserved e = 0"

text \<open>Where each vector goes after \<open>idt_init\<close>; the rest have no handler of their own.\<close>

definition handler_of :: "isr_addresses \<Rightarrow> u8 \<Rightarrow> u32 option" where
  "handler_of isrs v =
     (if v < 32 then Some (isr_stub_table isrs v) else if v = 33 then Some (irq_stub_1 isrs)
      else if v = 39 \<or> v = 47 then Some (isr_spurious isrs) else if v = 200 then Some (isr_apic_timer isrs) else None)"

text \<open>The interrupt controllers as their data sheet describes the initialisation sequence: the writes to the data port after a
  command with the initialisation bit are the vector offset, the cascade wiring and the mode, later ones the mask.\<close>

record pic_chip =
  pic_offset :: u8
  pic_mask :: u8
  pic_phase :: nat

definition pic_data :: "u8 \<Rightarrow> pic_chip \<Rightarrow> pic_chip" where
  "pic_data v c = (if pic_phase c = 0 then c\<lparr>pic_mask := v\<rparr> else if pic_phase c = 1 then c\<lparr>pic_offset := v, pic_phase := 2\<rparr>
     else if pic_phase c = 2 then c\<lparr>pic_phase := 3\<rparr> else c\<lparr>pic_phase := 0\<rparr>)"

definition pic_command :: "u8 \<Rightarrow> pic_chip \<Rightarrow> pic_chip" where
  "pic_command v c = (if v AND ICW1_INIT \<noteq> 0 then c\<lparr>pic_phase := 1\<rparr> else c)"

fun pic_view :: "u16 \<Rightarrow> u16 \<Rightarrow> io_log \<Rightarrow> pic_chip \<Rightarrow> pic_chip" where
  "pic_view cmd dat [] c = c"
| "pic_view cmd dat (Out_b p v # tr) c = pic_view cmd dat tr (if p = cmd then pic_command v c else if p = dat then pic_data v c else c)"
| "pic_view cmd dat (_ # tr) c = pic_view cmd dat tr c"

section \<open>Lemmas\<close>

declare install_stubs.simps [simp del]

end
