(* ===== verification/Descriptor_Props.thy ===== *)
theory Descriptor_Props
  imports Descriptors
begin

text \<open>
  What the tables mean to the processor after the initialisation.
\<close>

section \<open>Lemmas\<close>

lemma mask_constants:
  "x AND 0xFFFF = take_bit 16 x" "x AND 0xFF = take_bit 8 x" "x AND 0x0F = take_bit 4 x" for x :: "'a::len word"
  by (simp_all add: take_bit_eq_mask mask_eq_decr_exp)

lemma high_nibble: "(0xF0 :: u8) = NOT (mask 4)"
  by (simp add: mask_eq_decr_exp)

lemma base_parts:
  "ucast (ucast (take_bit 16 b) :: u16) OR push_bit 16 (ucast (ucast (take_bit 8 (drop_bit 16 b)) :: u8))
     OR push_bit 24 (ucast (ucast (take_bit 8 (drop_bit 24 b)) :: u8)) = b" (is "?l = b") for b :: u32
proof (rule bit_word_eqI)
  fix n assume "n < LENGTH(32)"
  then consider "n < 16" | "16 \<le> n" "n < 24" | "24 \<le> n" "n < 32" by fastforce
  then show "bit ?l n = bit b n" by cases (auto simp add: bit_simps)
qed

lemma limit_parts:
  "ucast (ucast (take_bit 16 l) :: u16) OR push_bit 16 (ucast (take_bit 4 ((ucast (take_bit 4 (drop_bit 16 l)) :: u8) OR (g AND NOT (mask 4))))) = take_bit 20 l"
  for l :: u32
  by (rule bit_word_eqI) (auto simp add: bit_simps)

lemma flag_parts: "((ucast (take_bit 4 x) :: u8) OR (g AND NOT (mask 4))) AND NOT (mask 4) = g AND NOT (mask 4)" for x :: u32
  by (rule bit_word_eqI) (auto simp add: bit_simps)

lemma isr_parts: "ucast (ucast (take_bit 16 a) :: u16) OR push_bit 16 (ucast (ucast (drop_bit 16 a) :: u16)) = a" for a :: u32
  by (rule bit_word_eqI) (auto simp add: bit_simps)

lemma gate_entry:
  fixes e and l b num :: u32 and acc gran :: u8 and g :: gdt_state
  defines "e \<equiv> gdt_entries (setGdtGate num b l acc gran g) (unat num)"
  shows "segment_base e = b" "access e = acc" "flags e AND 0xF0 = gran AND 0xF0"
    "ucast (limit e) OR push_bit 16 (ucast (flags e AND 0x0F)) = take_bit 20 l"
proof -
  have f: "base_low e = ucast (take_bit 16 b)" "base_middle e = ucast (take_bit 8 (drop_bit 16 b))" "base_high e = ucast (take_bit 8 (drop_bit 24 b))"
    "limit e = ucast (take_bit 16 l)" "flags e = ucast (take_bit 4 (drop_bit 16 l)) OR (gran AND NOT (mask 4))" "access e = acc"
    unfolding e_def setGdtGate_def Let_def mask_constants high_nibble by simp_all
  show "segment_base e = b" unfolding segment_base_def f by (rule base_parts)
  show "access e = acc" by (rule f)
  show "flags e AND 0xF0 = gran AND 0xF0" unfolding f high_nibble by (rule flag_parts)
  show "ucast (limit e) OR push_bit 16 (ucast (flags e AND 0x0F)) = take_bit 20 l" unfolding f mask_constants by (rule limit_parts)
qed

lemma flat_limit: "push_bit 12 (take_bit 20 (0xFFFFFFF :: u32)) OR 0xFFF = 0xFFFFFFFF"
  by (simp add: take_bit_eq_mask mask_eq_decr_exp push_bit_eq_mult)

lemma gate_limit:
  fixes e and l b num :: u32 and acc gran :: u8 and g :: gdt_state
  defines "e \<equiv> gdt_entries (setGdtGate num b l acc gran g) (unat num)"
  shows "segment_limit e = (if bit gran 7 then push_bit 12 (take_bit 20 l) OR 0xFFF else take_bit 20 l)"
proof -
  have "bit (flags e AND 0xF0) 7 = bit (gran AND 0xF0) 7" unfolding e_def gate_entry(3) ..
  then have "bit (flags e) 7 = bit gran 7" by (simp add: high_nibble bit_simps)
  then show ?thesis unfolding segment_limit_def Let_def unfolding e_def gate_entry(4) by simp
qed

lemma gate_other: "i \<noteq> unat num \<Longrightarrow> gdt_entries (setGdtGate num b l acc gran g) i = gdt_entries g i"
  by (simp add: setGdtGate_def Let_def)

text \<open>The four segments of the table, as the processor reads them.\<close>

lemma init_segments:
  "map (\<lambda>i. let e = gdt_entries (initGdt a g) i in (segment_base e, segment_limit e, segment_present e, segment_ring e, segment_code e)) [0, 1, 2, 3, 4]
     = [(0, 0, False, 0, False), (0, 0xFFFFFFFF, True, 0, True), (0, 0xFFFFFFFF, True, 0, False), (0, 0xFFFFFFFF, True, 3, True), (0, 0xFFFFFFFF, True, 3, False)]"
proof -
  let ?e = "\<lambda>i. gdt_entries (initGdt a g) i"
  have n: "unat (0 :: u32) = 0" "unat (1 :: u32) = 1" "unat (2 :: u32) = 2" "unat (3 :: u32) = 3" "unat (4 :: u32) = 4" by simp_all
  have bits: "\<not> bit (0 :: u8) 7" "bit (0xCF :: u8) 7" by (simp_all add: bit_iff_odd)
  obtain g0 g1 g2 g3 where e: "?e 4 = gdt_entries (setGdtGate 4 0 0xFFFFFFF 0xF2 0xCF g3) (unat (4 :: u32))"
    "?e 3 = gdt_entries (setGdtGate 3 0 0xFFFFFFF 0xFA 0xCF g2) (unat (3 :: u32))" "?e 2 = gdt_entries (setGdtGate 2 0 0xFFFFFFF 0x92 0xCF g1) (unat (2 :: u32))"
    "?e 1 = gdt_entries (setGdtGate 1 0 0xFFFFFFF 0x9A 0xCF g0) (unat (1 :: u32))" "?e 0 = gdt_entries (setGdtGate 0 0 0 0 0 g) (unat (0 :: u32))"
    unfolding initGdt_def Let_def by (simp add: gate_other n)
  have "(segment_base (?e 0), segment_limit (?e 0), access (?e 0)) = (0, 0, 0)" unfolding e gate_entry gate_limit using bits by simp
  moreover have "segment_base (?e 1) = 0" "segment_base (?e 2) = 0" "segment_base (?e 3) = 0" "segment_base (?e 4) = 0" unfolding e gate_entry by simp_all
  moreover have "segment_limit (?e 1) = 0xFFFFFFFF" "segment_limit (?e 2) = 0xFFFFFFFF" "segment_limit (?e 3) = 0xFFFFFFFF" "segment_limit (?e 4) = 0xFFFFFFFF"
    unfolding e gate_limit using bits(2) flat_limit by simp_all
  moreover have "access (?e 1) = 0x9A" "access (?e 2) = 0x92" "access (?e 3) = 0xFA" "access (?e 4) = 0xF2" unfolding e gate_entry by simp_all
  moreover have "\<not> bit (0 :: u8) 3" "bit (0x9A :: u8) 7" "bit (0x9A :: u8) 3" "bit (0x92 :: u8) 7" "\<not> bit (0x92 :: u8) 3" "bit (0xFA :: u8) 7" "bit (0xFA :: u8) 3"
    "bit (0xF2 :: u8) 7" "\<not> bit (0xF2 :: u8) 3" by (simp_all add: bit_iff_odd)
  moreover have "drop_bit 5 (0x9A :: u8) AND 3 = 0" "drop_bit 5 (0x92 :: u8) AND 3 = 0" "drop_bit 5 (0xFA :: u8) AND 3 = 3" "drop_bit 5 (0xF2 :: u8) AND 3 = 3"
    by (simp_all add: drop_bit_eq_div)
  ultimately show "map (\<lambda>i. let e = gdt_entries (initGdt a g) i in (segment_base e, segment_limit e, segment_present e, segment_ring e, segment_code e)) [0, 1, 2, 3, 4]
       = [(0, 0, False, 0, False), (0, 0xFFFFFFFF, True, 0, True), (0, 0xFFFFFFFF, True, 0, False), (0, 0xFFFFFFFF, True, 3, True), (0, 0xFFFFFFFF, True, 3, False)]"
    unfolding Let_def segment_present_def segment_ring_def segment_code_def by (simp add: bits(1))
qed

text \<open>
  \<open>setGdtGate\<close> encodes a segment so that the processor decodes it as asked: base and access byte exactly, the limit to its twenty bits, the
  flags to their upper half; other entries stay. After \<open>initGdt\<close> the table has a null entry and four present segments that span all
  four gigabytes, code and data for ring 0 and for ring 3, although the limit is written with a digit short of 32 bits.
\<close>

theorem gdt_decodes:
  "let e = gdt_entries (setGdtGate num b l acc gran g) (unat num)
   in segment_base e = b \<and> access e = acc \<and> flags e AND 0xF0 = gran AND 0xF0
     \<and> segment_limit e = (if bit gran 7 then push_bit 12 (take_bit 20 l) OR 0xFFF else take_bit 20 l)
     \<and> (i = unat num \<or> gdt_entries (setGdtGate num b l acc gran g) i = gdt_entries g i)
     \<and> map (\<lambda>i. let e = gdt_entries (initGdt a g) i in (segment_base e, segment_limit e, segment_present e, segment_ring e, segment_code e)) [0, 1, 2, 3, 4]
       = [(0, 0, False, 0, False), (0, 0xFFFFFFFF, True, 0, True), (0, 0xFFFFFFFF, True, 0, False), (0, 0xFFFFFFFF, True, 3, True), (0, 0xFFFFFFFF, True, 3, False)]"
  using gate_entry [of num b l acc gran g] gate_limit [of num b l acc gran g] gate_other [of i num b l acc gran g] init_segments [of a g] unfolding Let_def by blast

lemma set_descriptor_gate:
  "interrupt_gate isr (idt (idt_set_descriptor v isr 0x8E s) v)" "u \<noteq> v \<Longrightarrow> idt (idt_set_descriptor v isr fl s) u = idt s u"
  "idt_ports (idt_set_descriptor v isr fl s) = idt_ports s" "vectors (idt_set_descriptor v isr fl s) = vectors s"
  by (simp_all add: interrupt_gate_def idt_set_descriptor_def gate_target_def mask_constants isr_parts)

lemma install_stubs_gates:
  "v \<le> 32 \<Longrightarrow> (\<forall>u. (v \<le> u \<and> u < 32 \<longrightarrow> interrupt_gate (isr_stub_table isrs u) (idt (install_stubs v isrs s) u) \<and> vectors (install_stubs v isrs s) u)
     \<and> (\<not> (v \<le> u \<and> u < 32) \<longrightarrow> idt (install_stubs v isrs s) u = idt s u \<and> vectors (install_stubs v isrs s) u = vectors s u))
   \<and> idt_ports (install_stubs v isrs s) = idt_ports s"
proof (induction v isrs s rule: install_stubs.induct)
  case (1 v isrs s)
  show ?case
  proof (cases "v < 32")
    case True
    define s1 where "s1 = (idt_set_descriptor v (isr_stub_table isrs v) 0x8E s)\<lparr>vectors := (vectors s)(v := True)\<rparr>"
    have f: "interrupt_gate (isr_stub_table isrs v) (idt s1 v)" "\<And>u. u \<noteq> v \<Longrightarrow> idt s1 u = idt s u" "vectors s1 = (vectors s)(v := True)" "idt_ports s1 = idt_ports s"
      by (simp_all add: s1_def set_descriptor_gate)
    have st: "install_stubs v isrs s = install_stubs (v + 1) isrs s1"
      using True by (subst install_stubs.simps) (simp add: s1_def set_descriptor_gate Let_def)
    have le: "v + 1 \<le> u \<longleftrightarrow> v \<le> u \<and> u \<noteq> v" for u using word_succ_le_iff [OF True, of u] by auto
    have "v + 1 \<le> 32" using True by (rule word_succ_le)
    from 1(1) [OF True _ this, of "idt_set_descriptor v (isr_stub_table isrs v) 0x8E s"] show ?thesis
      unfolding st using f True unfolding le by (simp add: s1_def [symmetric] set_descriptor_gate)
  next
    case False
    then show ?thesis by (subst (1 2 3 4 5) install_stubs.simps) auto
  qed
qed

lemma pic_remap_trace:
  "\<exists>a1 a2. pic_remap dev o1 o2 tr = tr @ [In_b 0x21 a1, In_b 0xA1 a2, Out_b 0x20 0x11, Out_b 0xA0 0x11, Out_b 0x21 o1, Out_b 0xA1 o2, Out_b 0x21 4, Out_b 0xA1 2,
     Out_b 0x21 1, Out_b 0xA1 1, Out_b 0x21 a1, Out_b 0xA1 a2, Out_b 0x21 0xFD, Out_b 0xA1 0xFF]"
  by (simp add: pic_remap_def Let_def inb_def outb_def PIC1_COMMAND_def PIC1_DATA_def PIC2_COMMAND_def PIC2_DATA_def ICW1_INIT_def ICW1_ICW4_def ICW4_8086_def)

lemma idt_init_gates:
  "case handler_of isrs v of Some a \<Rightarrow> interrupt_gate a (idt (idt_init dev isrs s) v) | None \<Rightarrow> idt (idt_init dev isrs s) v = idt s v"
proof -
  define s1 where "s1 = install_stubs 0 isrs s"
  have s1: "v < 32 \<Longrightarrow> interrupt_gate (isr_stub_table isrs v) (idt s1 v)" "\<not> v < 32 \<Longrightarrow> idt s1 v = idt s v"
    using install_stubs_gates [of 0 isrs s] unfolding s1_def by auto
  have i: "idt (idt_init dev isrs s) = idt (idt_set_descriptor 47 (isr_spurious isrs) 0x8E (idt_set_descriptor 33 (irq_stub_1 isrs) 0x8E
      (idt_set_descriptor 39 (isr_spurious isrs) 0x8E (idt_set_descriptor 200 (isr_apic_timer isrs) 0x8E s1))))"
    unfolding idt_init_def Let_def s1_def
    by (simp add: inb_def Let_def KEYBOARD_VECTOR_def SPURIOUS_INTERRUPTS_VECTOR_def SLAVE_INTERRUPTS_VECTOR_def APIC_VECTOR_def idt_set_descriptor_def)
  consider "v < 32" | "v = 33" | "v = 39" | "v = 47" | "v = 200" | "handler_of isrs v = None" "\<not> v < 32" "v \<noteq> 33" "v \<noteq> 39" "v \<noteq> 47" "v \<noteq> 200"
    unfolding handler_of_def by auto
  then show ?thesis
  proof cases
    case 1
    then have "v \<noteq> 33" "v \<noteq> 39" "v \<noteq> 47" "v \<noteq> 200" by auto
    with 1 s1(1) show ?thesis unfolding i by (simp add: handler_of_def set_descriptor_gate(2))
  qed (unfold i, use s1(2) in \<open>simp_all add: handler_of_def set_descriptor_gate(1,2)\<close>)
qed

text \<open>
  C36: After \<open>idt_init\<close> every exception vector leads to its assembly stub, vector 33 to the keyboard stub, 39 and 47 to the spurious
  one and 200 to the timer, all as present 32-bit interrupt gates of ring 0 in the kernel code segment; no other gate is touched. The two
  interrupt controllers, read as their data sheet describes them, end with the vector offsets 32 and 40, so that none of their interrupts
  falls on an exception, and with all lines masked but the keyboard's; interrupts are enabled.
\<close>

theorem idt_init_installs:
  "(case handler_of isrs v of Some a \<Rightarrow> interrupt_gate a (idt (idt_init dev isrs s) v) | None \<Rightarrow> idt (idt_init dev isrs s) v = idt s v)
   \<and> idtr_limit (idt_init dev isrs s) = 2047 \<and> idtr_base (idt_init dev isrs s) = addr_idt isrs \<and> interrupts_on (idt_init dev isrs s)
   \<and> (\<exists>tr. idt_ports (idt_init dev isrs s) = idt_ports s @ tr
      \<and> pic_offset (pic_view 0x20 0x21 tr c1) = 0x20 \<and> pic_mask (pic_view 0x20 0x21 tr c1) = 0xFD \<and> pic_phase (pic_view 0x20 0x21 tr c1) = 0
      \<and> pic_offset (pic_view 0xA0 0xA1 tr c2) = 0x28 \<and> pic_mask (pic_view 0xA0 0xA1 tr c2) = 0xFF \<and> pic_phase (pic_view 0xA0 0xA1 tr c2) = 0)"
proof -
  have "idt_ports (install_stubs 0 isrs s) = idt_ports s" using install_stubs_gates [of 0 isrs s] by simp
  then obtain a1 a2 a3 where "idt_ports (idt_init dev isrs s) = idt_ports s @ [In_b 0x21 a1, In_b 0xA1 a2, Out_b 0x20 0x11, Out_b 0xA0 0x11, Out_b 0x21 0x20, Out_b 0xA1 0x28,
     Out_b 0x21 4, Out_b 0xA1 2, Out_b 0x21 1, Out_b 0xA1 1, Out_b 0x21 a1, Out_b 0xA1 a2, Out_b 0x21 0xFD, Out_b 0xA1 0xFF, In_b 0x60 a3]"
    using pic_remap_trace [of dev "0x20" "0x28" "idt_ports s"] by (auto simp add: idt_init_def Let_def inb_def idt_set_descriptor_def)
  moreover have "idtr_limit (idt_init dev isrs s) = 2047" "idtr_base (idt_init dev isrs s) = addr_idt isrs" "interrupts_on (idt_init dev isrs s)"
    by (simp_all add: idt_init_def Let_def case_prod_beta)
  ultimately show ?thesis using idt_init_gates by (simp add: pic_command_def pic_data_def ICW1_INIT_def)
qed

end
