(* ===== verification/Timers.thy ===== *)
theory Timers
  imports Io
begin

text \<open>
  The timers (\<open>src/src/arch/i386/pit.c\<close>, \<open>apic_start_timer\<close> of \<open>apic.c\<close>, \<open>src/src/kernel/timer.c\<close>). The loops that wait for the hardware are
  partial functions; they return when the hardware answers as they wait for.
\<close>

section \<open>Timers\<close>

abbreviation PIT_CMD_PORT :: u16 where "PIT_CMD_PORT \<equiv> 0x43"
abbreviation PIT_CH2_PORT :: u16 where "PIT_CH2_PORT \<equiv> 0x42"
abbreviation PIT_GATE_PORT :: u16 where "PIT_GATE_PORT \<equiv> 0x61"
abbreviation APIC_REGISTER_LVT_TIMER :: u32 where "APIC_REGISTER_LVT_TIMER \<equiv> 0x320"
abbreviation APIC_REGISTER_TIMER_INITCNT :: u32 where "APIC_REGISTER_TIMER_INITCNT \<equiv> 0x380"
abbreviation APIC_REGISTER_TIMER_CURRCNT :: u32 where "APIC_REGISTER_TIMER_CURRCNT \<equiv> 0x390"
abbreviation APIC_REGISTER_TIMER_DIV :: u32 where "APIC_REGISTER_TIMER_DIV \<equiv> 0x3E0"
abbreviation APIC_REGISTER_SPURIOUS :: u32 where "APIC_REGISTER_SPURIOUS \<equiv> 0x0F0"
abbreviation APIC_SOFTWARE_ENABLE :: u32 where "APIC_SOFTWARE_ENABLE \<equiv> 0x100"
abbreviation APIC_LVT_INT_MASKED :: u32 where "APIC_LVT_INT_MASKED \<equiv> 0x10000"
abbreviation APIC_LVT_TIMER_MODE_PERIODIC :: u32 where "APIC_LVT_TIMER_MODE_PERIODIC \<equiv> 0x20000"

definition PIT_FREQ :: u64 where "PIT_FREQ = 1193182"

definition pit_prepare_sleep :: "device \<Rightarrow> u32 \<Rightarrow> io_log \<Rightarrow> io_log" where
  "pit_prepare_sleep dev microseconds tr =
     (let reload_value = (ucast ((PIT_FREQ * ucast microseconds) div 1000000) :: u32);
          (gate, tr1) = inb dev PIT_GATE_PORT tr;
          tr2 = outb PIT_GATE_PORT (gate OR 0x01) tr1;
          tr3 = outb PIT_CMD_PORT 0xB0 tr2;
          tr4 = outb PIT_CH2_PORT (ucast (reload_value AND 0xFF)) tr3
      in outb PIT_CH2_PORT (ucast (drop_bit 8 reload_value) AND 0xFF) tr4)"

partial_function (option) pit_perform_sleep :: "device \<Rightarrow> io_log \<Rightarrow> io_log option" where
  "pit_perform_sleep dev tr =
     (case inb dev PIT_GATE_PORT tr of (v, tr1) \<Rightarrow> if v AND 0x20 = 0 then pit_perform_sleep dev tr1 else Some tr1)"

definition apic_start_timer :: "device \<Rightarrow> io_log \<Rightarrow> io_log option" where
  "apic_start_timer dev tr =
     (let tr1 = apic_write APIC_REGISTER_SPURIOUS (39 OR APIC_SOFTWARE_ENABLE) tr;
          tr2 = apic_write APIC_REGISTER_TIMER_DIV 0x3 tr1;
          tr3 = pit_prepare_sleep dev 10000 tr2;
          tr4 = apic_write APIC_REGISTER_TIMER_INITCNT 0xFFFFFFFF tr3
      in Option.bind (pit_perform_sleep dev tr4) (\<lambda>tr5.
         let tr6 = apic_write APIC_REGISTER_LVT_TIMER APIC_LVT_INT_MASKED tr5;
             (currcnt, tr7) = apic_read dev APIC_REGISTER_TIMER_CURRCNT tr6;
             ticksIn10ms = 0xFFFFFFFF - currcnt;
             tr8 = apic_write APIC_REGISTER_LVT_TIMER (200 OR APIC_LVT_TIMER_MODE_PERIODIC) tr7;
             tr9 = apic_write APIC_REGISTER_TIMER_DIV 0x3 tr8
         in Some (apic_write APIC_REGISTER_TIMER_INITCNT ticksIn10ms tr9)))"

text \<open>\<open>sleep_ms\<close>: \<open>ticks n\<close> is the value of the tick counter when it is read for the \<open>n\<close>-th time, with a halt between readings.\<close>

partial_function (option) sleep_until :: "(nat \<Rightarrow> u64) \<Rightarrow> u64 \<Rightarrow> nat \<Rightarrow> nat option" where
  "sleep_until ticks end_time n = (if ticks n < end_time then sleep_until ticks end_time (n + 1) else Some n)"

definition sleep_ms :: "(nat \<Rightarrow> u64) \<Rightarrow> u32 \<Rightarrow> nat option" where
  "sleep_ms ticks ms =
     (let target_ticks = ucast (ms div 10);
          end_time = ticks 0 + target_ticks
      in sleep_until ticks end_time 1)"

text \<open>The trace after \<open>n\<close> more readings of the port of the timer's output.\<close>

fun pit_readings :: "device \<Rightarrow> nat \<Rightarrow> io_log \<Rightarrow> io_log" where
  "pit_readings dev 0 tr = tr"
| "pit_readings dev (Suc n) tr = pit_readings dev n (snd (inb dev 0x61 tr))"

section \<open>Lemmas\<close>

lemma sleep_until_returns:
  assumes "e \<le> ticks m" "n \<le> m"
  shows "\<exists>k. sleep_until ticks e n = Some k \<and> n \<le> k \<and> k \<le> m \<and> e \<le> ticks k \<and> (\<forall>j. n \<le> j \<and> j < k \<longrightarrow> ticks j < e)"
  using assms
proof (induction "m - n" arbitrary: n)
  case 0
  then have "n = m" by simp
  then show ?case using 0 by (subst sleep_until.simps) auto
next
  case (Suc d)
  show ?case
  proof (cases "ticks n < e")
    case True
    then have "n \<noteq> m" using Suc.prems by auto
    then have "d = m - (n + 1)" "n + 1 \<le> m" using Suc.hyps(2) Suc.prems by simp_all
    then obtain k where k: "sleep_until ticks e (n + 1) = Some k" "n + 1 \<le> k" "k \<le> m" "e \<le> ticks k" "\<forall>j. n + 1 \<le> j \<and> j < k \<longrightarrow> ticks j < e"
      using Suc.hyps(1) [of "n + 1"] Suc.prems(1) by blast
    have "ticks j < e" if "n \<le> j" "j < k" for j using that k(5) True by (cases "j = n") simp_all
    then show ?thesis using True k by (subst sleep_until.simps) (intro exI [of _ k], simp)
  next
    case False
    then show ?thesis using Suc.prems by (subst sleep_until.simps) (auto simp add: not_less)
  qed
qed

text \<open>\<open>sleep_ms\<close> returns at the first reading of the counter that is at least a hundredth of a second per ten milliseconds later than the first.\<close>

lemma sleep_ms_returns:
  assumes "ticks 0 + ucast (ms div 10) \<le> ticks m" "1 \<le> m"
  shows "\<exists>k. sleep_ms ticks ms = Some k \<and> k \<le> m \<and> ticks 0 + ucast (ms div 10) \<le> ticks k \<and> (\<forall>j. 1 \<le> j \<and> j < k \<longrightarrow> ticks j < ticks 0 + ucast (ms div 10))"
  using sleep_until_returns [of "ticks 0 + ucast (ms div 10)" ticks m 1] assms by (auto simp add: sleep_ms_def Let_def)

lemma pit_sleep_returns:
  assumes "port_b dev (pit_readings dev n tr) 0x61 AND 0x20 \<noteq> 0"
  shows "\<exists>k. pit_perform_sleep dev tr = Some (pit_readings dev k tr)"
  using assms
proof (induction n arbitrary: tr)
  case 0
  then show ?case by (subst pit_perform_sleep.simps) (auto simp add: inb_def Let_def intro: exI [of _ 1])
next
  case (Suc n)
  show ?case
  proof (cases "port_b dev tr 0x61 AND 0x20 = 0")
    case True
    then obtain k where "pit_perform_sleep dev (snd (inb dev 0x61 tr)) = Some (pit_readings dev k (snd (inb dev 0x61 tr)))" using Suc by auto
    then show ?thesis using True by (subst pit_perform_sleep.simps) (auto simp add: inb_def Let_def intro: exI [of _ "Suc k"])
  next
    case False
    then show ?thesis by (subst pit_perform_sleep.simps) (auto simp add: inb_def Let_def intro: exI [of _ 1])
  qed
qed

lemma pit_prepare_10ms:
  "pit_prepare_sleep dev 10000 tr = tr @ [In_b 0x61 (port_b dev tr 0x61), Out_b 0x61 (port_b dev tr 0x61 OR 1), Out_b 0x43 0xB0, Out_b 0x42 0x9B, Out_b 0x42 0x2E]"
  by (simp add: pit_prepare_sleep_def inb_def outb_def Let_def PIT_FREQ_def drop_bit_eq_div)

text \<open>
  The calibration: when the output of the old timer rises at some reading, \<open>apic_start_timer\<close> returns, and the timer is
  left periodic on vector 200 with the number of counts of its register that went by in the ten milliseconds.
\<close>

lemma apic_calibrates:
  fixes dev tr
  defines "t0 \<equiv> tr @ [Mmio_Write 0xFEE000F0 0x127, Mmio_Write 0xFEE003E0 3] @ [In_b 0x61 (port_b dev (tr @ [Mmio_Write 0xFEE000F0 0x127, Mmio_Write 0xFEE003E0 3]) 0x61),
    Out_b 0x61 (port_b dev (tr @ [Mmio_Write 0xFEE000F0 0x127, Mmio_Write 0xFEE003E0 3]) 0x61 OR 1), Out_b 0x43 0xB0, Out_b 0x42 0x9B, Out_b 0x42 0x2E, Mmio_Write 0xFEE00380 0xFFFFFFFF]"
  assumes "port_b dev (pit_readings dev n t0) 0x61 AND 0x20 \<noteq> 0"
  shows "\<exists>k c. c = mmio dev (pit_readings dev k t0 @ [Mmio_Write 0xFEE00320 0x10000]) 0xFEE00390
    \<and> apic_start_timer dev tr = Some (pit_readings dev k t0 @ [Mmio_Write 0xFEE00320 0x10000, Mmio_Read 0xFEE00390 c,
         Mmio_Write 0xFEE00320 0x200C8, Mmio_Write 0xFEE003E0 3, Mmio_Write 0xFEE00380 (0xFFFFFFFF - c)])"
proof -
  obtain k where k: "pit_perform_sleep dev t0 = Some (pit_readings dev k t0)" using pit_sleep_returns [OF assms(2)] by blast
  define m where "m = pit_readings dev k t0"
  have "apic_write 0x380 0xFFFFFFFF (pit_prepare_sleep dev 10000 (apic_write 0x3E0 3 (apic_write 0x0F0 (39 OR 0x100) tr))) = t0"
    by (simp add: t0_def pit_prepare_10ms apic_write_def)
  then show ?thesis using k unfolding apic_start_timer_def Let_def m_def [symmetric]
    by (intro exI [of _ k]) (simp add: apic_write_def apic_read_def Let_def m_def)
qed

end
