(* ===== verification/Pmm_Init.thy ===== *)
theory Pmm_Init
  imports Pmm
begin

text \<open>
  \<open>pmm_init\<close> of \<open>src/src/kernel/pmm.c\<close>: the two walks over the Multiboot memory map, the bitmap
  behind the kernel image and the regions taken back from it; with the exact set of frames that
  are free afterwards, and the memory maps on which its 32-bit arithmetic goes wrong.
\<close>

section \<open>Initialisation from the Multiboot memory map\<close>

record multiboot_mmap_entry =
  mm_size :: u32
  mm_addr :: u64
  mm_len :: u64
  mm_type :: u32

definition MULTIBOOT_MEMORY_AVAILABLE :: u32 where
  "MULTIBOOT_MEMORY_AVAILABLE = 1"

text \<open>
  The information the boot loader passes, with all its fields; the kernel reads \<open>flags\<close> and the two that describe the memory map. The
  member \<open>flags\<close> is called \<open>mb_flags\<close> here.
\<close>

record multiboot_aout_symbol_table =
  tabsize :: u32
  strsize :: u32
  aout_addr :: u32
  aout_reserved :: u32

record multiboot_elf_section_header_table =
  elf_num :: u32
  elf_size :: u32
  elf_addr :: u32
  elf_shndx :: u32

datatype multiboot_symbols = Aout_sym multiboot_aout_symbol_table | Elf_sec multiboot_elf_section_header_table

datatype framebuffer_colors =
    Palette (framebuffer_palette_addr: u32) (framebuffer_palette_num_colors: u16)
  | RGB (framebuffer_red_field_position: u8) (framebuffer_red_mask_size: u8) (framebuffer_green_field_position: u8)
      (framebuffer_green_mask_size: u8) (framebuffer_blue_field_position: u8) (framebuffer_blue_mask_size: u8)

record multiboot_info =
  mb_flags :: u32
  mem_lower :: u32
  mem_upper :: u32
  boot_device :: u32
  cmdline :: u32
  mods_count :: u32
  mods_addr :: u32
  mb_u :: multiboot_symbols
  mmap_length :: u32
  mmap_addr :: u32
  drives_length :: u32
  drives_addr :: u32
  config_table :: u32
  boot_loader_name :: u32
  apm_table :: u32
  vbe_control_info :: u32
  vbe_mode_info :: u32
  vbe_mode :: u16
  vbe_interface_seg :: u16
  vbe_interface_off :: u16
  vbe_interface_len :: u16
  framebuffer_addr :: u64
  framebuffer_pitch :: u32
  framebuffer_width :: u32
  framebuffer_height :: u32
  framebuffer_bpp :: u8
  framebuffer_type :: u8
  framebuffer_colors :: framebuffer_colors

text \<open>
  Both loops of \<open>pmm_init\<close> visit the entries from \<open>mmap_addr + 0xC0000000\<close> up to the end address,
  stepping by the entry's own \<open>size\<close> plus four. A size of \<open>0xFFFFFFFC\<close> makes the step zero and
  the C loop run for ever, so the walk is partial: \<open>None\<close> stands for not returning. The memory it
  reads is the argument \<open>mem\<close>.
\<close>

partial_function (option) mmap_walk ::
  "(u32 \<Rightarrow> multiboot_mmap_entry) \<Rightarrow> u32 \<Rightarrow> u32 \<Rightarrow> multiboot_mmap_entry list option" where
  "mmap_walk mem mmap limit =
     (if mmap < limit
      then Option.bind (mmap_walk mem (mmap + mm_size (mem mmap) + 4) limit) (\<lambda>es. Some (mem mmap # es))
      else Some [])"

definition scan_entry :: "multiboot_mmap_entry \<Rightarrow> u32 \<Rightarrow> u32" where
  "scan_entry e highest_addr =
     (if mm_type e = MULTIBOOT_MEMORY_AVAILABLE then
        if mm_addr e \<le> 0xFFFFFFFF then
          let region_end = (if mm_addr e + mm_len e > 0xFFFFFFFF then 0xFFFFF000
                            else ucast (mm_addr e + mm_len e))
          in if region_end > highest_addr then region_end else highest_addr
        else highest_addr
      else highest_addr)"

definition free_entry :: "multiboot_mmap_entry \<Rightarrow> pmm_state_t \<Rightarrow> pmm_state_t" where
  "free_entry e s =
     (if mm_addr e \<le> 0xFFFFFFFF \<and> mm_type e = MULTIBOOT_MEMORY_AVAILABLE then
        let region_start = (ucast (PAGE_ALIGN_UP (mm_addr e)) :: u32);
            region_end = (if mm_addr e + mm_len e > 0xFFFFFFFF then 0xFFFFF000
                          else ucast (PAGE_ALIGN_DOWN (mm_addr e + mm_len e)));
            start_frame = region_start div PAGE_SIZE;
            end_frame = region_end div PAGE_SIZE
        in for_u32 start_frame end_frame
             (\<lambda>i s. if bitmap_check i s \<noteq> 0
                    then let s1 = bitmap_clear i s in s1\<lparr>used_blocks := used_blocks s1 - 1\<rparr>
                    else s) s
      else s)"

text \<open>\<open>memset(pmm.array, 0xFF, bitmap_size_bytes)\<close>, seen by word: whole words are filled.\<close>

definition bitmap_fill :: "u32 \<Rightarrow> (u32 \<Rightarrow> u32) \<Rightarrow> (u32 \<Rightarrow> u32)" where
  "bitmap_fill words a = (\<lambda>i. if i < words then 0xFFFFFFFF else a i)"

text \<open>
  \<open>kernel_start\<close> and \<open>kernel_end\<close> are the linker symbols; \<open>mem\<close> is the memory of the memory map
  and \<open>array s\<close> on entry the memory at \<open>bitmap_addr\<close>.
\<close>

definition pmm_init ::
  "(u32 \<Rightarrow> multiboot_mmap_entry) \<Rightarrow> u32 \<Rightarrow> u32 \<Rightarrow> multiboot_info \<Rightarrow> u32 \<Rightarrow> pmm_state_t
    \<Rightarrow> pmm_state_t option" where
  "pmm_init mem kernel_start kernel_end mbd bitmap_addr s =
     (case mmap_walk mem (mmap_addr mbd + 0xC0000000) (mmap_addr mbd + mmap_length mbd + 0xC0000000) of
        None \<Rightarrow> None
      | Some entries \<Rightarrow>
          let highest_addr = fold scan_entry entries 0;
              n = PAGE_ALIGN_UP highest_addr div 4096;
              bitmap_size_bytes = ((n + 31) div 32) * 4;
              s0 = s\<lparr>array := bitmap_fill (bitmap_size_bytes div 4) (array s),
                     max_blocks := n, used_blocks := n, last_allocated_bit := 0\<rparr>;
              s1 = fold free_entry entries s0;
              s2 = pmm_mark_region_used (kernel_start - 0xC0000000) (kernel_end - 0xC0000000) s1;
              s3 = pmm_mark_region_used (bitmap_addr - 0xC0000000)
                     (bitmap_addr + bitmap_size_bytes - 0xC0000000) s2
          in Some (pmm_mark_region_used 0 0x100000 s3))"

section \<open>Specification vocabulary\<close>

definition region_frames :: "nat \<Rightarrow> nat \<Rightarrow> u32 set" where
  "region_frames a b = {f. a div 4096 \<le> unat f \<and> unat f < (b + 4095) div 4096}"

definition available :: "multiboot_mmap_entry \<Rightarrow> bool" where
  "available e \<longleftrightarrow> mm_type e = MULTIBOOT_MEMORY_AVAILABLE \<and> mm_addr e \<le> 0xFFFFFFFF"

definition entry_end :: "multiboot_mmap_entry \<Rightarrow> nat" where
  "entry_end e = min (unat (mm_addr e) + unat (mm_len e)) 0xFFFFF000"

definition wf_entry :: "multiboot_mmap_entry \<Rightarrow> bool" where
  "wf_entry e \<longleftrightarrow> (available e \<longrightarrow>
     unat (mm_addr e) \<le> 0xFFFFF000 \<and> unat (mm_addr e) + unat (mm_len e) < 2 ^ 64
     \<and> (unat (mm_addr e) + unat (mm_len e) \<le> 0xFFFFF000 \<or> 0xFFFFFFFF < unat (mm_addr e) + unat (mm_len e)))"

definition entry_frames :: "multiboot_mmap_entry \<Rightarrow> u32 set" where
  "entry_frames e = {f. available e \<and> unat (mm_addr e) \<le> unat f * 4096 \<and> (unat f + 1) * 4096 \<le> entry_end e}"

definition kernel_layout :: "u32 \<Rightarrow> u32 \<Rightarrow> u32 \<Rightarrow> bool" where
  "kernel_layout kernel_start kernel_end bitmap_addr \<longleftrightarrow>
     0xC0000000 \<le> kernel_start \<and> kernel_start \<le> kernel_end
     \<and> 0xC0000000 \<le> bitmap_addr \<and> bitmap_addr \<le> 0xFFF00000"

definition mmap_steps :: "(u32 \<Rightarrow> multiboot_mmap_entry) \<Rightarrow> u32 \<Rightarrow> bool" where
  "mmap_steps mem limit \<longleftrightarrow> (\<forall>a<limit. unat a + unat (mm_size (mem a)) + 4 < 2 ^ 32 \<and> wf_entry (mem a))"

definition mmap_limit :: "multiboot_info \<Rightarrow> u32" where
  "mmap_limit mbd = mmap_addr mbd + mmap_length mbd + 0xC0000000"

definition sample_entry :: multiboot_mmap_entry where
  "sample_entry = \<lparr>mm_size = 20, mm_addr = 0x100000, mm_len = 0x300000, mm_type = 1\<rparr>"

definition sample_mbd :: multiboot_info where
  "sample_mbd = \<lparr>mb_flags = 0x40, mem_lower = 639, mem_upper = 3072, boot_device = 0, cmdline = 0, mods_count = 0, mods_addr = 0,
     mb_u = Elf_sec \<lparr>elf_num = 0, elf_size = 0, elf_addr = 0, elf_shndx = 0\<rparr>, mmap_length = 24, mmap_addr = 0x10000,
     drives_length = 0, drives_addr = 0, config_table = 0, boot_loader_name = 0, apm_table = 0, vbe_control_info = 0, vbe_mode_info = 0,
     vbe_mode = 0, vbe_interface_seg = 0, vbe_interface_off = 0, vbe_interface_len = 0, framebuffer_addr = 0, framebuffer_pitch = 0,
     framebuffer_width = 0, framebuffer_height = 0, framebuffer_bpp = 0, framebuffer_type = 0, framebuffer_colors = Palette 0 0\<rparr>"

section \<open>Lemmas\<close>

lemma unat_PAGE_ALIGN_DOWN [unat_simps]: "unat (PAGE_ALIGN_DOWN a) = unat a div 4096 * 4096"
  for a :: "'a::len word"
  using unat_and_not_mask [of a 12] by (simp add: PAGE_ALIGN_DOWN_def numeral_mask_12)

lemma PAGE_ALIGN_UP_eq: "PAGE_ALIGN_UP a = PAGE_ALIGN_DOWN (a + 0xFFF)"
  by (simp add: PAGE_ALIGN_UP_def PAGE_ALIGN_DOWN_def)

lemma unat_PAGE_ALIGN_UP_32:
  "unat a + 4095 < 2 ^ 32 \<Longrightarrow> unat (PAGE_ALIGN_UP a) = (unat a + 4095) div 4096 * 4096" for a :: u32
  by (simp add: PAGE_ALIGN_UP_eq unat_PAGE_ALIGN_DOWN unat_word_ariths)

lemma unat_PAGE_ALIGN_UP_64:
  "unat a + 4095 < 2 ^ 64 \<Longrightarrow> unat (PAGE_ALIGN_UP a) = (unat a + 4095) div 4096 * 4096" for a :: u64
  by (simp add: PAGE_ALIGN_UP_eq unat_PAGE_ALIGN_DOWN unat_word_ariths)

lemma mark_loop:
  assumes "pmm_inv s" "i \<le> e" "unat e \<le> 0x100000"
  shows "let s' = for_u32 i e (\<lambda>j. pmm_mark_used (j * PAGE_SIZE)) s in
     pmm_inv s' \<and> max_blocks s' = max_blocks s \<and> free_frames s' = free_frames s - {f. i \<le> f \<and> f < e}"
proof -
  let ?P = "\<lambda>j s'. pmm_inv s' \<and> max_blocks s' = max_blocks s \<and> free_frames s' = free_frames s - {f. i \<le> f \<and> f < j}"
  have "?P e (for_u32 i e (\<lambda>j. pmm_mark_used (j * PAGE_SIZE)) s)"
  proof (rule for_u32_invariant [where P = ?P])
    show "?P i s" using assms by auto
    fix j t assume j: "i \<le> j" "j < e" and P: "?P j t"
    have "unat j < 0x100000" using j(2) assms(3) by (simp add: word_less_nat_alt)
    then have u: "j * PAGE_SIZE div 4096 = j" by (simp add: PAGE_SIZE_def frame_addr)
    have "free_frames (pmm_mark_used (j * PAGE_SIZE) t) = free_frames t - {j}"
      by (auto simp add: free_frames_def u)
    then show "?P (j + 1) (pmm_mark_used (j * PAGE_SIZE) t)"
      using P by (auto intro: mark_used_inv simp add: succ_interval [OF j])
  qed fact
  then show ?thesis by (simp add: Let_def)
qed

lemma pmm_mark_region_used_spec:
  assumes "pmm_inv s" "unat a \<le> unat b" "unat b \<le> 0xFFFFF000"
  shows "pmm_inv (pmm_mark_region_used a b s)"
    "max_blocks (pmm_mark_region_used a b s) = max_blocks s"
    "free_frames (pmm_mark_region_used a b s) = free_frames s - region_frames (unat a) (unat b)"
proof -
  let ?i = "PAGE_ALIGN_DOWN a div PAGE_SIZE" let ?e = "PAGE_ALIGN_UP b div PAGE_SIZE"
  have i: "unat ?i = unat a div 4096"
    by (simp add: unat_div PAGE_SIZE_def unat_PAGE_ALIGN_DOWN)
  have e: "unat ?e = (unat b + 4095) div 4096"
    using assms by (simp add: unat_div PAGE_SIZE_def unat_PAGE_ALIGN_UP_32)
  have "?i \<le> ?e" using assms(2) by (simp add: word_le_nat_alt i e div_le_mono)
  moreover have "unat ?e \<le> 0x100000" using assms(3) unfolding e by simp
  ultimately have *: "let s' = for_u32 ?i ?e (\<lambda>j. pmm_mark_used (j * PAGE_SIZE)) s in
     pmm_inv s' \<and> max_blocks s' = max_blocks s \<and> free_frames s' = free_frames s - {f. ?i \<le> f \<and> f < ?e}"
    by (intro mark_loop [OF assms(1)])
  moreover have "{f. ?i \<le> f \<and> f < ?e} = region_frames (unat a) (unat b)"
    by (simp add: region_frames_def word_le_nat_alt word_less_nat_alt i e)
  ultimately show "pmm_inv (pmm_mark_region_used a b s)"
    "max_blocks (pmm_mark_region_used a b s) = max_blocks s"
    "free_frames (pmm_mark_region_used a b s) = free_frames s - region_frames (unat a) (unat b)"
    by (simp_all add: pmm_mark_region_used_def Let_def)
qed

abbreviation release_bit :: "u32 \<Rightarrow> pmm_state_t \<Rightarrow> pmm_state_t" where
  "release_bit i s \<equiv> (if bitmap_check i s \<noteq> 0
      then let s1 = bitmap_clear i s in s1\<lparr>used_blocks := used_blocks s1 - 1\<rparr> else s)"

lemma release_loop:
  assumes "pmm_inv s" "i \<le> e" "e \<le> max_blocks s"
  shows "let s' = for_u32 i e release_bit s in
     pmm_inv s' \<and> max_blocks s' = max_blocks s \<and> free_frames s' = free_frames s \<union> {f. i \<le> f \<and> f < e}"
proof -
  let ?P = "\<lambda>j s'. pmm_inv s' \<and> max_blocks s' = max_blocks s \<and> free_frames s' = free_frames s \<union> {f. i \<le> f \<and> f < j}"
  have "?P e (for_u32 i e release_bit s)"
  proof (rule for_u32_invariant [where P = ?P])
    show "?P i s" using assms by auto
    fix j t assume j: "i \<le> j" "j < e" and P: "?P j t"
    have jm: "j < max_blocks t" using j(2) assms(3) P by simp
    then have "free_frames (release_bit j t) = insert j (free_frames t)"
      by (auto simp add: free_frames_def Let_def)
    then show "?P (j + 1) (release_bit j t)"
      using P jm by (auto intro: clear_inv simp add: succ_interval [OF j] Let_def)
  qed fact
  then show ?thesis by (simp add: Let_def)
qed

lemma entry_sum:
  assumes "available e" "wf_entry e"
  shows "unat (mm_addr e + mm_len e) = unat (mm_addr e) + unat (mm_len e)"
    "unat (if mm_addr e + mm_len e > 0xFFFFFFFF then 0xFFFFF000 else ucast (mm_addr e + mm_len e) :: u32) = entry_end e"
    "unat (if mm_addr e + mm_len e > 0xFFFFFFFF then 0xFFFFF000 else ucast (PAGE_ALIGN_DOWN (mm_addr e + mm_len e)) :: u32)
       = entry_end e div 4096 * 4096"
proof -
  have w: "unat (mm_addr e) \<le> 0xFFFFF000" "unat (mm_addr e) + unat (mm_len e) < 2 ^ 64"
    "unat (mm_addr e) + unat (mm_len e) \<le> 0xFFFFF000 \<or> 0xFFFFFFFF < unat (mm_addr e) + unat (mm_len e)"
    using assms by (auto simp add: wf_entry_def)
  then show s: "unat (mm_addr e + mm_len e) = unat (mm_addr e) + unat (mm_len e)"
    by (simp add: unat_word_ariths)
  show "unat (if mm_addr e + mm_len e > 0xFFFFFFFF then 0xFFFFF000 else ucast (mm_addr e + mm_len e) :: u32) = entry_end e"
    using w by (auto simp add: word_less_nat_alt s unat_ucast_32 entry_end_def min_def)
  show "unat (if mm_addr e + mm_len e > 0xFFFFFFFF then 0xFFFFF000 else ucast (PAGE_ALIGN_DOWN (mm_addr e + mm_len e)) :: u32)
       = entry_end e div 4096 * 4096"
    using w by (auto simp add: word_less_nat_alt s unat_ucast_32 unat_PAGE_ALIGN_DOWN entry_end_def min_def)
qed

lemma unat_scan_entry:
  assumes "wf_entry e"
  shows "unat (scan_entry e h) = (if available e then max (unat h) (entry_end e) else unat h)"
proof (cases "available e")
  case True
  then show ?thesis
    using entry_sum(2) [OF True assms]
    by (auto simp add: scan_entry_def available_def Let_def word_less_nat_alt max_def split: if_splits)
next
  case False
  then show ?thesis by (auto simp add: scan_entry_def available_def)
qed

lemma fold_scan_entry:
  assumes "\<forall>e \<in> set es. wf_entry e" "unat h \<le> 0xFFFFF000"
  shows "unat (fold scan_entry es h) \<le> 0xFFFFF000 \<and> unat h \<le> unat (fold scan_entry es h)
    \<and> (\<forall>e \<in> set es. available e \<longrightarrow> entry_end e \<le> unat (fold scan_entry es h))"
  using assms
proof (induction es arbitrary: h)
  case (Cons e es)
  have "unat (scan_entry e h) \<le> 0xFFFFF000" "unat h \<le> unat (scan_entry e h)"
    "available e \<Longrightarrow> entry_end e \<le> unat (scan_entry e h)"
    using Cons.prems by (auto simp add: unat_scan_entry entry_end_def)
  then show ?case using Cons.IH [of "scan_entry e h"] Cons.prems by fastforce
qed simp

lemma free_entry_spec:
  assumes "pmm_inv s" "wf_entry e" and m: "available e \<Longrightarrow> entry_end e \<le> unat (max_blocks s) * 4096"
  shows "pmm_inv (free_entry e s) \<and> max_blocks (free_entry e s) = max_blocks s
    \<and> free_frames (free_entry e s) = free_frames s \<union> entry_frames e"
proof (cases "available e")
  case True
  define rs where "rs = (ucast (PAGE_ALIGN_UP (mm_addr e)) :: u32)"
  define re where "re = (if mm_addr e + mm_len e > 0xFFFFFFFF then 0xFFFFF000
    else ucast (PAGE_ALIGN_DOWN (mm_addr e + mm_len e)) :: u32)"
  let ?i = "rs div PAGE_SIZE" let ?e = "re div PAGE_SIZE"
  have a: "unat (mm_addr e) \<le> 0xFFFFF000" using True assms(2) by (simp add: wf_entry_def)
  then have "unat rs = (unat (mm_addr e) + 4095) div 4096 * 4096"
    by (simp add: rs_def unat_ucast_32 unat_PAGE_ALIGN_UP_64)
  then have i: "unat ?i = (unat (mm_addr e) + 4095) div 4096"
    by (simp add: unat_div PAGE_SIZE_def)
  have "unat re = entry_end e div 4096 * 4096"
    unfolding re_def by (rule entry_sum(3) [OF True assms(2)])
  then have e: "unat ?e = entry_end e div 4096"
    by (simp add: unat_div PAGE_SIZE_def)
  have frames: "{f. ?i \<le> f \<and> f < ?e} = entry_frames e"
    unfolding entry_frames_def word_le_nat_alt word_less_nat_alt i e using True by auto
  have le: "?e \<le> max_blocks s" unfolding word_le_nat_alt e using m [OF True] by auto
  have free_entry: "free_entry e s = for_u32 ?i ?e release_bit s"
    using True by (simp add: free_entry_def available_def Let_def rs_def re_def)
  show ?thesis
  proof (cases "?i \<le> ?e")
    case True
    with release_loop [OF assms(1) True le] show ?thesis
      unfolding free_entry frames Let_def by simp
  next
    case False
    then have "\<not> (?i \<le> f \<and> f < ?e)" for f
      by (meson le_less_trans less_imp_le)
    then have "entry_frames e = {}" unfolding frames [symmetric] by blast
    moreover from False have "?e \<le> ?i" by (metis linear)
    then have "free_entry e s = s" unfolding free_entry by (rule for_u32_empty)
    ultimately show ?thesis using assms(1) by simp
  qed
next
  case False
  then show ?thesis using assms by (auto simp add: free_entry_def available_def entry_frames_def)
qed

lemma fold_free_entry:
  assumes "pmm_inv s" "\<forall>e \<in> set es. wf_entry e \<and> (available e \<longrightarrow> entry_end e \<le> unat (max_blocks s) * 4096)"
  shows "pmm_inv (fold free_entry es s) \<and> max_blocks (fold free_entry es s) = max_blocks s
    \<and> free_frames (fold free_entry es s) = free_frames s \<union> (\<Union>e \<in> set es. entry_frames e)"
  using assms
proof (induction es arbitrary: s)
  case (Cons e es)
  then have "pmm_inv (free_entry e s)" "max_blocks (free_entry e s) = max_blocks s"
    "free_frames (free_entry e s) = free_frames s \<union> entry_frames e"
    using free_entry_spec [of s e] by auto
  then show ?case using Cons.IH [of "free_entry e s"] Cons.prems by auto
qed simp

lemma bitmap_fill_inv:
  assumes "n \<le> 0x100000"
  shows "let s' = s\<lparr>array := bitmap_fill ((n + 31) div 32 * 4 div 4) (array s),
                     max_blocks := n, used_blocks := n, last_allocated_bit := 0\<rparr>
         in pmm_inv s' \<and> max_blocks s' = n \<and> free_frames s' = {}"
proof -
  define w where "w = (n + 31) div 32"
  define t where "t = s\<lparr>array := bitmap_fill (w * 4 div 4) (array s),
                     max_blocks := n, used_blocks := n, last_allocated_bit := 0\<rparr>"
  have t: "max_blocks t = n" "n_words t = w" "used_blocks t = n" "last_allocated_bit t = 0"
    by (simp_all add: t_def n_words_def w_def)
  have n: "unat w = (unat n + 31) div 32" "unat (w * 32) = unat w * 32" "n \<le> w * 32"
    using unat_n_words [of t] assms by (simp_all add: t)
  have "unat n \<le> 0x100000" using assms by (simp add: word_le_nat_alt)
  then have "unat w \<le> 2 ^ 27" using n(1) by simp
  then have w: "w * 4 div 4 = w"
    by (simp add: word_unat_eq_iff unat_div unat_word_ariths)
  have used: "frame_used t i" if "i < w * 32" for i
  proof -
    have "i div 32 < w" using that by (simp add: word_less_nat_alt unat_div n(2) less_mult_imp_div_less)
    then show ?thesis using bit_all_ones [of "unat (i mod 32)"]
      by (simp add: frame_used_def t_def bitmap_fill_def w)
  qed
  have "used_frames t = {i. i < n}" using used n(3) by (auto simp add: used_frames_def t)
  moreover have "free_frames t = {}" using used n(3) by (auto simp add: free_frames_def t)
  ultimately have "pmm_inv t \<and> max_blocks t = n \<and> free_frames t = {}"
    using used assms by (simp add: pmm_inv_def card_below t)
  then show ?thesis by (simp add: Let_def t_def w_def)
qed

lemma bitmap_geometry:
  fixes es defines "n \<equiv> PAGE_ALIGN_UP (fold scan_entry es 0) div 4096"
  assumes wf: "\<forall>e \<in> set es. wf_entry e"
  shows "unat n \<le> 0x100000" "unat ((n + 31) div 32 * 4) = (unat n + 31) div 32 * 4"
    "\<And>e. e \<in> set es \<Longrightarrow> available e \<Longrightarrow> entry_end e \<le> unat n * 4096"
proof -
  define h where "h = fold scan_entry es 0"
  have h: "unat h \<le> 0xFFFFF000" "\<And>e. e \<in> set es \<Longrightarrow> available e \<Longrightarrow> entry_end e \<le> unat h"
    using fold_scan_entry [OF wf, of 0] by (auto simp add: h_def)
  have un: "unat n = (unat h + 4095) div 4096"
    using h(1) by (simp add: n_def h_def unat_div unat_PAGE_ALIGN_UP_32)
  then show n_le: "unat n \<le> 0x100000" using h(1) by simp
  show "unat ((n + 31) div 32 * 4) = (unat n + 31) div 32 * 4"
    using n_le by (simp add: unat_word_ariths unat_div)
  show "entry_end e \<le> unat n * 4096" if "e \<in> set es" "available e" for e
    using h(2) [OF that] un by simp
qed

lemma layout_addresses:
  assumes "kernel_layout kernel_start kernel_end bitmap_addr" "unat b \<le> 0x20000"
  shows "unat (kernel_start - 0xC0000000) = unat kernel_start - 0xC0000000"
    "unat (kernel_end - 0xC0000000) = unat kernel_end - 0xC0000000"
    "unat kernel_start \<le> unat kernel_end" "unat kernel_end - 0xC0000000 \<le> 0xFFFFF000"
    "unat (bitmap_addr - 0xC0000000) = unat bitmap_addr - 0xC0000000"
    "unat (bitmap_addr + b - 0xC0000000) = unat bitmap_addr - 0xC0000000 + unat b"
    "unat bitmap_addr - 0xC0000000 + unat b \<le> 0xFFFFF000"
proof -
  have l: "0xC0000000 \<le> unat kernel_start" "unat kernel_start \<le> unat kernel_end"
    "0xC0000000 \<le> unat bitmap_addr" "unat bitmap_addr \<le> 0xFFF00000"
    using assms(1) by (simp_all add: kernel_layout_def word_le_nat_alt)
  show k: "unat (kernel_start - 0xC0000000) = unat kernel_start - 0xC0000000"
    "unat (kernel_end - 0xC0000000) = unat kernel_end - 0xC0000000"
    "unat (bitmap_addr - 0xC0000000) = unat bitmap_addr - 0xC0000000"
    using l by (simp_all add: unat_sub word_le_nat_alt)
  show "unat kernel_start \<le> unat kernel_end" by fact
  have "unat kernel_end < 2 ^ 32" using unsigned_less [of kernel_end] by simp
  then show "unat kernel_end - 0xC0000000 \<le> 0xFFFFF000" by simp
  have "unat ((bitmap_addr - 0xC0000000) + b) = unat bitmap_addr - 0xC0000000 + unat b"
    using k(3) l assms(2) by (simp add: unat_word_ariths)
  then show "unat (bitmap_addr + b - 0xC0000000) = unat bitmap_addr - 0xC0000000 + unat b"
    by (simp add: algebra_simps)
  show "unat bitmap_addr - 0xC0000000 + unat b \<le> 0xFFFFF000" using l assms(2) by simp
qed

lemma pmm_init_frames:
  assumes walk: "mmap_walk mem (mmap_addr mbd + 0xC0000000) (mmap_addr mbd + mmap_length mbd + 0xC0000000) = Some es"
    and wf: "\<forall>e \<in> set es. wf_entry e"
    and layout: "kernel_layout kernel_start kernel_end bitmap_addr"
  shows "\<exists>s'. pmm_init mem kernel_start kernel_end mbd bitmap_addr s = Some s' \<and> pmm_inv s'
     \<and> free_frames s' = (\<Union>e \<in> set es. entry_frames e)
         - region_frames (unat kernel_start - 0xC0000000) (unat kernel_end - 0xC0000000)
         - region_frames (unat bitmap_addr - 0xC0000000)
             (unat bitmap_addr - 0xC0000000 + (unat (max_blocks s') + 31) div 32 * 4)
         - region_frames 0 0x100000"
proof -
  define n where "n = PAGE_ALIGN_UP (fold scan_entry es 0) div 4096"
  define b where "b = (n + 31) div 32 * 4"
  define s0 where "s0 = s\<lparr>array := bitmap_fill (b div 4) (array s), max_blocks := n, used_blocks := n, last_allocated_bit := 0\<rparr>"
  define s1 where "s1 = fold free_entry es s0"
  define s2 where "s2 = pmm_mark_region_used (kernel_start - 0xC0000000) (kernel_end - 0xC0000000) s1"
  define s3 where "s3 = pmm_mark_region_used (bitmap_addr - 0xC0000000) (bitmap_addr + b - 0xC0000000) s2"
  define s4 where "s4 = pmm_mark_region_used 0 0x100000 s3"
  note g = bitmap_geometry [OF wf, folded n_def, folded b_def]
  have "n \<le> 0x100000" using g(1) by (simp add: word_le_nat_alt)
  then have s0: "pmm_inv s0" "max_blocks s0 = n" "free_frames s0 = {}"
    using bitmap_fill_inv [of n s] by (simp_all add: s0_def b_def Let_def)
  have s1: "pmm_inv s1" "max_blocks s1 = n" "free_frames s1 = (\<Union>e \<in> set es. entry_frames e)"
    using fold_free_entry [OF s0(1), of es] wf g(3) by (simp_all add: s1_def s0)
  have "unat b \<le> 0x20000" using g(1) unfolding g(2) by simp
  note l = layout_addresses [OF layout this]
  have s2: "pmm_inv s2" "max_blocks s2 = n" "free_frames s2 = free_frames s1
      - region_frames (unat kernel_start - 0xC0000000) (unat kernel_end - 0xC0000000)"
    using pmm_mark_region_used_spec [OF s1(1), of "kernel_start - 0xC0000000" "kernel_end - 0xC0000000"] l(1-4)
    by (simp_all add: s2_def s1)
  have s3: "pmm_inv s3" "max_blocks s3 = n" "free_frames s3 = free_frames s2
      - region_frames (unat bitmap_addr - 0xC0000000) (unat bitmap_addr - 0xC0000000 + unat b)"
    using pmm_mark_region_used_spec [OF s2(1), of "bitmap_addr - 0xC0000000" "bitmap_addr + b - 0xC0000000"] l(5-7)
    by (simp_all add: s3_def s2)
  have s4: "pmm_inv s4" "max_blocks s4 = n" "free_frames s4 = free_frames s3 - region_frames 0 0x100000"
    using pmm_mark_region_used_spec [OF s3(1), of 0 "0x100000"] by (simp_all add: s4_def s3)
  have "pmm_init mem kernel_start kernel_end mbd bitmap_addr s = Some s4"
    unfolding pmm_init_def walk option.case s4_def s3_def s2_def s1_def s0_def b_def n_def Let_def by (rule refl)
  with s1 s2 s3 s4 g(2) show ?thesis by auto
qed

section \<open>Properties\<close>

lemma mmap_walk_returns:
  assumes "mmap_steps mem limit"
  shows "\<exists>es. mmap_walk mem a limit = Some es \<and> (\<forall>e \<in> set es. wf_entry e)"
proof (induction "unat limit - unat a" arbitrary: a rule: less_induct)
  case less
  show ?case
  proof (cases "a < limit")
    case True
    let ?b = "a + mm_size (mem a) + 4"
    have w: "unat a + unat (mm_size (mem a)) + 4 < 2 ^ 32" "wf_entry (mem a)"
      using assms True by (simp_all add: mmap_steps_def)
    then have "unat ?b = unat a + unat (mm_size (mem a)) + 4"
      by (simp add: unat_word_ariths)
    then have "unat limit - unat ?b < unat limit - unat a"
      using True by (simp add: word_less_nat_alt)
    from less [OF this] show ?thesis
      using True w(2) by (subst mmap_walk.simps) auto
  qed (subst mmap_walk.simps; simp)
qed

lemma for_u32_field:
  assumes "\<And>j t. f (body j t) = f t"
  shows "f (for_u32 i e body s) = f s"
  using assms
proof (induction i e body s rule: for_u32.induct)
  case (1 i e body s)
  then show ?case by (subst for_u32.simps) simp
qed

lemma max_blocks_free_entries: "max_blocks (fold free_entry es s) = max_blocks s"
proof (induction es arbitrary: s)
  case (Cons e es)
  have "max_blocks (for_u32 i j release_bit s) = max_blocks s" for i j
    by (rule for_u32_field) (simp add: Let_def)
  then have "max_blocks (free_entry e s) = max_blocks s"
    unfolding free_entry_def Let_def by auto
  then show ?case by (simp add: Cons)
qed simp

lemma max_blocks_mark_region: "max_blocks (pmm_mark_region_used a b s) = max_blocks s"
  unfolding pmm_mark_region_used_def Let_def by (rule for_u32_field) simp

lemma pmm_init_max_blocks:
  assumes "mmap_walk mem (mmap_addr mbd + 0xC0000000) (mmap_limit mbd) = Some es"
  shows "\<exists>s'. pmm_init mem kernel_start kernel_end mbd bitmap_addr s = Some s'
    \<and> max_blocks s' = PAGE_ALIGN_UP (fold scan_entry es 0) div 4096"
  using assms unfolding pmm_init_def mmap_limit_def
  by (simp only: option.case Let_def option.inject ex_simps simp_thms)
    (simp add: max_blocks_mark_region max_blocks_free_entries)



text \<open>
  C32: when the highest available address lies inside the last page below 4 GB, \<open>PAGE_ALIGN_UP\<close> wraps
  to 0: \<open>pmm_init\<close> ends with \<open>max_blocks = 0\<close>, and no frame can be allocated however much memory
  the map reports.
\<close>

theorem init_top_page_wraps:
  assumes "mmap_walk mem (mmap_addr mbd + 0xC0000000) (mmap_limit mbd) = Some es"
    and "0xFFFFF000 < unat (fold scan_entry es 0)"
  shows "\<exists>s'. pmm_init mem kernel_start kernel_end mbd bitmap_addr s = Some s'
    \<and> max_blocks s' = 0 \<and> pmm_alloc_frame s' = (0, s')"
proof -
  let ?h = "fold scan_entry es 0"
  have "unat ?h < 2 ^ 32" using unsigned_less [of ?h] by simp
  then have "(unat ?h + 4095) mod 2 ^ 32 = unat ?h + 4095 - 2 ^ 32" "unat ?h + 4095 - 2 ^ 32 < 4096"
    using assms(2) by (simp_all add: mod_if)
  then have "unat (?h + 0xFFF) < 4096" by (simp add: unat_word_ariths)
  then have "unat (PAGE_ALIGN_UP ?h) = 0" by (simp add: PAGE_ALIGN_UP_eq unat_PAGE_ALIGN_DOWN)
  then have "PAGE_ALIGN_UP ?h = 0" by (simp add: word_unat_eq_iff)
  moreover have "pmm_alloc_frame s' = (0, s')" if "max_blocks s' = 0" for s'
    using that by (simp add: pmm_alloc_frame_def Let_def) (subst pmm_alloc_loop.simps, simp)
  ultimately show ?thesis using pmm_init_max_blocks [OF assms(1)] by fastforce
qed

theorem init_top_page_wraps_witness:
  "\<exists>s'. pmm_init (\<lambda>_. sample_entry\<lparr>mm_len := 0xFFEFF001\<rparr>) 0xC0100000 0xC0110000 sample_mbd 0xC0110000 sample_pmm = Some s'
     \<and> max_blocks s' = 0"
proof -
  let ?e = "sample_entry\<lparr>mm_len := 0xFFEFF001\<rparr>"
  have "mmap_walk (\<lambda>_. ?e) (mmap_addr sample_mbd + 0xC0000000) (mmap_limit sample_mbd) = Some [?e]"
    by (subst mmap_walk.simps, subst mmap_walk.simps)
      (simp add: mmap_limit_def sample_mbd_def sample_entry_def)
  moreover have "0xFFFFF000 < unat (fold scan_entry [?e] 0)"
    by (simp add: scan_entry_def sample_entry_def MULTIBOOT_MEMORY_AVAILABLE_def)
  ultimately show ?thesis using init_top_page_wraps by blast
qed

end
