(* ===== verification/Loader.thy ===== *)
theory Loader
  imports Paging_Props
begin

text \<open>
  The entry point of the kernel (\<open>src/src/boot/loader.s\<close>): the page tables it builds before it calls \<open>kmain\<close>, and what they map.
  The addresses the linker chooses are parameters.
\<close>

section \<open>The loader\<close>

text \<open>Where the linker puts the kernel image and the tables of the loader, as virtual addresses.\<close>

record link_symbols =
  sym_kernel_start :: u32
  sym_kernel_end :: u32
  boot_page_directory :: u32
  boot_page_table1 :: u32

definition KERNEL_VIRTUAL_BASE :: u32 where "KERNEL_VIRTUAL_BASE = 0xC0000000"

definition PHYS :: "u32 \<Rightarrow> u32" where "PHYS x = x - KERNEL_VIRTUAL_BASE"

text \<open>
  The header by which a Multiboot loader finds the kernel. The image has its first three words; what follows them is code, and counts as addresses or a video mode only when
  the flags say so.
\<close>

record multiboot_header =
  hdr_magic :: u32
  hdr_flags :: u32
  hdr_checksum :: u32
  hdr_header_addr :: u32
  hdr_load_addr :: u32
  hdr_load_end_addr :: u32
  hdr_bss_end_addr :: u32
  hdr_entry_addr :: u32
  hdr_mode_type :: u32
  hdr_width :: u32
  hdr_height :: u32
  hdr_depth :: u32

definition MULTIBOOT_HEADER_MAGIC :: u32 where "MULTIBOOT_HEADER_MAGIC = 0x1BADB002"
definition MULTIBOOT_MEMORY_INFO :: u32 where "MULTIBOOT_MEMORY_INFO = 0x00000002"
definition MULTIBOOT_VIDEO_MODE :: u32 where "MULTIBOOT_VIDEO_MODE = 0x00000004"
definition MULTIBOOT_AOUT_KLUDGE :: u32 where "MULTIBOOT_AOUT_KLUDGE = 0x00010000"

definition MAGIC_NUMBER :: u32 where "MAGIC_NUMBER = 0x1BADB002"
definition FLAGS :: u32 where "FLAGS = 0x0"
definition CHECKSUM :: u32 where "CHECKSUM = - MAGIC_NUMBER"

definition loader_header :: "(nat \<Rightarrow> u32) \<Rightarrow> multiboot_header" where
  "loader_header code_words = \<lparr>hdr_magic = MAGIC_NUMBER, hdr_flags = FLAGS, hdr_checksum = CHECKSUM, hdr_header_addr = code_words 0, hdr_load_addr = code_words 1,
     hdr_load_end_addr = code_words 2, hdr_bss_end_addr = code_words 3, hdr_entry_addr = code_words 4, hdr_mode_type = code_words 5, hdr_width = code_words 6,
     hdr_height = code_words 7, hdr_depth = code_words 8\<rparr>"

text \<open>The loop at \<open>.fill_table\<close>: \<open>ecx\<close> entries from \<open>edi\<close> on, for the frames from \<open>esi\<close> on.\<close>

fun fill_table :: "nat \<Rightarrow> u32 \<Rightarrow> u32 \<Rightarrow> (u32 \<Rightarrow> u32) \<Rightarrow> u32 \<Rightarrow> u32" where
  "fill_table 0 edi esi p = p"
| "fill_table (Suc ecx) edi esi p = fill_table ecx (edi + 4) (esi + 4096) (p(edi := esi OR 3))"

text \<open>The page tables the loader builds before it calls \<open>kmain\<close>. The last store happens with paging on.\<close>

definition loader :: "link_symbols \<Rightarrow> mm_state \<Rightarrow> panic + mm_state" where
  "loader ld m =
     (let directory = PHYS (boot_page_directory ld);
          table = PHYS (boot_page_table1 ld);
          p1 = fill_table 1024 table 0 (phys m);
          p2 = p1(directory + 0 := table OR 3);
          p3 = p2(directory + 768 * 4 := table OR 3);
          p4 = p3(directory + 1023 * 4 := directory OR 3);
          m1 = m\<lparr>phys := p4, cr3 := directory OR 3\<rparr>
      in vwrite (boot_page_directory ld + 0) 0 m1)"

text \<open>
  The image fits into the first four megabytes behind the base, above the first physical one; the two tables are different pages of
  its zeroed part.
\<close>

definition image_ok :: "link_symbols \<Rightarrow> (u32 \<Rightarrow> u32) \<Rightarrow> bool" where
  "image_ok ld p \<longleftrightarrow> 0xC0100000 \<le> sym_kernel_start ld \<and> sym_kernel_end ld \<le> 0xC0400000
     \<and> (\<forall>t \<in> {boot_page_directory ld, boot_page_table1 ld}. page_base t = t \<and> sym_kernel_start ld \<le> t \<and> t < sym_kernel_end ld)
     \<and> boot_page_directory ld \<noteq> boot_page_table1 ld \<and> (\<forall>d<1024. p (PHYS (boot_page_directory ld) + d * 4) = 0)"

text \<open>What the loader leaves: the kernel's four megabytes, the recursive entry, and nothing else.\<close>

definition boot_mapped :: "link_symbols \<Rightarrow> mm_state \<Rightarrow> bool" where
  "boot_mapped ld m \<longleftrightarrow> cr3 m = PHYS (boot_page_directory ld) OR 3
     \<and> (\<forall>d<1024. pde m d = (if d = 768 then PHYS (boot_page_table1 ld) OR 3 else if d = 1023 then PHYS (boot_page_directory ld) OR 3 else 0))
     \<and> (\<forall>t<1024. pte m 768 t = (t * 4096) OR 3)"

section \<open>Lemmas\<close>

text \<open>
  A Multiboot loader accepts the header: the magic number is right and the first three words add up to zero. The words behind them are not read, and information about memory, without which
  \<open>kmain\<close> panics, is not asked for.
\<close>

lemma loader_header_accepted:
  "hdr_magic (loader_header w) = MULTIBOOT_HEADER_MAGIC \<and> hdr_magic (loader_header w) + hdr_flags (loader_header w) + hdr_checksum (loader_header w) = 0
   \<and> hdr_flags (loader_header w) AND (MULTIBOOT_AOUT_KLUDGE OR MULTIBOOT_VIDEO_MODE OR MULTIBOOT_MEMORY_INFO) = 0"
  by (simp add: loader_header_def MAGIC_NUMBER_def FLAGS_def CHECKSUM_def MULTIBOOT_HEADER_MAGIC_def)


lemma fill_table_out: "(\<forall>i<n. a \<noteq> edi + 4 * of_nat i) \<Longrightarrow> fill_table n edi esi p a = p a"
proof (induction n arbitrary: edi esi p)
  case (Suc n)
  have "a \<noteq> edi + 4 + 4 * of_nat i" if "i < n" for i using Suc.prems [rule_format, of "Suc i"] that by (simp add: algebra_simps)
  moreover have "a \<noteq> edi" using Suc.prems [rule_format, of 0] by simp
  ultimately show ?case using Suc.IH by simp
qed simp

lemma fill_table_in: "i < n \<Longrightarrow> n \<le> 1024 \<Longrightarrow> fill_table n edi esi p (edi + 4 * of_nat i) = (esi + 4096 * of_nat i) OR 3"
proof (induction n arbitrary: i edi esi p)
  case (Suc n)
  show ?case
  proof (cases i)
    case 0
    have "edi \<noteq> edi + 4 + 4 * of_nat j" if "j < n" for j
    proof -
      have "unat (4 + 4 * of_nat j :: u32) = 4 + 4 * j" using that Suc.prems(2) by (simp add: unat_word_ariths unat_of_nat)
      then have "(4 + 4 * of_nat j :: u32) \<noteq> 0" by (metis add_eq_0_iff_both_eq_0 unat_0 zero_neq_numeral)
      then show ?thesis by (simp add: add.assoc)
    qed
    then have "fill_table n (edi + 4) (esi + 4096) (p(edi := esi OR 3)) edi = (p(edi := esi OR 3)) edi" by (intro fill_table_out) auto
    then show ?thesis using 0 by simp
  next
    case (Suc j)
    have "fill_table n (edi + 4) (esi + 4096) (p(edi := esi OR 3)) (edi + 4 + 4 * of_nat j) = (esi + 4096 + 4096 * of_nat j) OR 3"
      using Suc Suc.prems by (intro Suc.IH) simp_all
    then show ?thesis using Suc by (simp add: algebra_simps)
  qed
qed simp

lemma fill_table_slot:
  assumes "page_base a = a" "page_base b = b" "e < 1024"
  shows "fill_table 1024 a 0 p (b + e * 4) = (if a = b then (e * 4096) OR 3 else p (b + e * 4))"
proof (cases "a = b")
  case True
  have "of_nat (unat e) = e" "unat e < 1024" using assms(3) by (simp_all add: word_less_nat_alt)
  then show ?thesis using True fill_table_in [of "unat e" 1024 b 0 p] by (simp add: mult.commute)
next
  case False
  have "b + e * 4 \<noteq> a + 4 * of_nat i" if "i < 1024" for i
  proof -
    have "(of_nat i :: u32) < 1024" using that by (simp add: word_less_nat_alt unat_of_nat_slot)
    then show ?thesis using slot_eq_iff [OF assms(3), of "of_nat i" b a] False assms by (simp add: mult.commute)
  qed
  then show ?thesis using False fill_table_out [of 1024 "b + e * 4" a 0 p] by simp
qed

lemma page_base_fix: "page_base x = x \<longleftrightarrow> 4096 dvd unat x"
proof -
  have "page_base x = x \<longleftrightarrow> unat x div 4096 * 4096 = unat x" unfolding word_unat_eq_iff unat_page_base ..
  also have "\<dots> \<longleftrightarrow> 4096 dvd unat x" by (metis dvd_div_mult_self dvd_triv_right)
  finally show ?thesis .
qed

lemma unat_PHYS: "0xC0000000 \<le> x \<Longrightarrow> unat (PHYS x) = unat x - 0xC0000000"
  by (simp add: PHYS_def KERNEL_VIRTUAL_BASE_def unat_sub)

lemma page_base_PHYS: "page_base x = x \<Longrightarrow> 0xC0000000 \<le> x \<Longrightarrow> page_base (PHYS x) = PHYS x"
proof -
  assume "page_base x = x" "0xC0000000 \<le> x"
  then have "4096 dvd unat x - 3221225472" by (intro dvd_diff_nat) (simp_all add: page_base_fix)
  then show ?thesis using \<open>0xC0000000 \<le> x\<close> by (simp add: page_base_fix unat_PHYS)
qed

lemma frame_entry: "t < 1024 \<Longrightarrow> page_base ((t * 4096) OR 3) = t * 4096 \<and> present ((t * 4096) OR 3)"
proof -
  assume "t < 1024"
  then have "unat (t * 4096) = unat t * 4096" by (simp add: word_less_nat_alt unat_word_ariths)
  then have "page_base (t * 4096) = t * 4096" by (simp add: page_base_fix)
  then show ?thesis using entry_word [of "t * 4096" 3] by (simp add: present_def)
qed

text \<open>The first four megabytes of memory appear at the virtual base.\<close>

lemma kernel_window:
  assumes "present (pde m 768)" "\<forall>t<1024. pte m 768 t = (t * 4096) OR 3" "dir_of va = 768"
  shows "mmu m va = Some (va - KERNEL_VIRTUAL_BASE)"
proof -
  have d: "unat va div 0x400000 = 768" using assms(3) unat_dir_of [of va] by simp
  then have ge: "0xC0000000 \<le> unat va" using div_times_less_eq_dividend [of "unat va" "0x400000"] by simp
  have "unat va - 0xC0000000 = unat va mod 0x400000" using d div_mult_mod_eq [of "unat va" "0x400000"] by simp
  also have "\<dots> = unat va mod 4096 + 4096 * (unat va div 4096 mod 1024)" using mod_mult2_eq [of "unat va" 4096 1024] by simp
  finally have e: "unat va - 0xC0000000 = unat va div 4096 mod 1024 * 4096 + unat va mod 4096" by simp
  have "unat (tab_of va * 4096 + (va AND 0xFFF)) = unat va div 4096 mod 1024 * 4096 + unat va mod 4096"
    by (simp add: unat_word_ariths unat_tab_of unat_and_FFF)
  moreover have "unat (va - KERNEL_VIRTUAL_BASE) = unat va - 0xC0000000"
    using ge by (simp add: KERNEL_VIRTUAL_BASE_def unat_sub word_le_nat_alt)
  ultimately have "tab_of va * 4096 + (va AND 0xFFF) = va - KERNEL_VIRTUAL_BASE" using e by (simp add: word_unat_eq_iff)
  then show ?thesis using assms frame_entry [of "tab_of va"] by (simp add: mmu_eq)
qed

lemma image_tables:
  assumes "image_ok ld p" "t \<in> {boot_page_directory ld, boot_page_table1 ld}"
  shows "page_base (PHYS t) = PHYS t" "0x100000 \<le> unat (PHYS t)" "unat (PHYS t) = unat t - 0xC0000000"
    "page_base (PHYS t OR 3) = PHYS t" "present (PHYS t OR 3)" "dir_of t = 768"
proof -
  have t: "page_base t = t" "sym_kernel_start ld \<le> t" "t < sym_kernel_end ld" "0xC0100000 \<le> sym_kernel_start ld" "sym_kernel_end ld \<le> 0xC0400000"
    using assms by (auto simp add: image_ok_def)
  then have n: "0xC0100000 \<le> unat t" "unat t < 0xC0400000" by (simp_all add: word_le_nat_alt word_less_nat_alt)
  then have c: "0xC0000000 \<le> t" by (simp add: word_le_nat_alt)
  show 1: "page_base (PHYS t) = PHYS t" by (rule page_base_PHYS [OF t(1) c])
  show "unat (PHYS t) = unat t - 0xC0000000" by (rule unat_PHYS [OF c])
  then show "0x100000 \<le> unat (PHYS t)" using n by simp
  show "page_base (PHYS t OR 3) = PHYS t" "present (PHYS t OR 3)" using entry_word [OF 1, of 3] by (simp_all add: present_def)
  have "unat t div 0x400000 = 768" using n by auto
  then show "dir_of t = 768" by (simp add: word_unat_eq_iff unat_dir_of)
qed

lemma loader_ok:
  assumes im: "image_ok ld (phys m)"
  obtains m' where "loader ld m = Inr m'" "boot_mapped ld m'" "m' = m\<lparr>phys := phys m', cr3 := cr3 m'\<rparr>"
proof -
  let ?D = "PHYS (boot_page_directory ld)" let ?T = "PHYS (boot_page_table1 ld)"
  note D = image_tables [OF im, of "boot_page_directory ld", simplified] and T = image_tables [OF im, of "boot_page_table1 ld", simplified]
  have ne: "?D \<noteq> ?T" using im by (simp add: image_ok_def PHYS_def)
  define p where "p = (fill_table 1024 ?T 0 (phys m))(?D + 0 := ?T OR 3, ?D + 768 * 4 := ?T OR 3, ?D + 1023 * 4 := ?D OR 3)"
  define m1 where "m1 = m\<lparr>phys := p, cr3 := ?D OR 3\<rparr>"
  have base: "dir_base m1 = ?D" by (simp add: m1_def dir_base_def D)
  have s: "?D + d * 4 = ?D + e * 4 \<longleftrightarrow> d = e" if "d < 1024" "e < 1024" for d e using slot_eq_iff [OF that, of ?D ?D] D(1) by simp
  have pde: "pde m1 d = (if d = 0 \<or> d = 768 then ?T OR 3 else if d = 1023 then ?D OR 3 else 0)" if d: "d < 1024" for d
  proof -
    have "phys m (?D + d * 4) = 0" using im d by (simp add: image_ok_def)
    then have "fill_table 1024 ?T 0 (phys m) (?D + d * 4) = 0" using fill_table_slot [OF T(1) D(1) d] ne by simp
    moreover have "?D + d * 4 = ?D + 0 \<longleftrightarrow> d = 0" "?D + d * 4 = ?D + 768 * 4 \<longleftrightarrow> d = 768" "?D + d * 4 = ?D + 1023 * 4 \<longleftrightarrow> d = 1023"
      using s [OF d, of 0] s [OF d, of 768] s [OF d, of 1023] by simp_all
    ultimately show ?thesis unfolding pde_def base by (simp add: m1_def p_def)
  qed
  have pte: "pte m1 768 t = (t * 4096) OR 3" if t: "t < 1024" for t
  proof -
    have "?T + t * 4 \<noteq> ?D + e * 4" if "e < 1024" for e using slot_eq_iff [OF t that, of ?T ?D] D(1) T(1) ne by auto
    from this [of 0] this [of 768] this [of 1023]
    show ?thesis using fill_table_slot [OF T(1) T(1) t, of "phys m"] pde [of 768] by (simp add: pte_def T m1_def p_def)
  qed
  have "mmu m1 (boot_page_directory ld + 0) = Some (?D + 0)"
    using kernel_window [of m1 "boot_page_directory ld"] pde [of 768] pte D(6) T(5) by (simp add: PHYS_def)
  then have ld: "loader ld m = Inr (m1\<lparr>phys := (phys m1)(?D + 0 := 0)\<rparr>)"
    by (simp add: loader_def Let_def vwrite_def m1_def p_def)
  have e: "m1\<lparr>phys := (phys m1)(?D + 0 := 0)\<rparr> = set_pde 0 0 m1" by (simp add: set_pde_def base)
  have "pte (set_pde 0 0 m1) 768 t = pte m1 768 t" if "t < 1024" for t
    using pte_set_pde [of 0 768 t m1 0] that pde [of 768] ne base T(4) by simp
  then have "boot_mapped ld (set_pde 0 0 m1)"
    using pde pte by (simp add: boot_mapped_def) (simp add: m1_def)
  moreover have "set_pde 0 0 m1 = m\<lparr>phys := phys (set_pde 0 0 m1), cr3 := cr3 (set_pde 0 0 m1)\<rparr>" by (simp add: set_pde_def m1_def)
  ultimately show thesis using that ld unfolding e by blast
qed

end
