(* ===== verification/Boot.thy ===== *)
theory Boot
  imports Kernel_Tests Handlers Descriptor_Props Timers Pmm_Init Loader
begin

text \<open>
  The start of the kernel (\<open>src/src/kernel/kernel.c\<close>): \<open>kmain\<close> stage by stage, over a machine
  that holds the state of every component, and the line its endless loop prints. \<open>Test_Threads\<close> models its call of \<open>multitasking_run_test\<close>.
\<close>

section \<open>The start of the kernel\<close>

text \<open>
  The whole machine: the console, whose trace of port accesses is that of the machine, the descriptor tables, and the kernel
  with the heap, the address space and the frames below it.
\<close>

record machine =
  screen :: console
  gdt_part :: gdt_state
  idt_part :: idt_state
  kern :: kernel_state

text \<open>What the linker and the boot loader provide: addresses, and the memory with the Multiboot structures.\<close>

record boot_env =
  link :: link_symbols
  gdt_address :: u32
  isrs :: isr_addresses
  code :: code_addresses
  info_at :: "u32 \<Rightarrow> multiboot_info"
  mmap_at :: "u32 \<Rightarrow> multiboot_mmap_entry"

definition MULTIBOOT_BOOTLOADER_MAGIC :: u32 where "MULTIBOOT_BOOTLOADER_MAGIC = 0x2BADB002"

definition line :: "string \<Rightarrow> u8 list" where
  "line t = map of_char t @ [10, 0]"

definition say :: "u8 list \<Rightarrow> va_arg list \<Rightarrow> machine \<Rightarrow> (panic + machine) option" where
  "say format args m = Option.bind (printf format args (screen m)) (\<lambda>s. Some (Inr (m\<lparr>screen := s\<rparr>)))"

definition mm_of :: "machine \<Rightarrow> mm_state" where
  "mm_of m = hvm (kheap (kern m))"

definition set_mm :: "mm_state \<Rightarrow> machine \<Rightarrow> machine" where
  "set_mm mm m = m\<lparr>kern := (kern m)\<lparr>kheap := (kheap (kern m))\<lparr>hvm := mm\<rparr>\<rparr>\<rparr>"

definition set_ports :: "io_log \<Rightarrow> machine \<Rightarrow> machine" where
  "set_ports tr m = m\<lparr>screen := (screen m)\<lparr>ports := tr\<rparr>\<rparr>"

definition kmain_tables :: "device \<Rightarrow> boot_env \<Rightarrow> machine \<Rightarrow> (panic + machine) option" where
  "kmain_tables dev env m =
     kbind (say (line ''Booting OS'') [] (m\<lparr>screen := vga_clear_screen (screen m)\<rparr>)) (\<lambda>m1.
     kbind (say (line ''GDT initialized'') [] (m1\<lparr>gdt_part := initGdt (gdt_address env) (gdt_part m1)\<rparr>)) (\<lambda>m2.
     let i = idt_init dev (isrs env) ((idt_part m2)\<lparr>idt_ports := ports (screen m2)\<rparr>)
     in say (line ''IDT initialized'') [] (set_ports (idt_ports i) (m2\<lparr>idt_part := i\<rparr>))))"

definition kmain_disk :: "device \<Rightarrow> (nat \<Rightarrow> u16) \<Rightarrow> machine \<Rightarrow> (panic + machine) option" where
  "kmain_disk dev identify_buffer m =
     kbind (identify_disk dev identify_buffer (screen m)) (\<lambda>(_, s). Some (Inr (m\<lparr>screen := s\<rparr>)))"

definition kmain_memory :: "boot_env \<Rightarrow> u32 \<Rightarrow> u32 \<Rightarrow> machine \<Rightarrow> (panic + machine) option" where
  "kmain_memory env mbd magic m =
     (let info = info_at env (mbd + 0xC0000000)
      in if magic \<noteq> MULTIBOOT_BOOTLOADER_MAGIC then Some (Inl InvalidMagic)
         else if drop_bit 6 (mb_flags info) AND 0x1 = 0 then Some (Inl InvalidMemoryMap)
         else
           let bitmap_addr = (sym_kernel_end (link env) + 0xFFF) AND NOT 0xFFF
           in kbind (say (line ''Init PMM'') [] m) (\<lambda>m1.
              case pmm_init (mmap_at env) (sym_kernel_start (link env)) (sym_kernel_end (link env)) info bitmap_addr (pmm (mm_of m1)) of
                None \<Rightarrow> None
              | Some pm \<Rightarrow>
                  kbind (say (line ''Init Paging'') [] (set_mm ((mm_of m1)\<lparr>pmm := pm\<rparr>) m1)) (\<lambda>m2.
                  Some (Inr (set_mm (paging_init (mm_of m2)) m2)))))"

definition kmain_timer :: "device \<Rightarrow> machine \<Rightarrow> (panic + machine) option" where
  "kmain_timer dev m =
     (let (v, tr) = inb dev 0x21 (ports (screen m));
          m1 = set_ports (outb 0x21 (v OR 0x01) tr) m
      in kbind (Some (map_page 0xFEE00000 0xFEE00000 (PTE_PRESENT OR PTE_RW) (mm_of m1))) (\<lambda>mm.
         let m2 = set_mm mm m1
         in Option.bind (apic_start_timer dev (ports (screen m2))) (\<lambda>tr2.
            say (line ''APIC timer started'') [] (set_ports tr2 m2))))"

definition kmain_heap :: "boot_env \<Rightarrow> machine \<Rightarrow> (panic + machine) option" where
  "kmain_heap env m =
     kbind (say (line ''Checking kernel heap'') [] m) (\<lambda>m1.
     kbind (kmalloc_run_test (kmalloc_init (sym_kernel_end (link env)) (kheap (kern m1)))) (\<lambda>h.
     say (line ''All Heap Tests Passed!'') [] (m1\<lparr>kern := (kern m1)\<lparr>kheap := h\<rparr>\<rparr>)))"

definition kmain_threads :: "boot_env \<Rightarrow> machine \<Rightarrow> (panic + machine) option" where
  "kmain_threads env m =
     kbind (initialize_multitasking (code env) (kern m)) (\<lambda>k.
     kbind (say (line ''Multitasking initialized'') [] (m\<lparr>kern := k\<rparr>)) (\<lambda>m1.
     say (line ''Checking multitasking'') [] m1))"

text \<open>
  The timer interrupts that come after the timer is started and before there are threads. They change the scheduler's variables only,
  which the code in between does not touch; so they are placed before \<open>initialize_multitasking\<close>.
\<close>

fun early_ticks :: "nat \<Rightarrow> sched_state \<Rightarrow> sched_state option" where
  "early_ticks 0 s = Some s"
| "early_ticks (Suc n) s = Option.bind (apic_timer_handler s) (early_ticks n)"

text \<open>\<open>kmain\<close> up to the call of \<open>multitasking_run_test\<close>.\<close>

definition kmain_boot :: "device \<Rightarrow> boot_env \<Rightarrow> (nat \<Rightarrow> u16) \<Rightarrow> nat \<Rightarrow> u32 \<Rightarrow> u32 \<Rightarrow> machine \<Rightarrow> (panic + machine) option" where
  "kmain_boot dev env identify_buffer ticks mbd magic m =
     kbind (kmain_tables dev env m) (\<lambda>m1.
     kbind (kmain_disk dev identify_buffer m1) (\<lambda>m2.
     kbind (kmain_memory env mbd magic m2) (\<lambda>m3.
     kbind (kmain_timer dev m3) (\<lambda>m4.
     kbind (kmain_heap env m4) (\<lambda>m5.
     Option.bind (early_ticks ticks (sched (kern m5))) (\<lambda>s.
     kmain_threads env (m5\<lparr>kern := (kern m5)\<lparr>sched := s\<rparr>\<rparr>)))))))"

text \<open>The line printed by the endless loop at the end of \<open>kmain\<close>, between two calls of \<open>sleep_ms(1000)\<close>.\<close>

definition spinner :: "u8 list" where
  "spinner = map of_char ''|/-'' @ [92]"

definition uptime_line :: "u32 \<Rightarrow> machine \<Rightarrow> (panic + machine) option" where
  "uptime_line uptime_seconds m =
     say ([13] @ map of_char ''  [%c] %d seconds active...'' @ [0])
       [Va_Int (scast (spinner ! unat (uptime_seconds mod 4))), Va_Int uptime_seconds] m"

text \<open>
  The endless loop, \<open>n\<close> times: \<open>ticks i\<close> are the readings of the tick counter in the call of \<open>sleep_ms\<close> of iteration \<open>i\<close>.
\<close>

primrec kmain_loop :: "(nat \<Rightarrow> nat \<Rightarrow> u64) \<Rightarrow> nat \<Rightarrow> machine \<Rightarrow> (panic + u32 \<times> machine) option" where
  "kmain_loop ticks 0 m = Some (Inr (0, m))"
| "kmain_loop ticks (Suc n) m =
     kbind (kmain_loop ticks n m) (\<lambda>(uptime_seconds, m1).
     kbind (uptime_line uptime_seconds m1) (\<lambda>m2.
     Option.bind (sleep_ms (ticks n) 1000) (\<lambda>_. Some (Inr (uptime_seconds + 1, m2)))))"

text \<open>The end of \<open>multitasking_run_test\<close> and the rest of \<open>kmain\<close> up to its endless loop.\<close>

definition kmain_finish :: "device \<Rightarrow> (nat \<Rightarrow> u16) \<Rightarrow> machine \<Rightarrow> (panic + machine) option" where
  "kmain_finish dev stack m =
     kbind (say (line ''Multitasking tests passed!'') [] m) (\<lambda>m1.
     kbind (ata_test dev stack (ports (screen m1))) (\<lambda>tr.
     kbind (say (line ''ATA Read/Write Loopback Successful!'') [] (set_ports tr m1)) (\<lambda>m2.
     say (line ''System Uptime: '') [] m2)))"

end
