(* ===== verification/Boot_Ops.thy ===== *)
theory Boot_Ops
  imports Boot
begin

text \<open>
  What every stage of the start does, given what the stages before it establish.
\<close>

section \<open>Specification vocabulary\<close>

text \<open>What the screen shows: the text printed since it was cleared, in white on black.\<close>

definition shows_text :: "u8 list \<Rightarrow> machine \<Rightarrow> bool" where
  "shows_text t m \<longleftrightarrow> console_ok (screen m) \<and> current_color (screen m) = 0x0F
     \<and> (cells (screen m), position (screen m)) = fold (tty_put 0x0F) t (replicate 2000 (0x20, 0x0F), 0)"

definition shown :: "string \<Rightarrow> u8 list" where
  "shown t = map of_char t @ [10]"

text \<open>A string without directives.\<close>

definition plain :: "string \<Rightarrow> bool" where
  "plain t \<longleftrightarrow> list_all (\<lambda>c. of_char c \<noteq> (0 :: u8) \<and> of_char c \<noteq> (37 :: u8)) t"

text \<open>What most steps of the boot leave alone.\<close>

definition same_rest :: "machine \<Rightarrow> machine \<Rightarrow> bool" where
  "same_rest m m' \<longleftrightarrow> gdt_part m' = gdt_part m \<and> idt_part m' = idt_part m \<and> sched (kern m') = sched (kern m)
     \<and> free_list_head (kheap (kern m')) = free_list_head (kheap (kern m))"

text \<open>The frames that \<open>pmm_init\<close> leaves free at boot.\<close>

definition usable_frames :: "link_symbols \<Rightarrow> multiboot_mmap_entry list \<Rightarrow> u32 set" where
  "usable_frames ld es = (\<Union>e \<in> set es. entry_frames e)
     - region_frames (unat (sym_kernel_start ld) - 0xC0000000) (unat (sym_kernel_end ld) - 0xC0000000)
     - region_frames (unat ((sym_kernel_end ld + 0xFFF) AND NOT 0xFFF) - 0xC0000000)
         (unat ((sym_kernel_end ld + 0xFFF) AND NOT 0xFFF) - 0xC0000000 + (unat (PAGE_ALIGN_UP (fold scan_entry es 0) div 4096) + 31) div 32 * 4)
     - region_frames 0 0x100000"

text \<open>The output of the old timer rises at some reading, whenever it is waited for.\<close>

definition pit_rises :: "device \<Rightarrow> bool" where
  "pit_rises dev \<longleftrightarrow> (\<forall>tr. \<exists>n. port_b dev (pit_readings dev n tr) 0x61 AND 0x20 \<noteq> 0)"

text \<open>The scheduler's variables as the compiler initialises them.\<close>

definition fresh_sched :: "sched_state \<Rightarrow> bool" where
  "fresh_sched s \<longleftrightarrow> booted s \<and> current_thread s = idle_thread s \<and> IRQ_disable_counter s = 0
     \<and> postpone_switches_counter s = 0 \<and> postponed_yield_flag s = 0"

section \<open>Lemmas\<close>

lemma image_frame:
  assumes im: "image_ok ld p" and t: "t \<in> {boot_page_directory ld, boot_page_table1 ld}"
  shows "PHYS t div 4096 \<in> region_frames (unat (sym_kernel_start ld) - 0xC0000000) (unat (sym_kernel_end ld) - 0xC0000000)"
proof -
  have "sym_kernel_start ld \<le> t" "t < sym_kernel_end ld" using im t by (auto simp add: image_ok_def)
  then have n: "unat (sym_kernel_start ld) \<le> unat t" "unat t < unat (sym_kernel_end ld)" by (simp_all add: word_le_nat_alt word_less_nat_alt)
  note p = image_tables [OF im t]
  have "(unat (PHYS t) + 4096) div 4096 \<le> (unat (sym_kernel_end ld) - 0xC0000000 + 4095) div 4096"
    using n p(2,3) by (intro div_le_mono) simp
  then have "unat (PHYS t) div 4096 < (unat (sym_kernel_end ld) - 0xC0000000 + 4095) div 4096" by simp
  moreover have "(unat (sym_kernel_start ld) - 0xC0000000) div 4096 \<le> unat (PHYS t) div 4096" using n p(3) by (intro div_le_mono) simp
  ultimately show ?thesis by (simp add: region_frames_def unat_div)
qed

lemma boot_vm_inv:
  assumes im: "image_ok ld p" and bm: "boot_mapped ld m" and pm: "pmm_inv (pmm m)" "paging_enabled m \<noteq> 0" "ref_counter m = (\<lambda>_. 0)"
    and fr: "free_frames (pmm m) \<inter> region_frames (unat (sym_kernel_start ld) - 0xC0000000) (unat (sym_kernel_end ld) - 0xC0000000) = {}"
      "free_frames (pmm m) \<inter> region_frames 0 0x100000 = {}"
  shows "vm_inv m"
proof -
  let ?D = "PHYS (boot_page_directory ld)" let ?T = "PHYS (boot_page_table1 ld)"
  note D = image_tables [OF im, of "boot_page_directory ld", simplified] and T = image_tables [OF im, of "boot_page_table1 ld", simplified]
  have ne: "?D \<noteq> ?T" "?D \<noteq> 0" "?T \<noteq> 0" using im D(2) T(2) by (auto simp add: image_ok_def PHYS_def)
  have base: "dir_base m = ?D" using bm D(4) by (simp add: boot_mapped_def dir_base_def)
  have pde: "pde m d = (if d = 768 then ?T OR 3 else if d = 1023 then ?D OR 3 else 0)" if "d < 1024" for d
    using bm that by (simp add: boot_mapped_def)
  have z: "\<not> present 0" by (simp add: present_def)
  have "0 \<in> region_frames 0 0x100000" by (simp add: region_frames_def)
  then have "0 \<notin> free_frames (pmm m)" using fr(2) by blast
  moreover have "?D div 4096 \<notin> free_frames (pmm m)" "?T div 4096 \<notin> free_frames (pmm m)"
    using image_frame [OF im] fr(1) by blast+
  moreover have "mapped_slots m d = {}" if "d < 768" for d
    using pde [of d] that z by (auto simp add: mapped_slots_def word_less_nat_alt)
  moreover have "recursive m" using pde [of 1023] D by (simp add: recursive_def base)
  moreover have "present (pde m d) \<longleftrightarrow> d = 768 \<or> d = 1023" if "d < 1024" for d using pde [OF that] z D(5) T(5) by auto
  moreover have b: "page_base (pde m 768) = ?T" "page_base (pde m 1023) = ?D" using pde [of 768] pde [of 1023] D(4) T(4) by simp_all
  moreover have "pde m 768 div 4096 = ?T div 4096" "pde m 1023 div 4096 = ?D div 4096" unfolding b [symmetric] by simp_all
  ultimately show ?thesis using pm ne unfolding vm_inv_def by auto
qed

lemma boot_unmapped:
  assumes "boot_mapped ld m" "dir_of a \<noteq> 768" "dir_of a \<noteq> 1023"
  shows "mmu m a = None"
  using assms by (simp add: boot_mapped_def mmu_eq present_def)

lemma shows_print: "shows_text t m \<Longrightarrow> shows_text (t @ bs) (m\<lparr>screen := fold vga_putchar bs (screen m)\<rparr>)"
  using console_text [of "screen m" bs] by (auto simp add: shows_text_def)

lemma shows_cong:
  "shows_text t (set_ports tr m) = shows_text t m"
  "shows_text t (set_mm mm m) = shows_text t m" "shows_text t (m\<lparr>kern := k\<rparr>) = shows_text t m"
  "shows_text t (m\<lparr>gdt_part := g\<rparr>) = shows_text t m" "shows_text t (m\<lparr>idt_part := i\<rparr>) = shows_text t m"
  by (simp_all add: shows_text_def set_ports_def set_mm_def console_ok_def cells_def cell_at_def position_def)

lemma shows_clear: "current_color (screen m) = 0x0F \<Longrightarrow> shows_text [] (m\<lparr>screen := vga_clear_screen (screen m)\<rparr>)"
  using clear_screen_ok [where s = "screen m"] by (simp add: shows_text_def)

lemma set_simps [simp]:
  "mm_of (set_mm mm m) = mm" "screen (set_mm mm m) = screen m" "gdt_part (set_mm mm m) = gdt_part m" "idt_part (set_mm mm m) = idt_part m"
  "kern (set_ports tr m) = kern m" "gdt_part (set_ports tr m) = gdt_part m" "idt_part (set_ports tr m) = idt_part m" "mm_of (set_ports tr m) = mm_of m"
  "sched (kern (set_mm mm m)) = sched (kern m)" "hvm (kheap (kern m)) = mm_of m" "kheap (kern (set_mm mm m)) = (kheap (kern m))\<lparr>hvm := mm\<rparr>"
  "semaphores (kern (set_mm mm m)) = semaphores (kern m)" "mutexes (kern (set_mm mm m)) = mutexes (kern m)"
  "mm_of (m\<lparr>screen := s\<rparr>) = mm_of m"
  by (simp_all add: mm_of_def set_mm_def set_ports_def)

lemma same_rest_simps [simp]:
  "same_rest m m" "same_rest m (set_mm mm m') = same_rest m m'" "same_rest m (set_ports tr m') = same_rest m m'" "same_rest m (m'\<lparr>screen := s\<rparr>) = same_rest m m'"
  by (simp_all add: same_rest_def)

lemma same_rest_trans: "same_rest m m' \<Longrightarrow> same_rest m' m'' \<Longrightarrow> same_rest m m''"
  by (simp add: same_rest_def)

text \<open>A line printed leaves the machine but for the console as it is.\<close>

lemma say_line:
  assumes "plain t" "shows_text u m"
  obtains m' where "say (line t) [] m = Some (Inr m')" "shows_text (u @ shown t) m'" "m' = m\<lparr>screen := screen m'\<rparr>" "same_rest m m'" "mm_of m' = mm_of m"
proof -
  have "render (line t) [] = Some (shown t)"
    using render_plain [of "shown t" "[]" "[]"] assms(1) by (fastforce simp add: line_def shown_def plain_def list_all_iff)
  then have "say (line t) [] m = Some (Inr (m\<lparr>screen := fold vga_putchar (shown t) (screen m)\<rparr>))" by (simp add: say_def printf_eq)
  then show thesis using shows_print [OF assms(2), of "shown t"] by (intro that [of "m\<lparr>screen := fold vga_putchar (shown t) (screen m)\<rparr>"]) simp_all
qed

lemma plain_lines:
  "plain ''Booting OS''" "plain ''GDT initialized''" "plain ''IDT initialized''" "plain ''Init PMM''" "plain ''Init Paging''"
  "plain ''APIC timer started''" "plain ''Checking kernel heap''" "plain ''All Heap Tests Passed!''" "plain ''Multitasking initialized''" "plain ''Checking multitasking''"
  by (simp_all add: plain_def)

lemma kmain_tables_ok:
  assumes "current_color (screen m) = 0x0F"
  shows "\<exists>m' tr. kmain_tables dev env m = Some (Inr m') \<and> shows_text (shown ''Booting OS'' @ shown ''GDT initialized'' @ shown ''IDT initialized'') m'
    \<and> kern m' = kern m \<and> gdt_part m' = initGdt (gdt_address env) (gdt_part m)
    \<and> idt_part m' = idt_init dev (isrs env) ((idt_part m)\<lparr>idt_ports := tr\<rparr>)"
proof -
  obtain m1 where 1: "say (line ''Booting OS'') [] (m\<lparr>screen := vga_clear_screen (screen m)\<rparr>) = Some (Inr m1)" "shows_text ([] @ shown ''Booting OS'') m1"
    "m1 = m\<lparr>screen := vga_clear_screen (screen m)\<rparr>\<lparr>screen := screen m1\<rparr>"
    by (rule say_line [OF plain_lines(1) shows_clear [OF assms]])
  define m1' where "m1' = m1\<lparr>gdt_part := initGdt (gdt_address env) (gdt_part m1)\<rparr>"
  have "shows_text (shown ''Booting OS'') m1'" using 1(2) unfolding m1'_def shows_cong append_Nil .
  then obtain m2 where 2: "say (line ''GDT initialized'') [] m1' = Some (Inr m2)" "shows_text (shown ''Booting OS'' @ shown ''GDT initialized'') m2"
    "m2 = m1'\<lparr>screen := screen m2\<rparr>"
    by (rule say_line [OF plain_lines(2)])
  define i where "i = idt_init dev (isrs env) ((idt_part m2)\<lparr>idt_ports := ports (screen m2)\<rparr>)"
  have "shows_text (shown ''Booting OS'' @ shown ''GDT initialized'') (set_ports (idt_ports i) (m2\<lparr>idt_part := i\<rparr>))"
    using 2(2) unfolding shows_cong .
  then obtain m3 where 3: "say (line ''IDT initialized'') [] (set_ports (idt_ports i) (m2\<lparr>idt_part := i\<rparr>)) = Some (Inr m3)"
    "shows_text ((shown ''Booting OS'' @ shown ''GDT initialized'') @ shown ''IDT initialized'') m3"
    "m3 = (set_ports (idt_ports i) (m2\<lparr>idt_part := i\<rparr>))\<lparr>screen := screen m3\<rparr>"
    by (rule say_line [OF plain_lines(3)])
  have "kmain_tables dev env m = Some (Inr m3)"
    unfolding kmain_tables_def 1(1) kbind_simps m1'_def [symmetric] 2(1) Let_def i_def [symmetric] 3(1) ..
  moreover have e: "kern m1 = kern m" "gdt_part m1 = gdt_part m" "idt_part m1 = idt_part m" by (subst 1(3), simp)+
  have e2: "kern m2 = kern m" "gdt_part m2 = initGdt (gdt_address env) (gdt_part m)" "idt_part m2 = idt_part m" by (subst 2(3), simp add: m1'_def e)+
  have "kern m3 = kern m" "gdt_part m3 = initGdt (gdt_address env) (gdt_part m)" "idt_part m3 = i" by (subst 3(3), simp add: e2)+
  ultimately show ?thesis using 3(2) unfolding append_assoc i_def e2(3) by blast
qed

lemma kmain_disk_ok:
  assumes "ata_drive dev d" "drive_present dev" "shows_text u m"
  shows "\<exists>n m'. kmain_disk dev buf m = Some (Inr m') \<and> shows_text (u @ size_text n) m' \<and> m' = m\<lparr>screen := screen m'\<rparr>"
proof -
  obtain b tr1 tr2 where i: "identify_disk dev buf (screen m)
      = Some (Inr (b, (fold vga_putchar (size_text (disk_size b)) ((screen m)\<lparr>ports := tr1\<rparr>))\<lparr>ports := tr2\<rparr>))"
    using identify_ok [OF assms(1,2)] by blast
  define x where "x = set_ports tr1 m"
  have "shows_text (u @ size_text (disk_size b)) (set_ports tr2 (x\<lparr>screen := fold vga_putchar (size_text (disk_size b)) (screen x)\<rparr>))"
    using shows_print [of u x] assms(3) by (simp add: shows_cong x_def)
  moreover have "kmain_disk dev buf m = Some (Inr (set_ports tr2 (x\<lparr>screen := fold vga_putchar (size_text (disk_size b)) (screen x)\<rparr>)))"
    unfolding kmain_disk_def i by (simp add: x_def set_ports_def)
  ultimately show ?thesis by (intro exI [of _ "disk_size b"] exI) (auto simp add: x_def set_ports_def)
qed

lemma image_bounds:
  assumes "image_ok ld p"
  shows "0xC0100000 \<le> unat (sym_kernel_start ld)" "unat (sym_kernel_start ld) < unat (sym_kernel_end ld)" "unat (sym_kernel_end ld) \<le> 0xC0400000"
    "unat ((sym_kernel_end ld + 0xFFF) AND NOT 0xFFF) = (unat (sym_kernel_end ld) + 0xFFF) div 4096 * 4096"
proof -
  have a: "sym_kernel_start ld \<le> boot_page_directory ld" "boot_page_directory ld < sym_kernel_end ld" "0xC0100000 \<le> sym_kernel_start ld" "sym_kernel_end ld \<le> 0xC0400000"
    using assms by (auto simp add: image_ok_def)
  then show b: "0xC0100000 \<le> unat (sym_kernel_start ld)" "unat (sym_kernel_start ld) < unat (sym_kernel_end ld)" "unat (sym_kernel_end ld) \<le> 0xC0400000"
    by (simp_all add: word_le_nat_alt word_less_nat_alt)
  then have "unat (sym_kernel_end ld + 0xFFF) = unat (sym_kernel_end ld) + 0xFFF" by (simp add: unat_word_ariths)
  then show "unat ((sym_kernel_end ld + 0xFFF) AND NOT 0xFFF) = (unat (sym_kernel_end ld) + 0xFFF) div 4096 * 4096"
    using unat_and_not_mask [of "sym_kernel_end ld + 0xFFF" 12] by (simp add: numeral_mask_12 [symmetric])
qed

lemma image_layout:
  assumes "image_ok ld p"
  shows "kernel_layout (sym_kernel_start ld) (sym_kernel_end ld) ((sym_kernel_end ld + 0xFFF) AND NOT 0xFFF)"
proof -
  note b = image_bounds [OF assms]
  have "(0xC0100000 + 0xFFF) div 4096 * 4096 \<le> (unat (sym_kernel_end ld) + 0xFFF) div 4096 * 4096" using b by (intro mult_le_mono1 div_le_mono) simp
  moreover have "(unat (sym_kernel_end ld) + 0xFFF) div 4096 * 4096 \<le> 0xC0400000 + 0xFFF" using b by (intro order_trans [OF div_times_less_eq_dividend]) simp
  ultimately show ?thesis using b by (simp add: kernel_layout_def word_le_nat_alt)
qed

lemma boot_mapped_cong: "phys m' = phys m \<Longrightarrow> cr3 m' = cr3 m \<Longrightarrow> boot_mapped ld m' = boot_mapped ld m"
  by (simp only: boot_mapped_def pde_def pte_def dir_base_def)

lemma kmain_memory_ok:
  fixes env mbd
  defines "info \<equiv> info_at env (mbd + 0xC0000000)"
  assumes im: "image_ok (link env) p" and bm: "boot_mapped (link env) (mm_of m)" "ref_counter (mm_of m) = (\<lambda>_. 0)"
    and mb: "magic = MULTIBOOT_BOOTLOADER_MAGIC" "drop_bit 6 (mb_flags info) AND 0x1 \<noteq> 0"
    and st: "mmap_steps (mmap_at env) (mmap_limit info)" and sh: "shows_text u m"
  shows "\<exists>m' es. mmap_walk (mmap_at env) (mmap_addr info + 0xC0000000) (mmap_limit info) = Some es
    \<and> kmain_memory env mbd magic m = Some (Inr m') \<and> shows_text (u @ shown ''Init PMM'' @ shown ''Init Paging'') m'
    \<and> vm_inv (mm_of m') \<and> boot_mapped (link env) (mm_of m') \<and> free_frames (pmm (mm_of m')) = usable_frames (link env) es
    \<and> same_rest m m'"
proof -
  let ?ld = "link env" let ?b = "(sym_kernel_end (link env) + 0xFFF) AND NOT 0xFFF"
  obtain es where es: "mmap_walk (mmap_at env) (mmap_addr info + 0xC0000000) (mmap_limit info) = Some es" "\<forall>e \<in> set es. wf_entry e"
    using mmap_walk_returns [OF st] by blast
  obtain m1 where 1: "say (line ''Init PMM'') [] m = Some (Inr m1)" "shows_text (u @ shown ''Init PMM'') m1" "m1 = m\<lparr>screen := screen m1\<rparr>" "same_rest m m1" and mm1: "mm_of m1 = mm_of m"
    by (rule say_line [OF plain_lines(4) sh])
  obtain pm where pm: "pmm_init (mmap_at env) (sym_kernel_start ?ld) (sym_kernel_end ?ld) info ?b (pmm (mm_of m1)) = Some pm" "pmm_inv pm"
    "free_frames pm = (\<Union>e \<in> set es. entry_frames e) - region_frames (unat (sym_kernel_start ?ld) - 0xC0000000) (unat (sym_kernel_end ?ld) - 0xC0000000)
       - region_frames (unat ?b - 0xC0000000) (unat ?b - 0xC0000000 + (unat (max_blocks pm) + 31) div 32 * 4) - region_frames 0 0x100000"
    using pmm_init_frames [OF es(1) [unfolded mmap_limit_def] es(2) image_layout [OF im]] by blast
  have "max_blocks pm = PAGE_ALIGN_UP (fold scan_entry es 0) div 4096"
    using pmm_init_max_blocks [OF es(1), of "sym_kernel_start ?ld" "sym_kernel_end ?ld" ?b "pmm (mm_of m1)"] pm(1) by simp
  then have ff: "free_frames pm = usable_frames ?ld es" using pm(3) by (simp add: usable_frames_def)
  define m1' where "m1' = set_mm ((mm_of m1)\<lparr>pmm := pm\<rparr>) m1"
  have "shows_text (u @ shown ''Init PMM'') m1'" using 1(2) unfolding m1'_def shows_cong .
  then obtain m2 where 2: "say (line ''Init Paging'') [] m1' = Some (Inr m2)" "shows_text ((u @ shown ''Init PMM'') @ shown ''Init Paging'') m2" "m2 = m1'\<lparr>screen := screen m2\<rparr>" "same_rest m1' m2" "mm_of m2 = mm_of m1'"
    by (rule say_line [OF plain_lines(5)])
  have mm2: "mm_of m2 = (mm_of m)\<lparr>pmm := pm\<rparr>" unfolding 2(5) by (simp add: m1'_def mm1)
  define mm where "mm = paging_init (mm_of m2)"
  have f: "pmm mm = pm" "ref_counter mm = (\<lambda>_. 0)" "paging_enabled mm \<noteq> 0" "boot_mapped ?ld mm"
    using bm boot_mapped_cong [of mm "mm_of m"] by (simp_all add: mm_def paging_init_def mm2)
  have "vm_inv mm"
    using boot_vm_inv [OF im f(4)] f(1-3) pm(2) by (simp add: ff usable_frames_def) blast
  moreover have "kmain_memory env mbd magic m = Some (Inr (set_mm mm m2))"
    using mb unfolding kmain_memory_def info_def [symmetric] Let_def 1(1) kbind_simps pm(1) option.case m1'_def [symmetric] 2(1) mm_def by simp
  moreover have "same_rest m m2" using 1(4) 2(4) same_rest_trans [of m m1' m2] by (simp add: m1'_def)
  ultimately show ?thesis using es(1) 2(2) f(1,4) ff by (intro exI [of _ "set_mm mm m2"] exI [of _ es]) (simp add: shows_cong)
qed

lemma apic_start_returns: "pit_rises dev \<Longrightarrow> \<exists>tr'. apic_start_timer dev tr = Some tr'"
  unfolding pit_rises_def using apic_calibrates [of dev _ tr] by meson

lemma kmain_timer_ok:
  assumes vm: "vm_inv (mm_of m)" "boot_mapped ld (mm_of m)" "image_ok ld p" and fr: "free_frames (pmm (mm_of m)) \<noteq> {}"
    and pit: "pit_rises dev" and sh: "shows_text u m"
  shows "\<exists>m'. kmain_timer dev m = Some (Inr m') \<and> shows_text (u @ shown ''APIC timer started'') m' \<and> same_rest m m' \<and> vm_inv (mm_of m')
    \<and> (\<forall>a. dir_of a \<noteq> 1023 \<longrightarrow> mmu (mm_of m') a = (if same_page a 0xFEE00000 then Some (0xFEE00000 + (a AND 0xFFF))
          else if dir_of a = 768 then Some (a - KERNEL_VIRTUAL_BASE) else None))
    \<and> card (free_frames (pmm (mm_of m))) \<le> card (free_frames (pmm (mm_of m'))) + 1"
proof -
  have w: "mmu (mm_of m) a = (if dir_of a = 768 then Some (a - KERNEL_VIRTUAL_BASE) else None)" if "dir_of a \<noteq> 1023" for a
    using kernel_window [of "mm_of m" a] boot_unmapped [OF vm(2), of a] vm(2) image_tables(5) [OF vm(3), of "boot_page_table1 ld"] that
    by (auto simp add: boot_mapped_def)
  have "map_ok 0xFEE00000 0xFEE00000 3 (mm_of m)" using fr by (simp add: map_ok_def dir_of_def page_base_def present_def)
  from map_page_ok [OF vm(1) this] obtain mm where mm: "map_page 0xFEE00000 0xFEE00000 3 (mm_of m) = Inr mm" "vm_inv mm"
    "\<forall>v. dir_of v \<noteq> 1023 \<longrightarrow> mmu mm v = (if same_page v 0xFEE00000 then Some (0xFEE00000 + (v AND 0xFFF)) else mmu (mm_of m) v)"
    "card (free_frames (pmm (mm_of m))) \<le> card (free_frames (pmm mm)) + 1" by blast
  obtain v tr where i: "inb dev 0x21 (ports (screen m)) = (v, tr)" by fastforce
  define m1 where "m1 = set_mm mm (set_ports (outb 0x21 (v OR 0x01) tr) m)"
  obtain tr2 where a: "apic_start_timer dev (ports (screen (set_ports (outb 0x21 (v OR 0x01) tr) m))) = Some tr2" using apic_start_returns [OF pit] by blast
  have "shows_text u (set_ports tr2 m1)" using sh unfolding m1_def shows_cong .
  then obtain m2 where 2: "say (line ''APIC timer started'') [] (set_ports tr2 m1) = Some (Inr m2)" "shows_text (u @ shown ''APIC timer started'') m2"
    "same_rest (set_ports tr2 m1) m2" "mm_of m2 = mm_of (set_ports tr2 m1)"
    by (rule say_line [OF plain_lines(6)])
  have three: "PTE_PRESENT OR PTE_RW = 3" by simp
  have "kmain_timer dev m = Some (Inr m2)"
    unfolding kmain_timer_def i prod.case Let_def set_simps three mm(1) kbind_simps m1_def [symmetric] a Option.bind.bind_lunit 2(1) ..
  moreover have "same_rest m m2" using 2(3) by (simp add: m1_def same_rest_def)
  moreover have "mm_of m2 = mm" using 2(4) by (simp add: m1_def)
  ultimately show ?thesis using 2(2) mm(2-4) w by auto
qed

lemma kmain_heap_ok:
  defines "base ld \<equiv> (unat (sym_kernel_end ld) + 0x400FFF) div 4096 * 4096"
  assumes im: "image_ok (link env) p" and vm: "vm_inv (mm_of m)" "free_list_head (kheap (kern m)) = 0"
    and un: "\<forall>a. dir_of a \<noteq> 1023 \<longrightarrow> dir_of a \<noteq> 768 \<longrightarrow> \<not> same_page a 0xFEE00000 \<longrightarrow> mmu (mm_of m) a = None"
    and r: "2 * (38 + r) \<le> card (free_frames (pmm (mm_of m)))" "r \<le> 0x30000" and sh: "shows_text u m"
  shows "\<exists>m'. kmain_heap env m = Some (Inr m') \<and> shows_text (u @ shown ''Checking kernel heap'' @ shown ''All Heap Tests Passed!'') m'
    \<and> gdt_part m' = gdt_part m \<and> idt_part m' = idt_part m \<and> sched (kern m') = sched (kern m)
    \<and> heap_state_ok (base (link env)) (kheap (kern m')) {} \<and> heap_room r (kheap (kern m'))"
proof -
  let ?ld = "link env" let ?b = "base (link env)"
  note b = image_bounds [OF im]
  have lo: "0xC0500000 \<le> ?b"
    using b(1,2) div_le_mono [of "0xC0500FFF" "unat (sym_kernel_end ?ld) + 0x400FFF" 4096] by (simp add: base_def)
  have hi: "?b \<le> 0xC0801000" using b(3) div_le_mono [of "unat (sym_kernel_end ?ld) + 0x400FFF" "0xC0800FFF" 4096] by (simp add: base_def)
  obtain m1 where 1: "say (line ''Checking kernel heap'') [] m = Some (Inr m1)" "shows_text (u @ shown ''Checking kernel heap'') m1" "m1 = m\<lparr>screen := screen m1\<rparr>" "same_rest m m1" "mm_of m1 = mm_of m"
    by (rule say_line [OF plain_lines(7) sh])
  let ?h = "kmalloc_init (sym_kernel_end ?ld) (kheap (kern m1))"
  have "mmu (mm_of m) a = None" if "a \<in> region ?b HEAP_LIMIT" for a
  proof -
    have a: "?b \<le> unat a" "unat a < 0xFEE00000" using that by (auto simp add: region_def HEAP_LIMIT_def)
    then have "unat a div 0x400000 \<noteq> 768" using a lo by auto
    then have "dir_of a \<noteq> 768" using unat_dir_of [of a] by auto
    moreover have "\<not> same_page a 0xFEE00000" using a(2) unfolding same_page_iff by auto
    ultimately show ?thesis using un region_dir [OF that order_refl] by blast
  qed
  then have inv: "heap_inv ?b [] (\<lambda>_. 0) ?h"
    using kmalloc_init_inv [of "kheap (kern m1)" "sym_kernel_end ?ld" ?b] vm 1(4,5) b(3) hi by (simp add: base_def HEAP_LIMIT_def same_rest_def)
  have "heap_room (38 + r) ?h"
    using r hi 1(5) watermark_nat [OF inv] by (simp add: heap_room_def heap_reserve_def kmalloc_init_def Let_def HEAP_LIMIT_def)
  then have "heap_is ?b [] (38 + r) ?h" using inv by (auto simp add: heap_is_def)
  then obtain h where h: "kmalloc_run_test ?h = Some (Inr h)" "heap_is ?b [(155648, True)] r h" using kmalloc_run_test_passes by blast
  define m2 where "m2 = m1\<lparr>kern := (kern m1)\<lparr>kheap := h\<rparr>\<rparr>"
  have "shows_text (u @ shown ''Checking kernel heap'') m2" using 1(2) unfolding m2_def shows_cong .
  then obtain m3 where 3: "say (line ''All Heap Tests Passed!'') [] m2 = Some (Inr m3)" "shows_text ((u @ shown ''Checking kernel heap'') @ shown ''All Heap Tests Passed!'') m3" "m3 = m2\<lparr>screen := screen m3\<rparr>"
    by (rule say_line [OF plain_lines(8)])
  have k: "kern m3 = (kern m1)\<lparr>kheap := h\<rparr>" "gdt_part m3 = gdt_part m1" "idt_part m3 = idt_part m1" by (subst 3(3), simp add: m2_def)+
  have "heap_state_ok ?b h {}" "heap_room r h"
    using h(2) by (auto simp add: heap_is_def heap_state_ok_def intro!: exI [of _ "[(155648, True)]"])
  moreover have "kmain_heap env m = Some (Inr m3)"
    unfolding kmain_heap_def 1(1) kbind_simps h(1) m2_def [symmetric] 3(1) ..
  ultimately show ?thesis using 3(2) k 1(4) by (auto simp add: same_rest_def)
qed

text \<open>A timer interrupt without threads only counts, as long as the counter stays below 100.\<close>

lemma early_tick:
  assumes "fresh_sched s" "counter s < 99"
  shows "apic_timer_handler s = Some (s\<lparr>system_ticks := system_ticks s + 1, io_trace := io_trace s @ [Mmio_Write 0xFEE000B0 0], counter := counter s + 1\<rparr>)"
proof -
  have "\<not> 100 \<le> counter s + 1" using assms(2) by (simp add: word_less_nat_alt word_le_nat_alt unat_word_ariths)
  moreover have "wake_sleepers 0 NULL s' = Some s'" for s' by (subst wake_sleepers.simps) (simp add: NULL_def)
  ultimately show ?thesis
    using assms by (simp add: fresh_sched_def booted_def apic_timer_handler_def scheduler_on_tick_def Let_def get_current_thread_def get_idle_thread_def apic_write_def)
qed

lemma early_ticks_ok:
  assumes "fresh_sched s" "unat (counter s) + n < 100"
  shows "\<exists>s'. early_ticks n s = Some s' \<and> fresh_sched s' \<and> unat (counter s') = unat (counter s) + n"
  using assms
proof (induction n arbitrary: s)
  case (Suc n)
  define s1 where "s1 = s\<lparr>system_ticks := system_ticks s + 1, io_trace := io_trace s @ [Mmio_Write 0xFEE000B0 0], counter := counter s + 1\<rparr>"
  have "counter s < 99" using Suc.prems(2) by (simp add: word_less_nat_alt)
  then have 1: "apic_timer_handler s = Some s1" unfolding s1_def by (rule early_tick [OF Suc.prems(1)])
  have c: "unat (counter s1) = unat (counter s) + 1" using Suc.prems(2) by (simp add: s1_def unat_word_ariths)
  have "fresh_sched s1" using Suc.prems(1) by (simp add: s1_def fresh_sched_def booted_def)
  then show ?case using Suc.IH [of s1] Suc.prems(2) c 1 by auto
qed simp

lemma kmain_threads_ok:
  assumes s: "fresh_sched (sched (kern m))" "counter (sched (kern m)) < 100" and h: "heap_state_ok base (kheap (kern m)) {}" "heap_room (7 + r) (kheap (kern m))"
    and sh: "shows_text u m"
  shows "\<exists>m' root idle stack cleaner cstack. kmain_threads env m = Some (Inr m')
    \<and> shows_text (u @ shown ''Multitasking initialized'' @ shown ''Checking multitasking'') m'
    \<and> gdt_part m' = gdt_part m \<and> idt_part m' = idt_part m
    \<and> sync_ok (kern m') ((\<lambda>_. [])(0 := [cleaner])) [] [] {} (\<lambda>_. []) \<and> calm (sched (kern m')) \<and> slices_ok (sched (kern m')) ((\<lambda>_. [])(0 := [cleaner])) []
    \<and> current_thread (sched (kern m')) = root \<and> idle_thread (sched (kern m')) = idle \<and> distinct [root, idle, cleaner]
    \<and> heap_state_ok base (kheap (kern m')) {root, idle, stack, cleaner, cstack} \<and> heap_room r (kheap (kern m'))"
proof -
  have "booted (sched (kern m))" using s(1) by (simp add: fresh_sched_def)
  then obtain ro i b t c h' where 1: "initialize_multitasking (code env) (kern m)
      = Some (Inr ((kern m)\<lparr>kheap := h', sched := with_thread (code env) (addr_cleaner_task (code env)) t c (with_root_idle (code env) ro i b (sched (kern m)))\<rparr>))"
    "sched_ok (with_thread (code env) (addr_cleaner_task (code env)) t c (with_root_idle (code env) ro i b (sched (kern m)))) ((\<lambda>_. [])(0 := [t])) [] [] Map.empty"
    "heap_state_ok base h' ({} \<union> {ro, i, b, t, c})" "heap_room r h'" "distinct [ro, i, b, t, c]"
    by (rule init_ok [OF _ h])
  define k where "k = (kern m)\<lparr>kheap := h', sched := with_thread (code env) (addr_cleaner_task (code env)) t c (with_root_idle (code env) ro i b (sched (kern m)))\<rparr>"
  have "shows_text u (m\<lparr>kern := k\<rparr>)" using sh unfolding shows_cong .
  then obtain m1 where 2: "say (line ''Multitasking initialized'') [] (m\<lparr>kern := k\<rparr>) = Some (Inr m1)" "shows_text (u @ shown ''Multitasking initialized'') m1" "m1 = m\<lparr>kern := k\<rparr>\<lparr>screen := screen m1\<rparr>"
    by (rule say_line [OF plain_lines(9)])
  obtain m2 where 3: "say (line ''Checking multitasking'') [] m1 = Some (Inr m2)" "shows_text ((u @ shown ''Multitasking initialized'') @ shown ''Checking multitasking'') m2" "m2 = m1\<lparr>screen := screen m2\<rparr>"
    by (rule say_line [OF plain_lines(10) 2(2)])
  have "kern m1 = k" "gdt_part m1 = gdt_part m" "idt_part m1 = idt_part m" by (subst 2(3), simp)+
  then have k2: "kern m2 = k" "gdt_part m2 = gdt_part m" "idt_part m2 = idt_part m" by (subst 3(3), simp)+
  have "sync_ok k ((\<lambda>_. [])(0 := [t])) [] [] {} (\<lambda>_. [])" using no_sync_ok [of k] 1(2) by (simp add: k_def)
  moreover have "calm (sched k)"
    using s by (simp add: k_def calm_def quiet_def fresh_sched_def with_thread_fields with_root_idle_def Let_def)
  moreover have "current_thread (sched k) = ro" "idle_thread (sched k) = i" "kheap k = h'" "slices_ok (sched k) ((\<lambda>_. [])(0 := [t])) []"
    using init_fields [OF 1(5), of "code env" "sched (kern m)"] by (simp_all add: k_def)
  moreover have "kmain_threads env m = Some (Inr m2)"
    unfolding kmain_threads_def 1(1) k_def [symmetric] kbind_simps 2(1) 3(1) ..
  ultimately show ?thesis using 1(3-5) 3(2) k2
    by (intro exI [of _ m2] exI [of _ ro] exI [of _ i] exI [of _ b] exI [of _ t] exI [of _ c]) simp
qed

lemma plain_last: "plain ''Multitasking tests passed!''" "plain ''ATA Read/Write Loopback Successful!''" "plain ''System Uptime: ''"
  by (simp_all add: plain_def)

lemma kmain_finish_ok:
  assumes "ata_drive dev d" "shows_text u m"
  shows "\<exists>m'. kmain_finish dev stack m = Some (Inr m') \<and> kern m' = kern m
    \<and> shows_text (u @ shown ''Multitasking tests passed!'' @ shown ''ATA Read/Write Loopback Successful!'' @ shown ''System Uptime: '') m'"
proof -
  obtain m1 where 1: "say (line ''Multitasking tests passed!'') [] m = Some (Inr m1)" "shows_text (u @ shown ''Multitasking tests passed!'') m1" "m1 = m\<lparr>screen := screen m1\<rparr>"
    by (rule say_line [OF plain_last(1) assms(2)])
  obtain tr where tr: "ata_test dev stack (ports (screen m1)) = Some (Inr tr)" using ata_test_passes [OF assms(1)] by blast
  have "shows_text (u @ shown ''Multitasking tests passed!'') (set_ports tr m1)" using 1(2) by (simp add: shows_cong)
  then obtain m2 where 2: "say (line ''ATA Read/Write Loopback Successful!'') [] (set_ports tr m1) = Some (Inr m2)"
    "shows_text ((u @ shown ''Multitasking tests passed!'') @ shown ''ATA Read/Write Loopback Successful!'') m2" "m2 = (set_ports tr m1)\<lparr>screen := screen m2\<rparr>"
    by (rule say_line [OF plain_last(2)])
  obtain m3 where 3: "say (line ''System Uptime: '') [] m2 = Some (Inr m3)"
    "shows_text (((u @ shown ''Multitasking tests passed!'') @ shown ''ATA Read/Write Loopback Successful!'') @ shown ''System Uptime: '') m3" "m3 = m2\<lparr>screen := screen m3\<rparr>"
    by (rule say_line [OF plain_last(3) 2(2)])
  have "kern m3 = kern m2" by (subst 3(3)) simp
  also have "\<dots> = kern m1" by (subst 2(3)) (simp add: set_ports_def)
  also have "\<dots> = kern m" by (subst 1(3)) simp
  finally have k: "kern m3 = kern m" .
  have "kmain_finish dev stack m = Some (Inr m3)" unfolding kmain_finish_def 1(1) kbind_simps tr 2(1) 3(1) ..
  then show ?thesis using 3(2) k unfolding append_assoc by blast
qed

end
