(* ===== verification/Boot_Props.thy ===== *)
theory Boot_Props
  imports Boot_Ops
begin

text \<open>
  The kernel boots, or refuses to, and a machine on which it does.
\<close>

section \<open>Specification vocabulary\<close>

text \<open>Everything the kernel prints until multitasking starts, for a disk of \<open>n\<close> megabytes.\<close>

definition device_text :: "u32 \<Rightarrow> u8 list" where
  "device_text n = shown ''Booting OS'' @ shown ''GDT initialized'' @ shown ''IDT initialized'' @ size_text n"

definition memory_text :: "u8 list" where
  "memory_text = shown ''Init PMM'' @ shown ''Init Paging'' @ shown ''APIC timer started'' @ shown ''Checking kernel heap'' @ shown ''All Heap Tests Passed!''"

definition boot_text :: "u32 \<Rightarrow> u8 list" where
  "boot_text n = device_text n @ memory_text @ shown ''Multitasking initialized'' @ shown ''Checking multitasking''"

definition finish_text :: "u8 list" where
  "finish_text = shown ''Multitasking tests passed!'' @ shown ''ATA Read/Write Loopback Successful!'' @ shown ''System Uptime: ''"

text \<open>The line that the endless loop prints over and over: it starts at the beginning of the line and shows the seconds.\<close>

definition uptime_text :: "u32 \<Rightarrow> u8 list" where
  "uptime_text n = [13] @ map of_char ''  ['' @ [spinner ! unat (n mod 4)] @ map of_char ''] '' @ decimal (sint n) @ map of_char '' seconds active...''"

text \<open>In every call of \<open>sleep_ms\<close> the tick counter reaches a second later at some reading.\<close>

definition clock_runs :: "(nat \<Rightarrow> nat \<Rightarrow> u64) \<Rightarrow> bool" where
  "clock_runs ticks \<longleftrightarrow> (\<forall>i. \<exists>k \<ge> 1. ticks i 0 + 100 \<le> ticks i k)"

text \<open>The static variables as the compiler initialises them.\<close>

definition static_state :: "machine \<Rightarrow> bool" where
  "static_state m \<longleftrightarrow> current_color (screen m) = 0x0F \<and> fresh_sched (sched (kern m)) \<and> counter (sched (kern m)) = 0
     \<and> free_list_head (kheap (kern m)) = 0"

definition memory_map_given :: "boot_env \<Rightarrow> u32 \<Rightarrow> bool" where
  "memory_map_given env mbd \<longleftrightarrow> drop_bit 6 (mb_flags (info_at env (mbd + 0xC0000000))) AND 0x1 \<noteq> 0"

definition drive_absent :: "device \<Rightarrow> bool" where
  "drive_absent dev \<longleftrightarrow> (\<forall>tr. port_b dev tr 0x1F7 = 0)"

definition sample_link :: link_symbols where
  "sample_link = \<lparr>sym_kernel_start = 0xC0100000, sym_kernel_end = 0xC0110000, boot_page_directory = 0xC0108000, boot_page_table1 = 0xC0109000\<rparr>"

definition sample_ram :: mm_state where
  "sample_ram = \<lparr>phys = (\<lambda>_. 0), cr3 = 0, kernel_directory = 0, paging_enabled = 0, ref_counter = (\<lambda>_. 0), pmm = sample_pmm\<rparr>"

definition sample_env :: boot_env where
  "sample_env = \<lparr>link = sample_link, gdt_address = 0xC010A000,
     isrs = \<lparr>isr_stub_table = (\<lambda>v. 0xC0100000), irq_stub_1 = 0xC0100100, isr_apic_timer = 0xC0100200, isr_spurious = 0xC0100300, addr_idt = 0xC010B000\<rparr>,
     code = sample_code, info_at = (\<lambda>_. sample_mbd), mmap_at = (\<lambda>_. sample_entry)\<rparr>"

text \<open>A machine with a drive that is never busy and a timer that has always elapsed.\<close>

definition sample_device :: device where
  "sample_device = sample_drive\<lparr>port_b := (\<lambda>tr p. if p = 0x61 then 0x20 else port_b sample_drive tr p)\<rparr>"

definition sample_machine :: "mm_state \<Rightarrow> machine" where
  "sample_machine mm = \<lparr>screen = \<lparr>fb = (\<lambda>_. 0), cursor_pos = 0, current_color = 0x0F, ports = []\<rparr>,
     gdt_part = \<lparr>gdt_entries = (\<lambda>_. \<lparr>limit = 0, base_low = 0, base_middle = 0, access = 0, flags = 0, base_high = 0\<rparr>), gdt_register = \<lparr>gdt_limit = 0, gdt_base = 0\<rparr>\<rparr>,
     idt_part = \<lparr>idt = (\<lambda>_. \<lparr>isr_low = 0, kernel_cs = 0, reserved = 0, attributes = 0, isr_high = 0\<rparr>), vectors = (\<lambda>_. False), idtr_limit = 0, idtr_base = 0,
       idt_ports = [], interrupts_on = False\<rparr>,
     kern = sample_boot\<lparr>kheap := \<lparr>free_list_head = 0, heap_watermark = 0, hvm = mm\<rparr>,
       sched := (sched sample_boot)\<lparr>current_thread := 0, idle_thread := 0, counter := 0\<rparr>\<rparr>\<rparr>"

section \<open>Lemmas\<close>

lemma boot_devices:
  assumes st: "current_color (screen m) = 0x0F" and dr: "ata_drive dev d" "drive_present dev"
  obtains m' n tr where "kbind (kmain_tables dev env m) (kmain_disk dev buf) = Some (Inr m')"
    "shows_text (device_text n) m'" "kern m' = kern m"
    "gdt_part m' = initGdt (gdt_address env) (gdt_part m)" "idt_part m' = idt_init dev (isrs env) ((idt_part m)\<lparr>idt_ports := tr\<rparr>)"
proof -
  obtain m1 tr where 1: "kmain_tables dev env m = Some (Inr m1)" "shows_text (shown ''Booting OS'' @ shown ''GDT initialized'' @ shown ''IDT initialized'') m1"
    "kern m1 = kern m" "gdt_part m1 = initGdt (gdt_address env) (gdt_part m)" "idt_part m1 = idt_init dev (isrs env) ((idt_part m)\<lparr>idt_ports := tr\<rparr>)"
    using kmain_tables_ok [OF st] by blast
  obtain n m2 where 2: "kmain_disk dev buf m1 = Some (Inr m2)"
    "shows_text ((shown ''Booting OS'' @ shown ''GDT initialized'' @ shown ''IDT initialized'') @ size_text n) m2" "m2 = m1\<lparr>screen := screen m2\<rparr>"
    using kmain_disk_ok [OF dr 1(2)] by blast
  have "kern m2 = kern m1" "gdt_part m2 = gdt_part m1" "idt_part m2 = idt_part m1" by (subst 2(3), simp)+
  then show thesis using 1(3-5) 2(2) unfolding append_assoc device_text_def [symmetric] by (intro that [of m2 n tr]) (simp_all add: 1(1) 2(1))
qed

lemma kmain_boot_split:
  "kmain_boot dev env buf ticks mbd magic m =
     kbind (kbind (kmain_tables dev env m) (kmain_disk dev buf)) (\<lambda>m2.
     kbind (kbind (kmain_memory env mbd magic m2) (\<lambda>m3. kbind (kmain_timer dev m3) (kmain_heap env))) (\<lambda>m5.
     Option.bind (early_ticks ticks (sched (kern m5))) (\<lambda>s. kmain_threads env (m5\<lparr>kern := (kern m5)\<lparr>sched := s\<rparr>\<rparr>))))"
  by (simp add: kmain_boot_def kbind_def split: option.splits sum.splits)

lemma boot_memory:
  fixes env mbd
  defines "info \<equiv> info_at env (mbd + 0xC0000000)" and "base \<equiv> (unat (sym_kernel_end (link env)) + 0x400FFF) div 4096 * 4096"
  assumes im: "image_ok (link env) p" and m: "boot_mapped (link env) (mm_of m)" "ref_counter (mm_of m) = (\<lambda>_. 0)" "free_list_head (kheap (kern m)) = 0" "shows_text u m"
    and mb: "magic = MULTIBOOT_BOOTLOADER_MAGIC" "memory_map_given env mbd" "mmap_steps (mmap_at env) (mmap_limit info)" "pit_rises dev"
    and walk: "mmap_walk (mmap_at env) (mmap_addr info + 0xC0000000) (mmap_limit info) = Some es"
    and r: "2 * (38 + r) + 1 \<le> card (usable_frames (link env) es)" "r \<le> 0x30000"
  obtains m' where "kbind (kmain_memory env mbd magic m) (\<lambda>m3. kbind (kmain_timer dev m3) (kmain_heap env)) = Some (Inr m')"
    "shows_text (u @ memory_text) m'" "gdt_part m' = gdt_part m" "idt_part m' = idt_part m" "sched (kern m') = sched (kern m)"
    "heap_state_ok base (kheap (kern m')) {}" "heap_room r (kheap (kern m'))"
proof -
  obtain m3 where 3: "kmain_memory env mbd magic m = Some (Inr m3)" "shows_text (u @ shown ''Init PMM'' @ shown ''Init Paging'') m3"
    "vm_inv (mm_of m3)" "boot_mapped (link env) (mm_of m3)" "free_frames (pmm (mm_of m3)) = usable_frames (link env) es" "same_rest m m3"
    using kmain_memory_ok [OF im m(1,2) mb(1,2) [unfolded memory_map_given_def] mb(3) [unfolded info_def] m(4)] walk [unfolded info_def]
    unfolding option.inject by (metis option.inject)
  have c: "2 * (38 + r) + 1 \<le> card (free_frames (pmm (mm_of m3)))" using r 3(5) by simp
  then have ne: "free_frames (pmm (mm_of m3)) \<noteq> {}" by auto
  obtain m4 where 4: "kmain_timer dev m3 = Some (Inr m4)" "shows_text ((u @ shown ''Init PMM'' @ shown ''Init Paging'') @ shown ''APIC timer started'') m4"
    "same_rest m3 m4" "vm_inv (mm_of m4)" "\<forall>a. dir_of a \<noteq> 1023 \<longrightarrow> mmu (mm_of m4) a = (if same_page a 0xFEE00000 then Some (0xFEE00000 + (a AND 0xFFF))
          else if dir_of a = 768 then Some (a - KERNEL_VIRTUAL_BASE) else None)" "card (free_frames (pmm (mm_of m3))) \<le> card (free_frames (pmm (mm_of m4))) + 1"
    using kmain_timer_ok [OF 3(3,4) im ne mb(4) 3(2)] by blast
  have r4: "same_rest m m4" by (rule same_rest_trans [OF 3(6) 4(3)])
  then have h4: "free_list_head (kheap (kern m4)) = 0" "sched (kern m4) = sched (kern m)" "gdt_part m4 = gdt_part m" "idt_part m4 = idt_part m"
    using m(3) by (simp_all add: same_rest_def)
  have u4: "\<forall>a. dir_of a \<noteq> 1023 \<longrightarrow> dir_of a \<noteq> 768 \<longrightarrow> \<not> same_page a 0xFEE00000 \<longrightarrow> mmu (mm_of m4) a = None" using 4(5) by simp
  have c4: "2 * (38 + r) \<le> card (free_frames (pmm (mm_of m4)))" using 4(6) c by simp
  obtain m5 where 5: "kmain_heap env m4 = Some (Inr m5)" "shows_text (((u @ shown ''Init PMM'' @ shown ''Init Paging'') @ shown ''APIC timer started'')
      @ shown ''Checking kernel heap'' @ shown ''All Heap Tests Passed!'') m5" "gdt_part m5 = gdt_part m4" "idt_part m5 = idt_part m4" "sched (kern m5) = sched (kern m4)"
    "heap_state_ok base (kheap (kern m5)) {}" "heap_room r (kheap (kern m5))"
    using kmain_heap_ok [OF im 4(4) h4(1) u4 c4 r(2) 4(2)] unfolding base_def by blast
  show thesis
    by (rule that [of m5]) (use 5(2) in \<open>simp_all only: 3(1) 4(1) 5 kbind_simps h4 memory_text_def append_assoc\<close>)
qed

lemma kmain_boot_ok:
  fixes env mbd
  defines "info \<equiv> info_at env (mbd + 0xC0000000)" and "base \<equiv> (unat (sym_kernel_end (link env)) + 0x400FFF) div 4096 * 4096"
  assumes "image_ok (link env) (phys mm0)" "ref_counter mm0 = (\<lambda>_. 0)" "loader (link env) mm0 = Inr (mm_of m)" "static_state m"
    and "ata_drive dev d" "drive_present dev" "pit_rises dev"
    and "magic = MULTIBOOT_BOOTLOADER_MAGIC" "memory_map_given env mbd" "mmap_steps (mmap_at env) (mmap_limit info)"
    and "mmap_walk (mmap_at env) (mmap_addr info + 0xC0000000) (mmap_limit info) = Some es"
    and "2 * (45 + r) + 1 \<le> card (usable_frames (link env) es)" "r \<le> 0x20000" "ticks < 100"
  shows "\<exists>m' n tr root idle stack cleaner cstack. kmain_boot dev env buf ticks mbd magic m = Some (Inr m') \<and> shows_text (boot_text n) m'
    \<and> gdt_part m' = initGdt (gdt_address env) (gdt_part m) \<and> idt_part m' = idt_init dev (isrs env) ((idt_part m)\<lparr>idt_ports := tr\<rparr>)
    \<and> sync_ok (kern m') ((\<lambda>_. [])(0 := [cleaner])) [] [] {} (\<lambda>_. []) \<and> calm (sched (kern m')) \<and> slices_ok (sched (kern m')) ((\<lambda>_. [])(0 := [cleaner])) []
    \<and> current_thread (sched (kern m')) = root \<and> idle_thread (sched (kern m')) = idle \<and> distinct [root, idle, cleaner]
    \<and> heap_state_ok base (kheap (kern m')) {root, idle, stack, cleaner, cstack} \<and> heap_room r (kheap (kern m'))"
proof -
  note im = assms(3) and st = assms(6) [unfolded static_state_def]
  obtain mm where "loader (link env) mm0 = Inr mm" "boot_mapped (link env) mm" "mm = mm0\<lparr>phys := phys mm, cr3 := cr3 mm\<rparr>" by (rule loader_ok [OF im])
  moreover from this(3) have "ref_counter mm = ref_counter mm0" by (rule ssubst) simp
  ultimately have bm: "boot_mapped (link env) (mm_of m)" "ref_counter (mm_of m) = (\<lambda>_. 0)"
    using assms(4,5) by simp_all
  obtain m2 n tr where 2: "kbind (kmain_tables dev env m) (kmain_disk dev buf) = Some (Inr m2)" "shows_text (device_text n) m2" "kern m2 = kern m"
    "gdt_part m2 = initGdt (gdt_address env) (gdt_part m)" "idt_part m2 = idt_init dev (isrs env) ((idt_part m)\<lparr>idt_ports := tr\<rparr>)"
    by (rule boot_devices [OF conjunct1 [OF st] assms(7,8)])
  have mm2: "boot_mapped (link env) (mm_of m2)" "ref_counter (mm_of m2) = (\<lambda>_. 0)" "free_list_head (kheap (kern m2)) = 0"
    using bm st unfolding mm_of_def 2(3) by blast+
  have r7: "2 * (38 + (7 + r)) + 1 \<le> card (usable_frames (link env) es)" "7 + r \<le> 0x30000" using assms(14,15) by simp_all
  obtain m5 where 5: "kbind (kmain_memory env mbd magic m2) (\<lambda>m3. kbind (kmain_timer dev m3) (kmain_heap env)) = Some (Inr m5)" "shows_text (device_text n @ memory_text) m5"
    "gdt_part m5 = gdt_part m2" "idt_part m5 = idt_part m2" "sched (kern m5) = sched (kern m2)" "heap_state_ok base (kheap (kern m5)) {}" "heap_room (7 + r) (kheap (kern m5))"
    by (rule boot_memory [OF im mm2 2(2) assms(10,11) assms(12) [unfolded info_def] assms(9) assms(13) [unfolded info_def] r7, folded base_def])
  obtain s where s: "early_ticks ticks (sched (kern m5)) = Some s" "fresh_sched s" "unat (counter s) = ticks"
    using early_ticks_ok [of "sched (kern m5)" ticks] st 5(5) 2(3) assms(16) by auto
  define m5' where "m5' = m5\<lparr>kern := (kern m5)\<lparr>sched := s\<rparr>\<rparr>"
  have f5: "fresh_sched (sched (kern m5'))" "counter (sched (kern m5')) < 100" "heap_state_ok base (kheap (kern m5')) {}" "heap_room (7 + r) (kheap (kern m5'))"
    using s assms(16) 5(6,7) by (simp_all add: m5'_def word_less_nat_alt)
  have sh: "shows_text (device_text n @ memory_text) m5'" using 5(2) unfolding m5'_def shows_cong .
  have e: "kmain_boot dev env buf ticks mbd magic m = kmain_threads env m5'"
    unfolding kmain_boot_split 2(1) kbind_simps 5(1) s(1) Option.bind.bind_lunit m5'_def ..
  have g: "gdt_part m5' = initGdt (gdt_address env) (gdt_part m)" "idt_part m5' = idt_init dev (isrs env) ((idt_part m)\<lparr>idt_ports := tr\<rparr>)"
    using 2(4,5) 5(3,4) by (simp_all add: m5'_def)
  show ?thesis using kmain_threads_ok [OF f5 sh, of env] unfolding e g boot_text_def append_assoc by blast
qed


lemma identify_absent: "drive_absent dev \<Longrightarrow> identify_disk dev buf s = Some (Inl NoDriver)"
  by (simp add: drive_absent_def identify_disk_def inb_def Let_def)

text \<open>
  C17: The kernel refuses to go on without a drive, when it was not started by a Multiboot loader, or when that gave no memory map: then \<open>kmain\<close> panics with
  the message that says so, and in this order.
\<close>

theorem kmain_refuses:
  assumes "current_color (screen m) = 0x0F" "drive_absent dev \<or> (ata_drive dev d \<and> drive_present dev)"
    and "drive_absent dev \<or> magic \<noteq> MULTIBOOT_BOOTLOADER_MAGIC \<or> \<not> memory_map_given env mbd"
  shows "kmain_boot dev env buf ticks mbd magic m =
    Some (Inl (if drive_absent dev then NoDriver else if magic \<noteq> MULTIBOOT_BOOTLOADER_MAGIC then InvalidMagic else InvalidMemoryMap))"
proof (cases "drive_absent dev")
  case True
  obtain m1 where "kmain_tables dev env m = Some (Inr m1)" using kmain_tables_ok [OF assms(1)] by blast
  then show ?thesis using True identify_absent [OF True] by (simp add: kmain_boot_split kmain_disk_def)
next
  case False
  then have "ata_drive dev d" "drive_present dev" using assms(2) by blast+
  from boot_devices [OF assms(1) this] obtain m2 where "kbind (kmain_tables dev env m) (kmain_disk dev buf) = Some (Inr m2)" by meson
  then show ?thesis using False assms(3) by (auto simp add: kmain_boot_split kmain_memory_def memory_map_given_def Let_def)
qed

lemma sample_image: "image_ok sample_link (phys sample_ram)"
  by (simp add: image_ok_def sample_link_def sample_ram_def page_base_def)

lemma sample_walk: "mmap_walk (\<lambda>_. sample_entry) 0xC0010000 0xC0010018 = Some [sample_entry]"
  by (subst mmap_walk.simps, subst mmap_walk.simps) (simp add: sample_entry_def)

lemma sample_limit: "mmap_limit sample_mbd = 0xC0010018" "mmap_addr sample_mbd + 0xC0000000 = 0xC0010000"
  by (simp_all add: mmap_limit_def sample_mbd_def)

lemma sample_steps: "mmap_steps (\<lambda>_. sample_entry) 0xC0010018"
  unfolding mmap_steps_def by (auto simp add: sample_entry_def wf_entry_def word_less_nat_alt)

lemma sample_usable: "{f. 0x111 \<le> f \<and> f < 0x400} \<subseteq> usable_frames sample_link [sample_entry]"
proof -
  have e: "PAGE_ALIGN_UP (fold scan_entry [sample_entry] 0) div 4096 = (0x400 :: u32)"
    by (simp add: scan_entry_def sample_entry_def MULTIBOOT_MEMORY_AVAILABLE_def PAGE_ALIGN_UP_def Let_def)
  show ?thesis unfolding usable_frames_def e
    by (auto simp add: sample_link_def entry_frames_def available_def entry_end_def sample_entry_def MULTIBOOT_MEMORY_AVAILABLE_def region_frames_def word_le_nat_alt word_less_nat_alt)
qed

lemma sample_devices: "ata_drive sample_device sample_disk" "drive_present sample_device" "pit_rises sample_device"
proof -
  have "polls sample_device n tr = polls sample_drive n tr" for n tr by (induction n arbitrary: tr) (simp_all add: sample_device_def)
  then show "ata_drive sample_device sample_disk" using sample_drive_ok unfolding ata_drive_def by (simp add: sample_device_def)
  show "drive_present sample_device" by (simp add: drive_present_def sample_device_def sample_drive_def)
  show "pit_rises sample_device" by (simp add: pit_rises_def sample_device_def)
qed

lemma sample_env_fields:
  "link sample_env = sample_link" "mm_of (sample_machine mm) = mm" "info_at sample_env a = sample_mbd" "mmap_at sample_env = (\<lambda>_. sample_entry)"
  by (simp_all add: sample_env_def sample_machine_def mm_of_def)

lemma sample_boot_hyps:
  "ref_counter sample_ram = (\<lambda>_. 0)" "static_state (sample_machine mm)" "memory_map_given sample_env 0x9000"
  "2 * (45 + 100) + 1 \<le> card (usable_frames sample_link [sample_entry])" "(0x2BADB002 :: u32) = MULTIBOOT_BOOTLOADER_MAGIC" "(100 :: nat) \<le> 0x20000" "(99 :: nat) < 100"
proof -
  show "ref_counter sample_ram = (\<lambda>_. 0)" by (simp add: sample_ram_def)
  show "static_state (sample_machine mm)" "memory_map_given sample_env 0x9000"
    by (simp_all add: static_state_def memory_map_given_def fresh_sched_def booted_def sample_machine_def sample_boot_def sample_kernel_def sample_sched_def
        sample_env_def sample_mbd_def drop_bit_eq_div)
  have "card {f :: u32. 0x111 \<le> f \<and> f < 0x400} \<le> card (usable_frames sample_link [sample_entry])" by (intro card_mono sample_usable) simp
  then show "2 * (45 + 100) + 1 \<le> card (usable_frames sample_link [sample_entry])" by (simp add: card_interval)
qed (simp_all add: MULTIBOOT_BOOTLOADER_MAGIC_def)


text \<open>The state of the sample machine when the multitasking test is called.\<close>

lemma sample_boots:
  obtains mm m' root idle stack cleaner cstack base where "loader sample_link sample_ram = Inr mm"
    "kmain_boot sample_device sample_env (\<lambda>_. 0) 99 0x9000 0x2BADB002 (sample_machine mm) = Some (Inr m')"
    "sync_ok (kern m') ((\<lambda>_. [])(0 := [cleaner])) [] [] {} (\<lambda>_. [])" "calm (sched (kern m'))" "slices_ok (sched (kern m')) ((\<lambda>_. [])(0 := [cleaner])) []"
    "current_thread (sched (kern m')) = root" "idle_thread (sched (kern m')) = idle" "distinct [root, idle, cleaner]"
    "heap_state_ok base (kheap (kern m')) {root, idle, stack, cleaner, cstack}" "heap_room 100 (kheap (kern m'))"
proof -
  obtain mm where l: "loader sample_link sample_ram = Inr mm" by (rule loader_ok [OF sample_image])
  note k = kmain_boot_ok [where env = sample_env and mbd = "0x9000" and es = "[sample_entry]" and r = 100 and m = "sample_machine mm" and ticks = 99 and buf = "\<lambda>_. 0",
      unfolded sample_env_fields sample_limit, OF sample_image sample_boot_hyps(1) l sample_boot_hyps(2) sample_devices sample_boot_hyps(5,3)
      sample_steps sample_walk sample_boot_hyps(4,6,7)]
  then show thesis using that l by blast
qed

theorem kmain_refuses_witness:
  "kmain_boot sample_device sample_env (\<lambda>_. 0) 0 0x9000 0 (sample_machine sample_ram) = Some (Inl InvalidMagic)"
proof -
  have "current_color (screen (sample_machine sample_ram)) = 0x0F" by (simp add: sample_machine_def)
  moreover have "\<not> drive_absent sample_device" using sample_devices(2) by (simp add: drive_present_def drive_absent_def)
  ultimately show ?thesis using kmain_refuses [of "sample_machine sample_ram" sample_device sample_disk 0 sample_env "0x9000" "\<lambda>_. 0" 0] sample_devices
    by (simp add: MULTIBOOT_BOOTLOADER_MAGIC_def)
qed

lemma uptime_shows:
  assumes "shows_text u m"
  shows "\<exists>m'. uptime_line n m = Some (Inr m') \<and> shows_text (u @ uptime_text n) m'"
proof -
  have "render ([13] @ map of_char ''  [%c] %d seconds active...'' @ [0]) [Va_Int (scast (spinner ! unat (n mod 4))), Va_Int n] = Some (uptime_text n)"
    by (simp add: char_back uptime_text_def)
  then have "uptime_line n m = Some (Inr (m\<lparr>screen := fold vga_putchar (uptime_text n) (screen m)\<rparr>))"
    unfolding uptime_line_def say_def printf_eq by simp
  then show ?thesis using shows_print [OF assms] by blast
qed

lemma loop_shows:
  assumes "shows_text u m" "clock_runs ticks"
  shows "\<exists>m'. kmain_loop ticks n m = Some (Inr (of_nat n, m')) \<and> shows_text (u @ concat (map (\<lambda>i. uptime_text (of_nat i)) [0..<n])) m'"
proof (induction n)
  case 0
  then show ?case using assms(1) by simp
next
  case (Suc n)
  then obtain m1 where 1: "kmain_loop ticks n m = Some (Inr (of_nat n, m1))" "shows_text (u @ concat (map (\<lambda>i. uptime_text (of_nat i)) [0..<n])) m1" by blast
  obtain m2 where 2: "uptime_line (of_nat n) m1 = Some (Inr m2)" "shows_text ((u @ concat (map (\<lambda>i. uptime_text (of_nat i)) [0..<n])) @ uptime_text (of_nat n)) m2"
    using uptime_shows [OF 1(2)] by blast
  obtain k where "1 \<le> k" "ticks n 0 + 100 \<le> ticks n k" using assms(2) unfolding clock_runs_def by blast
  then obtain j where "sleep_ms (ticks n) 1000 = Some j" using sleep_ms_returns [of "ticks n" 1000 k] by auto
  then show ?case using 1(1) 2 by (simp add: add.commute)
qed

end
