(* ===== verification/Test_Props.thy ===== *)
theory Test_Props
  imports Test_Fair Boot_Props
begin

text \<open>
  The properties of the multitasking test, with the state in which the start of the kernel calls it.
\<close>

section \<open>Specification vocabulary\<close>

text \<open>The test as \<open>kmain\<close> starts it.\<close>

definition test_of :: "kernel_state \<Rightarrow> test_state" where
  "test_of k = \<lparr>tkern = k, objects = (\<lambda>_. 0), todo = (\<lambda>_. [])(current_thread (sched k) := multitasking_run_test)\<rparr>"

section \<open>Lemmas\<close>

lemma tasks_finished:
  assumes ok: "test_inv base L0 main cleaner m R S D Q A L" and p: "pending m main (A - {main, idle_thread (sched (tkern m)), cleaner}) = 0" and t: "t \<noteq> main"
  shows "todo m t = [] \<or> todo m t = [Exit]"
proof (cases "t \<in> A - {main, idle_thread (sched (tkern m)), cleaner}")
  case True
  note o = test_invD [OF ok]
  have "releases (todo m t) = 0" using pending_ge [OF progs_okD(3) [OF o(7)] True, of m main] p by simp
  then show ?thesis using task_facts(2) [OF progs_okD(4) [OF o(7) True]] by blast
next
  case False
  then show ?thesis using progs_okD(5) [OF test_invD(7) [OF ok] False t] by blast
qed

lemma main_after_barrier:
  assumes "main_rest p" "acquires p = 0"
  shows "Test_Barrier_Sem \<in> existing p \<or> length p < 3"
  using assms unfolding main_suffixes by (elim disjE; simp; simp add: existing_Cons)

text \<open>
  C13: The multitasking test is safe in every interleaving of timer interrupts, calls of its threads and passes of the cleaner: interrupts return, no
  call panics or runs forever, at most one task is between acquire and release of the mutex and at most two of the first semaphore,
  and a task uses an object only while it exists.
\<close>

theorem multitasking_test_safe:
  assumes "test_begun base L0 main cleaner m0" "test_reaches addrs entry cleaner m0 m"
  defines "s \<equiv> sched (tkern m)"
  shows "(\<exists>m'. tick_step m = Some m') \<and> (todo m (current_thread s) \<noteq> [] \<longrightarrow> (\<exists>m'. call_step addrs entry m = Some (Inr m')))
    \<and> (current_thread s = cleaner \<longrightarrow> (\<exists>m'. clean_step m = Some (Inr m')))
    \<and> card {t \<in> users m Vga_Mutex. state (tcbs s t) \<noteq> THREAD_BLOCKED} \<le> 1 \<and> card {t \<in> users m Bouncer_Sem. state (tcbs s t) \<noteq> THREAD_BLOCKED} \<le> 2
    \<and> (\<forall>t v p. t \<noteq> main \<and> todo m t \<in> {Acquire v # p, Release v # p} \<longrightarrow> v \<in> existing (todo m main))"
proof -
  obtain R S D Q A L where ok: "test_inv base L0 main cleaner m R S D Q A L"
    using begin_inv [OF assms(1)] test_inv_reaches [OF assms(2)] by metis
  note o = test_invD [OF ok]
  have "v \<in> existing (todo m main)" if t: "t \<noteq> main" "todo m t \<in> {Acquire v # p, Release v # p}" for t v p
  proof -
    have T: "t \<in> A - {main, idle_thread (sched (tkern m)), cleaner}" using busy_task [OF o(7) _ t(1)] t(2) by auto
    have "releases (todo m t) = 1"
      using t(2) task_head(7) [of "hd (todo m t)" "tl (todo m t)"] task_facts(1) progs_okD(4) [OF o(7) T] by (cases v; fastforce)
    then show ?thesis using existing_task(1) [OF o(7) T] by simp
  qed
  moreover obtain m' where "tick_step m = Some m'" by (rule tick_inv [OF ok])
  moreover have "\<exists>m'. clean_step m = Some (Inr m')" if "current_thread s = cleaner" by (rule clean_inv [OF ok]) (use that in \<open>auto simp add: s_def\<close>)
  moreover have "\<exists>m'. call_step addrs entry m = Some (Inr m')" if "todo m (current_thread s) \<noteq> []" using call_inv [OF ok, of addrs entry] that unfolding s_def by blast
  ultimately show ?thesis using section_bound [OF ok, of Vga_Mutex] section_bound [OF ok, of Bouncer_Sem] by (auto simp add: s_def)
qed

text \<open>
  C16: The barrier holds: when the calling thread runs again after its last acquire of the barrier, every task has made all its releases and has nothing left to do
  but to end, in every interleaving.
\<close>

theorem barrier_waits_for_tasks:
  assumes "test_begun base L0 main cleaner m0" "test_reaches addrs entry cleaner m0 m"
    and "current_thread (sched (tkern m)) = main" "acquires (todo m main) = 0" "t \<noteq> main"
  shows "todo m t = [] \<or> todo m t = [Exit]"
proof -
  obtain R S D Q A L where ok: "test_inv base L0 main cleaner m R S D Q A L"
    using begin_inv [OF assms(1)] test_inv_reaches [OF assms(2)] by metis
  note o = test_invD [OF ok]
  from main_after_barrier [OF progs_okD(1) [OF o(7)] assms(4)] show ?thesis
  proof
    assume "Test_Barrier_Sem \<in> existing (todo m main)"
    then show ?thesis using tasks_finished [OF ok barrier_passed(1) [OF ok assms(3,4)] assms(5)] by blast
  next
    assume "length (todo m main) < 3"
    then show ?thesis using tasks_finished [OF ok progs_okD(9) [OF o(7)] assms(5)] by blast
  qed
qed

text \<open>
  C14: The multitasking test completes. From every state it can reach it can go on in a fair way, and in every fair continuation there is a point from which on
  the calling thread has returned, every task has ended, and the heap holds exactly the blocks that were in use before the test.
\<close>

theorem multitasking_test_completes:
  assumes "test_begun base L0 main cleaner m0" "test_reaches addrs entry cleaner m0 m"
  shows "(\<exists>es ms. ms 0 = m \<and> test_run addrs entry cleaner es ms \<and> fair cleaner es ms)
    \<and> (\<forall>es ms. ms 0 = m \<and> test_run addrs entry cleaner es ms \<and> fair cleaner es ms \<longrightarrow>
         (\<exists>i. \<forall>j \<ge> i. (\<forall>t. todo (ms j) t = []) \<and> heap_state_ok base (kheap (tkern (ms j))) L0 \<and> (\<exists>R S. sync_ok (tkern (ms j)) R S [] {} (\<lambda>_. []))))"
proof -
  obtain R S D Q A L where ok: "test_inv base L0 main cleaner m R S D Q A L"
    using begin_inv [OF assms(1)] test_inv_reaches [OF assms(2)] by metis
  then show ?thesis using eager_run_fair [OF ok, of addrs entry] fair_completes by blast
qed

lemma boot_begins_test:
  assumes "sync_ok k ((\<lambda>_. [])(0 := [cleaner])) [] [] {} (\<lambda>_. [])" "calm (sched k)" "slices_ok (sched k) ((\<lambda>_. [])(0 := [cleaner])) []"
    "current_thread (sched k) = root" "idle_thread (sched k) = idle" "distinct [root, idle, cleaner]"
    "heap_state_ok base (kheap k) L" "{root, idle, cleaner} \<subseteq> L" "heap_room r (kheap k)" "21 \<le> r"
  shows "test_begun base L root cleaner (test_of k)"
  using assms heap_room_mono [OF assms(9,10)] unfolding test_begun_def test_of_def by (simp add: Let_def)

lemma sample_test:
  obtains mm m' base L root cleaner where "loader sample_link sample_ram = Inr mm"
    "kmain_boot sample_device sample_env (\<lambda>_. 0) 99 0x9000 0x2BADB002 (sample_machine mm) = Some (Inr m')"
    "test_begun base L root cleaner (test_of (kern m'))"
proof -
  obtain mm m' root idle stack cleaner cstack base where b: "loader sample_link sample_ram = Inr mm"
    "kmain_boot sample_device sample_env (\<lambda>_. 0) 99 0x9000 0x2BADB002 (sample_machine mm) = Some (Inr m')"
    "sync_ok (kern m') ((\<lambda>_. [])(0 := [cleaner])) [] [] {} (\<lambda>_. [])" "calm (sched (kern m'))" "slices_ok (sched (kern m')) ((\<lambda>_. [])(0 := [cleaner])) []"
    "current_thread (sched (kern m')) = root" "idle_thread (sched (kern m')) = idle" "distinct [root, idle, cleaner]"
    "heap_state_ok base (kheap (kern m')) {root, idle, stack, cleaner, cstack}" "heap_room 100 (kheap (kern m'))" by (rule sample_boots)
  have "test_begun base {root, idle, stack, cleaner, cstack} root cleaner (test_of (kern m'))" by (rule boot_begins_test [OF b(3-9) _ b(10)]) simp_all
  then show thesis by (rule that [OF b(1,2)])
qed

theorem multitasking_test_safe_witness:
  "\<exists>mm m' m''. kmain_boot sample_device sample_env (\<lambda>_. 0) 99 0x9000 0x2BADB002 (sample_machine mm) = Some (Inr m')
     \<and> call_step sample_code (\<lambda>_. 0xC0104000) (test_of (kern m')) = Some (Inr m'')"
proof -
  obtain mm m' base L root cleaner where s: "kmain_boot sample_device sample_env (\<lambda>_. 0) 99 0x9000 0x2BADB002 (sample_machine mm) = Some (Inr m')"
    "test_begun base L root cleaner (test_of (kern m'))" by (rule sample_test)
  have "todo (test_of (kern m')) (current_thread (sched (tkern (test_of (kern m'))))) \<noteq> []" by (simp add: test_of_def main_eq)
  then show ?thesis using multitasking_test_safe [OF s(2) test_begin, of sample_code "\<lambda>_. 0xC0104000"] s(1) by blast
qed

theorem barrier_waits_for_tasks_witness:
  "\<exists>mm m' cleaner n. kmain_boot sample_device sample_env (\<lambda>_. 0) 99 0x9000 0x2BADB002 (sample_machine mm) = Some (Inr m')
     \<and> test_reaches sample_code (\<lambda>_. 0xC0104000) cleaner (test_of (kern m')) n \<and> current_thread (sched (tkern n)) = current_thread (sched (kern m'))
     \<and> acquires (todo n (current_thread (sched (kern m')))) = 0 \<and> todo n cleaner \<in> {[], [Exit]}"
proof -
  obtain mm m' base L root cleaner where s: "kmain_boot sample_device sample_env (\<lambda>_. 0) 99 0x9000 0x2BADB002 (sample_machine mm) = Some (Inr m')"
    "test_begun base L root cleaner (test_of (kern m'))" by (rule sample_test)
  let ?m = "test_of (kern m')"
  have root: "current_thread (sched (kern m')) = root" "cleaner \<noteq> root" using s(2) by (auto simp add: test_begun_def test_of_def Let_def)
  let ?code = sample_code and ?entry = "\<lambda>_ :: test_task. 0xC0104000 :: u32"
  obtain R Q A L' where ok: "test_inv base L root cleaner ?m R [] [] Q A L'" by (rule begin_inv [OF s(2)])
  obtain c where c: "test_reaches ?code ?entry cleaner ?m c" "current_thread (sched (tkern c)) = root" "\<forall>t. todo c t = []" by (rule main_returns [OF ok])
  note r = c(1)
  have a: "acquires (todo c root) = 0" using c(3) by simp
  have "todo c cleaner \<in> {[], [Exit]}" using barrier_waits_for_tasks [OF s(2) r c(2) a root(2)] by blast
  then show ?thesis using s(1) r c(2) a root(1) by metis
qed

theorem multitasking_test_completes_witness:
  "\<exists>mm m' cleaner es ms i. kmain_boot sample_device sample_env (\<lambda>_. 0) 99 0x9000 0x2BADB002 (sample_machine mm) = Some (Inr m')
     \<and> ms 0 = test_of (kern m') \<and> test_run sample_code (\<lambda>_. 0xC0104000) cleaner es ms \<and> fair cleaner es ms \<and> (\<forall>j \<ge> i. \<forall>t. todo (ms j) t = [])"
proof -
  obtain mm m' base L root cleaner where s: "kmain_boot sample_device sample_env (\<lambda>_. 0) 99 0x9000 0x2BADB002 (sample_machine mm) = Some (Inr m')"
    "test_begun base L root cleaner (test_of (kern m'))" by (rule sample_test)
  note t = multitasking_test_completes [OF s(2) test_begin, of sample_code "\<lambda>_. 0xC0104000"]
  obtain es ms where r: "ms 0 = test_of (kern m')" "test_run sample_code (\<lambda>_. 0xC0104000) cleaner es ms" "fair cleaner es ms" using t by blast
  then obtain i where "\<forall>j \<ge> i. \<forall>t. todo (ms j) t = []" using t by meson
  then show ?thesis using s(1) r by blast
qed

end
