(* ===== verification/Kstring.thy ===== *)
theory Kstring
  imports KPrelude "HOL-Library.List_Lexorder"
begin

text \<open>
  The string functions (\<open>src/src/libc/string.c\<close>) on a memory of bytes with 32-bit addresses that wrap. The loops that look for a
  terminating zero are partial functions: without one they do not return.
\<close>

section \<open>String functions\<close>

type_synonym byte_mem = "u32 \<Rightarrow> u8"

definition memcpy :: "u32 \<Rightarrow> u32 \<Rightarrow> u32 \<Rightarrow> byte_mem \<Rightarrow> u32 \<times> byte_mem" where
  "memcpy dst src n m = (dst, for_u32 0 n (\<lambda>i m. m(dst + i := m (src + i))) m)"

definition memset :: "u32 \<Rightarrow> u32 \<Rightarrow> u32 \<Rightarrow> byte_mem \<Rightarrow> u32 \<times> byte_mem" where
  "memset ptr x n m = (ptr, for_u32 0 n (\<lambda>i m. m(ptr + i := ucast x)) m)"

partial_function (option) strlen_from :: "u32 \<Rightarrow> byte_mem \<Rightarrow> u32 option" where
  "strlen_from ptr m = (if m ptr \<noteq> 0 then strlen_from (ptr + 1) m else Some ptr)"

definition strlen :: "u32 \<Rightarrow> byte_mem \<Rightarrow> u32 option" where
  "strlen str m = Option.bind (strlen_from str m) (\<lambda>ptr. Some (ptr - str))"

partial_function (option) strcmp_from :: "u32 \<Rightarrow> u32 \<Rightarrow> u32 \<Rightarrow> byte_mem \<Rightarrow> int option" where
  "strcmp_from i str1 str2 m =
     (if m (str1 + i) = m (str2 + i) then
        if m (str1 + i) = 0 then Some 0 else strcmp_from (i + 1) str1 str2 m
      else if m (str1 + i) < m (str2 + i) then Some (- 1) else Some 1)"

definition strcmp :: "u32 \<Rightarrow> u32 \<Rightarrow> byte_mem \<Rightarrow> int option" where
  "strcmp str1 str2 m = (if str1 = 0 \<or> str2 = 0 then Some (- 1) else strcmp_from 0 str1 str2 m)"

text \<open>The bytes \<open>bs\<close> with their terminating zero at an address.\<close>

fun string_at :: "byte_mem \<Rightarrow> u32 \<Rightarrow> u8 list \<Rightarrow> bool" where
  "string_at m p [] \<longleftrightarrow> m p = 0"
| "string_at m p (b # bs) \<longleftrightarrow> b \<noteq> 0 \<and> m p = b \<and> string_at m (p + 1) bs"

section \<open>Lemmas\<close>

lemma memset_fills:
  "snd (memset ptr x n m) a = (if a - ptr < n then ucast x else m a)"
proof -
  define P where "P = (\<lambda>i (t :: byte_mem). \<forall>a. t a = (if a - ptr < i then ucast x else m a))"
  have "P n (for_u32 0 n (\<lambda>i m. m(ptr + i := ucast x)) m)"
  proof (rule for_u32_invariant [where P = P])
    show "P 0 m" by (simp add: P_def)
    show "0 \<le> n" by simp
    fix j t assume j: "j < n" "P j t"
    have "b - ptr < j + 1 \<longleftrightarrow> b - ptr < j \<or> b = ptr + j" for b
    proof -
      have "b = ptr + j \<longleftrightarrow> b - ptr = j" by auto
      then show ?thesis using unat_succ [OF j(1)] by (auto simp add: word_less_nat_alt word_unat_eq_iff)
    qed
    then show "P (j + 1) (t(ptr + j := ucast x))" using j(2) by (auto simp add: P_def)
  qed
  then show ?thesis by (simp add: memset_def P_def)
qed

lemma memcpy_copies:
  assumes apart: "\<And>i j. i < n \<Longrightarrow> j < n \<Longrightarrow> dst + i \<noteq> src + j"
  shows "snd (memcpy dst src n m) a = (if a - dst < n then m (src + (a - dst)) else m a)"
proof -
  define P where "P = (\<lambda>i (t :: byte_mem). \<forall>a. t a = (if a - dst < i then m (src + (a - dst)) else m a))"
  have "P n (for_u32 0 n (\<lambda>i m. m(dst + i := m (src + i))) m)"
  proof (rule for_u32_invariant [where P = P])
    show "P 0 m" by (simp add: P_def)
    show "0 \<le> n" by simp
    fix j t assume j: "j < n" "P j t"
    have "t (src + j) = m (src + j)"
    proof -
      have "\<not> src + j - dst < j"
      proof
        assume "src + j - dst < j"
        then have "src + j - dst < n" using j(1) by (rule less_trans)
        from apart [OF this j(1)] show False by simp
      qed
      then show ?thesis using j(2) by (simp add: P_def)
    qed
    moreover have "b - dst < j + 1 \<longleftrightarrow> b - dst < j \<or> b = dst + j" for b
    proof -
      have "b = dst + j \<longleftrightarrow> b - dst = j" by auto
      then show ?thesis using unat_succ [OF j(1)] by (auto simp add: word_less_nat_alt word_unat_eq_iff)
    qed
    ultimately show "P (j + 1) (t(dst + j := t (src + j)))" using j(2) by (auto simp add: P_def)
  qed
  then show ?thesis by (simp add: memcpy_def P_def)
qed

lemma strlen_from_string: "string_at m p bs \<Longrightarrow> strlen_from p m = Some (p + of_nat (length bs))"
proof (induction bs arbitrary: p)
  case Nil
  then show ?case by (subst strlen_from.simps) simp
next
  case (Cons b bs)
  then show ?case by (subst strlen_from.simps) (simp add: add.assoc)
qed

lemma strcmp_from_strings:
  "string_at m (p + i) a \<Longrightarrow> string_at m (q + i) b \<Longrightarrow>
     strcmp_from i p q m = Some (if a = b then 0 else if a < b then - 1 else 1)"
proof (induction a b arbitrary: i rule: list_induct2')
  case (4 x a y b)
  have "strcmp_from (i + 1) p q m = Some (if a = b then 0 else if a < b then - 1 else 1)" if "x = y"
    using 4 that by (intro "4.IH") (simp_all add: add.assoc)
  then show ?case using 4(2,3) by (subst strcmp_from.simps) (auto simp add: less_list_code)
qed (subst strcmp_from.simps; auto simp add: word_gt_0)+

text \<open>
  C37: The string functions agree with lists of bytes. On terminated strings \<open>strlen\<close> returns the length, and \<open>strcmp\<close> returns 0 for equal strings
  and otherwise -1 or 1 as the first comes before or after the second in the lexicographic order of unsigned bytes;
  a null pointer compares as -1. \<open>memset\<close> fills exactly the bytes asked for, and \<open>memcpy\<close> copies them when the areas do not overlap; both return
  the first pointer.
\<close>

theorem string_functions:
  assumes "string_at m p a" "string_at m q b" "\<forall>i j. i < n \<and> j < n \<longrightarrow> dst + i \<noteq> src + j"
  shows "strlen p m = Some (of_nat (length a))
    \<and> strcmp p q m = Some (if p = 0 \<or> q = 0 then - 1 else if a = b then 0 else if a < b then - 1 else 1)
    \<and> memset dst x n m = (dst, \<lambda>c. if c - dst < n then ucast x else m c)
    \<and> memcpy dst src n m = (dst, \<lambda>c. if c - dst < n then m (src + (c - dst)) else m c)"
proof -
  have "memset dst x n m = (dst, \<lambda>c. if c - dst < n then ucast x else m c)"
    using memset_fills [of dst x n m] by (simp add: prod_eq_iff fun_eq_iff) (simp add: memset_def)
  moreover have "memcpy dst src n m = (dst, \<lambda>c. if c - dst < n then m (src + (c - dst)) else m c)"
    using memcpy_copies [of n dst src m] assms(3) by (simp add: prod_eq_iff fun_eq_iff) (simp add: memcpy_def)
  ultimately show ?thesis
    using strlen_from_string [OF assms(1)] strcmp_from_strings [of m p 0 a q b] assms by (auto simp add: strlen_def strcmp_def)
qed

lemma sample_apart: "\<forall>i j. i < 3 \<and> j < 3 \<longrightarrow> (0x300 :: u32) + i \<noteq> 0x100 + j"
proof (intro allI impI notI)
  fix i j :: u32 assume "i < 3 \<and> j < 3" "0x300 + i = 0x100 + j"
  then have "unat (0x300 + i) = unat (0x100 + j)" "unat i < 3" "unat j < 3" by (auto simp add: word_less_nat_alt)
  then show False by (simp add: unat_word_ariths)
qed

theorem string_functions_witness:
  "let m = (\<lambda>_. 0)(0x100 := 65, 0x101 := 66, 0x200 := 65, 0x201 := 200)
   in strlen 0x100 m = Some 2 \<and> strcmp 0x100 0x200 m = Some (- 1) \<and> snd (memcpy 0x300 0x100 3 m) 0x301 = 66"
  unfolding Let_def using string_functions [OF _ _ sample_apart, of "(\<lambda>_. 0)(0x100 := 65, 0x101 := 66, 0x200 := 65, 0x201 := 200)" "0x100" "[65, 66]" "0x200" "[65, 200]"]
  by (simp add: less_list_code)

end
