(* ===== verification/Assembly.thy ===== *)
theory Assembly
  imports Scheduler Descriptors
begin

text \<open>
  The assembly routines of the kernel, instruction by instruction: the context switch (\<open>src/src/arch/i386/task_asm.s\<close>), the interrupt stubs
  (\<open>idt_asm.s\<close>, \<open>apic_asm.s\<close>) and the load of the segment registers (\<open>gdt_asm.s\<close>), on a machine with the registers and instructions they use. Memory is a store of
  bytes, words are little endian; addresses are those after segmentation and paging. An instruction is executed only when the instruction pointer is at its
  address; the addresses are a parameter, and so is what the C functions do that the routines call.
\<close>

section \<open>The machine\<close>

datatype reg = EAX | ECX | EDX | EBX | ESP | EBP | ESI | EDI

datatype sreg = CS | DS | ES | FS | GS | SS

record i386 =
  regs :: "reg \<Rightarrow> u32"
  flag_word :: u32
  selectors :: "sreg \<Rightarrow> u16"
  gdtr :: gdt_ptr
  eip :: u32
  ram :: "u32 \<Rightarrow> u8"

text \<open>Words in memory, least byte first. Addresses wrap.\<close>

definition load32 :: "(u32 \<Rightarrow> u8) \<Rightarrow> u32 \<Rightarrow> u32" where
  "load32 b a = ucast (b a) OR push_bit 8 (ucast (b (a + 1))) OR push_bit 16 (ucast (b (a + 2))) OR push_bit 24 (ucast (b (a + 3)))"

definition store32 :: "(u32 \<Rightarrow> u8) \<Rightarrow> u32 \<Rightarrow> u32 \<Rightarrow> u32 \<Rightarrow> u8" where
  "store32 b a v = b(a := ucast v, a + 1 := ucast (drop_bit 8 v), a + 2 := ucast (drop_bit 16 v), a + 3 := ucast (drop_bit 24 v))"

abbreviation set_reg :: "reg \<Rightarrow> u32 \<Rightarrow> i386 \<Rightarrow> i386" where
  "set_reg r v m \<equiv> m\<lparr>regs := (regs m)(r := v)\<rparr>"

text \<open>The stack grows downwards.\<close>

definition push :: "u32 \<Rightarrow> i386 \<Rightarrow> i386" where
  "push v m = (let sp = regs m ESP - 4 in (set_reg ESP sp m)\<lparr>ram := store32 (ram m) sp v\<rparr>)"

definition pop :: "i386 \<Rightarrow> u32 \<times> i386" where
  "pop m = (let sp = regs m ESP in (load32 (ram m) sp, set_reg ESP (sp + 4) m))"

text \<open>The C functions that the routines call.\<close>

datatype c_function = Exception_Handler | Irq_Handler | Apic_Timer_Handler

text \<open>The instructions of the routines; \<open>Load_Esp r d\<close> is \<open>mov r, [esp + d]\<close>, \<open>Store_Reg p r\<close> is \<open>mov [p], r\<close>.\<close>

datatype instr =
    Push u32 | Push_Reg reg | Pop_Reg reg | Pushfd | Popfd | Pushad | Popad | Cld
  | Load_Esp reg u32 | Store_Reg reg reg | Mov reg u32 | Mov_Seg sreg reg | Lgdt reg | Jmp_Far u16
  | Add_Esp u32 | Call_C c_function | Ret | Iret

text \<open>One instruction; \<open>nxt\<close> is the address of the next one. A call pushes it and goes on with the C function, which returns \<open>None\<close> if it never returns.\<close>

fun exec :: "(c_function \<Rightarrow> i386 \<Rightarrow> i386 option) \<Rightarrow> u32 \<Rightarrow> instr \<Rightarrow> i386 \<Rightarrow> i386 option" where
  "exec calls nxt (Push v) m = Some ((push v m)\<lparr>eip := nxt\<rparr>)"
| "exec calls nxt (Push_Reg r) m = Some ((push (regs m r) m)\<lparr>eip := nxt\<rparr>)"
| "exec calls nxt (Pop_Reg r) m = (let (v, m1) = pop m in Some ((set_reg r v m1)\<lparr>eip := nxt\<rparr>))"
| "exec calls nxt Pushfd m = Some ((push (flag_word m) m)\<lparr>eip := nxt\<rparr>)"
| "exec calls nxt Popfd m = (let (v, m1) = pop m in Some (m1\<lparr>flag_word := v, eip := nxt\<rparr>))"
| "exec calls nxt Pushad m = (let sp = regs m ESP in Some ((fold push [regs m EAX, regs m ECX, regs m EDX, regs m EBX, sp, regs m EBP, regs m ESI, regs m EDI] m)\<lparr>eip := nxt\<rparr>))"
| "exec calls nxt Popad m =
     (let (edi, m1) = pop m; (esi, m2) = pop m1; (ebp, m3) = pop m2; (_, m4) = pop m3; (ebx, m5) = pop m4; (edx, m6) = pop m5; (ecx, m7) = pop m6; (eax, m8) = pop m7
      in Some (m8\<lparr>regs := (regs m8)(EDI := edi, ESI := esi, EBP := ebp, EBX := ebx, EDX := edx, ECX := ecx, EAX := eax), eip := nxt\<rparr>))"
| "exec calls nxt Cld m = Some (m\<lparr>flag_word := flag_word m AND NOT 0x400, eip := nxt\<rparr>)"
| "exec calls nxt (Load_Esp r d) m = Some ((set_reg r (load32 (ram m) (regs m ESP + d)) m)\<lparr>eip := nxt\<rparr>)"
| "exec calls nxt (Store_Reg p r) m = Some (m\<lparr>ram := store32 (ram m) (regs m p) (regs m r), eip := nxt\<rparr>)"
| "exec calls nxt (Mov r v) m = Some ((set_reg r v m)\<lparr>eip := nxt\<rparr>)"
| "exec calls nxt (Mov_Seg s r) m = Some (m\<lparr>selectors := (selectors m)(s := ucast (regs m r)), eip := nxt\<rparr>)"
| "exec calls nxt (Lgdt r) m =
     (let p = regs m r
      in Some (m\<lparr>gdtr := \<lparr>gdt_limit = ucast (ram m p) OR push_bit 8 (ucast (ram m (p + 1))), gdt_base = load32 (ram m) (p + 2)\<rparr>, eip := nxt\<rparr>))"
| "exec calls nxt (Jmp_Far cs) m = Some (m\<lparr>selectors := (selectors m)(CS := cs), eip := nxt\<rparr>)"
| "exec calls nxt (Add_Esp d) m = Some ((set_reg ESP (regs m ESP + d) m)\<lparr>eip := nxt\<rparr>)"
| "exec calls nxt (Call_C f) m = calls f (push nxt m)"
| "exec calls nxt Ret m = (let (v, m1) = pop m in Some (m1\<lparr>eip := v\<rparr>))"
| "exec calls nxt Iret m =
     (let (ip, m1) = pop m; (cs, m2) = pop m1; (fl, m3) = pop m2 in Some (m3\<lparr>eip := ip, selectors := (selectors m3)(CS := ucast cs), flag_word := fl\<rparr>))"

text \<open>A routine whose \<open>n\<close>-th instruction is at address \<open>at n\<close>. It gets stuck when the instruction pointer is elsewhere, for instance after a call that returns to a wrong place.\<close>

fun run_code :: "(c_function \<Rightarrow> i386 \<Rightarrow> i386 option) \<Rightarrow> (nat \<Rightarrow> u32) \<Rightarrow> nat \<Rightarrow> instr list \<Rightarrow> i386 \<Rightarrow> i386 option" where
  "run_code calls at n [] m = Some m"
| "run_code calls at n (i # is) m = (if eip m = at n then Option.bind (exec calls (at (Suc n)) i m) (run_code calls at (Suc n) is) else None)"

text \<open>The processor delivers an interrupt through a gate of the descriptor table, at the privilege level of the kernel: it saves flags, code segment and instruction pointer,
  pushes the error code of those exceptions that have one, and clears the flags IF, TF, NT, RF and VM.\<close>

definition interrupt :: "idt_entry \<Rightarrow> u32 option \<Rightarrow> i386 \<Rightarrow> i386" where
  "interrupt gate err m =
     (let m1 = fold push [flag_word m, ucast (selectors m CS), eip m] m;
          m2 = (case err of None \<Rightarrow> m1 | Some e \<Rightarrow> push e m1)
      in m2\<lparr>flag_word := flag_word m AND NOT 0x34300, selectors := (selectors m)(CS := kernel_cs gate), eip := gate_target gate\<rparr>)"

section \<open>The routines\<close>

text \<open>The context switch (\<open>task_asm.s\<close>): the callee-saved registers and flags go to the stack of the old thread, whose stack pointer is stored; then the same of the new thread.\<close>

definition switch_to_task_asm :: "instr list" where
  "switch_to_task_asm =
     [Pushfd, Push_Reg EBP, Push_Reg EBX, Push_Reg ESI, Push_Reg EDI,
      Load_Esp EAX 24, Store_Reg EAX ESP,
      Load_Esp ESP 28,
      Pop_Reg EDI, Pop_Reg ESI, Pop_Reg EBX, Pop_Reg EBP, Popfd,
      Ret]"

text \<open>The interrupts of the local APIC (\<open>apic_asm.s\<close>).\<close>

definition isr_apic_timer_asm :: "instr list" where
  "isr_apic_timer_asm = [Pushad, Cld, Call_C Apic_Timer_Handler, Popad, Iret]"

definition isr_spurious_asm :: "instr list" where
  "isr_spurious_asm = [Iret]"

text \<open>The interrupts of the controllers and the exceptions (\<open>idt_asm.s\<close>), the macros with their number as argument. Exceptions without an error code push zero in its place.\<close>

definition irq_stub :: "u32 \<Rightarrow> instr list" where
  "irq_stub n = [Pushad, Push n, Call_C Irq_Handler, Add_Esp 4, Popad, Iret]"

definition isr_err_stub :: "u32 \<Rightarrow> instr list" where
  "isr_err_stub n = [Push n, Call_C Exception_Handler, Iret]"

definition isr_no_err_stub :: "u32 \<Rightarrow> instr list" where
  "isr_no_err_stub n = [Push 0, Push n, Call_C Exception_Handler, Iret]"

text \<open>The stub of each exception, in the order of the table \<open>isr_stub_table\<close>.\<close>

definition isr_stub :: "u8 \<Rightarrow> instr list" where
  "isr_stub v = (if v \<in> {8, 10, 11, 12, 13, 14, 17, 30} then isr_err_stub (ucast v) else isr_no_err_stub (ucast v))"

text \<open>The descriptor table and the segment registers (\<open>gdt_asm.s\<close>).\<close>

definition gdt_flush :: "instr list" where
  "gdt_flush =
     [Load_Esp EAX 4, Lgdt EAX,
      Mov EAX 0x10, Mov_Seg DS EAX, Mov_Seg ES EAX, Mov_Seg FS EAX, Mov_Seg GS EAX, Mov_Seg SS EAX,
      Jmp_Far 0x08, Ret]"

end
