(* ===== verification/Assembly_Ops.thy ===== *)
theory Assembly_Ops
  imports Assembly Descriptor_Props
begin

text \<open>
  What the assembly routines do: stores and loads on the stack, the frame an interrupt stub saves and restores, and the effect of the context switch on bytes.
\<close>

section \<open>Specification vocabulary\<close>

text \<open>
  What the C calling convention says about the return from a call with \<open>args\<close> argument words: the return address is popped, the registers the callee has to
  keep and the segment registers are as before, and so are the bytes of the caller's stack above the arguments, up to \<open>depth\<close> bytes.
\<close>

definition cdecl_return :: "nat \<Rightarrow> nat \<Rightarrow> i386 \<Rightarrow> i386 \<Rightarrow> bool" where
  "cdecl_return args depth m m' \<longleftrightarrow> eip m' = load32 (ram m) (regs m ESP) \<and> regs m' ESP = regs m ESP + 4 \<and> selectors m' = selectors m
     \<and> (\<forall>r \<in> {EBX, EBP, ESI, EDI}. regs m' r = regs m r)
     \<and> (\<forall>d. 4 + 4 * args \<le> d \<and> d < depth \<longrightarrow> ram m' (regs m ESP + of_nat d) = ram m (regs m ESP + of_nat d))"

text \<open>
  A C function that returns from every call.
\<close>

definition cdecl :: "nat \<Rightarrow> nat \<Rightarrow> (i386 \<Rightarrow> i386 option) \<Rightarrow> bool" where
  "cdecl args depth f \<longleftrightarrow> (\<forall>m. \<exists>m'. f m = Some m' \<and> cdecl_return args depth m m')"

text \<open>
  A thread goes on as if it had not been interrupted: all registers, flags and selectors, and \<open>depth\<close> bytes of its stack.
\<close>

definition resumed :: "nat \<Rightarrow> i386 \<Rightarrow> i386 \<Rightarrow> bool" where
  "resumed depth m m' \<longleftrightarrow> regs m' = regs m \<and> flag_word m' = flag_word m \<and> selectors m' = selectors m \<and> eip m' = eip m
     \<and> (\<forall>d < depth. ram m' (regs m ESP + of_nat d) = ram m (regs m ESP + of_nat d))"

text \<open>What lies on the stack when an interrupt stub has saved the registers.\<close>

definition saved_frame :: "i386 \<Rightarrow> (u32 \<Rightarrow> u8) \<Rightarrow> bool" where
  "saved_frame m b \<longleftrightarrow> (let sp = regs m ESP in
     load32 b (sp - 44) = regs m EDI \<and> load32 b (sp - 40) = regs m ESI \<and> load32 b (sp - 36) = regs m EBP \<and> load32 b (sp - 28) = regs m EBX
     \<and> load32 b (sp - 24) = regs m EDX \<and> load32 b (sp - 20) = regs m ECX \<and> load32 b (sp - 16) = regs m EAX
     \<and> load32 b (sp - 12) = eip m \<and> load32 b (sp - 8) = ucast (selectors m CS) \<and> load32 b (sp - 4) = flag_word m)"

text \<open>
  The registers that the model of the scheduler has.
\<close>

definition cpu_of :: "i386 \<Rightarrow> cpu_state" where
  "cpu_of m = \<lparr>r_esp = regs m ESP, r_ebp = regs m EBP, r_ebx = regs m EBX, r_esi = regs m ESI, r_edi = regs m EDI, eflags = flag_word m, r_eip = eip m\<rparr>"

abbreviation aligned4 :: "u32 \<Rightarrow> bool" where
  "aligned4 a \<equiv> 4 dvd unat a"

text \<open>
  The bytes hold the words of the scheduler's model, at aligned addresses other than the field \<open>esp\<close> of the control block.
\<close>

definition same_words :: "u32 \<Rightarrow> (u32 \<Rightarrow> u8) \<Rightarrow> (u32 \<Rightarrow> u32) \<Rightarrow> bool" where
  "same_words slot b w \<longleftrightarrow> (\<forall>a. aligned4 a \<and> a \<noteq> slot \<longrightarrow> load32 b a = w a)"

text \<open>What the routine computes, on bytes.\<close>

definition switched_ram :: "i386 \<Rightarrow> u32 \<Rightarrow> u8" where
  "switched_ram m = (let sp = regs m ESP in store32 (store32 (store32 (store32 (store32 (store32 (ram m)
     (sp - 4) (flag_word m)) (sp - 8) (regs m EBP)) (sp - 12) (regs m EBX)) (sp - 16) (regs m ESI)) (sp - 20) (regs m EDI)) (load32 (ram m) (sp + 4)) (sp - 20))"

definition switched :: "u32 \<Rightarrow> i386 \<Rightarrow> i386" where
  "switched new m = (let b = switched_ram m in
     m\<lparr>regs := (regs m)(EAX := load32 (ram m) (regs m ESP + 4), EDI := load32 b new, ESI := load32 b (new + 4), EBX := load32 b (new + 8), EBP := load32 b (new + 12), ESP := new + 24),
       flag_word := load32 b (new + 16), eip := load32 b (new + 20), ram := b\<rparr>)"

text \<open>
  The \<open>n\<close> bytes from address \<open>a\<close>.
\<close>

definition span :: "u32 \<Rightarrow> nat \<Rightarrow> u32 set" where
  "span a n = (\<lambda>d. a + of_nat d) ` {..<n}"

text \<open>
  Another thread switches back: it calls \<open>switch_to_task\<close> with the saved stack pointer \<open>sp - 20\<close>; the stack of the thread that was left, from its saved words up to \<open>depth\<close> bytes
  above the return address, is untouched and lies apart from the words that are now written.
\<close>

definition switches_back :: "nat \<Rightarrow> u32 \<Rightarrow> i386 \<Rightarrow> i386 \<Rightarrow> bool" where
  "switches_back depth sp m1 m2 \<longleftrightarrow> (let sp2 = regs m2 ESP; slot = load32 (ram m2) (sp2 + 4); own = span (sp - 20) (20 + depth)
     in load32 (ram m2) (sp2 + 8) = sp - 20 \<and> selectors m2 = selectors m1 \<and> (\<forall>a \<in> own. ram m2 a = ram m1 a)
        \<and> own \<inter> span (sp2 - 20) 20 = {} \<and> own \<inter> span slot 4 = {} \<and> 4 \<le> slot - (sp2 + 8) \<and> 4 \<le> sp2 + 8 - slot)"

text \<open>
  The arguments a C function finds on the stack.
\<close>

definition argument :: "nat \<Rightarrow> i386 \<Rightarrow> u32" where
  "argument i m = load32 (ram m) (regs m ESP + 4 + 4 * of_nat i)"

text \<open>The exceptions for which the processor pushes an error code, by the manuals of its makers.\<close>

definition pushes_error :: "u8 \<Rightarrow> bool" where
  "pushes_error v \<longleftrightarrow> v \<in> {8, 10, 11, 12, 13, 14, 17, 21, 29, 30}"

text \<open>
  The code behind each vector.
\<close>

definition stub_code :: "u8 \<Rightarrow> instr list" where
  "stub_code v = (if v < 32 then isr_stub v else if v = 33 then irq_stub 1 else if v = 200 then isr_apic_timer_asm else isr_spurious_asm)"

section \<open>Memory\<close>

lemma bytes_of_word: "ucast (ucast v :: u8) OR push_bit 8 (ucast (ucast (drop_bit 8 v) :: u8)) OR push_bit 16 (ucast (ucast (drop_bit 16 v) :: u8))
    OR push_bit 24 (ucast (ucast (drop_bit 24 v) :: u8)) = (v :: u32)" (is "?l = v")
proof (rule bit_word_eqI)
  fix n :: nat
  assume "n < LENGTH(32)"
  then have "n < 32" by simp
  then consider "n < 8" | "8 \<le> n" "n < 16" | "16 \<le> n" "n < 24" | "24 \<le> n" "n < 32" by linarith
  then show "bit ?l n = bit v n"
    by cases (simp_all add: bit_or_iff bit_push_bit_iff bit_drop_bit_eq bit_unsigned_iff less_diff_conv2)
qed

lemma load_store_same [simp]: "load32 (store32 b a v) a = v"
  by (simp add: load32_def store32_def bytes_of_word)

lemma word_bytes_apart:
  fixes a b :: u32
  assumes "4 \<le> b - a" "4 \<le> a - b" "i \<in> {0, 1, 2, 3}" "j \<in> {0, 1, 2, 3}"
  shows "b + i \<noteq> a + j"
proof
  assume "b + i = a + j"
  then have "b - a = j - i" "a - b = i - j" by (simp_all add: algebra_simps)
  then show False using assms by (auto simp add: word_le_nat_alt)
qed

lemma load_store_other [simp]:
  assumes "4 \<le> b - a" "4 \<le> a - b"
  shows "load32 (store32 m a v) b = load32 m b"
proof -
  note n = word_bytes_apart [OF assms]
  show ?thesis using n [of 0 0] n [of 0 1] n [of 0 2] n [of 0 3] n [of 1 0] n [of 1 1] n [of 1 2] n [of 1 3] n [of 2 0] n [of 2 1] n [of 2 2] n [of 2 3]
      n [of 3 0] n [of 3 1] n [of 3 2] n [of 3 3] by (simp add: load32_def store32_def)
qed

lemma stack_offsets [simp]:
  fixes x :: u32
  shows "x - numeral a - numeral b = x - (numeral a + numeral b)" "x - numeral a + numeral b = x + (numeral b - numeral a)" "x + numeral a + numeral b = x + (numeral a + numeral b)"
    "x + numeral a - numeral b = x + (numeral a - numeral b)"
  by simp_all

section \<open>Interrupt stubs\<close>

lemmas stack_defs = push_def pop_def Let_def

lemma word_halves [simp]: "ucast (ucast (x :: u16) :: u32) = x"
  by (rule bit_word_eqI) (simp add: bit_unsigned_iff)

lemma pushad_saves:
  assumes "exec calls nxt Pushad (interrupt gate None m) = Some m1"
  shows "saved_frame m (ram m1)" "regs m1 = (regs m)(ESP := regs m ESP - 44)" "eip m1 = nxt" "selectors m1 = (selectors m)(CS := kernel_cs gate)"
  using assms by (auto simp add: saved_frame_def interrupt_def stack_defs)

lemma popad_iret_restores:
  assumes "saved_frame m (ram m2)" "regs m2 ESP = regs m ESP - 44" "eip m2 = at n" "selectors m2 = (selectors m)(CS := c)"
  shows "run_code calls at n [Popad, Iret] m2 = Some (m2\<lparr>regs := regs m, flag_word := flag_word m, selectors := selectors m, eip := eip m\<rparr>)"
  using assms unfolding saved_frame_def
  by (auto simp add: stack_defs fun_eq_iff intro!: i386.equality) (case_tac x; simp)

lemma load_agree: "(\<And>i. i \<in> {0, 1, 2, 3} \<Longrightarrow> b (a + i) = b' (a + i)) \<Longrightarrow> load32 b a = load32 b' a"
  using add.right_neutral [of a] by (metis (no_types, lifting) insertCI load32_def)

lemma cdecl_keeps:
  assumes "cdecl_return args depth m m'" "4 + 4 * args \<le> d" "d < depth"
  shows "ram m' (regs m ESP + of_nat d) = ram m (regs m ESP + of_nat d)"
  using assms unfolding cdecl_return_def by blast

lemma cdecl_keeps_word:
  assumes "cdecl_return args depth m m'" "4 + 4 * args \<le> d" "d + 4 \<le> depth"
  shows "load32 (ram m') (regs m ESP + of_nat d) = load32 (ram m) (regs m ESP + of_nat d)"
proof (rule load_agree)
  fix i :: u32
  assume "i \<in> {0, 1, 2, 3}"
  then have i: "i = of_nat (unat i)" "unat i < 4" by auto
  have "d + unat i < depth" "4 + 4 * args \<le> d + unat i" using assms(2,3) i(2) by linarith+
  from cdecl_keeps [OF assms(1) this(2,1)] show "ram m' (regs m ESP + of_nat d + i) = ram m (regs m ESP + of_nat d + i)" by (simp add: add.assoc)
qed

lemma saved_frame_kept:
  assumes f: "saved_frame m (ram m1)" and c: "cdecl_return args depth m1 m2" and sp: "regs m1 ESP = regs m ESP - 44 - (4 + 4 * of_nat args)" and d: "48 + 4 * args \<le> depth"
  shows "saved_frame m (ram m2)"
proof -
  have w: "load32 (ram m2) (regs m ESP - 44 + of_nat k) = load32 (ram m1) (regs m ESP - 44 + of_nat k)" if "k + 4 \<le> 44" for k
  proof -
    have "4 + 4 * args + k + 4 \<le> depth" using d that by linarith
    from cdecl_keeps_word [OF c _ this] show ?thesis unfolding sp by (simp add: algebra_simps)
  qed
  show ?thesis using f w [of 0] w [of 4] w [of 8] w [of 16] w [of 20] w [of 24] w [of 28] w [of 32] w [of 36] w [of 40] unfolding saved_frame_def by (simp add: Let_def)
qed

lemma store_byte_other: "4 \<le> x - a \<Longrightarrow> store32 b a v x = b x" for a x :: u32
  by (auto simp add: store32_def word_le_nat_alt)

lemma store_below:
  fixes sp k :: u32
  assumes "d + 64 < 2 ^ 32" "4 \<le> unat k" "unat k \<le> 64"
  shows "store32 b (sp - k) v (sp + of_nat d) = b (sp + of_nat d)"
proof (rule store_byte_other)
  have "unat (of_nat d :: u32) = d" using assms(1) by (simp add: unat_of_nat)
  then have u: "unat (of_nat d + k) = d + unat k" using assms by (simp add: unat_word_ariths)
  have "(4 :: u32) \<le> of_nat d + k" unfolding word_le_nat_alt u using assms(2) by simp
  then show "4 \<le> sp + of_nat d - (sp - k)" by (simp add: algebra_simps)
qed

lemma interrupt_keeps_stack:
  assumes "exec calls nxt Pushad (interrupt gate None m) = Some m1" "d + 64 < 2 ^ 32"
  shows "ram m1 (regs m ESP + of_nat d) = ram m (regs m ESP + of_nat d)"
  using assms by (auto simp add: interrupt_def stack_defs store_below)

lemma saved_frame_store:
  assumes "saved_frame m b" "k \<in> {48, 52}"
  shows "saved_frame m (store32 b (regs m ESP - k) v)"
  using assms unfolding saved_frame_def by (auto simp add: Let_def)

text \<open>A handler with \<open>args\<close> argument words returns to the stub that called it.\<close>

lemma handler_returns:
  assumes f: "cdecl args (depth + 64) f" "args \<le> 1" and d: "depth + 128 < 2 ^ 32" and p: "exec calls nxt Pushad (interrupt gate None m) = Some m1"
    and m2: "regs m2 ESP = regs m ESP - 44 - 4 * of_nat args" "selectors m2 = selectors m1" "saved_frame m (ram m2)"
      "\<And>d. d + 64 < 2 ^ 32 \<Longrightarrow> ram m2 (regs m ESP + of_nat d) = ram m1 (regs m ESP + of_nat d)"
  obtains m3 where "f (push ret m2) = Some m3" "eip m3 = ret" "regs m3 ESP = regs m2 ESP" "selectors m3 = (selectors m)(CS := kernel_cs gate)" "saved_frame m (ram m3)"
    "\<forall>d < depth. ram m3 (regs m ESP + of_nat d) = ram m (regs m ESP + of_nat d)"
proof -
  let ?c = "push ret m2"
  obtain m3 where m3: "f ?c = Some m3" "cdecl_return args (depth + 64) ?c m3" using f(1) unfolding cdecl_def by blast
  have sp: "regs ?c ESP = regs m ESP - 44 - (4 + 4 * of_nat args)" using m2(1) by (simp add: stack_defs)
  have a: "args = 0 \<or> args = 1" using f(2) by linarith
  have fr: "saved_frame m (ram ?c)" using a saved_frame_store [OF m2(3), of 48] saved_frame_store [OF m2(3), of 52] m2(1) by (auto simp add: stack_defs)
  have "saved_frame m (ram m3)" by (rule saved_frame_kept [OF fr m3(2) sp]) (use f(2) in linarith)
  moreover have "ram m3 (regs m ESP + of_nat d) = ram m (regs m ESP + of_nat d)" if "d < depth" for d
  proof -
    have k: "ram m3 (regs ?c ESP + of_nat (48 + 4 * args + d)) = ram ?c (regs ?c ESP + of_nat (48 + 4 * args + d))"
      by (rule cdecl_keeps [OF m3(2)]) (use that f(2) in linarith)+
    have e: "regs ?c ESP + of_nat (48 + 4 * args + d) = regs m ESP + of_nat d" unfolding sp by (simp add: algebra_simps)
    have "ram ?c (regs m ESP + of_nat d) = ram m2 (regs m ESP + of_nat d)"
      using a m2(1) that d by (auto simp add: stack_defs store_below)
    then show ?thesis using k m2(4) [of d] interrupt_keeps_stack [OF p, of d] that d unfolding e by simp
  qed
  moreover have "eip m3 = ret" "regs m3 ESP = regs m2 ESP" "selectors m3 = selectors m2" using m3(2) by (simp_all add: cdecl_return_def stack_defs)
  ultimately show thesis using that [OF m3(1)] m2(2) pushad_saves(4) [OF p] by simp
qed

lemma frame_resumes:
  assumes "saved_frame m (ram m3)" "regs m3 ESP = regs m ESP - 44" "eip m3 = at n" "selectors m3 = (selectors m)(CS := c)"
    "\<forall>d < depth. ram m3 (regs m ESP + of_nat d) = ram m (regs m ESP + of_nat d)"
  shows "\<exists>m'. run_code calls at n [Popad, Iret] m3 = Some m' \<and> resumed depth m m'"
  using popad_iret_restores [where at = at and n = n, OF assms(1-4), of calls] assms(5) by (simp add: resumed_def)

lemma timer_stub_resumes:
  assumes f: "cdecl 0 (depth + 64) (calls Apic_Timer_Handler)" and d: "depth + 128 < 2 ^ 32" and g: "gate_target gate = at 0"
  shows "\<exists>m'. run_code calls at 0 isr_apic_timer_asm (interrupt gate None m) = Some m' \<and> resumed depth m m'"
proof -
  obtain m1 where p: "exec calls (at 1) Pushad (interrupt gate None m) = Some m1" by (simp add: Let_def)
  note s = pushad_saves [OF p]
  let ?m2 = "m1\<lparr>flag_word := flag_word m1 AND NOT 0x400, eip := at 2\<rparr>"
  obtain m3 where m3: "calls Apic_Timer_Handler (push (at 3) ?m2) = Some m3" "eip m3 = at 3" "regs m3 ESP = regs ?m2 ESP"
    "selectors m3 = (selectors m)(CS := kernel_cs gate)" "saved_frame m (ram m3)" "\<forall>d < depth. ram m3 (regs m ESP + of_nat d) = ram m (regs m ESP + of_nat d)"
    by (rule handler_returns [OF f _ d p, of ?m2 "at 3"]) (use s in simp_all)
  have "eip (interrupt gate None m) = at 0" using g by (simp add: interrupt_def Let_def)
  then have "run_code calls at 0 isr_apic_timer_asm (interrupt gate None m) = run_code calls at 3 [Popad, Iret] m3"
    using p s(3) m3(1) by (simp add: isr_apic_timer_asm_def numeral_2_eq_2 numeral_3_eq_3 del: exec.simps(6,7,18))
  moreover have "\<exists>m'. run_code calls at 3 [Popad, Iret] m3 = Some m' \<and> resumed depth m m'"
    by (rule frame_resumes [where c = "kernel_cs gate"]) (use m3 s(2) in simp_all)
  ultimately show ?thesis by simp
qed

lemma irq_stub_resumes:
  assumes f: "cdecl 1 (depth + 64) (calls Irq_Handler)" and d: "depth + 128 < 2 ^ 32" and g: "gate_target gate = at 0"
  shows "\<exists>m'. run_code calls at 0 (irq_stub n) (interrupt gate None m) = Some m' \<and> resumed depth m m'"
proof -
  obtain m1 where p: "exec calls (at 1) Pushad (interrupt gate None m) = Some m1" by (simp add: Let_def)
  note s = pushad_saves [OF p]
  let ?m2 = "(push n m1)\<lparr>eip := at 2\<rparr>"
  have k: "saved_frame m (ram ?m2)" using saved_frame_store [OF s(1), of 48] s(2) by (simp add: stack_defs)
  obtain m3 where m3: "calls Irq_Handler (push (at 3) ?m2) = Some m3" "eip m3 = at 3" "regs m3 ESP = regs ?m2 ESP"
    "selectors m3 = (selectors m)(CS := kernel_cs gate)" "saved_frame m (ram m3)" "\<forall>d < depth. ram m3 (regs m ESP + of_nat d) = ram m (regs m ESP + of_nat d)"
    by (rule handler_returns [OF f _ d p, of ?m2 "at 3"]) (use s k in \<open>simp_all add: stack_defs store_below\<close>)
  have "eip (interrupt gate None m) = at 0" using g by (simp add: interrupt_def Let_def)
  then have "run_code calls at 0 (irq_stub n) (interrupt gate None m) = run_code calls at 4 [Popad, Iret] ((set_reg ESP (regs m3 ESP + 4) m3)\<lparr>eip := at 4\<rparr>)"
    using p s(3) m3(1,2) by (simp add: irq_stub_def numeral_2_eq_2 numeral_3_eq_3 eval_nat_numeral del: exec.simps(6,7,18))
  moreover have "regs m3 ESP + 4 = regs m ESP - 44" using m3(3) s(2) by (simp add: stack_defs)
  ultimately have e: "run_code calls at 0 (irq_stub n) (interrupt gate None m) = run_code calls at 4 [Popad, Iret] ((set_reg ESP (regs m ESP - 44) m3)\<lparr>eip := at 4\<rparr>)" by (simp only:)
  show ?thesis unfolding e by (rule frame_resumes [where c = "kernel_cs gate"]) (use m3 in simp_all)
qed

section \<open>The context switch\<close>

lemma aligned_add: "aligned4 a \<Longrightarrow> aligned4 b \<Longrightarrow> aligned4 (a + b)"
  by (auto simp add: unat_word_ariths intro!: dvd_mod dvd_add)

lemma aligned_neg:
  assumes "aligned4 a"
  shows "aligned4 (- a)"
proof -
  have "(unat (- a) + unat a) mod 2 ^ 32 = 0" using unat_word_ariths(1) [of "- a" a] by simp
  then have "2 ^ 32 dvd unat (- a) + unat a" by (rule mod_0_imp_dvd)
  moreover have "(4 :: nat) dvd 2 ^ 32" by simp
  ultimately have "4 dvd unat (- a) + unat a" by (metis dvd_trans)
  then show ?thesis using assms by (simp only: dvd_add_left_iff)
qed

lemma aligned_diff: "aligned4 a \<Longrightarrow> aligned4 b \<Longrightarrow> aligned4 (a - b)"
  using aligned_add [OF _ aligned_neg, of a b] by simp

lemma aligned_apart:
  assumes "aligned4 a" "aligned4 b" "a \<noteq> b"
  shows "4 \<le> a - b"
proof (rule ccontr)
  assume "\<not> 4 \<le> a - b"
  then have u: "unat (a - b) < 4" by (simp add: word_le_nat_alt not_le)
  then have "unat (a - b) = 0" using aligned_diff [OF assms(1,2)] by (meson dvd_imp_le not_le gr0I)
  then have "a - b = 0" by (simp only: unat_eq_0)
  then show False using assms(3) by simp
qed

lemma load_store_aligned: "aligned4 a \<Longrightarrow> aligned4 x \<Longrightarrow> load32 (store32 b x v) a = (if a = x then v else load32 b a)"
  using load_store_other [OF aligned_apart aligned_apart] by (metis load_store_same)

lemma same_words_store: "same_words slot b w \<Longrightarrow> aligned4 x \<Longrightarrow> same_words slot (store32 b x v) (w(x := v))"
  by (simp add: same_words_def load_store_aligned)

lemma same_words_slot: "same_words slot b w \<Longrightarrow> aligned4 slot \<Longrightarrow> same_words slot (store32 b slot v) w"
  by (simp add: same_words_def load_store_aligned)

lemma aligned_offset [simp]: "aligned4 a \<Longrightarrow> aligned4 (a - 4)" "aligned4 a \<Longrightarrow> aligned4 (a - 8)" "aligned4 a \<Longrightarrow> aligned4 (a - 12)" "aligned4 a \<Longrightarrow> aligned4 (a - 16)"
  "aligned4 a \<Longrightarrow> aligned4 (a - 20)" "aligned4 a \<Longrightarrow> aligned4 (a + 4)" "aligned4 a \<Longrightarrow> aligned4 (a + 8)" "aligned4 a \<Longrightarrow> aligned4 (a + 12)" "aligned4 a \<Longrightarrow> aligned4 (a + 16)"
  "aligned4 a \<Longrightarrow> aligned4 (a + 20)"
  by (simp_all add: aligned_diff aligned_add)

lemma switch_asm_runs:
  assumes "eip m = at 0" "4 \<le> load32 (ram m) (regs m ESP + 4) - (regs m ESP + 8)" "4 \<le> regs m ESP + 8 - load32 (ram m) (regs m ESP + 4)"
  shows "run_code calls at 0 switch_to_task_asm m = Some (switched (load32 (ram m) (regs m ESP + 8)) m)"
  using assms by (simp add: switch_to_task_asm_def stack_defs switched_def switched_ram_def fun_eq_iff)

lemma switched_words:
  assumes al: "aligned4 (regs m ESP)" "aligned4 slot" and slot: "load32 (ram m) (regs m ESP + 4) = slot" and w: "same_words slot (ram m) w"
  shows "same_words slot (switched_ram m) (w(regs m ESP - 4 := flag_word m, regs m ESP - 8 := regs m EBP, regs m ESP - 12 := regs m EBX, regs m ESP - 16 := regs m ESI, regs m ESP - 20 := regs m EDI))"
  unfolding switched_ram_def Let_def slot using al w by (intro same_words_slot same_words_store) simp_all

section \<open>Switching back\<close>

lemma span_word: "{a, a + 1, a + 2, a + 3} = span a 4"
  by (auto simp add: span_def lessThan_nat_numeral lessThan_Suc)

lemma span_sub: "k + n \<le> N \<Longrightarrow> span (a + of_nat k) n \<subseteq> span a N"
  by (auto simp add: span_def image_iff) (metis add_less_cancel_left add.assoc less_le_trans of_nat_add lessThan_iff)

lemma store_outside: "x \<notin> span a 4 \<Longrightarrow> store32 b a v x = b x"
  unfolding span_word [symmetric] by (simp add: store32_def)

lemma switched_ram_outside:
  assumes "x \<notin> span (regs m ESP - 20) 20" "x \<notin> span (load32 (ram m) (regs m ESP + 4)) 4"
  shows "switched_ram m x = ram m x"
proof -
  have s: "x \<notin> span (regs m ESP - 20 + of_nat k) 4" if "k + 4 \<le> 20" for k using span_sub [OF that, of "regs m ESP - 20"] assms(1) by blast
  show ?thesis using s [of 0] s [of 4] s [of 8] s [of 12] s [of 16] assms(2) unfolding switched_ram_def Let_def by (simp add: store_outside)
qed

lemma load_outside: "(\<And>x. x \<in> span a 4 \<Longrightarrow> b x = b' x) \<Longrightarrow> load32 b a = load32 b' a"
  unfolding span_word [symmetric] by (simp add: load32_def)

lemma switched_ram_own:
  assumes own: "span (load32 (ram m) (regs m ESP + 4)) 4 \<inter> span (regs m ESP - 20) (20 + depth) = {}" and d: "4 \<le> depth"
  shows "load32 (switched_ram m) (regs m ESP - 20) = regs m EDI" "load32 (switched_ram m) (regs m ESP - 16) = regs m ESI" "load32 (switched_ram m) (regs m ESP - 12) = regs m EBX"
    "load32 (switched_ram m) (regs m ESP - 8) = regs m EBP" "load32 (switched_ram m) (regs m ESP - 4) = flag_word m" "load32 (switched_ram m) (regs m ESP) = load32 (ram m) (regs m ESP)"
proof -
  let ?sp = "regs m ESP" and ?slot = "load32 (ram m) (regs m ESP + 4)"
  have s: "load32 (store32 b ?slot v) (?sp - 20 + of_nat k) = load32 b (?sp - 20 + of_nat k)" if "k + 4 \<le> 24" for b v k
  proof (rule load_outside)
    fix x
    assume "x \<in> span (?sp - 20 + of_nat k) 4"
    then have "x \<in> span (?sp - 20) (20 + depth)" using span_sub [of k 4 "20 + depth" "?sp - 20"] that d by auto
    then show "store32 b ?slot v x = b x" using own by (intro store_outside) blast
  qed
  show "load32 (switched_ram m) (regs m ESP - 20) = regs m EDI" "load32 (switched_ram m) (regs m ESP - 16) = regs m ESI" "load32 (switched_ram m) (regs m ESP - 12) = regs m EBX"
    "load32 (switched_ram m) (regs m ESP - 8) = regs m EBP" "load32 (switched_ram m) (regs m ESP - 4) = flag_word m" "load32 (switched_ram m) (regs m ESP) = load32 (ram m) (regs m ESP)"
    using s [where k = 0] s [where k = 4] s [where k = 8] s [where k = 12] s [where k = 16] s [where k = 20] unfolding switched_ram_def Let_def by simp_all
qed

lemma installed_gate:
  assumes "handler_of isrs v = Some a"
  shows "gate_target (idt (idt_init dev isrs s) v) = a"
  using idt_init_gates [where isrs = isrs and v = v and dev = dev and s = s] assms by (simp add: interrupt_gate_def)

lemma spurious_stub_resumes:
  assumes "depth + 128 < 2 ^ 32" "gate_target gate = at 0"
  shows "\<exists>m'. run_code calls at 0 isr_spurious_asm (interrupt gate None m) = Some m' \<and> resumed depth m m'"
proof -
  have "run_code calls at 0 isr_spurious_asm (interrupt gate None m) = Some ((interrupt gate None m)\<lparr>regs := regs m, flag_word := flag_word m, selectors := selectors m, eip := eip m\<rparr>)"
    using assms(2) by (simp add: isr_spurious_asm_def interrupt_def stack_defs fun_eq_iff)
  moreover have "ram (interrupt gate None m) (regs m ESP + of_nat d) = ram m (regs m ESP + of_nat d)" if "d < depth" for d
    using that assms(1) by (simp add: interrupt_def stack_defs store_below)
  ultimately show ?thesis by (simp add: resumed_def)
qed

end
