(* ===== verification/Assembly_Props.thy ===== *)
theory Assembly_Props
  imports Assembly_Ops Sched_Props
begin

text \<open>
  The properties of the assembly routines.
\<close>

section \<open>A sample machine\<close>

text \<open>C functions that return at once, and the machine at some point of a kernel thread.\<close>

definition sample_calls :: "c_function \<Rightarrow> i386 \<Rightarrow> i386 option" where
  "sample_calls f m = (let (v, m1) = pop m in Some (m1\<lparr>eip := v\<rparr>))"

definition sample_i386 :: "u32 \<Rightarrow> (u32 \<Rightarrow> u8) \<Rightarrow> i386" where
  "sample_i386 sp b = \<lparr>regs = (\<lambda>_. 0)(ESP := sp, EBP := 1, EBX := 2, ESI := 3, EDI := 4), flag_word = 0x202, selectors = (\<lambda>_. 0x10)(CS := 0x08),
     gdtr = \<lparr>gdt_limit = 0, gdt_base = 0\<rparr>, eip = 0xC0105000, ram = b\<rparr>"

text \<open>A thread about to call \<open>switch_to_task(0x8000, 0x9000)\<close>, and another about to switch back to it.\<close>

definition sample_stack :: "u32 \<Rightarrow> u8" where
  "sample_stack = store32 (store32 (\<lambda>_. 0) 0x7004 0x8000) 0x7008 0x9000"

definition sample_other :: "u32 \<Rightarrow> u8" where
  "sample_other = store32 (store32 (switched_ram (sample_i386 0x7000 sample_stack)) 0xA004 0xB000) 0xA008 (0x7000 - 20)"

definition sample_isrs :: isr_addresses where
  "sample_isrs = \<lparr>isr_stub_table = (\<lambda>v. 0xC0106000 + 16 * ucast v), irq_stub_1 = 0xC0107000, isr_apic_timer = 0xC0107100, isr_spurious = 0xC0107200, addr_idt = 0xC0108000\<rparr>"

section \<open>Lemmas\<close>

lemma sample_calls_cdecl: "cdecl n depth (sample_calls f)"
  by (simp add: cdecl_def cdecl_return_def sample_calls_def pop_def Let_def)

lemma span_apart: "unat a + n \<le> unat b \<Longrightarrow> unat b + k \<le> 2 ^ 32 \<Longrightarrow> span a n \<inter> span b k = {}"
proof -
  assume h: "unat a + n \<le> unat b" "unat b + k \<le> 2 ^ 32"
  have "a + of_nat i \<noteq> b + of_nat j" if "i < n" "j < k" for i j
  proof -
    have "unat (a + of_nat i) = unat a + i" "unat (b + of_nat j) = unat b + j" using h that by (simp_all add: unat_word_ariths unat_of_nat)
    then show ?thesis using h that by auto
  qed
  then show ?thesis by (auto simp add: span_def)
qed

lemma sample_words: "load32 sample_stack 0x7004 = 0x8000" "load32 sample_stack 0x7008 = 0x9000"
  by (simp_all add: sample_stack_def)

text \<open>
  C18: Hardware interrupts are transparent. After \<open>idt_init\<close>, when one of the vectors of the keyboard, the timer or a spurious interrupt occurs, the stub that its gate
  leads to returns, provided the C handlers follow the calling convention, and the interrupted thread goes on where it was with all its
  registers, flags, selectors and its stack.
\<close>

theorem interrupts_transparent:
  assumes "cdecl 1 (depth + 64) (calls Irq_Handler)" "cdecl 0 (depth + 64) (calls Apic_Timer_Handler)" "depth + 128 < 2 ^ 32" "handler_of isrs v = Some (at 0)" "32 \<le> v"
  shows "\<exists>m'. run_code calls at 0 (stub_code v) (interrupt (idt (idt_init dev isrs s) v) None m) = Some m' \<and> resumed depth m m'"
proof -
  note g = installed_gate [where a = "at 0", OF assms(4), of dev s]
  have "\<not> v < 32" using assms(5) by simp
  then have "stub_code v = irq_stub 1 \<or> stub_code v = isr_apic_timer_asm \<or> stub_code v = isr_spurious_asm" by (auto simp add: stub_code_def)
  then show ?thesis using irq_stub_resumes [where at = at and calls = calls and depth = depth, OF assms(1,3) g]
      timer_stub_resumes [where at = at and calls = calls and depth = depth, OF assms(2,3) g] spurious_stub_resumes [where at = at and depth = depth, OF assms(3) g] by (elim disjE) simp_all
qed

theorem interrupts_transparent_witness:
  "\<forall>dev s. \<exists>m'. run_code sample_calls (\<lambda>n. 0xC0107100 + of_nat n) 0 (stub_code 200)
      (interrupt (idt (idt_init dev sample_isrs s) 200) None (sample_i386 0x7000 sample_stack)) = Some m' \<and> eip m' = 0xC0105000"
proof (intro allI)
  fix dev s
  have h: "handler_of sample_isrs 200 = Some ((\<lambda>n. 0xC0107100 + of_nat n) 0)" "eip (sample_i386 0x7000 sample_stack) = 0xC0105000" by (simp_all add: handler_of_def sample_isrs_def sample_i386_def)
  show "\<exists>m'. run_code sample_calls (\<lambda>n. 0xC0107100 + of_nat n) 0 (stub_code 200)
      (interrupt (idt (idt_init dev sample_isrs s) 200) None (sample_i386 0x7000 sample_stack)) = Some m' \<and> eip m' = 0xC0105000"
    using interrupts_transparent [of 8 sample_calls sample_isrs 200 "\<lambda>n. 0xC0107100 + of_nat n" dev s "sample_i386 0x7000 sample_stack"] h
    by (auto simp add: sample_calls_cdecl resumed_def)
qed

text \<open>
  C19: A thread that calls \<open>switch_to_task\<close> finds, when another thread later switches back to it without having touched its stack, that the call
  returns as the calling convention demands, and with its flags.
\<close>

theorem switch_away_and_back:
  assumes "eip m = at 0" "4 \<le> load32 (ram m) (regs m ESP + 4) - (regs m ESP + 8)" "4 \<le> regs m ESP + 8 - load32 (ram m) (regs m ESP + 4)"
    and own: "span (load32 (ram m) (regs m ESP + 4)) 4 \<inter> span (regs m ESP - 20) (20 + depth) = {}" and d: "4 \<le> depth" "depth + 64 < 2 ^ 32"
    and bk: "\<And>m1. run_code calls at 0 switch_to_task_asm m = Some m1 \<Longrightarrow> switches_back depth (regs m ESP) m1 m2" "eip m2 = at 0"
  shows "\<exists>m3. run_code calls at 0 switch_to_task_asm m2 = Some m3 \<and> cdecl_return 0 depth m m3 \<and> flag_word m3 = flag_word m"
proof -
  let ?sp = "regs m ESP" and ?sp2 = "regs m2 ESP" and ?own = "span (regs m ESP - 20) (20 + depth)"
  have run: "run_code calls at 0 switch_to_task_asm m = Some (switched (load32 (ram m) (?sp + 8)) m)" by (rule switch_asm_runs [where at = at, OF assms(1-3)])
  have r1: "ram (switched (load32 (ram m) (?sp + 8)) m) = switched_ram m" "selectors (switched (load32 (ram m) (?sp + 8)) m) = selectors m" by (simp_all add: switched_def Let_def)
  have b: "load32 (ram m2) (?sp2 + 8) = ?sp - 20" "selectors m2 = selectors m" "\<And>a. a \<in> ?own \<Longrightarrow> ram m2 a = switched_ram m a" "?own \<inter> span (?sp2 - 20) 20 = {}"
    "?own \<inter> span (load32 (ram m2) (?sp2 + 4)) 4 = {}" "4 \<le> load32 (ram m2) (?sp2 + 4) - (?sp2 + 8)" "4 \<le> ?sp2 + 8 - load32 (ram m2) (?sp2 + 4)"
    using bk(1) [OF run] r1 unfolding switches_back_def Let_def by simp_all
  have run2: "run_code calls at 0 switch_to_task_asm m2 = Some (switched (?sp - 20) m2)" using switch_asm_runs [where at = at, OF bk(2) b(6,7)] b(1) by simp
  have k: "switched_ram m2 a = switched_ram m a" if a: "a \<in> ?own" for a
  proof -
    have "a \<notin> span (?sp2 - 20) 20" "a \<notin> span (load32 (ram m2) (?sp2 + 4)) 4" using b(4,5) a by (metis IntI empty_iff)+
    then show ?thesis using switched_ram_outside b(3) [OF a] by metis
  qed
  have w: "load32 (switched_ram m2) (?sp - 20 + of_nat i) = load32 (switched_ram m) (?sp - 20 + of_nat i)" if "i + 4 \<le> 24" for i
    by (rule load_outside, rule k) (use span_sub [of i 4 "20 + depth" "?sp - 20"] that d(1) in auto)
  note o = switched_ram_own [OF own d(1)]
  have "ram (switched (?sp - 20) m2) (?sp + of_nat i) = ram m (?sp + of_nat i)" if i: "i < depth" for i
  proof -
    have e: "?sp + of_nat i = ?sp - 20 + of_nat (20 + i)" by simp
    have "?sp + of_nat i \<in> ?own" unfolding e span_def using i by (intro imageI) simp
    moreover from this have "?sp + of_nat i \<notin> span (load32 (ram m) (?sp + 4)) 4" using own by blast
    then have "switched_ram m (?sp + of_nat i) = ram m (?sp + of_nat i)"
      unfolding switched_ram_def Let_def using i d(2) by (simp add: store_outside store_below)
    ultimately show ?thesis using k by (simp add: switched_def Let_def)
  qed
  then have "cdecl_return 0 depth m (switched (?sp - 20) m2)"
    using w [of 0] w [of 4] w [of 8] w [of 12] w [of 20] o b(2) unfolding cdecl_return_def switched_def Let_def by simp
  moreover have "flag_word (switched (?sp - 20) m2) = flag_word m" using w [of 16] o(5) by (simp add: switched_def Let_def)
  ultimately show ?thesis using run2 by blast
qed

theorem switch_away_and_back_witness:
  "\<exists>m3. run_code sample_calls (\<lambda>n. 0xC0105000 + of_nat n) 0 switch_to_task_asm (sample_i386 0xA000 sample_other) = Some m3
     \<and> cdecl_return 0 8 (sample_i386 0x7000 sample_stack) m3 \<and> flag_word m3 = 0x202"
proof -
  let ?m = "sample_i386 0x7000 sample_stack" and ?m2 = "sample_i386 0xA000 sample_other"
  have f: "regs ?m ESP = 0x7000" "ram ?m = sample_stack" "regs ?m2 ESP = 0xA000" "ram ?m2 = sample_other" "eip ?m = 0xC0105000" "eip ?m2 = 0xC0105000" "flag_word ?m = 0x202"
    "selectors ?m2 = selectors ?m" by (simp_all add: sample_i386_def)
  have o: "load32 sample_other 0xA004 = 0xB000" "load32 sample_other 0xA008 = 0x6FEC" by (simp_all add: sample_other_def)
  have "sample_other x = switched_ram ?m x" if "x \<in> span 0x6FEC 28" for x
  proof -
    have "x \<notin> span 0xA004 4" "x \<notin> span 0xA008 4" using span_apart [of "0x6FEC" 28 "0xA004" 4] span_apart [of "0x6FEC" 28 "0xA008" 4] that by auto
    then show ?thesis by (simp add: sample_other_def store_outside)
  qed
  then have sb: "switches_back 8 0x7000 (switched 0x9000 ?m) ?m2"
    using span_apart [of "0x6FEC" 28 "0x9FEC" 20] span_apart [of "0x6FEC" 28 "0xB000" 4] by (simp add: switches_back_def Let_def f o switched_def)
  show ?thesis
    using switch_away_and_back [of ?m "\<lambda>n. 0xC0105000 + of_nat n" 8 sample_calls ?m2] sb span_apart [of "0x6FEC" 28 "0x8000" 4]
      switch_asm_runs [of ?m "\<lambda>n. 0xC0105000 + of_nat n" sample_calls] by (auto simp add: f sample_words Int_commute)
qed

text \<open>
  C38: The instructions of \<open>switch_to_task\<close> do what the scheduler's model of it says: the same registers, flags and return address afterwards, the same words in memory, and
  the stack pointer stored in the control block of the outgoing thread.
\<close>

theorem switch_asm_refines:
  assumes "eip m = at 0" "aligned4 (regs m ESP)" "aligned4 new" "aligned4 slot"
    "load32 (ram m) (regs m ESP + 4) = slot" "load32 (ram m) (regs m ESP + 8) = new"
    "slot \<notin> {regs m ESP + 8, new, new + 4, new + 8, new + 12, new + 16, new + 20}"
    "cpu s = (cpu_of m)\<lparr>r_eip := x\<rparr>" "same_words slot (ram m) (mem s)"
  shows "\<exists>m'. run_code calls at 0 switch_to_task_asm m = Some m' \<and> cpu_of m' = cpu (switch_to_task prev new s)
    \<and> same_words slot (ram m') (mem (switch_to_task prev new s)) \<and> load32 (ram m') slot = esp (tcbs (switch_to_task prev new s) prev)"
proof -
  let ?w = "mem (switch_to_task prev new s)"
  have w: "same_words slot (switched_ram m) ?w"
    using switched_words [OF assms(2,4,5,9)] assms(8) by (simp add: switch_to_task_def Let_def cpu_of_def)
  have ne: "regs m ESP + 8 \<noteq> slot" "new \<noteq> slot" "new + 4 \<noteq> slot" "new + 8 \<noteq> slot" "new + 12 \<noteq> slot" "new + 16 \<noteq> slot" "new + 20 \<noteq> slot" using assms(7) by auto
  have "4 \<le> slot - (regs m ESP + 8)" "4 \<le> regs m ESP + 8 - slot" using aligned_apart ne(1) assms(2,4) aligned_offset(7) by metis+
  then have run: "run_code calls at 0 switch_to_task_asm m = Some (switched new m)" using switch_asm_runs [where at = at, OF assms(1), of calls] assms(5,6) by simp
  have l: "load32 (switched_ram m) new = ?w new" "load32 (switched_ram m) (new + 4) = ?w (new + 4)" "load32 (switched_ram m) (new + 8) = ?w (new + 8)"
    "load32 (switched_ram m) (new + 12) = ?w (new + 12)" "load32 (switched_ram m) (new + 16) = ?w (new + 16)" "load32 (switched_ram m) (new + 20) = ?w (new + 20)"
    using w assms(3) ne(2-7) unfolding same_words_def by simp_all
  have "cpu_of (switched new m) = cpu (switch_to_task prev new s)"
    unfolding cpu_of_def switched_def Let_def by (simp add: l) (simp add: switch_to_task_def Let_def)
  moreover have "ram (switched new m) = switched_ram m" by (simp add: switched_def Let_def)
  moreover have "load32 (switched_ram m) slot = esp (tcbs (switch_to_task prev new s) prev)"
    using assms(5,8) by (simp add: switched_ram_def Let_def switch_to_task_def cpu_of_def upd_tcb_def)
  ultimately show ?thesis using run w by simp
qed

theorem switch_asm_refines_witness:
  "\<exists>m'. run_code sample_calls (\<lambda>n. 0xC0105000 + of_nat n) 0 switch_to_task_asm (sample_i386 0x7000 sample_stack) = Some m'
     \<and> cpu_of m' = \<lparr>r_esp = 0x9018, r_ebp = 0, r_ebx = 0, r_esi = 0, r_edi = 0, eflags = 0, r_eip = 0\<rparr>"
proof -
  let ?s = "sample_sched\<lparr>mem := (\<lambda>_. 0)(0x7004 := 0x8000, 0x7008 := 0x9000)\<rparr>" and ?m = "sample_i386 0x7000 sample_stack"
  have w: "same_words 0x8000 sample_stack (mem ?s)" unfolding sample_stack_def by (simp, intro same_words_store) (simp_all add: same_words_def load32_def)
  have c: "cpu ?s = (cpu_of ?m)\<lparr>r_eip := 5\<rparr>" by (simp add: sample_sched_def sample_i386_def cpu_of_def)
  have "\<exists>m'. run_code sample_calls (\<lambda>n. 0xC0105000 + of_nat n) 0 switch_to_task_asm ?m = Some m' \<and> cpu_of m' = cpu (switch_to_task 0x20 0x9000 ?s)"
    using switch_asm_refines [of ?m "\<lambda>n. 0xC0105000 + of_nat n" "0x9000" "0x8000" ?s 5 sample_calls "0x20"] w c sample_words by (auto simp add: sample_i386_def)
  then show ?thesis by (simp add: switch_to_task_def Let_def sample_sched_def)
qed

text \<open>
  C39: The stub of every exception calls \<open>exception_handler\<close> with the number of the exception and its error code, or with zero when the processor
  pushes none. Of the exceptions with an error code only 21 and 29 are entered as if they had none; their handler is told zero.
\<close>

theorem exception_arguments:
  assumes "v < 32" "at 0 = isr_stub_table isrs v"
  defines "err \<equiv> \<lambda>e. if pushes_error v then Some e else None"
  shows "\<exists>mc n. argument 0 mc = ucast v \<and> argument 1 mc = (if pushes_error v \<and> v \<notin> {21, 29} then e else 0)
    \<and> (\<forall>calls. run_code calls at 0 (stub_code v) (interrupt (idt (idt_init dev isrs s) v) (err e) m) = Option.bind (calls Exception_Handler mc) (run_code calls at n [Iret]))"
proof -
  have g: "gate_target (idt (idt_init dev isrs s) v) = at 0" by (rule installed_gate) (simp add: handler_of_def assms)
  define mi where "mi = interrupt (idt (idt_init dev isrs s) v) (err e) m"
  have i: "eip mi = at 0" using g by (simp add: mi_def interrupt_def Let_def)
  show ?thesis
  proof (cases "v \<in> {8, 10, 11, 12, 13, 14, 17, 30}")
    case True
    then have p: "pushes_error v" "v \<notin> {21, 29}" "stub_code v = isr_err_stub (ucast v)" using assms(1) by (auto simp add: pushes_error_def stub_code_def isr_stub_def)
    have "load32 (ram mi) (regs mi ESP) = e" using p(1) by (simp add: mi_def interrupt_def stack_defs err_def)
    then show ?thesis unfolding mi_def [symmetric]
      using p i by (intro exI [of _ "push (at (Suc (Suc 0))) ((push (ucast v) mi)\<lparr>eip := at (Suc 0)\<rparr>)"] exI [of _ "Suc (Suc 0)"]) (simp add: isr_err_stub_def argument_def stack_defs)
  next
    case False
    then have p: "\<not> (pushes_error v \<and> v \<notin> {21, 29})" "stub_code v = isr_no_err_stub (ucast v)" using assms(1) by (auto simp add: pushes_error_def stub_code_def isr_stub_def)
    then show ?thesis unfolding mi_def [symmetric]
      using i by (intro exI [of _ "push (at (Suc (Suc (Suc 0)))) ((push (ucast v) ((push 0 mi)\<lparr>eip := at (Suc 0)\<rparr>))\<lparr>eip := at (Suc (Suc 0))\<rparr>)"] exI [of _ "Suc (Suc (Suc 0))"])
        (auto simp add: isr_no_err_stub_def argument_def stack_defs)
  qed
qed

theorem exception_arguments_witness:
  "\<forall>dev s. \<exists>mc n. argument 0 mc = 14 \<and> argument 1 mc = 2 \<and> (\<forall>calls. run_code calls (\<lambda>n. 0xC01060E0 + of_nat n) 0 (stub_code 14)
     (interrupt (idt (idt_init dev sample_isrs s) 14) (Some 2) (sample_i386 0x7000 sample_stack)) = Option.bind (calls Exception_Handler mc) (run_code calls (\<lambda>n. 0xC01060E0 + of_nat n) n [Iret]))"
proof (intro allI)
  fix dev s
  have "(14 :: u8) < 32" "(\<lambda>n. 0xC01060E0 + of_nat n :: u32) 0 = isr_stub_table sample_isrs 14" "pushes_error 14" by (simp_all add: sample_isrs_def pushes_error_def)
  from exception_arguments [where at = "\<lambda>n. 0xC01060E0 + of_nat n :: u32", OF this(1,2), of 2 dev s "sample_i386 0x7000 sample_stack"] this(3)
  show "\<exists>mc n. argument 0 mc = 14 \<and> argument 1 mc = 2 \<and> (\<forall>calls. run_code calls (\<lambda>n. 0xC01060E0 + of_nat n) 0 (stub_code 14)
     (interrupt (idt (idt_init dev sample_isrs s) 14) (Some 2) (sample_i386 0x7000 sample_stack)) = Option.bind (calls Exception_Handler mc) (run_code calls (\<lambda>n. 0xC01060E0 + of_nat n) n [Iret]))"
    by simp
qed

text \<open>
  C40: After \<open>gdt_flush\<close> with the pointer that \<open>initGdt\<close> passes, the processor has the table of \<open>initGdt\<close>, and every segment register selects an entry inside
  the table that is present, for ring 0 and spans all four gigabytes, code in \<open>CS\<close> and data in the others; the call returns and changes nothing else but \<open>eax\<close>.
\<close>

theorem gdt_flush_flat:
  assumes "eip m = at 0" "p = load32 (ram m) (regs m ESP + 4)" "ucast (ram m p) OR push_bit 8 (ucast (ram m (p + 1))) = gdt_limit (gdt_register (initGdt a g))"
    "load32 (ram m) (p + 2) = gdt_base (gdt_register (initGdt a g))"
  shows "\<exists>m'. run_code calls at 0 gdt_flush m = Some m' \<and> gdtr m' = gdt_register (initGdt a g) \<and> eip m' = load32 (ram m) (regs m ESP)
    \<and> regs m' = (regs m)(EAX := 0x10, ESP := regs m ESP + 4) \<and> ram m' = ram m \<and> flag_word m' = flag_word m
    \<and> (\<forall>r. let i = unat (drop_bit 3 (selectors m' r)); e = gdt_entries (initGdt a g) i
         in 8 * i + 7 \<le> unat (gdt_limit (gdtr m')) \<and> segment_present e \<and> segment_base e = 0 \<and> segment_limit e = 0xFFFFFFFF \<and> segment_ring e = 0
            \<and> (segment_code e \<longleftrightarrow> r = CS))"
proof -
  let ?s = "\<lambda>r. if r = CS then 0x08 else 0x10 :: u16"
  have run: "run_code calls at 0 gdt_flush m = Some (m\<lparr>gdtr := gdt_register (initGdt a g), regs := (regs m)(EAX := 0x10, ESP := regs m ESP + 4), selectors := ?s, eip := load32 (ram m) (regs m ESP)\<rparr>)"
    (is "_ = Some ?m") using assms by (auto simp add: gdt_flush_def stack_defs fun_eq_iff intro!: i386.equality) (case_tac x; simp)
  have i: "unat (drop_bit 3 (?s r)) = (if r = CS then 1 else 2)" for r by (simp add: drop_bit_eq_div)
  have l: "unat (gdt_limit (gdt_register (initGdt a g))) = 39" by (simp add: initGdt_def Let_def)
  show ?thesis unfolding run using init_segments [of a g] by (auto simp add: i l Let_def)
qed

theorem gdt_flush_flat_witness:
  "\<exists>m' g. run_code sample_calls (\<lambda>n. 0xC0105000 + of_nat n) 0 gdt_flush (sample_i386 0x7000 (store32 (store32 ((\<lambda>_. 0)(0x8000 := 39)) 0x7004 0x8000) 0x8002 0xC0109000)) = Some m'
     \<and> gdtr m' = gdt_register (initGdt 0xC0109000 g) \<and> segment_limit (gdt_entries (initGdt 0xC0109000 g) (unat (drop_bit 3 (selectors m' SS)))) = 0xFFFFFFFF"
proof -
  let ?b = "store32 (store32 ((\<lambda>_. 0)(0x8000 := 39)) 0x7004 0x8000) 0x8002 0xC0109000"
  have "load32 ?b 0x7004 = 0x8000" "load32 ?b 0x8002 = 0xC0109000" "?b 0x8000 = 39" "?b 0x8001 = 0" by (simp_all add: store32_def load32_def) 
  then show ?thesis using gdt_flush_flat [of "sample_i386 0x7000 ?b" "\<lambda>n. 0xC0105000 + of_nat n" "0x8000" "0xC0109000" undefined sample_calls]
    by (auto simp add: sample_i386_def initGdt_def Let_def)
qed

end
